(* ===== verification/Kprelude.thy ===== *)
theory Kprelude
  imports Main "HOL-Library.Word"
begin

text \<open>
  Shared vocabulary of the development: the C integer types as words, the result type in which
  every panic, failed assertion, endless spin and invalid access of the kernel is a value, its
  sequencing combinator, and the generic lemmas on words, lists and functions that several
  components use.
\<close>

unbundle bit_operations_syntax

type_synonym u8 = "8 word"
type_synonym u16 = "16 word"
type_synonym u32 = "32 word"
type_synonym u64 = "64 word"

abbreviation (input) NCPU :: nat where "NCPU \<equiv> 4"

named_theorems kdefs \<open>unfolding equations of the small operations of the model\<close>
named_theorems kframe \<open>what an operation leaves unchanged\<close>

subsection \<open>Results: every way a kernel routine can fail to return\<close>

datatype kerror =
    Panic string      \<comment> \<open>\<open>panic\<close>: message, then an endless loop with interrupts off\<close>
  | Assert string     \<comment> \<open>\<open>assert\<close> with a false condition: same ending\<close>
  | Spins             \<comment> \<open>a busy wait whose condition cannot change while it runs alone\<close>
  | Fault string      \<comment> \<open>an access through an invalid pointer or index\<close>

type_synonym 'a kres = "kerror + 'a"

definition bindR :: "'a kres \<Rightarrow> ('a \<Rightarrow> 'b kres) \<Rightarrow> 'b kres" where
  "bindR m f = (case m of Inl e \<Rightarrow> Inl e | Inr x \<Rightarrow> f x)"

definition assertR :: "bool \<Rightarrow> string \<Rightarrow> unit kres" where
  "assertR c msg = (if c then Inr () else Inl (Assert msg))"

lemma bindR_simps [simp]:
  "bindR (Inl e) f = Inl e"
  "bindR (Inr x) f = f x"
  by (simp_all add: bindR_def)

lemma bindR_eq_Inr [simp]:
  "bindR m f = Inr y \<longleftrightarrow> (\<exists>x. m = Inr x \<and> f x = Inr y)"
  by (cases m) auto

lemma bindR_eq_Inl:
  "bindR m f = Inl e \<longleftrightarrow> m = Inl e \<or> (\<exists>x. m = Inr x \<and> f x = Inl e)"
  by (cases m) auto

lemma bindR_assoc: "bindR (bindR m f) g = bindR m (\<lambda>x. bindR (f x) g)"
  by (cases m) auto

lemma bindR_cong [fundef_cong]:
  "m = m' \<Longrightarrow> (\<And>x. m' = Inr x \<Longrightarrow> f x = f' x) \<Longrightarrow> bindR m f = bindR m' f'"
  by (cases m') auto

lemma assertR_simps [simp]:
  "assertR True msg = Inr ()"
  "assertR False msg = Inl (Assert msg)"
  by (simp_all add: assertR_def)

lemma assertR_eq_Inr [simp]: "assertR c msg = Inr u \<longleftrightarrow> c"
  by (simp add: assertR_def)

subsection \<open>Words\<close>

lemma unat_lt2p: "unat (w :: 'a::len word) < 2 ^ LENGTH('a)"
  by (rule unsigned_less)

lemma unat_ucast_up:
  assumes "LENGTH('a::len) \<le> LENGTH('b::len)"
  shows "unat (ucast (w :: 'a word) :: 'b word) = unat w"
proof -
  have "unat w < 2 ^ LENGTH('b)"
    using unat_lt2p [of w] power_increasing [OF assms, of "2::nat"] by linarith
  then show ?thesis
    by (simp add: unsigned_ucast_eq take_bit_nat_eq_self)
qed

lemma unat_of_nat_small: "n < 2 ^ LENGTH('a::len) \<Longrightarrow> unat (of_nat n :: 'a word) = n"
  by (simp add: unat_of_nat)

lemma unat_plus_small:
  assumes "unat (v :: 'a::len word) + unat w < 2 ^ LENGTH('a)"
  shows "unat (v + w) = unat v + unat w"
proof -
  have "v + w = of_nat (unat v + unat w)" by simp
  with assms show ?thesis by (simp only: unat_of_nat_small)
qed

text \<open>Offsets of an address from a base, as naturals.\<close>

lemma addr_offset_iff:
  assumes "k < 2 ^ LENGTH('a)"
  shows "(a :: 'a::len word) = b + of_nat k \<longleftrightarrow> unat (a - b) = k"
proof
  assume "a = b + of_nat k"
  with assms show "unat (a - b) = k" by (simp add: unat_of_nat_small)
next
  assume "unat (a - b) = k"
  then have "of_nat k = a - b" by auto
  then show "a = b + of_nat k" by simp
qed

lemma unat_inc_less:
  assumes "(i :: 'a::len word) < n"
  shows "unat (i + 1) = unat i + 1"
proof -
  have "unat i + 1 < 2 ^ LENGTH('a)"
    using assms unat_lt2p [of n] unfolding word_less_nat_alt by linarith
  then show ?thesis using unat_plus_small [of i 1] by simp
qed

lemma unat_minus_1: "(w :: 'a::len word) \<noteq> 0 \<Longrightarrow> unat (w - 1) = unat w - 1"
  by (rule unat_minus_one)

lemma unat_power_mod: "unat ((w :: 'a::len word) ^ n) = unat w ^ n mod 2 ^ LENGTH('a)"
proof -
  have "w ^ n = of_nat (unat w ^ n)" by simp
  then show ?thesis by (simp only: unat_of_nat)
qed

text \<open>Single-bit masks \<open>1 << b\<close>.\<close>

lemma and_bit_mask_eq_0:
  assumes "b < LENGTH('a::len)"
  shows "(w :: 'a word) AND push_bit b 1 = 0 \<longleftrightarrow> \<not> bit w b" and "w AND 2 ^ b = 0 \<longleftrightarrow> \<not> bit w b"
proof -
  have "bit (w AND push_bit b 1) c \<longleftrightarrow> bit w b \<and> c = b" for c
    using assms by (auto simp: bit_and_iff bit_exp_iff)
  then show "w AND push_bit b 1 = 0 \<longleftrightarrow> \<not> bit w b"
    using assms by (auto simp only: bit_eq_iff [of "w AND push_bit b 1" 0] bit_0_eq bot_apply
        bot_bool_def possible_bit_word)
  then show "w AND 2 ^ b = 0 \<longleftrightarrow> \<not> bit w b" by simp
qed

lemma bit_or_mask:
  assumes "b < LENGTH('a::len)"
  shows "bit ((w :: 'a word) OR push_bit b 1) c \<longleftrightarrow> bit w c \<or> c = b"
    and "bit (w OR 2 ^ b) c \<longleftrightarrow> bit w c \<or> c = b"
proof -
  show "bit (w OR push_bit b 1) c \<longleftrightarrow> bit w c \<or> c = b"
    using assms by (auto simp: bit_or_iff bit_exp_iff)
  then show "bit (w OR 2 ^ b) c \<longleftrightarrow> bit w c \<or> c = b" by simp
qed

lemma bit_clear_mask:
  "bit ((w :: 'a::len word) AND NOT (push_bit b 1)) c \<longleftrightarrow> bit w c \<and> c \<noteq> b"
  "bit (w AND NOT (2 ^ b)) c \<longleftrightarrow> bit w c \<and> c \<noteq> b"
proof -
  show "bit (w AND NOT (push_bit b 1)) c \<longleftrightarrow> bit w c \<and> c \<noteq> b"
    by (auto simp: bit_and_iff bit_not_iff bit_exp_iff dest: bit_imp_le_length)
  then show "bit (w AND NOT (2 ^ b)) c \<longleftrightarrow> bit w c \<and> c \<noteq> b" by simp
qed

lemma word_all_ones_iff: "(w :: 'a::len word) = - 1 \<longleftrightarrow> (\<forall>b < LENGTH('a). bit w b)"
  by (auto simp: bit_eq_iff [of w] bit_simps)

subsection \<open>Lists\<close>

lemma distinct_split_unique:
  assumes "distinct (xs @ x # ys)" and "xs @ x # ys = us @ x # vs"
  shows "us = xs \<and> vs = ys"
proof -
  have "x \<notin> set xs" and "x \<notin> set ys"
    using assms(1) by auto
  from append_Cons_eq_iff [OF this, of us vs] assms(2) show ?thesis by simp
qed

lemma last_notin_disjoint:
  assumes "set xs \<inter> set ys = {}" and "a \<notin> set ys"
  shows "(if xs = [] then a else last xs) \<notin> set ys"
proof (cases "xs = []")
  case False
  then have "last xs \<in> set xs" by simp
  with assms(1) have "last xs \<notin> set ys" by blast
  with False show ?thesis by simp
qed (use assms(2) in simp)

lemma last_notin_butlast: "distinct xs \<Longrightarrow> xs \<noteq> [] \<Longrightarrow> last xs \<notin> set (butlast xs)"
  by (induction xs) auto

lemma hd_notin_disjoint:
  assumes "set xs \<inter> set ys = {}" and "a \<notin> set xs"
  shows "(if ys = [] then a else hd ys) \<notin> set xs"
proof (cases "ys = []")
  case False
  then have "hd ys \<in> set ys" by simp
  with assms(1) have "hd ys \<notin> set xs" by blast
  with False show ?thesis by simp
qed (use assms(2) in simp)

lemma remove1_map_inj: "inj f \<Longrightarrow> remove1 (f x) (map f xs) = map f (remove1 x xs)"
  by (induction xs) (auto dest: injD)

lemma sum_list_replicate_const: "sum_list (replicate n (c::nat)) = n * c"
  by (induction n) auto

end
