(* ===== verification/Cmath.thy ===== *)
theory Cmath
  imports Kprelude
begin

text \<open>
  The integer helpers of lib/math.c: rounding up to a power of two by bit smearing, the order of
  a size, and integer logarithm and power. They decide the object size of every slab cache and
  the cache a \<open>kmalloc\<close> request is served from. Each is a word function with the widths of the
  source; the reference definition \<open>clog2\<close> (least exponent of a power of two that is at least
  the argument) says what the two bit-twiddling routines compute.
\<close>

subsection \<open>The routines\<close>

definition next_power_of_2 :: "u64 \<Rightarrow> u64" where
  "next_power_of_2 n =
     (if n = 0 then 1
      else
        let n = n - 1;
            n = n OR drop_bit 1 n;
            n = n OR drop_bit 2 n;
            n = n OR drop_bit 4 n;
            n = n OR drop_bit 8 n;
            n = n OR drop_bit 16 n;
            n = n OR drop_bit 32 n
        in n + 1)"

lemma unat_half: "unat (drop_bit 1 (w :: u32)) = unat w div 2"
  by (simp add: drop_bit_eq_div unat_div del: One_nat_def)

lemma unat_half_less: "0 < (w :: u32) \<Longrightarrow> unat (drop_bit 1 w) < unat w"
  by (simp add: unat_half word_gt_0 unat_gt_0 [symmetric] del: One_nat_def)

function calculate_order_loop :: "u32 \<Rightarrow> u32 \<Rightarrow> u32" where
  "calculate_order_loop sz order =
     (if sz > 0 then calculate_order_loop (drop_bit 1 sz) (order + 1) else order)"
  by pat_completeness auto
termination
  by (relation "measure (\<lambda>(s, _). unat s)") (simp_all add: unat_half_less [simplified])

declare calculate_order_loop.simps [simp del]

definition calculate_order :: "u32 \<Rightarrow> u32" where
  "calculate_order sz = (if sz = 0 then 0 else calculate_order_loop (sz - 1) 0)"

lemma unat_div_less:
  "1 < (b :: u32) \<Longrightarrow> b \<le> n \<Longrightarrow> unat (n div b) < unat n"
  by (simp add: unat_div word_less_nat_alt word_le_nat_alt)

function math_log_loop :: "u32 \<Rightarrow> u32 \<Rightarrow> u32 \<Rightarrow> u32" where
  "math_log_loop num base result =
     (if 1 < base \<and> base \<le> num then math_log_loop (num div base) base (result + 1) else result)"
  by pat_completeness auto
termination
  by (relation "measure (\<lambda>(n, _, _). unat n)") (simp_all add: unat_div_less)

declare math_log_loop.simps [simp del]

text \<open>
  The 16-bit base is promoted to 32 bits in the comparison and in the division. The guard
  \<open>1 < base\<close> of the loop function repeats the early return, so that the loop is total.
\<close>

definition math_log :: "u32 \<Rightarrow> u16 \<Rightarrow> u32" where
  "math_log num base =
     (if base \<le> 1 \<or> num \<le> 0 then 0 else math_log_loop num (ucast base) 0)"

function math_pow_loop :: "u32 \<Rightarrow> u16 \<Rightarrow> u32 \<Rightarrow> u32" where
  "math_pow_loop base exponent result =
     (if exponent > 0 then math_pow_loop base (exponent - 1) (result * base) else result)"
  by pat_completeness auto
termination
  by (relation "measure (\<lambda>(_, e, _). unat e)") (simp_all add: word_gt_0 measure_unat)

declare math_pow_loop.simps [simp del]

definition math_pow :: "u32 \<Rightarrow> u16 \<Rightarrow> u32" where
  "math_pow base exponent = (if exponent = 0 then 1 else math_pow_loop base exponent 1)"

subsection \<open>The reference: ceiling of the binary logarithm\<close>

definition clog2 :: "nat \<Rightarrow> nat" where
  "clog2 n = (LEAST k. n \<le> 2 ^ k)"

lemma clog2_le: "n \<le> 2 ^ k \<Longrightarrow> clog2 n \<le> k"
  by (simp add: clog2_def Least_le)

lemma le_clog2: "n \<le> 2 ^ clog2 n"
  unfolding clog2_def by (rule LeastI [of _ n]) simp

lemma clog2_eqI:
  assumes "n \<le> 2 ^ k" and "0 < k \<Longrightarrow> 2 ^ (k - 1) < n"
  shows "clog2 n = k"
proof (rule antisym)
  show "clog2 n \<le> k" using assms(1) by (rule clog2_le)
  show "k \<le> clog2 n"
  proof (rule ccontr)
    assume "\<not> k \<le> clog2 n"
    then have "clog2 n \<le> k - 1" and "0 < k" by auto
    then have "2 ^ clog2 n \<le> (2::nat) ^ (k - 1)" by simp
    with le_clog2 [of n] assms(2) [OF \<open>0 < k\<close>] show False by linarith
  qed
qed

lemma clog2_greater: "0 < clog2 n \<Longrightarrow> 2 ^ (clog2 n - 1) < n"
  using clog2_le [of n "clog2 n - 1"] by (cases "n \<le> 2 ^ (clog2 n - 1)") auto

subsection \<open>The order of a size\<close>

lemma calculate_order_loop_bits:
  "\<exists>k. calculate_order_loop s ord = ord + of_nat k \<and> unat s < 2 ^ k \<and> (0 < k \<longrightarrow> 2 ^ (k - 1) \<le> unat s)"
proof (induction s ord rule: calculate_order_loop.induct)
  case (1 s ord)
  show ?case
  proof (cases "s > 0")
    case False
    then show ?thesis
      by (intro exI [of _ 0]) (auto simp: calculate_order_loop.simps [of s ord] word_gt_0
          calculate_order_loop.simps [of 0 ord])
  next
    case True
    with "1.IH" obtain k where k:
      "calculate_order_loop (drop_bit 1 s) (ord + 1) = ord + 1 + of_nat k"
      "unat (drop_bit 1 s) < 2 ^ k" "0 < k \<longrightarrow> 2 ^ (k - 1) \<le> unat (drop_bit 1 s)"
      by blast
    have half: "unat (drop_bit 1 s) = unat s div 2"
      by (rule unat_half)
    have "unat s < 2 ^ Suc k" using k(2) half by simp
    moreover have "2 ^ k \<le> unat s"
    proof (cases k)
      case 0
      with True show ?thesis by (simp add: word_gt_0 unat_gt_0 [symmetric] Suc_le_eq)
    next
      case (Suc j)
      with k(3) half have "2 ^ j \<le> unat s div 2" by simp
      with Suc show ?thesis by simp
    qed
    ultimately show ?thesis using True k(1)
      by (intro exI [of _ "Suc k"])
        (simp add: calculate_order_loop.simps [of s ord] algebra_simps)
  qed
qed

lemma unat_le_pow_iff_less:
  "(w :: 'a::len word) \<noteq> 0 \<Longrightarrow> unat w \<le> 2 ^ k \<longleftrightarrow> unat (w - 1) < 2 ^ k"
  using unat_gt_0 [of w] by (auto simp: unat_minus_1)

theorem calculate_order_clog2:
  assumes "0 < sz"
  shows "unat (calculate_order sz) = clog2 (unat sz)"
proof -
  from assms have nz: "sz \<noteq> 0" by (simp add: word_gt_0)
  obtain k where k: "calculate_order_loop (sz - 1) 0 = of_nat k" "unat (sz - 1) < 2 ^ k"
    "0 < k \<longrightarrow> 2 ^ (k - 1) \<le> unat (sz - 1)"
    using calculate_order_loop_bits [of "sz - 1" 0] by auto
  have "clog2 (unat sz) = k"
  proof (rule clog2_eqI)
    show "unat sz \<le> 2 ^ k" using k(2) nz by (simp add: unat_le_pow_iff_less)
    show "2 ^ (k - 1) < unat sz" if "0 < k"
      using k(3) that nz unat_gt_0 [of sz] by (auto simp: unat_minus_1)
  qed
  moreover have "k < 2 ^ 32"
  proof -
    have "clog2 (unat sz) \<le> 32"
      by (rule clog2_le) (use unat_lt2p [of sz] in simp)
    with \<open>clog2 (unat sz) = k\<close> show ?thesis by simp
  qed
  ultimately show ?thesis
    using nz k(1) by (simp add: calculate_order_def unat_of_nat)
qed

subsection \<open>Rounding up to a power of two\<close>

lemma smear_step:
  fixes x n :: u64
  assumes "\<And>j. bit x j \<longleftrightarrow> (\<exists>i<d. bit n (j + i))"
  shows "bit (x OR drop_bit d x) j \<longleftrightarrow> (\<exists>i<2 * d. bit n (j + i))"
proof -
  have "bit (x OR drop_bit d x) j \<longleftrightarrow> (\<exists>i<d. bit n (j + i)) \<or> (\<exists>i<d. bit n (d + j + i))"
    by (simp add: bit_simps assms)
  also have "\<dots> \<longleftrightarrow> (\<exists>i<2 * d. bit n (j + i))"
  proof
    assume "(\<exists>i<d. bit n (j + i)) \<or> (\<exists>i<d. bit n (d + j + i))"
    then show "\<exists>i<2 * d. bit n (j + i)"
    proof
      assume "\<exists>i<d. bit n (d + j + i)"
      then obtain i where "i < d" "bit n (j + (d + i))" by (auto simp: algebra_simps)
      then show ?thesis by (intro exI [of _ "d + i"]) simp
    next
      assume "\<exists>i<d. bit n (j + i)"
      then obtain i where "i < d" "bit n (j + i)" by blast
      then show ?thesis by (intro exI [of _ i]) simp
    qed
  next
    assume "\<exists>i<2 * d. bit n (j + i)"
    then obtain i where "i < 2 * d" and i: "bit n (j + i)" by blast
    show "(\<exists>i<d. bit n (j + i)) \<or> (\<exists>i<d. bit n (d + j + i))"
    proof (cases "i < d")
      case False
      with i \<open>i < 2 * d\<close> have "i - d < d" "bit n (d + j + (i - d))" by auto
      then show ?thesis by blast
    next
      case True
      with i show ?thesis by blast
    qed
  qed
  finally show ?thesis .
qed

definition smear :: "u64 \<Rightarrow> u64" where
  "smear n =
     (let n = n OR drop_bit 1 n; n = n OR drop_bit 2 n; n = n OR drop_bit 4 n;
          n = n OR drop_bit 8 n; n = n OR drop_bit 16 n
      in n OR drop_bit 32 n)"

lemma bit_smear: "bit (smear n) j \<longleftrightarrow> (\<exists>k\<ge>j. bit n k)"
proof -
  define x1 where "x1 = n OR drop_bit 1 n"
  define x2 where "x2 = x1 OR drop_bit 2 x1"
  define x3 where "x3 = x2 OR drop_bit 4 x2"
  define x4 where "x4 = x3 OR drop_bit 8 x3"
  define x5 where "x5 = x4 OR drop_bit 16 x4"
  have "bit x1 j \<longleftrightarrow> (\<exists>i<2. bit n (j + i))" for j
    unfolding x1_def using smear_step [of n 1 n] by simp
  then have "bit x2 j \<longleftrightarrow> (\<exists>i<4. bit n (j + i))" for j
    unfolding x2_def using smear_step [of x1 2 n] by simp
  then have "bit x3 j \<longleftrightarrow> (\<exists>i<8. bit n (j + i))" for j
    unfolding x3_def using smear_step [of x2 4 n] by simp
  then have "bit x4 j \<longleftrightarrow> (\<exists>i<16. bit n (j + i))" for j
    unfolding x4_def using smear_step [of x3 8 n] by simp
  then have "bit x5 j \<longleftrightarrow> (\<exists>i<32. bit n (j + i))" for j
    unfolding x5_def using smear_step [of x4 16 n] by simp
  then have "bit (x5 OR drop_bit 32 x5) j \<longleftrightarrow> (\<exists>i<64. bit n (j + i))"
    using smear_step [of x5 32 n] by simp
  moreover have "smear n = x5 OR drop_bit 32 x5"
    by (simp add: smear_def Let_def x1_def x2_def x3_def x4_def x5_def)
  moreover have "(\<exists>i<64. bit n (j + i)) \<longleftrightarrow> (\<exists>k\<ge>j. bit n k)"
  proof
    assume "\<exists>k\<ge>j. bit n k"
    then obtain k where "j \<le> k" "bit n k" by blast
    moreover from \<open>bit n k\<close> have "k < 64" using bit_imp_le_length [of n k] by simp
    ultimately show "\<exists>i<64. bit n (j + i)" by (intro exI [of _ "k - j"]) auto
  next
    assume "\<exists>i<64. bit n (j + i)"
    then obtain i where "bit n (j + i)" by blast
    then show "\<exists>k\<ge>j. bit n k" by (intro exI [of _ "j + i"]) simp
  qed
  ultimately show ?thesis by simp
qed

lemma bit_top_unat:
  fixes n :: u64
  assumes "2 ^ k \<le> unat n" and "unat n < 2 ^ Suc k"
  shows "bit n k" and "\<And>j. bit n j \<Longrightarrow> j \<le> k"
proof -
  have "unat n div 2 ^ k = 1"
    using assms by (intro div_nat_eqI) simp_all
  then have "bit (unat n) k"
    by (simp add: bit_iff_odd)
  then show "bit n k"
    by (simp add: bit_unsigned_iff)
  show "j \<le> k" if "bit n j" for j
  proof (rule ccontr)
    assume "\<not> j \<le> k"
    then have "(2::nat) ^ Suc k \<le> 2 ^ j" by (intro power_increasing) auto
    with assms(2) have "unat n div 2 ^ j = 0" by simp
    moreover from that have "bit (unat n) j"
      using bit_imp_le_length [OF that] by (simp add: bit_unsigned_iff)
    ultimately show False by (simp add: bit_iff_odd)
  qed
qed

lemma smear_eq_mask:
  fixes n :: u64
  assumes "unat n < 2 ^ k" and "0 < k \<Longrightarrow> 2 ^ (k - 1) \<le> unat n"
  shows "smear n = mask k"
proof (cases k)
  case 0
  with assms(1) have "n = 0" by (simp add: unat_eq_0)
  with 0 show ?thesis by (simp add: smear_def)
next
  case (Suc m)
  note top = bit_top_unat [of m n]
  show ?thesis
  proof (rule bit_word_eqI)
    fix j assume "j < LENGTH(64)"
    show "bit (smear n) j \<longleftrightarrow> bit (mask k :: u64) j"
    proof -
      have "(\<exists>i\<ge>j. bit n i) \<longleftrightarrow> j \<le> m"
        using top assms Suc by (auto intro: order_trans)
      then show ?thesis using Suc \<open>j < LENGTH(64)\<close>
        by (auto simp: bit_smear bit_mask_iff)
    qed
  qed
qed

theorem next_power_of_2_clog2:
  assumes "0 < n"
  shows "next_power_of_2 n = 2 ^ clog2 (unat n)"
proof -
  from assms have nz: "n \<noteq> 0" by (simp add: word_gt_0)
  have "smear (n - 1) = mask (clog2 (unat n))"
  proof (rule smear_eq_mask)
    show "unat (n - 1) < 2 ^ clog2 (unat n)"
      using le_clog2 [of "unat n"] nz by (simp add: unat_le_pow_iff_less)
    show "2 ^ (clog2 (unat n) - 1) \<le> unat (n - 1)" if "0 < clog2 (unat n)"
      using clog2_greater [OF that] nz by (simp add: unat_minus_1)
  qed
  moreover have "next_power_of_2 n = smear (n - 1) + 1"
    using nz by (simp add: next_power_of_2_def smear_def Let_def)
  ultimately show ?thesis by (simp add: mask_eq_exp_minus_1)
qed

subsection \<open>Logarithm and power\<close>

lemma math_log_loop_bounds:
  assumes "1 < b" and "0 < n"
  shows "\<exists>k. math_log_loop n b r = r + of_nat k \<and> unat b ^ k \<le> unat n \<and> unat n < unat b ^ Suc k"
  using assms
proof (induction n b r rule: math_log_loop.induct)
  case (1 n b r)
  have b: "1 < unat b" using "1.prems"(1) by (simp add: word_less_nat_alt)
  show ?case
  proof (cases "b \<le> n")
    case False
    then have "math_log_loop n b r = r" by (simp add: math_log_loop.simps [of n b r])
    with False "1.prems"(2) show ?thesis
      by (intro exI [of _ 0]) (auto simp: word_gt_0 unat_gt_0 [symmetric] word_le_nat_alt)
  next
    case True
    have le: "unat b \<le> unat n" using True by (simp add: word_le_nat_alt)
    have pos: "0 < n div b"
      using le b by (simp add: word_less_nat_alt unat_div div_greater_zero_iff)
    with "1.IH" "1.prems" True obtain k where k:
      "math_log_loop (n div b) b (r + 1) = r + 1 + of_nat k"
      "unat b ^ k \<le> unat n div unat b" "unat n div unat b < unat b ^ Suc k"
      by (auto simp: unat_div)
    have "unat b ^ Suc k \<le> unat n" using k(2) b
      by (simp add: less_eq_div_iff_mult_less_eq mult.commute)
    moreover have "unat n < unat b ^ Suc (Suc k)" using k(3) b
      by (simp add: div_less_iff_less_mult mult.commute)
    moreover have "math_log_loop n b r = r + of_nat (Suc k)"
      using "1.prems" True k(1) by (simp add: math_log_loop.simps [of n b r] algebra_simps)
    ultimately show ?thesis by blast
  qed
qed

lemma power_le_less_unique:
  fixes b :: nat
  assumes "1 < b" and "b ^ i \<le> n" and "n < b ^ Suc i" and "b ^ j \<le> n" and "n < b ^ Suc j"
  shows "i = j"
proof (rule ccontr)
  assume "i \<noteq> j"
  then consider "Suc i \<le> j" | "Suc j \<le> i" by linarith
  then show False
  proof cases
    case 1
    then have "b ^ Suc i \<le> b ^ j" using assms(1) by (intro power_increasing) auto
    with assms show False by linarith
  next
    case 2
    then have "b ^ Suc j \<le> b ^ i" using assms(1) by (intro power_increasing) auto
    with assms show False by linarith
  qed
qed

lemma math_log_bounds:
  assumes "1 < base" and "0 < num"
  shows "unat base ^ unat (math_log num base) \<le> unat num"
    and "unat num < unat base ^ Suc (unat (math_log num base))"
proof -
  have ub: "unat (ucast base :: u32) = unat base"
    by (simp add: unat_ucast_up)
  have b: "1 < unat base" using assms(1) by (simp add: word_less_nat_alt)
  then have "1 < (ucast base :: u32)" by (simp add: word_less_nat_alt ub)
  then obtain k where k: "math_log_loop num (ucast base) 0 = of_nat k"
    "unat base ^ k \<le> unat num" "unat num < unat base ^ Suc k"
    using math_log_loop_bounds [of "ucast base" num 0] assms(2) by (auto simp: ub)
  have "2 ^ k \<le> unat base ^ k" using b by (intro power_mono) auto
  with k(2) have "k < unat num" using less_exp [of k] by linarith
  then have "k < 2 ^ 32" using unat_lt2p [of num] by simp
  then have "unat (math_log num base) = k"
    using assms k(1) by (auto simp: math_log_def unat_of_nat)
  with k show "unat base ^ unat (math_log num base) \<le> unat num"
    and "unat num < unat base ^ Suc (unat (math_log num base))" by auto
qed

lemma math_pow_loop_eq: "math_pow_loop b e r = r * b ^ unat e"
proof (induction b e r rule: math_pow_loop.induct)
  case (1 b e r)
  show ?case
  proof (cases "e > 0")
    case True
    then have "unat e = Suc (unat (e - 1))"
      using unat_gt_0 [of e] by (simp add: word_gt_0 unat_minus_1)
    with True "1.IH" show ?thesis
      by (simp add: math_pow_loop.simps [of b e r] algebra_simps)
  next
    case False
    then have "e = 0" by (simp add: word_gt_0)
    then show ?thesis by (simp add: math_pow_loop.simps [of b 0 r])
  qed
qed

lemma math_pow_eq: "math_pow base exponent = base ^ unat exponent"
  by (simp add: math_pow_def math_pow_loop_eq)

theorem math_log_math_pow:
  assumes "1 < base" and "unat base ^ unat e < 2 ^ 32"
  shows "unat (math_log (math_pow (ucast base) e) base) = unat e"
proof -
  have b: "1 < unat base" using assms(1) by (simp add: word_less_nat_alt)
  have p: "unat (math_pow (ucast base) e) = unat base ^ unat e"
    using assms(2) by (simp add: math_pow_eq unat_power_mod unat_ucast_up)
  have "0 < math_pow (ucast base) e"
    using p b by (simp add: word_less_nat_alt)
  from math_log_bounds [OF assms(1) this] p b show ?thesis
    by (intro power_le_less_unique [of "unat base" _ "unat base ^ unat e"]) auto
qed

subsection \<open>Properties\<close>

text \<open>\<open>calculate_order\<close> and \<open>next_power_of_2\<close> agree with the mathematical definitions for every
  positive argument: the least exponent whose power of two is not smaller, and that power.\<close>

theorem order_and_power_agree:
  assumes "0 < sz" and "0 < n"
  shows "unat (calculate_order sz) = clog2 (unat sz) \<and> next_power_of_2 n = 2 ^ clog2 (unat n)"
  using assms by (simp add: calculate_order_clog2 next_power_of_2_clog2)

theorem order_and_power_agree_witness:
  "unat (calculate_order 100) = clog2 100 \<and> next_power_of_2 100 = 2 ^ clog2 100"
  using order_and_power_agree [of 100 100] by simp

text \<open>\<open>math_log\<close> recovers the exponent from \<open>math_pow\<close> for every base above one whose power fits
  in 32 bits.\<close>

theorem log_of_pow:
  assumes "1 < base" and "unat base ^ unat e < 2 ^ 32"
  shows "unat (math_log (math_pow (ucast base) e) base) = unat e"
  using assms by (rule math_log_math_pow)

theorem log_of_pow_witness: "unat (math_log (math_pow (ucast (10 :: u16)) 9) 10) = 9"
  using log_of_pow [of 10 9] by simp

end
