(* ===== verification/Cstring.thy ===== *)
theory Cstring
  imports Kprelude
begin

text \<open>
  lib/string.c on a byte memory. Addresses are 64-bit words, so pointer increments wrap; an
  \<open>int\<close> counter that passes \<open>INT_MAX\<close> is a \<open>Fault\<close>. \<open>cstr m p xs\<close> says that the bytes from \<open>p\<close>
  are the C string \<open>xs\<close>.
\<close>

subsection \<open>The routines\<close>

type_synonym mem = "u64 \<Rightarrow> u8"

abbreviation INT_MAX :: int where
  "INT_MAX \<equiv> 2147483647"

function memset_loop :: "u64 \<Rightarrow> u8 \<Rightarrow> u64 \<Rightarrow> int \<Rightarrow> mem \<Rightarrow> mem kres" where
  "memset_loop dst c n i m =
     (if 0 \<le> i \<and> (word_of_int i :: u64) < n then
        (if i \<ge> INT_MAX then Inl (Fault ''int overflow'')
         else memset_loop dst c n (i + 1) (m(dst + word_of_int i := c)))
      else Inr m)"
  by pat_completeness auto
termination
  by (relation "measure (\<lambda>(_, _, _, i, _). nat (INT_MAX - i))") auto

definition memset :: "u64 \<Rightarrow> int \<Rightarrow> u64 \<Rightarrow> mem \<Rightarrow> mem kres" where
  "memset dst c n m = memset_loop dst (word_of_int c) n 0 m"

function memcpy_loop :: "u64 \<Rightarrow> u64 \<Rightarrow> u64 \<Rightarrow> u64 \<Rightarrow> mem \<Rightarrow> mem" where
  "memcpy_loop dst src n i m =
     (if i < n then memcpy_loop dst src n (i + 1) (m(dst + i := m (src + i))) else m)"
  by pat_completeness auto
termination
proof (relation "measure (\<lambda>(_, _, n, i, _). unat n - unat i)", goal_cases)
  case (2 dst src n i m)
  then have "unat (i + 1) = unat i + 1"
    by (intro unat_inc_less)
  with 2 show ?case by (simp add: word_less_nat_alt)
qed simp

definition memcpy :: "u64 \<Rightarrow> u64 \<Rightarrow> u64 \<Rightarrow> mem \<Rightarrow> mem" where
  "memcpy dst src n m = memcpy_loop dst src n 0 m"

function strdup_loop :: "u64 \<Rightarrow> u64 \<Rightarrow> int \<Rightarrow> mem \<Rightarrow> (int \<times> mem) kres" where
  "strdup_loop dst src len m =
     (if len \<ge> INT_MAX then Inl (Fault ''int overflow'')
      else let c = m (src + word_of_int len); m = m(dst := c) in
        if c = 0 then Inr (len + 1, m) else strdup_loop (dst + 1) src (len + 1) m)"
  by pat_completeness auto
termination
  by (relation "measure (\<lambda>(_, _, len, _). nat (INT_MAX - len))") auto

definition strdup :: "u64 \<Rightarrow> u64 \<Rightarrow> mem \<Rightarrow> (int \<times> mem) kres" where
  "strdup dst src m = strdup_loop dst src 0 m"

text \<open>
  The copy of the terminating NUL also advances \<open>_dst\<close>, so the store after the loop goes to the
  byte behind it. The loop returns the advanced pointer with the count.
\<close>

function strncpy_loop :: "u64 \<Rightarrow> u64 \<Rightarrow> nat \<Rightarrow> nat \<Rightarrow> mem \<Rightarrow> nat \<times> u64 \<times> mem" where
  "strncpy_loop dst src len copied m =
     (if copied < len then
        (let c = m src; m = m(dst := c) in
         if c = 0 then (copied, dst + 1, m)
         else strncpy_loop (dst + 1) (src + 1) len (copied + 1) m)
      else (copied, dst, m))"
  by pat_completeness auto
termination
  by (relation "measure (\<lambda>(_, _, len, copied, _). len - copied)") auto

definition strncpy :: "u64 \<Rightarrow> u64 \<Rightarrow> u16 \<Rightarrow> mem \<Rightarrow> nat \<times> mem" where
  "strncpy dst src len m =
     (case strncpy_loop dst src (unat len) 0 m of (copied, dst, m) \<Rightarrow>
        (copied, if copied < unat len then m(dst := 0) else m))"

function strncmp :: "u64 \<Rightarrow> u64 \<Rightarrow> u32 \<Rightarrow> mem \<Rightarrow> int" where
  "strncmp p q n m =
     (if n > 0 \<and> m p \<noteq> 0 \<and> m p = m q then strncmp (p + 1) (q + 1) (n - 1) m
      else if n = 0 then 0
      else uint (m p) - uint (m q))"
  by pat_completeness auto
termination
  by (relation "measure (\<lambda>(_, _, n, _). unat n)") (auto simp: measure_unat)

partial_function (option) strhash_loop :: "u64 \<Rightarrow> u64 \<Rightarrow> mem \<Rightarrow> u64 option" where
  "strhash_loop str hash m =
     (if m str \<noteq> 0 then strhash_loop (str + 1) ((push_bit 5 hash + hash) + ucast (m str)) m
      else Some hash)"

definition strhash :: "u64 \<Rightarrow> mem \<Rightarrow> int option" where
  "strhash str m =
     (case strhash_loop str 5381 m of
        None \<Rightarrow> None
      | Some hash \<Rightarrow> Some (uint (hash AND 0x7FFFFFFF)))"

declare memset_loop.simps [simp del] memcpy_loop.simps [simp del] strdup_loop.simps [simp del]
  strncpy_loop.simps [simp del] strncmp.simps [simp del]

subsection \<open>Block operations\<close>

lemma memset_loop_bytes:
  assumes "k \<le> unat n" and "unat n < 2 ^ 31"
  shows "memset_loop dst c n (int k) m =
           Inr (\<lambda>a. if k \<le> unat (a - dst) \<and> unat (a - dst) < unat n then c else m a)"
  using assms
proof (induction "unat n - k" arbitrary: k m)
  case 0
  then have k: "k = unat n" by simp
  then show ?case by (auto simp: memset_loop.simps [of dst c n] fun_eq_iff)
next
  case (Suc d)
  then have lt: "k < unat n" by simp
  then have "k < 2 ^ LENGTH(64)" using Suc.prems by simp
  note off = addr_offset_iff [OF this] and val = unat_of_nat_small [OF this]
  from lt have "(word_of_int (int k) :: u64) < n" by (simp add: word_less_nat_alt val)
  moreover have "\<not> INT_MAX \<le> int k" using lt Suc.prems by simp
  ultimately have "memset_loop dst c n (int k) m =
      memset_loop dst c n (int (Suc k)) (m(dst + of_nat k := c))"
    by (subst memset_loop.simps) (simp add: add.commute)
  also have "\<dots> = Inr (\<lambda>a. if Suc k \<le> unat (a - dst) \<and> unat (a - dst) < unat n then c
      else (m(dst + of_nat k := c)) a)"
    using Suc.hyps(2) Suc.prems lt by (intro Suc.hyps(1)) simp_all
  also have "(\<lambda>a. if Suc k \<le> unat (a - dst) \<and> unat (a - dst) < unat n then c
        else (m(dst + of_nat k := c)) a) =
      (\<lambda>a. if k \<le> unat (a - dst) \<and> unat (a - dst) < unat n then c else m a)"
    using lt by (auto simp: fun_eq_iff off)
  finally show ?case .
qed

text \<open>\<open>memset\<close> writes exactly the \<open>n\<close> bytes from \<open>dst\<close>, for every \<open>n\<close> its \<open>int\<close> index can count.\<close>

lemma memset_bytes:
  "unat n < 2 ^ 31 \<Longrightarrow>
     memset dst c n m = Inr (\<lambda>a. if unat (a - dst) < unat n then word_of_int c else m a)"
  using memset_loop_bytes [of 0 n dst "word_of_int c" m] by (simp add: memset_def)

text \<open>
  \<open>memcpy\<close> copies upwards. That is a copy of the original source bytes unless the destination
  starts inside the source, behind its first byte.
\<close>

lemma memcpy_loop_bytes:
  assumes "k \<le> unat n" and "dst = src \<or> unat n \<le> unat (dst - src)"
  shows "memcpy_loop dst src n (of_nat k) m =
           (\<lambda>a. if k \<le> unat (a - dst) \<and> unat (a - dst) < unat n then m (src + (a - dst)) else m a)"
  using assms
proof (induction "unat n - k" arbitrary: k m)
  case 0
  then have k: "k = unat n" by simp
  then show ?case by (auto simp: memcpy_loop.simps [of dst src n] fun_eq_iff)
next
  case (Suc d)
  then have lt: "k < unat n" by simp
  then have k: "k < 2 ^ LENGTH(64)" using unat_lt2p [of n] by linarith
  note off = addr_offset_iff [OF k] and val = unat_of_nat_small [OF k]
  let ?m = "m(dst + of_nat k := m (src + of_nat k))"
  from lt have "(of_nat k :: u64) < n" by (simp add: word_less_nat_alt val)
  then have "memcpy_loop dst src n (of_nat k) m = memcpy_loop dst src n (of_nat (Suc k)) ?m"
    by (subst memcpy_loop.simps) (simp add: add.commute)
  also have "\<dots> = (\<lambda>a. if Suc k \<le> unat (a - dst) \<and> unat (a - dst) < unat n
      then ?m (src + (a - dst)) else ?m a)"
    using Suc.hyps(2) Suc.prems lt by (intro Suc.hyps(1)) simp_all
  also have "\<dots> = (\<lambda>a. if k \<le> unat (a - dst) \<and> unat (a - dst) < unat n
      then m (src + (a - dst)) else m a)"
  proof (rule ext)
    fix a
    have later: "?m (src + (a - dst)) = m (src + (a - dst))"
      if "k < unat (a - dst)" "unat (a - dst) < unat n"
    proof (cases "dst = src")
      case False
      have "src + (a - dst) \<noteq> dst + of_nat k"
      proof
        assume "src + (a - dst) = dst + of_nat k"
        then have "a - dst = (dst - src) + of_nat k" by (simp add: algebra_simps)
        then have eq: "unat (a - dst) = (unat (dst - src) + k) mod 2 ^ 64"
          using unat_word_ariths(1) [of "dst - src" "of_nat k"] by (simp only: val len_num0) simp
        have d: "unat n \<le> unat (dst - src)" "unat (dst - src) < 2 ^ 64"
          using False Suc.prems(2) unat_lt2p [of "dst - src"] by simp_all
        show False
        proof (cases "unat (dst - src) + k < 2 ^ 64")
          case True
          with eq have "unat (a - dst) = unat (dst - src) + k" by simp
          with that d show False by linarith
        next
          case False
          then have "(unat (dst - src) + k) mod 2 ^ 64 = unat (dst - src) + k - 2 ^ 64"
            using d k by (simp add: le_mod_geq)
          with eq that d False show False by linarith
        qed
      qed
      then show ?thesis by simp
    qed simp
    show "(if Suc k \<le> unat (a - dst) \<and> unat (a - dst) < unat n then ?m (src + (a - dst)) else ?m a) =
      (if k \<le> unat (a - dst) \<and> unat (a - dst) < unat n then m (src + (a - dst)) else m a)"
    proof (cases "unat (a - dst) = k")
      case True
      then have "a = dst + of_nat k" using off by simp
      with True lt show ?thesis by simp
    next
      case False
      then have "a \<noteq> dst + of_nat k" using off by blast
      with False later show ?thesis by (auto simp: Suc_le_eq)
    qed
  qed
  finally show ?case .
qed

lemma memcpy_bytes:
  assumes "dst = src \<or> unat n \<le> unat (dst - src)"
  shows "memcpy dst src n m = (\<lambda>a. if unat (a - dst) < unat n then m (src + (a - dst)) else m a)"
  using memcpy_loop_bytes [of 0 n dst src m] assms by (simp add: memcpy_def)

subsection \<open>C strings\<close>

fun cstr :: "mem \<Rightarrow> u64 \<Rightarrow> u8 list \<Rightarrow> bool" where
  "cstr m p [] \<longleftrightarrow> m p = 0"
| "cstr m p (x # xs) \<longleftrightarrow> m p = x \<and> x \<noteq> 0 \<and> cstr m (p + 1) xs"

lemma cstr_unique: "cstr m p xs \<Longrightarrow> cstr m p ys \<Longrightarrow> xs = ys"
  by (induction m p xs arbitrary: ys rule: cstr.induct) (case_tac [!] ys; auto)+

lemma cstr_frame:
  assumes "cstr m p xs" and "\<forall>k \<le> length xs. m' (p + of_nat k) = m (p + of_nat k)"
  shows "cstr m' p xs"
  using assms
proof (induction m p xs rule: cstr.induct)
  case (2 m p x xs)
  have "m' (p + 1 + of_nat k) = m (p + 1 + of_nat k)" if "k \<le> length xs" for k
    using 2(3) that by (metis (no_types) add.assoc add.commute Suc_le_mono length_Cons of_nat_Suc)
  with 2 show ?case using 2(3) [rule_format, of 0] by simp
qed (auto dest: spec [of _ 0])

subsubsection \<open>Copying\<close>

text \<open>
  \<open>blit d s n m\<close>: \<open>n\<close> bytes copied at once. \<open>forward_ok d s n\<close>: copying them one by one upwards
  never overwrites a source byte before it is read.
\<close>

definition blit :: "u64 \<Rightarrow> u64 \<Rightarrow> nat \<Rightarrow> mem \<Rightarrow> mem" where
  "blit d s n m = (\<lambda>a. if unat (a - d) < n then m (s + (a - d)) else m a)"

definition forward_ok :: "u64 \<Rightarrow> u64 \<Rightarrow> nat \<Rightarrow> bool" where
  "forward_ok d s n \<longleftrightarrow> n < 2 ^ 64 \<and> n \<le> unat (d - s)"

lemma blit_0 [simp]: "blit d s 0 m = m"
  by (simp add: blit_def)

lemma forward_ok_step: "forward_ok d s (Suc n) \<Longrightarrow> forward_ok (d + 1) (s + 1) n"
  by (simp add: forward_ok_def)

lemma blit_step:
  assumes "forward_ok d s (Suc n)"
  shows "blit (d + 1) (s + 1) n (m(d := m s)) = blit d s (Suc n) m"
proof (rule ext)
  fix a
  show "blit (d + 1) (s + 1) n (m(d := m s)) a = blit d s (Suc n) m a"
  proof (cases "a = d")
    case True
    have "unat (- 1 :: u64) = 2 ^ 64 - 1" by (simp add: unsigned_minus_1_eq_mask mask_eq_exp_minus_1)
    then show ?thesis using True assms by (simp add: blit_def forward_ok_def)
  next
    case False
    then have j: "unat (a - (d + 1)) = unat (a - d) - 1" "0 < unat (a - d)"
      using unat_minus_1 [of "a - d"] by (simp_all add: diff_diff_eq unat_gt_0)
    have "s + (a - d) \<noteq> d" if "unat (a - d) \<le> n"
    proof
      assume "s + (a - d) = d"
      then have "d - s = a - d" by (metis add_diff_cancel_left')
      with assms that show False by (simp add: forward_ok_def)
    qed
    with j False show ?thesis by (auto simp: blit_def)
  qed
qed

lemma cstr_after_store:
  assumes "forward_ok d s (Suc (Suc (length xs)))" and "cstr m (s + 1) xs"
  shows "cstr (m(d := c)) (s + 1) xs"
proof (rule cstr_frame [OF assms(2)], intro allI impI)
  fix k assume k: "k \<le> length xs"
  have "s + 1 + of_nat k \<noteq> d"
  proof
    assume "s + 1 + of_nat k = d"
    then have "d = s + of_nat (Suc k)" by (simp add: add.assoc)
    moreover have "Suc k < 2 ^ LENGTH(64)" using assms(1) k by (simp add: forward_ok_def)
    ultimately have "unat (d - s) = Suc k" using addr_offset_iff [of "Suc k" d s] by simp
    with assms(1) k show False by (simp add: forward_ok_def)
  qed
  then show "(m(d := c)) (s + 1 + of_nat k) = m (s + 1 + of_nat k)" by simp
qed

lemma strdup_loop_blit:
  assumes "cstr m (src + of_nat k) xs" and "int k + int (length xs) < INT_MAX"
    and "forward_ok dst (src + of_nat k) (Suc (length xs))"
  shows "strdup_loop dst src (int k) m =
           Inr (int k + int (length xs) + 1, blit dst (src + of_nat k) (Suc (length xs)) m)"
  using assms
proof (induction xs arbitrary: k dst m)
  case Nil
  then show ?case
    using blit_step [of dst "src + of_nat k" 0 m] by (subst strdup_loop.simps) (simp add: Let_def)
next
  case (Cons x xs)
  define m' where "m' = m(dst := m (src + of_nat k))"
  have src: "src + of_nat (Suc k) = src + of_nat k + 1" by (simp add: add.assoc add.commute)
  have "cstr m' (src + of_nat (Suc k)) xs"
    unfolding src m'_def using Cons.prems(1,3) by (intro cstr_after_store) simp_all
  moreover have "forward_ok (dst + 1) (src + of_nat (Suc k)) (Suc (length xs))"
    unfolding src using Cons.prems(3) by (intro forward_ok_step) simp
  ultimately have "strdup_loop (dst + 1) src (int (Suc k)) m' =
      Inr (int (Suc k) + int (length xs) + 1, blit (dst + 1) (src + of_nat (Suc k)) (Suc (length xs)) m')"
    using Cons.prems(2) by (intro Cons.IH) simp_all
  moreover have "blit (dst + 1) (src + of_nat (Suc k)) (Suc (length xs)) m' =
      blit dst (src + of_nat k) (Suc (length (x # xs))) m"
    unfolding src m'_def using Cons.prems(3) blit_step [of dst "src + of_nat k" "Suc (length xs)" m] by simp
  ultimately show ?case
    using Cons.prems(1,2) by (subst strdup_loop.simps) (simp add: Let_def m'_def add.commute add.left_commute)
qed

lemma strdup_blit:
  assumes "cstr m src xs" and "int (length xs) < INT_MAX" and "forward_ok dst src (Suc (length xs))"
  shows "strdup dst src m = Inr (int (length xs) + 1, blit dst src (Suc (length xs)) m)"
  using strdup_loop_blit [of m src 0 xs dst] assms by (simp add: strdup_def)

lemma strncpy_loop_blit:
  assumes "cstr m src xs" and "forward_ok dst src (Suc (length xs))" and "copied \<le> len"
  shows "strncpy_loop dst src len copied m =
           (if copied + length xs < len
            then (copied + length xs, dst + of_nat (Suc (length xs)), blit dst src (Suc (length xs)) m)
            else (len, dst + of_nat (len - copied), blit dst src (len - copied) m))"
  using assms
proof (induction xs arbitrary: copied dst src m)
  case Nil
  then show ?case
    using blit_step [of dst src 0 m] by (subst strncpy_loop.simps) (auto simp: Let_def)
next
  case (Cons x xs)
  show ?case
  proof (cases "copied < len")
    case False
    with Cons.prems(3) show ?thesis by (subst strncpy_loop.simps) simp
  next
    case True
    define m' where "m' = m(dst := m src)"
    have step: "strncpy_loop dst src len copied m = strncpy_loop (dst + 1) (src + 1) len (Suc copied) m'"
      using Cons.prems(1) True by (subst strncpy_loop.simps) (simp add: Let_def m'_def)
    have 1: "cstr m' (src + 1) xs"
      unfolding m'_def using Cons.prems by (intro cstr_after_store) simp_all
    have 2: "forward_ok (dst + 1) (src + 1) (Suc (length xs))"
      using Cons.prems(2) by (intro forward_ok_step) simp
    have blit: "blit (dst + 1) (src + 1) n m' = blit dst src (Suc n) m" if "n \<le> Suc (length xs)" for n
      unfolding m'_def using Cons.prems(2) that by (intro blit_step) (simp add: forward_ok_def)
    have len: "len - copied = Suc (len - Suc copied)" using True by simp
    have ptr: "dst + 1 + of_nat n = dst + of_nat (Suc n)" for n by (simp add: add.assoc)
    from True have 3: "Suc copied \<le> len" by simp
    show ?thesis
      unfolding step Cons.IH [OF 1 2 3] ptr len
      using blit [of "Suc (length xs)"] blit [of "len - Suc copied"] by simp
  qed
qed

text \<open>
  For a source shorter than \<open>len\<close> the copy is right and terminated, and one more byte, the one
  behind the terminator, is zeroed; a source of \<open>len - 1\<close> characters therefore makes \<open>strncpy\<close>
  write the byte at index \<open>len\<close>. A longer source is cut to \<open>len\<close> bytes without a terminator.
\<close>

lemma strncpy_blit:
  assumes "cstr m src xs" and "forward_ok dst src (Suc (length xs))"
  shows "strncpy dst src len m =
           (if length xs < unat len
            then (length xs, (blit dst src (Suc (length xs)) m)(dst + of_nat (Suc (length xs)) := 0))
            else (unat len, blit dst src (unat len) m))"
  using strncpy_loop_blit [OF assms, of 0 "unat len"] by (auto simp: strncpy_def)

subsubsection \<open>Comparison\<close>

text \<open>\<open>strncmp\<close> against the comparison of the two strings as lists.\<close>

fun cmp_bytes :: "nat \<Rightarrow> u8 list \<Rightarrow> u8 list \<Rightarrow> int" where
  "cmp_bytes 0 xs ys = 0"
| "cmp_bytes (Suc n) [] [] = 0"
| "cmp_bytes (Suc n) (x # xs) [] = uint x"
| "cmp_bytes (Suc n) [] (y # ys) = - uint y"
| "cmp_bytes (Suc n) (x # xs) (y # ys) = (if x = y then cmp_bytes n xs ys else uint x - uint y)"

lemma strncmp_cmp_bytes:
  assumes "cstr m p xs" and "cstr m q ys"
  shows "strncmp p q n m = cmp_bytes (unat n) xs ys"
  using assms
proof (induction "unat n" xs ys arbitrary: n p q rule: cmp_bytes.induct)
  case (1 xs ys)
  then have "n = 0" by (metis unat_eq_zero)
  then show ?case by (subst strncmp.simps) simp
next
  case (5 k x xs y ys)
  then have "n \<noteq> 0" by auto
  then have n: "n \<noteq> 0" "unat (n - 1) = k" using 5(2) by (auto simp: unat_minus_1)
  show ?case
  proof (cases "x = y")
    case True
    then have "strncmp p q n m = strncmp (p + 1) (q + 1) (n - 1) m"
      using 5 n by (subst strncmp.simps) (auto simp: word_gt_0)
    also have "\<dots> = cmp_bytes k xs ys"
      using 5(1) [OF True, of "n - 1"] 5(3,4) n by simp
    finally show ?thesis using True 5(2) [symmetric] by simp
  next
    case False
    with 5 n show ?thesis by (subst strncmp.simps) (auto simp flip: 5(2))
  qed
next
  case (2 k)
  then have "n \<noteq> 0" by auto
  with 2 show ?case by (subst strncmp.simps) (auto simp flip: 2(1))
next
  case (3 k x xs)
  then have "n \<noteq> 0" by auto
  with 3 show ?case by (subst strncmp.simps) (auto simp flip: 3(1))
next
  case (4 k y ys)
  then have "n \<noteq> 0" by auto
  with 4 show ?case by (subst strncmp.simps) (auto simp flip: 4(1))
qed

lemma cmp_bytes_zero:
  assumes "0 \<notin> set xs" and "0 \<notin> set ys"
  shows "cmp_bytes n xs ys = 0 \<longleftrightarrow> take n xs = take n ys"
  using assms by (induction n xs ys rule: cmp_bytes.induct) (auto simp: uint_0_iff unsigned_word_eqI)

lemma cstr_nonzero: "cstr m p xs \<Longrightarrow> 0 \<notin> set xs"
  by (induction m p xs rule: cstr.induct) auto

lemma strncmp_zero_iff:
  assumes "cstr m p xs" and "cstr m q ys"
  shows "strncmp p q n m = 0 \<longleftrightarrow> take (unat n) xs = take (unat n) ys"
  using cmp_bytes_zero [OF cstr_nonzero [OF assms(1)] cstr_nonzero [OF assms(2)]]
  by (simp add: strncmp_cmp_bytes [OF assms])

subsubsection \<open>Hashing\<close>

text \<open>The DJB2 polynomial: \<open>hash * 33 + c\<close> over the bytes, modulo \<open>2\<^sup>6\<^sup>4\<close>, cut to 31 bits.\<close>

lemma strhash_loop_fold:
  assumes "cstr m p xs"
  shows "strhash_loop p hash m = Some (fold (\<lambda>c h. 33 * h + ucast c) xs hash)"
  using assms
proof (induction m p xs arbitrary: hash rule: cstr.induct)
  case (1 m p)
  then show ?case by (subst strhash_loop.simps) simp
next
  case (2 m p x xs)
  have "push_bit 5 hash + hash = 33 * hash" for hash :: u64
    by (simp add: push_bit_eq_mult)
  with 2 show ?case by (subst strhash_loop.simps) simp
qed

lemma strhash_fold:
  assumes "cstr m p xs"
  shows "strhash p m = Some (uint (fold (\<lambda>c h. 33 * h + ucast c) xs (5381 :: u64)) mod 2 ^ 31)"
proof -
  have "uint (h AND 0x7FFFFFFF) = uint h mod 2 ^ 31" for h :: u64
  proof -
    have "(0x7FFFFFFF :: u64) = mask 31" by (simp add: mask_eq_exp_minus_1)
    then show ?thesis by (simp only: take_bit_eq_mask [symmetric] unsigned_take_bit_eq) (simp only: take_bit_eq_mod)
  qed
  with strhash_loop_fold [OF assms, of 5381] show ?thesis by (simp add: strhash_def)
qed

subsection \<open>Properties\<close>

text \<open>A memory that holds the strings \<open>ab\<close> at 100 and \<open>abc\<close> at 200.\<close>

definition two_strings :: mem where
  "two_strings = (\<lambda>_. 7)(100 := 97, 101 := 98, 102 := 0, 200 := 97, 201 := 98, 202 := 99, 203 := 0)"

lemma two_strings_cstr: "cstr two_strings 100 [97, 98]" "cstr two_strings 200 [97, 98, 99]"
  by (simp_all add: two_strings_def)

text \<open>\<open>strncmp\<close> of two terminated strings is 0 exactly when their first \<open>n\<close> characters agree.\<close>

theorem strncmp_decides_prefix:
  assumes "cstr m p xs" and "cstr m q ys"
  shows "strncmp p q n m = 0 \<longleftrightarrow> take (unat n) xs = take (unat n) ys"
  using assms by (rule strncmp_zero_iff)

theorem strncmp_decides_prefix_witness:
  "strncmp 100 200 2 two_strings = 0 \<and> strncmp 100 200 3 two_strings \<noteq> 0"
  using strncmp_decides_prefix [OF two_strings_cstr, of 2] strncmp_decides_prefix [OF two_strings_cstr, of 3] by simp

text \<open>C39: for a source shorter than \<open>len\<close>, \<open>strncpy\<close> copies the string with its terminator and also
  zeroes the byte behind the terminator, which for a source of \<open>len - 1\<close> characters is the byte
  behind a buffer of \<open>len\<close> bytes; a longer source is cut to \<open>len\<close> bytes and not terminated.\<close>

theorem strncpy_writes_behind:
  assumes "cstr m src xs" and "forward_ok dst src (Suc (length xs))"
  shows "strncpy dst src len m =
           (if length xs < unat len
            then (length xs, (blit dst src (Suc (length xs)) m)(dst + of_nat (Suc (length xs)) := 0))
            else (unat len, blit dst src (unat len) m))"
  using assms by (rule strncpy_blit)

theorem strncpy_writes_behind_witness:
  "snd (strncpy 300 100 3 two_strings) 302 = 0 \<and> snd (strncpy 300 100 3 two_strings) 303 = 0 \<and> two_strings 303 = 7"
  using strncpy_writes_behind [OF two_strings_cstr(1), of 300 3] by (simp add: forward_ok_def blit_def two_strings_def)

end
