(* ===== verification/Klist.thy ===== *)
theory Klist
  imports Kprelude
begin

text \<open>
  The intrusive circular doubly linked lists of include/lib/list.h and the counted queue of
  include/lib/fifo.h. A heap holds the two link fields of every \<open>list_head\<close> node, one function
  per field; the node type \<open>'a\<close> is chosen by the component that embeds the nodes, which makes
  \<open>list_entry\<close> a constructor inversion. Every operation is translated link write by link write,
  so what a removed node's own links hold afterwards is part of the model.

  \<open>is_list h lh xs\<close> relates a heap to the sequence of nodes on the list headed by \<open>lh\<close>;
  \<open>list_family\<close> does so for a set of disjoint lists at once and is the form the components use.
  The locale \<open>list_store\<close> is the contract the components rely on.
\<close>

subsection \<open>Nodes and link operations\<close>

record 'a lheap =
  l_prev :: "'a \<Rightarrow> 'a"
  l_next :: "'a \<Rightarrow> 'a"

definition set_next :: "'a \<Rightarrow> 'a \<Rightarrow> 'a lheap \<Rightarrow> 'a lheap" where
  "set_next p q h = h\<lparr>l_next := (l_next h)(p := q)\<rparr>"

definition set_prev :: "'a \<Rightarrow> 'a \<Rightarrow> 'a lheap \<Rightarrow> 'a lheap" where
  "set_prev p q h = h\<lparr>l_prev := (l_prev h)(p := q)\<rparr>"

lemma set_links [simp]:
  "l_next (set_next p q h) = (l_next h)(p := q)"
  "l_prev (set_next p q h) = l_prev h"
  "l_next (set_prev p q h) = l_next h"
  "l_prev (set_prev p q h) = (l_prev h)(p := q)"
  by (simp_all add: set_next_def set_prev_def)

definition INIT_LIST_HEAD :: "'a \<Rightarrow> 'a lheap \<Rightarrow> 'a lheap" where
  "INIT_LIST_HEAD p h = set_prev p p (set_next p p h)"

text \<open>\<open>prev->next = next->prev = _new\<close> writes \<open>next->prev\<close> first.\<close>

definition list_add_between :: "'a \<Rightarrow> 'a \<Rightarrow> 'a \<Rightarrow> 'a lheap \<Rightarrow> 'a lheap" where
  "list_add_between n p q h =
     (let h = set_prev q n h; h = set_next p n h; h = set_next n q h in set_prev n p h)"

definition list_del_between :: "'a \<Rightarrow> 'a \<Rightarrow> 'a lheap \<Rightarrow> 'a lheap" where
  "list_del_between p q h = set_prev q p (set_next p q h)"

definition list_del :: "'a \<Rightarrow> 'a lheap \<Rightarrow> 'a lheap" where
  "list_del e h = list_del_between (l_prev h e) (l_next h e) h"

definition list_del_init :: "'a \<Rightarrow> 'a lheap \<Rightarrow> 'a lheap" where
  "list_del_init e h = INIT_LIST_HEAD e (list_del_between (l_prev h e) (l_next h e) h)"

definition list_add_tail :: "'a \<Rightarrow> 'a \<Rightarrow> 'a lheap \<Rightarrow> 'a lheap" where
  "list_add_tail n lh h = list_add_between n (l_prev h lh) lh h"

definition list_add_head :: "'a \<Rightarrow> 'a \<Rightarrow> 'a lheap \<Rightarrow> 'a lheap" where
  "list_add_head n lh h = list_add_between n lh (l_next h lh) h"

definition list_is_first :: "'a \<Rightarrow> 'a \<Rightarrow> 'a lheap \<Rightarrow> bool" where
  "list_is_first e lh h \<longleftrightarrow> l_prev h e = lh"

definition list_is_last :: "'a \<Rightarrow> 'a \<Rightarrow> 'a lheap \<Rightarrow> bool" where
  "list_is_last e lh h \<longleftrightarrow> l_next h e = lh"

definition list_empty :: "'a \<Rightarrow> 'a lheap \<Rightarrow> bool" where
  "list_empty lh h \<longleftrightarrow> l_next h lh = lh"

definition list_first :: "'a \<Rightarrow> 'a lheap \<Rightarrow> 'a" where
  "list_first lh h = l_next h lh"

definition list_splice_down :: "'a \<Rightarrow> 'a \<Rightarrow> 'a lheap \<Rightarrow> 'a lheap" where
  "list_splice_down left right h =
     (let h = set_next (l_prev h left) (l_next h right) h
      in set_prev (l_next h right) (l_prev h left) h)"

definition list_splice_up_left :: "'a \<Rightarrow> 'a \<Rightarrow> 'a \<Rightarrow> 'a lheap \<Rightarrow> 'a lheap" where
  "list_splice_up_left lh left right h =
     (let h = set_prev left lh h;
          h = set_next right (l_next h lh) h;
          h = set_prev (l_next h lh) right h
      in set_next lh left h)"

definition list_splice_up_right :: "'a \<Rightarrow> 'a \<Rightarrow> 'a \<Rightarrow> 'a lheap \<Rightarrow> 'a lheap" where
  "list_splice_up_right lh left right h =
     (let h = set_prev left (l_prev h lh) h;
          h = set_next right lh h;
          h = set_next (l_prev h lh) left h
      in set_prev lh right h)"

definition list_pop :: "'a \<Rightarrow> 'a lheap \<Rightarrow> 'a option \<times> 'a lheap" where
  "list_pop lh h =
     (if list_empty lh h then (None, h)
      else (Some (l_next h lh), list_del (l_next h lh) h))"

text \<open>
  The traversal macros visit \<open>next\<close> (or \<open>prev\<close>) links until they are back at the head. On a
  heap that is not a list they may never be: then no sequence of nodes is visited (\<open>None\<close>).
\<close>

partial_function (option) visit :: "('a \<Rightarrow> 'a) \<Rightarrow> 'a \<Rightarrow> 'a \<Rightarrow> 'a list option" where
  "visit link lh pos =
     (if pos = lh then Some []
      else Option.bind (visit link lh (link pos)) (\<lambda>ps. Some (pos # ps)))"

definition list_for_each :: "'a \<Rightarrow> 'a lheap \<Rightarrow> 'a list option" where
  "list_for_each lh h = visit (l_next h) lh (l_next h lh)"

definition list_for_each_reverse :: "'a \<Rightarrow> 'a lheap \<Rightarrow> 'a list option" where
  "list_for_each_reverse lh h = visit (l_prev h) lh (l_prev h lh)"

text \<open>The counter stops the walk at 1000000 nodes, so it needs no width of its own.\<close>

function list_len_loop :: "'a lheap \<Rightarrow> 'a \<Rightarrow> 'a \<Rightarrow> nat \<Rightarrow> nat kres" where
  "list_len_loop h lh pos len =
     (if pos = lh then Inr len
      else if len + 1 > 1000000 then Inl (Panic ''maybe len max'')
      else list_len_loop h lh (l_next h pos) (len + 1))"
  by pat_completeness auto
termination
  by (relation "measure (\<lambda>(_, _, _, len). 1000000 - len)") auto

declare list_len_loop.simps [simp del]

definition list_len :: "'a \<Rightarrow> 'a lheap \<Rightarrow> nat kres" where
  "list_len lh h = list_len_loop h lh (l_next h lh) 0"

lemmas list_op_defs =
  INIT_LIST_HEAD_def list_add_between_def list_del_between_def list_del_def list_del_init_def
  list_add_tail_def list_add_head_def list_is_first_def list_is_last_def list_empty_def
  list_first_def Let_def

subsection \<open>Chains of nodes\<close>

fun lseg :: "'a lheap \<Rightarrow> 'a \<Rightarrow> 'a list \<Rightarrow> 'a \<Rightarrow> bool" where
  "lseg h a [] b \<longleftrightarrow> l_next h a = b \<and> l_prev h b = a"
| "lseg h a (x # xs) b \<longleftrightarrow> l_next h a = x \<and> l_prev h x = a \<and> lseg h x xs b"

lemma lseg_append:
  "lseg h a (xs @ x # ys) b \<longleftrightarrow> lseg h a xs x \<and> lseg h x ys b"
  by (induction xs arbitrary: a) auto

lemma lseg_cong:
  assumes "\<And>n. n = a \<or> n \<in> set xs \<Longrightarrow> l_next h' n = l_next h n"
    and "\<And>n. n = b \<or> n \<in> set xs \<Longrightarrow> l_prev h' n = l_prev h n"
  shows "lseg h' a xs b \<longleftrightarrow> lseg h a xs b"
  using assms by (induction xs arbitrary: a) auto

lemma lseg_frame:
  assumes "lseg h a xs b"
    and "\<forall>n \<in> insert a (set xs). l_next h' n = l_next h n"
    and "\<forall>n \<in> insert b (set xs). l_prev h' n = l_prev h n"
  shows "lseg h' a xs b"
  using assms lseg_cong [of a xs h' h b] by blast

definition is_list :: "'a lheap \<Rightarrow> 'a \<Rightarrow> 'a list \<Rightarrow> bool" where
  "is_list h lh xs \<longleftrightarrow> lh \<notin> set xs \<and> distinct xs \<and> lseg h lh xs lh"

lemma is_list_cong:
  assumes "\<And>n. n = lh \<or> n \<in> set xs \<Longrightarrow> l_next h' n = l_next h n"
    and "\<And>n. n = lh \<or> n \<in> set xs \<Longrightarrow> l_prev h' n = l_prev h n"
  shows "is_list h' lh xs \<longleftrightarrow> is_list h lh xs"
  using assms by (simp add: is_list_def lseg_cong [of lh xs h' h lh])

lemma is_list_Nil [simp]: "is_list h lh [] \<longleftrightarrow> l_next h lh = lh \<and> l_prev h lh = lh"
  by (simp add: is_list_def)

lemma is_list_INIT: "is_list (INIT_LIST_HEAD lh h) lh []"
  by (simp add: INIT_LIST_HEAD_def)

lemma is_list_empty: "is_list h lh xs \<Longrightarrow> list_empty lh h \<longleftrightarrow> xs = []"
  by (cases xs) (auto simp: is_list_def list_empty_def)

lemma is_list_next: "is_list h lh (x # xs) \<Longrightarrow> l_next h lh = x"
  by (simp add: is_list_def)

lemma is_list_prev: "is_list h lh (xs @ [x]) \<Longrightarrow> l_prev h lh = x"
  by (simp add: is_list_def lseg_append)

subsection \<open>Insertion and removal\<close>

text \<open>A chain that ends at \<open>u\<close>, and one that starts at \<open>v\<close>: the shapes on both sides of a cut.\<close>

lemma lseg_last:
  assumes "lseg h a (us @ [u]) b"
  shows "lseg h a us u" and "l_next h u = b" and "l_prev h b = u"
  using assms by (simp_all add: lseg_append)

lemma is_list_insert:
  assumes li: "is_list h lh (xs @ ys)" and n: "n \<noteq> lh" "n \<notin> set xs" "n \<notin> set ys"
    and p: "p = (if xs = [] then lh else last xs)"
    and q: "q = (if ys = [] then lh else List.hd ys)"
  shows "is_list (list_add_between n p q h) lh (xs @ n # ys)"
proof -
  define h' where "h' = list_add_between n p q h"
  have upd: "l_next h' = (l_next h)(p := n, n := q)" "l_prev h' = (l_prev h)(q := n, n := p)"
    by (simp_all add: h'_def list_add_between_def Let_def)
  from li have dist: "lh \<notin> set xs" "lh \<notin> set ys" "distinct xs" "distinct ys" "set xs \<inter> set ys = {}"
    and seg: "lseg h lh (xs @ ys) lh"
    by (auto simp: is_list_def)
  have left: "lseg h' lh xs n"
  proof (cases xs rule: rev_cases)
    case Nil
    with p n show ?thesis by (simp add: upd)
  next
    case (snoc us u)
    have "lseg h lh us u"
      using seg snoc by (simp add: lseg_append)
    moreover have "p = u" using p snoc by simp
    moreover have "q \<notin> set xs"
      unfolding q using dist by (intro hd_notin_disjoint)
    ultimately have fr: "\<forall>n \<in> insert lh (set us). l_next h' n = l_next h n"
      "\<forall>n \<in> insert u (set us). l_prev h' n = l_prev h n"
      using dist n snoc by (auto simp: upd)
    from lseg_frame [OF \<open>lseg h lh us u\<close> fr] \<open>p = u\<close> n snoc show ?thesis by (auto simp: lseg_append upd)
  qed
  have right: "lseg h' n ys lh"
  proof (cases ys)
    case Nil
    with q n show ?thesis by (simp add: upd)
  next
    case (Cons v vs)
    have "lseg h v vs lh"
      using seg Cons by (simp add: lseg_append)
    moreover have "q = v" using q Cons by simp
    moreover have "p \<notin> set ys"
      unfolding p using dist by (intro last_notin_disjoint)
    ultimately have fr: "\<forall>n \<in> insert v (set vs). l_next h' n = l_next h n"
      "\<forall>n \<in> insert lh (set vs). l_prev h' n = l_prev h n"
      using dist n Cons by (auto simp: upd)
    from lseg_frame [OF \<open>lseg h v vs lh\<close> fr] \<open>q = v\<close> n Cons show ?thesis by (auto simp: upd)
  qed
  from left right dist n show ?thesis
    unfolding h'_def [symmetric] by (auto simp: is_list_def lseg_append)
qed

lemma is_list_add_head:
  assumes "is_list h lh xs" and "n \<noteq> lh" and "n \<notin> set xs"
  shows "is_list (list_add_head n lh h) lh (n # xs)"
proof -
  have "l_next h lh = (if xs = [] then lh else List.hd xs)"
    using assms(1) by (cases xs) (auto simp: is_list_def)
  then show ?thesis
    using is_list_insert [of h lh "[]" xs n] assms by (simp add: list_add_head_def)
qed

lemma is_list_add_tail:
  assumes "is_list h lh xs" and "n \<noteq> lh" and "n \<notin> set xs"
  shows "is_list (list_add_tail n lh h) lh (xs @ [n])"
proof -
  have "l_prev h lh = (if xs = [] then lh else last xs)"
    using assms(1) by (cases xs rule: rev_cases) (auto simp: is_list_def lseg_append)
  then show ?thesis
    using is_list_insert [of h lh xs "[]" n] assms by (simp add: list_add_tail_def)
qed

lemma is_list_neighbours:
  assumes "is_list h lh (xs @ e # ys)"
  shows "l_prev h e = (if xs = [] then lh else last xs)"
    and "l_next h e = (if ys = [] then lh else List.hd ys)"
proof -
  from assms have seg: "lseg h lh xs e" "lseg h e ys lh"
    by (auto simp: is_list_def lseg_append)
  show "l_prev h e = (if xs = [] then lh else last xs)"
    using seg(1) by (cases xs rule: rev_cases) (auto simp: lseg_append)
  show "l_next h e = (if ys = [] then lh else List.hd ys)"
    using seg(2) by (cases ys) auto
qed

lemma list_del_links:
  assumes "is_list h lh (xs @ e # ys)"
  shows "l_next (list_del e h) = (l_next h)((if xs = [] then lh else last xs) := (if ys = [] then lh else List.hd ys))"
    and "l_prev (list_del e h) = (l_prev h)((if ys = [] then lh else List.hd ys) := (if xs = [] then lh else last xs))"
  unfolding list_del_def list_del_between_def is_list_neighbours [OF assms] by simp_all

text \<open>Linking the end of one chain to the start of another, over whatever was between them.\<close>

lemma is_list_bridge:
  assumes seg: "lseg h lh xs e" "lseg h e' ys lh"
    and dist: "lh \<notin> set xs" "lh \<notin> set ys" "distinct xs" "distinct ys" "set xs \<inter> set ys = {}"
    and upd0: "l_next h' = (l_next h)((if xs = [] then lh else last xs) := (if ys = [] then lh else List.hd ys))"
      "l_prev h' = (l_prev h)((if ys = [] then lh else List.hd ys) := (if xs = [] then lh else last xs))"
  shows "is_list h' lh (xs @ ys)"
proof -
  define p where "p = (if xs = [] then lh else last xs)"
  define q where "q = (if ys = [] then lh else List.hd ys)"
  have upd: "l_next h' = (l_next h)(p := q)" "l_prev h' = (l_prev h)(q := p)"
    using upd0 by (simp_all add: p_def q_def)
  have right: "lseg h' p ys lh"
  proof (cases ys)
    case Nil
    then show ?thesis by (simp add: upd q_def)
  next
    case (Cons v vs)
    then have "lseg h v vs lh" and "q = v" using seg(2) by (simp_all add: q_def)
    moreover have "p \<notin> set ys"
      unfolding p_def using dist by (intro last_notin_disjoint)
    ultimately have fr: "\<forall>n \<in> insert v (set vs). l_next h' n = l_next h n"
      "\<forall>n \<in> insert lh (set vs). l_prev h' n = l_prev h n"
      using dist Cons by (auto simp: upd)
    from lseg_frame [OF \<open>lseg h v vs lh\<close> fr] \<open>q = v\<close> Cons show ?thesis by (simp add: upd)
  qed
  show ?thesis
  proof (cases xs rule: rev_cases)
    case Nil
    with right dist show ?thesis by (simp add: is_list_def p_def)
  next
    case (snoc us u)
    then have "lseg h lh us u" and "p = u" using seg(1) by (simp_all add: lseg_append p_def)
    moreover have "q \<notin> set xs"
      unfolding q_def using dist by (intro hd_notin_disjoint)
    ultimately have fr: "\<forall>n \<in> insert lh (set us). l_next h' n = l_next h n"
      "\<forall>n \<in> insert u (set us). l_prev h' n = l_prev h n"
      using dist snoc by (auto simp: upd)
    from lseg_frame [OF \<open>lseg h lh us u\<close> fr] right \<open>p = u\<close> snoc have "lseg h' lh (xs @ ys) lh" by (simp add: lseg_append)
    with dist show ?thesis by (simp add: is_list_def)
  qed
qed

lemma is_list_del:
  assumes li: "is_list h lh (xs @ e # ys)"
  shows "is_list (list_del e h) lh (xs @ ys)"
proof (rule is_list_bridge)
  from li show "lseg h lh xs e" "lseg h e ys lh" "lh \<notin> set xs" "lh \<notin> set ys"
    "distinct xs" "distinct ys" "set xs \<inter> set ys = {}"
    by (auto simp: is_list_def lseg_append)
qed (rule list_del_links [OF li])+

lemma list_del_keeps_links:
  assumes "is_list h lh (xs @ e # ys)"
  shows "l_next (list_del e h) e = l_next h e" and "l_prev (list_del e h) e = l_prev h e"
proof -
  from assms have "set (xs @ ys) \<inter> set [e] = {}" "e \<noteq> lh" by (auto simp: is_list_def)
  then have "e \<noteq> (if xs = [] then lh else last xs)" "e \<noteq> (if ys = [] then lh else List.hd ys)"
    using last_notin_disjoint [of xs "[e]" lh] hd_notin_disjoint [of "[e]" ys lh] by auto
  then show "l_next (list_del e h) e = l_next h e" and "l_prev (list_del e h) e = l_prev h e"
    by (simp_all add: list_del_links [OF assms])
qed

text \<open>Removing a node whose links point to itself changes no link.\<close>

lemma list_del_self:
  assumes "l_next h e = e" and "l_prev h e = e"
  shows "list_del e h = h"
proof -
  have "(l_next h)(e := e) = l_next h" "(l_prev h)(e := e) = l_prev h"
    using assms by auto
  then show ?thesis
    using assms by (simp add: list_del_def list_del_between_def set_next_def set_prev_def)
qed

lemma list_pop_Nil: "is_list h lh [] \<Longrightarrow> list_pop lh h = (None, h)"
  by (simp add: list_pop_def list_empty_def)

lemma list_pop_Cons:
  assumes "is_list h lh (x # xs)"
  shows "list_pop lh h = (Some x, list_del x h)" and "is_list (list_del x h) lh xs"
proof -
  from assms have "l_next h lh = x" and "x \<noteq> lh" by (auto simp: is_list_def)
  then show "list_pop lh h = (Some x, list_del x h)"
    by (simp add: list_pop_def list_empty_def)
  from is_list_del [of h lh "[]" x xs] assms show "is_list (list_del x h) lh xs" by simp
qed

text \<open>A linked node never points to itself; the code tests membership with \<open>list_empty\<close> on the node.\<close>

lemma is_list_linked:
  assumes "is_list h lh xs" and "e \<in> set xs"
  shows "\<not> list_empty e h"
proof -
  obtain us vs where xs: "xs = us @ e # vs" using assms(2) by (auto simp: in_set_conv_decomp)
  have "e \<notin> set vs" "e \<noteq> lh" using assms(1) xs by (auto simp: is_list_def)
  then have "(if vs = [] then lh else List.hd vs) \<noteq> e" using hd_in_set [of vs] by auto
  then show ?thesis using is_list_neighbours(2) [of h lh us e vs] assms(1) xs by (simp add: list_empty_def)
qed

subsection \<open>Traversal and length\<close>

lemma visit_next:
  assumes "lseg h a xs lh" and "lh \<notin> set xs"
  shows "visit (l_next h) lh (l_next h a) = Some xs"
  using assms by (induction xs arbitrary: a) (auto simp: visit.simps)

lemma visit_prev:
  assumes "lseg h lh xs b" and "lh \<notin> set xs"
  shows "visit (l_prev h) lh (l_prev h b) = Some (rev xs)"
  using assms by (induction xs arbitrary: b rule: rev_induct) (auto simp: visit.simps lseg_append)

lemma list_for_each_is_list:
  assumes "is_list h lh xs"
  shows "list_for_each lh h = Some xs" and "list_for_each_reverse lh h = Some (rev xs)"
  using assms by (auto simp: is_list_def list_for_each_def list_for_each_reverse_def
      visit_next visit_prev)

lemma list_len_loop_seg:
  assumes "lseg h a xs lh" and "lh \<notin> set xs" and "n + length xs \<le> 1000000"
  shows "list_len_loop h lh (l_next h a) n = Inr (n + length xs)"
  using assms
proof (induction xs arbitrary: a n)
  case Nil
  then show ?case by (simp add: list_len_loop.simps)
next
  case (Cons x xs)
  then have "list_len_loop h lh (l_next h x) (n + 1) = Inr (n + 1 + length xs)"
    by (intro Cons.IH) auto
  with Cons.prems show ?case by (auto simp: list_len_loop.simps [of h lh x n])
qed

lemma list_len_is_list:
  assumes "is_list h lh xs" and "length xs \<le> 1000000"
  shows "list_len lh h = Inr (length xs)"
  using assms list_len_loop_seg [of h lh xs lh 0] by (simp add: list_len_def is_list_def)

lemma is_list_unique:
  assumes "is_list h lh xs" and "is_list h lh ys"
  shows "xs = ys"
  using list_for_each_is_list(1) [OF assms(1)] list_for_each_is_list(1) [OF assms(2)] by simp

subsection \<open>Families of disjoint lists\<close>

definition fam_nodes :: "'a set \<Rightarrow> ('a \<Rightarrow> 'a list) \<Rightarrow> 'a set" where
  "fam_nodes H F = (\<Union>a\<in>H. insert a (set (F a)))"

definition list_family :: "'a set \<Rightarrow> 'a lheap \<Rightarrow> ('a \<Rightarrow> 'a list) \<Rightarrow> bool" where
  "list_family H h F \<longleftrightarrow>
     (\<forall>a\<in>H. is_list h a (F a)) \<and>
     (\<forall>a\<in>H. \<forall>b\<in>H. a \<noteq> b \<longrightarrow> insert a (set (F a)) \<inter> insert b (set (F b)) = {})"

lemma list_familyD: "list_family H h F \<Longrightarrow> a \<in> H \<Longrightarrow> is_list h a (F a)"
  by (simp add: list_family_def)

lemma list_family_disjoint:
  "list_family H h F \<Longrightarrow> a \<in> H \<Longrightarrow> b \<in> H \<Longrightarrow> a \<noteq> b \<Longrightarrow>
     insert a (set (F a)) \<inter> insert b (set (F b)) = {}"
  by (simp add: list_family_def)

lemma fam_nodes_upd:
  "a \<in> H \<Longrightarrow> fam_nodes H (F(a := xs)) \<subseteq> fam_nodes H F \<union> set xs"
  by (auto simp: fam_nodes_def split: if_splits)

text \<open>One list of the family changes, by an operation that writes links of that list only.\<close>

lemma list_family_change:
  assumes fam: "list_family H h F" and a: "a \<in> H"
    and new: "is_list h' a xs"
    and fresh: "set xs \<subseteq> set (F a) \<union> N" "N \<inter> fam_nodes H F = {}"
    and frame: "\<And>n. n \<notin> insert a (set (F a) \<union> N) \<Longrightarrow> l_next h' n = l_next h n \<and> l_prev h' n = l_prev h n"
  shows "list_family H h' (F(a := xs))"
proof -
  have other: "is_list h' b (F b)" if "b \<in> H" "b \<noteq> a" for b
  proof -
    have "n \<notin> insert a (set (F a) \<union> N)" if "n = b \<or> n \<in> set (F b)" for n
      using that \<open>b \<in> H\<close> \<open>b \<noteq> a\<close> list_family_disjoint [OF fam a \<open>b \<in> H\<close>] fresh(2)
      unfolding fam_nodes_def by blast
    then have "is_list h' b (F b) \<longleftrightarrow> is_list h b (F b)"
      using frame by (intro is_list_cong) blast+
    with list_familyD [OF fam \<open>b \<in> H\<close>] show ?thesis by simp
  qed
  have disj: "insert a (set xs) \<inter> insert b (set (F b)) = {}" if "b \<in> H" "b \<noteq> a" for b
    using list_family_disjoint [OF fam a \<open>b \<in> H\<close>] that fresh unfolding fam_nodes_def by blast
  show ?thesis
    unfolding list_family_def
  proof (intro conjI ballI impI)
    fix b assume "b \<in> H"
    then show "is_list h' b ((F(a := xs)) b)" using new other by auto
  next
    fix b c assume "b \<in> H" "c \<in> H" "b \<noteq> c"
    then show "insert b (set ((F(a := xs)) b)) \<inter> insert c (set ((F(a := xs)) c)) = {}"
      using disj [of b] disj [of c] list_family_disjoint [OF fam, of b c]
      by (cases "b = a"; cases "c = a") (auto simp: Int_commute)
  qed
qed

lemma list_add_between_frame:
  "m \<notin> {n, p, q} \<Longrightarrow>
     l_next (list_add_between n p q h) m = l_next h m \<and> l_prev (list_add_between n p q h) m = l_prev h m"
  by (simp add: list_add_between_def Let_def)

lemma is_list_link_in:
  assumes "is_list h a xs"
  shows "l_next h a \<in> insert a (set xs)" and "l_prev h a \<in> insert a (set xs)"
proof -
  show "l_next h a \<in> insert a (set xs)"
    using assms by (cases xs) (auto simp: is_list_def)
  show "l_prev h a \<in> insert a (set xs)"
    using assms by (cases xs rule: rev_cases) (auto simp: is_list_def lseg_append)
qed

lemma fam_add_head:
  assumes "list_family H h F" and "a \<in> H" and "n \<notin> fam_nodes H F"
  shows "list_family H (list_add_head n a h) (F(a := n # F a))"
proof (rule list_family_change [OF assms(1,2), where N = "{n}"])
  note li = list_familyD [OF assms(1,2)]
  have "n \<noteq> a" "n \<notin> set (F a)" using assms(2,3) by (auto simp: fam_nodes_def)
  with li show "is_list (list_add_head n a h) a (n # F a)" by (rule is_list_add_head)
  show "l_next (list_add_head n a h) m = l_next h m \<and> l_prev (list_add_head n a h) m = l_prev h m"
    if "m \<notin> insert a (set (F a) \<union> {n})" for m
    unfolding list_add_head_def
    using that is_list_link_in [OF li] by (intro list_add_between_frame) auto
qed (use assms(3) in auto)

lemma fam_add_tail:
  assumes "list_family H h F" and "a \<in> H" and "n \<notin> fam_nodes H F"
  shows "list_family H (list_add_tail n a h) (F(a := F a @ [n]))"
proof (rule list_family_change [OF assms(1,2), where N = "{n}"])
  note li = list_familyD [OF assms(1,2)]
  have "n \<noteq> a" "n \<notin> set (F a)" using assms(2,3) by (auto simp: fam_nodes_def)
  with li show "is_list (list_add_tail n a h) a (F a @ [n])" by (rule is_list_add_tail)
  show "l_next (list_add_tail n a h) m = l_next h m \<and> l_prev (list_add_tail n a h) m = l_prev h m"
    if "m \<notin> insert a (set (F a) \<union> {n})" for m
    unfolding list_add_tail_def
    using that is_list_link_in [OF li] by (intro list_add_between_frame) auto
qed (use assms(3) in auto)

lemma list_del_frame:
  assumes "is_list h a xs" and "e \<in> set xs" and "m \<notin> insert a (set xs)"
  shows "l_next (list_del e h) m = l_next h m \<and> l_prev (list_del e h) m = l_prev h m"
proof -
  obtain us vs where xs: "xs = us @ e # vs" using assms(2) by (auto simp: in_set_conv_decomp)
  have "m \<noteq> (if us = [] then a else last us)" "m \<noteq> (if vs = [] then a else List.hd vs)"
    using assms(3) xs last_in_set [of us] hd_in_set [of vs] by auto
  then show ?thesis
    using list_del_links [of h a us e vs] assms(1) xs by simp
qed

lemma is_list_del_remove1:
  assumes "is_list h a xs" and "e \<in> set xs"
  shows "is_list (list_del e h) a (remove1 e xs)"
proof -
  obtain us vs where xs: "xs = us @ e # vs" "e \<notin> set us"
    using split_list_first [OF assms(2)] by blast
  then show ?thesis
    using is_list_del [of h a us e vs] assms(1) by (simp add: remove1_append)
qed

lemma fam_del:
  assumes "list_family H h F" and "a \<in> H" and "e \<in> set (F a)"
  shows "list_family H (list_del e h) (F(a := remove1 e (F a)))"
proof (rule list_family_change [OF assms(1,2), where N = "{}"])
  note li = list_familyD [OF assms(1,2)]
  show "is_list (list_del e h) a (remove1 e (F a))"
    using li assms(3) by (rule is_list_del_remove1)
  show "l_next (list_del e h) m = l_next h m \<and> l_prev (list_del e h) m = l_prev h m"
    if "m \<notin> insert a (set (F a) \<union> {})" for m
    using list_del_frame [OF li assms(3)] that by simp
qed (use set_remove1_subset [of e "F a"] in auto)

lemma fam_notin_after_del:
  assumes "list_family H h F" and "a \<in> H" and "e \<in> set (F a)"
  shows "e \<notin> fam_nodes H (F(a := remove1 e (F a)))"
proof -
  have "distinct (F a)" "e \<noteq> a" using list_familyD [OF assms(1,2)] assms(3) by (auto simp: is_list_def)
  then have "e \<notin> insert a (set (remove1 e (F a)))" by simp
  moreover have "e \<notin> insert b (set (F b))" if "b \<in> H" "b \<noteq> a" for b
    using list_family_disjoint [OF assms(1,2) that(1)] that(2) assms(3) by blast
  ultimately show ?thesis by (auto simp: fam_nodes_def)
qed

lemma fam_pop:
  assumes "list_family H h F" and "a \<in> H" and "F a = x # xs"
  shows "list_pop a h = (Some x, list_del x h)"
    and "list_family H (list_del x h) (F(a := xs))"
    and "x \<notin> fam_nodes H (F(a := xs))"
  using list_pop_Cons(1) [of h a x xs] list_familyD [OF assms(1,2)] assms(3)
    fam_del [OF assms(1,2), of x] fam_notin_after_del [OF assms(1,2), of x] by auto

lemma fam_empty:
  "list_family H h F \<Longrightarrow> a \<in> H \<Longrightarrow> list_empty a h \<longleftrightarrow> F a = []"
  by (rule is_list_empty [OF list_familyD])

lemma fam_frame:
  assumes "list_family H h F"
    and "\<And>n. n \<in> fam_nodes H F \<Longrightarrow> l_next h' n = l_next h n \<and> l_prev h' n = l_prev h n"
  shows "list_family H h' F"
proof -
  have "is_list h' a (F a)" if "a \<in> H" for a
  proof -
    have "is_list h' a (F a) \<longleftrightarrow> is_list h a (F a)"
      using assms(2) that by (intro is_list_cong) (auto simp: fam_nodes_def)
    with list_familyD [OF assms(1) that] show ?thesis by simp
  qed
  with assms(1) show ?thesis by (simp add: list_family_def)
qed

lemma fam_INIT_other:
  "list_family H h F \<Longrightarrow> n \<notin> fam_nodes H F \<Longrightarrow> list_family H (INIT_LIST_HEAD n h) F"
  by (rule fam_frame) (auto simp: INIT_LIST_HEAD_def)

text \<open>\<open>list_del_init\<close>: the removed node ends up linked to itself only.\<close>

lemma list_del_init_del: "list_del_init e h = INIT_LIST_HEAD e (list_del e h)"
  by (simp add: list_del_init_def list_del_def)

lemma list_del_init_links [simp]:
  "l_next (list_del_init e h) e = e" "l_prev (list_del_init e h) e = e"
  by (simp_all add: list_del_init_def INIT_LIST_HEAD_def)

lemma fam_del_init:
  assumes "list_family H h F" and "a \<in> H" and "e \<in> set (F a)"
  shows "list_family H (list_del_init e h) (F(a := remove1 e (F a)))"
  unfolding list_del_init_del
  using fam_INIT_other [OF fam_del [OF assms] fam_notin_after_del [OF assms]] .

lemma list_del_init_self:
  assumes "l_next h e = e" and "l_prev h e = e"
  shows "list_del_init e h = h"
proof -
  have "(l_next h)(e := e) = l_next h" "(l_prev h)(e := e) = l_prev h" using assms by auto
  then show ?thesis
    using list_del_self [OF assms] by (simp add: list_del_init_del INIT_LIST_HEAD_def set_next_def set_prev_def)
qed

lemma list_del_frame_other:
  assumes "list_family H h F" and "a \<in> H" and "e \<in> set (F a)" and "m \<notin> fam_nodes H F"
  shows "l_next (list_del_init e h) m = l_next h m" and "l_prev (list_del_init e h) m = l_prev h m"
proof -
  have "m \<notin> insert a (set (F a))" "m \<noteq> e" using assms(2,3,4) by (auto simp: fam_nodes_def)
  with list_del_frame [OF list_familyD [OF assms(1,2)] assms(3)]
  show "l_next (list_del_init e h) m = l_next h m" "l_prev (list_del_init e h) m = l_prev h m"
    by (simp_all add: list_del_init_del INIT_LIST_HEAD_def)
qed

text \<open>
  \<open>list_pop\<close> leaves the links of the popped node in place. A later \<open>list_del_init\<close> of that node
  follows them: whatever was put at the front of the list in between drops out of it.
\<close>

lemma list_del_init_stale:
  assumes li: "is_list h lh (x # y # ys)" and n: "n \<noteq> lh" "n \<notin> set (x # y # ys)"
  shows "is_list (list_del_init x (list_add_head n lh (snd (list_pop lh h)))) lh (y # ys)"
proof -
  define h1 where "h1 = list_del x h"
  define h2 where "h2 = list_add_head n lh h1"
  have pop: "snd (list_pop lh h) = h1" "is_list h1 lh (y # ys)"
    using list_pop_Cons [OF li] by (simp_all add: h1_def)
  have x: "x \<noteq> lh" "x \<notin> set (y # ys)" "y \<noteq> lh" "y \<notin> set ys" "lh \<notin> set ys" "distinct ys"
    using li by (auto simp: is_list_def)
  have keep: "l_next h1 x = y" "l_prev h1 x = lh"
    using list_del_keeps_links [of h lh "[]" x "y # ys"] is_list_neighbours [of h lh "[]" x "y # ys"] li
    by (simp_all add: h1_def)
  have li2: "is_list h2 lh (n # y # ys)"
    unfolding h2_def using n by (intro is_list_add_head [OF pop(2)]) auto
  have h2: "l_next h2 x = y" "l_prev h2 x = lh"
    using keep x n is_list_next [OF pop(2)] by (auto simp: h2_def list_add_head_def list_add_between_def Let_def)
  define h3 where "h3 = list_del_init x h2"
  have upd: "l_next h3 = (l_next h2)(lh := y, x := x)" "l_prev h3 = (l_prev h2)(y := lh, x := x)"
    by (simp_all add: h3_def list_del_init_def list_del_between_def INIT_LIST_HEAD_def h2)
  have "lseg h2 y ys lh" using li2 by (simp add: is_list_def)
  moreover have "\<forall>m \<in> insert y (set ys). l_next h3 m = l_next h2 m" "\<forall>m \<in> insert lh (set ys). l_prev h3 m = l_prev h2 m"
    using x by (auto simp: upd)
  ultimately have "lseg h3 y ys lh" by (rule lseg_frame)
  then have "is_list h3 lh (y # ys)" using x by (auto simp: is_list_def upd)
  then show ?thesis by (simp add: h3_def h2_def pop(1))
qed

subsection \<open>The contract of a set of intrusive lists\<close>

text \<open>
  What the schedulers, allocators and caches rely on: the four link operations act on the
  sequences as expected while every other list of the set is untouched.
\<close>

locale list_store =
  fixes heads :: "'a set"
    and rep :: "'h \<Rightarrow> ('a \<Rightarrow> 'a list) \<Rightarrow> bool"
    and add_head :: "'a \<Rightarrow> 'a \<Rightarrow> 'h \<Rightarrow> 'h"
    and add_tail :: "'a \<Rightarrow> 'a \<Rightarrow> 'h \<Rightarrow> 'h"
    and del :: "'a \<Rightarrow> 'h \<Rightarrow> 'h"
    and pop :: "'a \<Rightarrow> 'h \<Rightarrow> 'a option \<times> 'h"
  assumes rep_add_head:
      "rep h F \<Longrightarrow> a \<in> heads \<Longrightarrow> n \<notin> fam_nodes heads F \<Longrightarrow> rep (add_head n a h) (F(a := n # F a))"
    and rep_add_tail:
      "rep h F \<Longrightarrow> a \<in> heads \<Longrightarrow> n \<notin> fam_nodes heads F \<Longrightarrow> rep (add_tail n a h) (F(a := F a @ [n]))"
    and rep_del:
      "rep h F \<Longrightarrow> a \<in> heads \<Longrightarrow> e \<in> set (F a) \<Longrightarrow> rep (del e h) (F(a := remove1 e (F a)))"
    and rep_del_fresh:
      "rep h F \<Longrightarrow> a \<in> heads \<Longrightarrow> e \<in> set (F a) \<Longrightarrow> e \<notin> fam_nodes heads (F(a := remove1 e (F a)))"
    and rep_pop:
      "rep h F \<Longrightarrow> a \<in> heads \<Longrightarrow> F a = x # xs \<Longrightarrow>
         fst (pop a h) = Some x \<and> rep (snd (pop a h)) (F(a := xs)) \<and> x \<notin> fam_nodes heads (F(a := xs))"
    and rep_pop_empty: "rep h F \<Longrightarrow> a \<in> heads \<Longrightarrow> F a = [] \<Longrightarrow> pop a h = (None, h)"
begin

text \<open>Unlinking a node and putting it at the front of a list moves it.\<close>

lemma move_to_head:
  assumes "rep h F" and "a \<in> heads" and "b \<in> heads" and "e \<in> set (F a)"
  shows "rep (add_head e b (del e h))
           ((F(a := remove1 e (F a)))(b := e # (F(a := remove1 e (F a))) b))"
  using rep_add_head [OF rep_del [OF assms(1,2,4)] assms(3) rep_del_fresh [OF assms(1,2,4)]] .

lemma move_to_tail:
  assumes "rep h F" and "a \<in> heads" and "b \<in> heads" and "e \<in> set (F a)"
  shows "rep (add_tail e b (del e h))
           ((F(a := remove1 e (F a)))(b := (F(a := remove1 e (F a))) b @ [e]))"
  using rep_add_tail [OF rep_del [OF assms(1,2,4)] assms(3) rep_del_fresh [OF assms(1,2,4)]] .

text \<open>The node that \<open>add_head\<close> put there is the one \<open>pop\<close> returns.\<close>

lemma pop_add_head:
  assumes "rep h F" and "a \<in> heads" and "n \<notin> fam_nodes heads F"
  shows "fst (pop a (add_head n a h)) = Some n" and "rep (snd (pop a (add_head n a h))) F"
  using rep_pop [OF rep_add_head [OF assms] assms(2), of n "F a"] by simp_all

end

interpretation lists: list_store H "list_family H" list_add_head list_add_tail list_del list_pop
  for H :: "'a set"
proof (unfold_locales, goal_cases)
  case 1 then show ?case by (rule fam_add_head)
next
  case 2 then show ?case by (rule fam_add_tail)
next
  case 3 then show ?case by (rule fam_del)
next
  case 4 then show ?case by (rule fam_notin_after_del)
next
  case 5 then show ?case using fam_pop by fastforce
next
  case (6 h F a)
  then show ?case using list_pop_Nil list_familyD [OF 6(1,2)] by simp
qed

subsection \<open>Splicing\<close>

text \<open>
  \<open>list_splice_down\<close> cuts the nodes from \<open>left\<close> to \<open>right\<close> out of a list;
  \<open>list_splice_up_left\<close> and \<open>list_splice_up_right\<close> put such a run at the front or the back of
  another list.
\<close>

fun run :: "'a lheap \<Rightarrow> 'a list \<Rightarrow> bool" where
  "run h (x # y # ys) \<longleftrightarrow> l_next h x = y \<and> l_prev h y = x \<and> run h (y # ys)"
| "run h _ \<longleftrightarrow> True"

lemma lseg_run_rest:
  "lseg h l (ms @ xs) b \<longleftrightarrow> run h (l # ms) \<and> lseg h (last (l # ms)) xs b"
  by (induction ms arbitrary: l) auto

lemma run_frame:
  assumes "run h (l # ms)"
    and "\<forall>n \<in> set (butlast (l # ms)). l_next h' n = l_next h n"
    and "\<forall>n \<in> set ms. l_prev h' n = l_prev h n"
  shows "run h' (l # ms)"
  using assms by (induction ms arbitrary: l) auto

lemma splice_down_list:
  assumes li: "is_list h lh (xs @ (l # ms) @ ys)" and r: "r = last (l # ms)"
  shows "is_list (list_splice_down l r h) lh (xs @ ys)" and "run (list_splice_down l r h) (l # ms)"
proof -
  have "lseg h lh (xs @ l # (ms @ ys)) lh" using li by (simp add: is_list_def)
  then have seg: "lseg h lh xs l" "lseg h r ys lh" "run h (l # ms)"
    unfolding lseg_append lseg_run_rest [of h l ms ys lh] r by blast+
  from li have dist: "lh \<notin> set xs" "lh \<notin> set ys" "distinct xs" "distinct ys" "set xs \<inter> set ys = {}"
      "set xs \<inter> set (l # ms) = {}" "set (l # ms) \<inter> set ys = {}" "lh \<notin> set (l # ms)"
    unfolding is_list_def by auto
  define p where "p = (if xs = [] then lh else last xs)"
  define q where "q = (if ys = [] then lh else List.hd ys)"
  have pq: "l_prev h l = p" "l_next h r = q"
    using seg(1) apply (cases xs rule: rev_cases; simp add: p_def lseg_append)
    using seg(2) apply (cases ys; simp add: q_def)
    done
  have fresh: "p \<notin> set (l # ms)" "q \<notin> set (l # ms)"
    unfolding p_def q_def using dist by (intro last_notin_disjoint hd_notin_disjoint; simp)+
  moreover have "r \<in> set (l # ms)" unfolding r by (rule last_in_set) simp
  ultimately have "p \<noteq> r" by auto
  then have upd: "l_next (list_splice_down l r h) = (l_next h)(p := q)"
      "l_prev (list_splice_down l r h) = (l_prev h)(q := p)"
    by (simp_all add: list_splice_down_def Let_def pq)
  from seg(1,2) dist upd show "is_list (list_splice_down l r h) lh (xs @ ys)"
    unfolding p_def q_def by (intro is_list_bridge) auto
  from fresh show "run (list_splice_down l r h) (l # ms)"
    by (intro run_frame [OF seg(3)]) (auto simp: upd dest: in_set_butlastD)
qed

lemma splice_up_left_list:
  assumes li: "is_list h lh xs" and run: "run h (l # ms)" and r: "r = last (l # ms)"
    and new: "distinct (l # ms)" "lh \<notin> set (l # ms)" "set (l # ms) \<inter> set xs = {}"
  shows "is_list (list_splice_up_left lh l r h) lh ((l # ms) @ xs)"
proof -
  define q where "q = (if xs = [] then lh else List.hd xs)"
  define h' where "h' = list_splice_up_left lh l r h"
  have q: "l_next h lh = q" using li by (cases xs) (auto simp: is_list_def q_def)
  have rin: "r \<in> set (l # ms)" unfolding r by (rule last_in_set) simp
  have "q \<notin> set (l # ms)" unfolding q_def using new by (intro hd_notin_disjoint)
  with rin new(2) q have upd: "l_next h' = (l_next h)(r := q, lh := l)" "l_prev h' = (l_prev h)(l := lh, q := r)"
    by (auto simp: h'_def list_splice_up_left_def Let_def)
  have "r \<notin> set (butlast (l # ms))"
    unfolding r using new(1) by (intro last_notin_butlast) simp_all
  with new \<open>q \<notin> set (l # ms)\<close> have "run h' (l # ms)"
    by (intro run_frame [OF run]) (auto simp: upd simp del: butlast.simps dest: in_set_butlastD)
  moreover have "lseg h' r xs lh"
  proof (cases xs)
    case Nil
    with rin new(2) show ?thesis by (auto simp: upd q_def)
  next
    case (Cons v vs)
    then have "lseg h v vs lh" and "q = v" using li by (simp_all add: is_list_def q_def)
    have "r \<notin> set xs" "l \<notin> set xs" using rin new(3) by auto
    then have "r \<noteq> v" "r \<notin> set vs" "l \<notin> set vs" using Cons by auto
    moreover have "lh \<noteq> v" "lh \<notin> set vs" "v \<notin> set vs" using li Cons by (auto simp: is_list_def)
    moreover have "l \<noteq> lh" using new(2) by auto
    ultimately have fr: "\<forall>n \<in> insert v (set vs). l_next h' n = l_next h n"
      "\<forall>n \<in> insert lh (set vs). l_prev h' n = l_prev h n"
      unfolding upd \<open>q = v\<close> by auto
    have "lseg h' v vs lh" by (rule lseg_frame [OF \<open>lseg h v vs lh\<close> fr])
    with Cons \<open>q = v\<close> rin new(2) show ?thesis by (auto simp: upd)
  qed
  ultimately have "lseg h' lh ((l # ms) @ xs) lh"
    unfolding append_Cons lseg.simps lseg_run_rest using r \<open>q \<notin> set (l # ms)\<close> by (auto simp: upd)
  with li new show ?thesis unfolding h'_def [symmetric] by (auto simp: is_list_def)
qed

subsection \<open>The counted queue\<close>

record 'a fifo =
  fifo_size :: int
  fifo_list :: 'a

type_synonym 'a fifo_state = "'a fifo \<times> 'a lheap"

definition fifo_init :: "'a fifo_state \<Rightarrow> 'a fifo_state" where
  "fifo_init q = (case q of (f, h) \<Rightarrow> (f\<lparr>fifo_size := 0\<rparr>, INIT_LIST_HEAD (fifo_list f) h))"

definition fifo_push :: "'a \<Rightarrow> 'a fifo_state \<Rightarrow> 'a fifo_state" where
  "fifo_push e q = (case q of (f, h) \<Rightarrow>
     (f\<lparr>fifo_size := fifo_size f + 1\<rparr>, list_add_tail e (fifo_list f) h))"

definition fifo_empty :: "'a fifo_state \<Rightarrow> bool" where
  "fifo_empty q \<longleftrightarrow> fifo_size (fst q) = 0"

definition fifo_pop :: "'a fifo_state \<Rightarrow> 'a option \<times> 'a fifo_state" where
  "fifo_pop q = (case q of (f, h) \<Rightarrow>
     if list_empty (fifo_list f) h then (None, q)
     else (let f = f\<lparr>fifo_size := fifo_size f - 1\<rparr>; (r, h) = list_pop (fifo_list f) h
           in (r, (f, h))))"

definition fifo_rep :: "'a fifo_state \<Rightarrow> 'a list \<Rightarrow> bool" where
  "fifo_rep q xs \<longleftrightarrow>
     is_list (snd q) (fifo_list (fst q)) xs \<and> fifo_size (fst q) = int (length xs)"

text \<open>\<open>drain pop n q\<close> is \<open>n\<close> pops in a row, with the elements they return.\<close>

fun drain :: "('q \<Rightarrow> 'a option \<times> 'q) \<Rightarrow> nat \<Rightarrow> 'q \<Rightarrow> 'a option list \<times> 'q" where
  "drain pop 0 q = ([], q)"
| "drain pop (Suc n) q = (let (r, q) = pop q; (rs, q) = drain pop n q in (r # rs, q))"

locale fifo_contract =
  fixes rep :: "'q \<Rightarrow> 'a list \<Rightarrow> bool"
    and adm :: "'q \<Rightarrow> 'a \<Rightarrow> bool"
    and push :: "'a \<Rightarrow> 'q \<Rightarrow> 'q"
    and pop :: "'q \<Rightarrow> 'a option \<times> 'q"
  assumes rep_push: "rep q xs \<Longrightarrow> adm q n \<Longrightarrow> n \<notin> set xs \<Longrightarrow> rep (push n q) (xs @ [n])"
    and adm_push: "adm (push n q) m \<longleftrightarrow> adm q m"
    and rep_pop: "rep q (x # xs) \<Longrightarrow> fst (pop q) = Some x \<and> rep (snd (pop q)) xs"
    and rep_pop_empty: "rep q [] \<Longrightarrow> pop q = (None, q)"
begin

lemma rep_push_all:
  assumes "rep q xs" and "\<forall>n \<in> set ns. adm q n" and "distinct (xs @ ns)"
  shows "rep (fold push ns q) (xs @ ns)"
  using assms
proof (induction ns arbitrary: q xs)
  case (Cons n ns)
  from Cons.prems have "rep (push n q) (xs @ [n])" by (intro rep_push) auto
  from Cons.IH [OF this] Cons.prems show ?case by (simp add: adm_push)
qed simp

lemma drain_rep:
  assumes "rep q (xs @ ys)"
  shows "fst (drain pop (length xs) q) = List.map Some xs \<and> rep (snd (drain pop (length xs) q)) ys"
  using assms
proof (induction xs arbitrary: q)
  case (Cons x xs)
  from rep_pop [of q x "xs @ ys"] Cons.prems Cons.IH [of "snd (pop q)"] show ?case
    by (auto simp: Let_def split: prod.splits)
qed simp

text \<open>Elements leave in the order in which they came, and nothing is left over.\<close>

lemma first_in_first_out:
  assumes "rep q []" and "\<forall>n \<in> set ns. adm q n" and "distinct ns"
  shows "fst (drain pop (length ns) (fold push ns q)) = List.map Some ns"
    and "rep (snd (drain pop (length ns) (fold push ns q))) []"
  using drain_rep [of "fold push ns q" ns "[]"] rep_push_all [OF assms(1,2)] assms(3) by simp_all

end

lemma fifo_rep_push:
  "fifo_rep q xs \<Longrightarrow> n \<noteq> fifo_list (fst q) \<Longrightarrow> n \<notin> set xs \<Longrightarrow> fifo_rep (fifo_push n q) (xs @ [n])"
  by (cases q) (simp add: fifo_rep_def fifo_push_def is_list_add_tail)

lemma fifo_list_push [simp]: "fifo_list (fst (fifo_push n q)) = fifo_list (fst q)"
  by (cases q) (simp add: fifo_push_def)

lemma fifo_rep_pop:
  assumes "fifo_rep q (x # xs)"
  shows "fst (fifo_pop q) = Some x \<and> fifo_rep (snd (fifo_pop q)) xs"
proof -
  obtain f h where q: "q = (f, h)" by (cases q)
  with assms have li: "is_list h (fifo_list f) (x # xs)" and "fifo_size f = 1 + int (length xs)"
    by (simp_all add: fifo_rep_def)
  with list_pop_Cons [OF li] is_list_empty [OF li] show ?thesis
    by (simp add: q fifo_rep_def fifo_pop_def)
qed

lemma fifo_rep_pop_empty: "fifo_rep q [] \<Longrightarrow> fifo_pop q = (None, q)"
  by (cases q) (simp add: fifo_rep_def fifo_pop_def list_empty_def)

lemma fifo_rep_init: "fifo_rep (fifo_init q) []"
  by (cases q) (simp add: fifo_rep_def fifo_init_def is_list_INIT [unfolded is_list_Nil])

lemma fifo_rep_empty: "fifo_rep q xs \<Longrightarrow> fifo_empty q \<longleftrightarrow> xs = []"
  by (simp add: fifo_rep_def fifo_empty_def)

interpretation fq: fifo_contract fifo_rep "\<lambda>q n. n \<noteq> fifo_list (fst q)" fifo_push fifo_pop
  by unfold_locales (simp_all add: fifo_rep_push fifo_rep_pop fifo_rep_pop_empty)

subsection \<open>Properties\<close>

text \<open>A splice touches no list that is disjoint from the one it cuts from or pastes into.\<close>

lemma splice_down_other:
  assumes li: "is_list h lh (xs @ (l # ms) @ ys)" and r: "r = last (l # ms)"
    and other: "is_list h b zs" "insert lh (set (xs @ (l # ms) @ ys)) \<inter> insert b (set zs) = {}"
  shows "is_list (list_splice_down l r h) b zs"
proof -
  have "l_prev h l \<in> insert lh (set xs)"
    using is_list_neighbours(1) [of h lh xs l "ms @ ys"] li by simp
  moreover have "xs @ (l # ms) @ ys = (xs @ butlast (l # ms)) @ r # ys" unfolding r by simp
  with li have "is_list h lh ((xs @ butlast (l # ms)) @ r # ys)" by (simp only:)
  then have "l_next h r \<in> insert lh (set ys)" using is_list_neighbours(2) by fastforce
  ultimately have ends: "n \<noteq> l_prev h l \<and> n \<noteq> l_next h r" if "n = b \<or> n \<in> set zs" for n
    using other(2) that by auto
  have "is_list (list_splice_down l r h) b zs \<longleftrightarrow> is_list h b zs"
    by (rule is_list_cong) (use ends in \<open>simp_all add: list_splice_down_def Let_def\<close>)
  with other(1) show ?thesis by simp
qed

lemma splice_up_left_other:
  assumes li: "is_list h lh xs" and r: "r = last (l # ms)"
    and other: "is_list h b zs" "insert lh (set (l # ms) \<union> set xs) \<inter> insert b (set zs) = {}"
  shows "is_list (list_splice_up_left lh l r h) b zs"
proof -
  have "l_next h lh \<in> insert lh (set xs)" using li by (cases xs) (auto simp: is_list_def)
  moreover have "r \<in> set (l # ms)" unfolding r by (rule last_in_set) simp
  ultimately have ends: "n \<noteq> l_next h lh \<and> n \<noteq> lh \<and> n \<noteq> l \<and> n \<noteq> r" if "n = b \<or> n \<in> set zs" for n
    using other(2) that by auto
  have "is_list (list_splice_up_left lh l r h) b zs \<longleftrightarrow> is_list h b zs"
    by (rule is_list_cong) (use ends in \<open>simp_all add: list_splice_up_left_def Let_def\<close>)
  with other(1) show ?thesis by simp
qed

text \<open>cutting a run of nodes out of one list with \<open>list_splice_down\<close> and pasting it into another
  with \<open>list_splice_up_left\<close> moves exactly these nodes, in order, to the front of the other list, as
  a traversal with \<open>list_for_each\<close> shows.\<close>

theorem splice_moves_run:
  assumes "is_list h a (xs @ (l # ms) @ ys)" and "is_list h b zs" and "r = last (l # ms)"
    and "insert a (set (xs @ (l # ms) @ ys)) \<inter> insert b (set zs) = {}"
  shows "list_for_each a (list_splice_up_left b l r (list_splice_down l r h)) = Some (xs @ ys) \<and>
         list_for_each b (list_splice_up_left b l r (list_splice_down l r h)) = Some ((l # ms) @ zs)"
proof -
  let ?h1 = "list_splice_down l r h" and ?h2 = "list_splice_up_left b l r (list_splice_down l r h)"
  note cut = splice_down_list [OF assms(1,3)]
  have b1: "is_list ?h1 b zs" by (rule splice_down_other [OF assms(1,3,2,4)])
  have new: "distinct (l # ms)" "b \<notin> set (l # ms)" "set (l # ms) \<inter> set zs = {}"
    using assms(1,4) by (auto simp: is_list_def)
  have b2: "is_list ?h2 b ((l # ms) @ zs)" by (rule splice_up_left_list [OF b1 cut(2) assms(3) new])
  have "insert b (set (l # ms) \<union> set zs) \<inter> insert a (set (xs @ ys)) = {}"
    using assms(1,4) by (auto simp: is_list_def)
  then have a2: "is_list ?h2 a (xs @ ys)" by (rule splice_up_left_other [OF b1 assms(3) cut(1)])
  show ?thesis using list_for_each_is_list(1) [OF a2] list_for_each_is_list(1) [OF b2] by simp
qed

text \<open>Two heads, 0 and 1, with three nodes on the first list.\<close>

definition two_lists :: "nat lheap" where
  "two_lists = list_add_tail 12 0 (list_add_tail 11 0 (list_add_tail 10 0 \<lparr>l_prev = id, l_next = id\<rparr>))"

lemma two_lists_rep: "is_list two_lists 0 [10, 11, 12]" "is_list two_lists 1 []"
  by (simp_all add: two_lists_def is_list_def list_op_defs)

theorem splice_moves_run_witness:
  "list_for_each 0 (list_splice_up_left 1 10 11 (list_splice_down 10 11 two_lists)) = Some [12] \<and>
   list_for_each 1 (list_splice_up_left 1 10 11 (list_splice_down 10 11 two_lists)) = Some [10, 11]"
  using splice_moves_run [of two_lists 0 "[]" 10 "[11]" "[12]" 1 "[]" 11] two_lists_rep by simp

text \<open>C31: the queue of \<open>fifo.h\<close> is first-in first-out: after \<open>fifo_init\<close>, the pops that follow any
  sequence of pushes of distinct nodes return the nodes in the order they were pushed, and the queue
  is empty again.\<close>

theorem fifo_is_first_in_first_out:
  assumes "distinct ns" and "fifo_list (fst q) \<notin> set ns"
  shows "fst (drain fifo_pop (length ns) (fold fifo_push ns (fifo_init q))) = List.map Some ns \<and>
         fifo_empty (snd (drain fifo_pop (length ns) (fold fifo_push ns (fifo_init q))))"
proof -
  have "fifo_list (fst (fifo_init q)) = fifo_list (fst q)" by (cases q) (simp add: fifo_init_def)
  with assms(2) have "\<forall>n \<in> set ns. n \<noteq> fifo_list (fst (fifo_init q))" by auto
  from fq.first_in_first_out [OF fifo_rep_init this assms(1)] show ?thesis by (simp add: fifo_rep_empty)
qed

theorem fifo_is_first_in_first_out_witness:
  "fst (drain fifo_pop 3 (fold fifo_push [5, 3, 4] (fifo_init (\<lparr>fifo_size = 9, fifo_list = 0\<rparr>, two_lists)))) =
     [Some 5, Some 3, Some 4]"
  using fifo_is_first_in_first_out [of "[5, 3, 4]" "(\<lparr>fifo_size = 9, fifo_list = 0\<rparr>, two_lists)"]
  by (simp del: drain.simps add: numeral_3_eq_3)

text \<open>C38: \<open>list_pop\<close> leaves the links of the popped node as they were; when the node is deleted a
  second time with \<open>list_del_init\<close>, a node inserted at the front in between is lost from the list.\<close>

theorem popped_node_deleted_twice:
  assumes "is_list h lh (x # y # ys)" and "n \<noteq> lh" and "n \<notin> set (x # y # ys)"
  shows "list_for_each lh (list_add_head n lh (snd (list_pop lh h))) = Some (n # y # ys) \<and>
         list_for_each lh (list_del_init x (list_add_head n lh (snd (list_pop lh h)))) = Some (y # ys)"
proof -
  have "is_list (snd (list_pop lh h)) lh (y # ys)" using list_pop_Cons [OF assms(1)] by simp
  then have "is_list (list_add_head n lh (snd (list_pop lh h))) lh (n # y # ys)"
    using assms(2,3) by (intro is_list_add_head) auto
  with list_del_init_stale [OF assms] show ?thesis by (simp add: list_for_each_is_list)
qed

theorem popped_node_deleted_twice_witness:
  "list_for_each 0 (list_del_init 10 (list_add_head 7 0 (snd (list_pop 0 two_lists)))) = Some [11, 12]"
  using popped_node_deleted_twice [OF two_lists_rep(1), of 7] by simp

end
