(* ===== verification/Bitmap.thy ===== *)
theory Bitmap
  imports Kprelude
begin

text \<open>
  include/lib/bitmap.h and lib/bitmap.c: the bit allocator easyfs uses for inode and block
  numbers. The map is the array of 64-bit words behind the \<open>map\<close> pointer; reading a word
  outside it is a \<open>Fault\<close>. The invariant ties \<open>unused\<close> to the number of clear bits below \<open>size\<close>
  and says what \<open>allocation\<close> is for: no index below it is free. Easyfs never gives out index 0 but
  leaves its bit clear, and takes \<open>unused\<close> from a super block that may count too many; the invariant
  \<open>zone_wf r e\<close> counts the indices below \<open>r\<close> as taken and lets \<open>unused\<close> be \<open>e\<close> too high. The locale
  \<open>id_source\<close> is the contract of a source of numbers that easyfs relies on, \<open>id_allocator\<close> the stronger one
  of an allocator that also says when it is exhausted.
\<close>

subsection \<open>Data and operations\<close>

record bitmap =
  map :: "u64 list"
  size_b :: int
  unused :: int
  allocation :: int

text \<open>\<open>memset(map, 0, n)\<close> on an array of little-endian words: the low bytes of a word come first.\<close>

definition clear_bytes :: "nat \<Rightarrow> u64 list \<Rightarrow> u64 list" where
  "clear_bytes n ws =
     List.map (\<lambda>(i, w). w AND NOT (mask (8 * min 8 (n - 8 * i)))) (enumerate 0 ws)"

definition bitmap_init :: "u64 list \<Rightarrow> int \<Rightarrow> bitmap" where
  "bitmap_init m size_bits =
     \<lparr>map = clear_bytes (nat ((size_bits + 7) div 8)) m, size_b = size_bits, unused = size_bits,
      allocation = 0\<rparr>"

definition bitmap_init_zone :: "u64 list \<Rightarrow> int \<Rightarrow> bitmap" where
  "bitmap_init_zone m size_bits =
     \<lparr>map = m, size_b = size_bits, unused = size_bits, allocation = 0\<rparr>"

definition bitmap_reset_unused :: "int \<Rightarrow> bitmap \<Rightarrow> bitmap" where
  "bitmap_reset_unused u bmp = bmp\<lparr>unused := u\<rparr>"

text \<open>The inner loop: the first clear bit of a word from \<open>b\<close> on.\<close>

function find_zero :: "u64 \<Rightarrow> nat \<Rightarrow> nat option" where
  "find_zero w b =
     (if b < 64 then (if w AND push_bit b 1 = 0 then Some b else find_zero w (b + 1)) else None)"
  by pat_completeness auto
termination
  by (relation "measure (\<lambda>(_, b). 64 - b)") auto

text \<open>The outer loop over the words from \<open>i\<close> to \<open>total_blocks\<close>.\<close>

function bitmap_alloc_loop :: "nat \<Rightarrow> nat \<Rightarrow> nat \<Rightarrow> nat \<Rightarrow> bitmap \<Rightarrow> (int \<times> bitmap) kres" where
  "bitmap_alloc_loop start_block start_bit total_blocks i bmp =
     (if i < total_blocks then
        if i \<ge> length (map bmp) then Inl (Fault ''bitmap map'')
        else if map bmp ! i \<noteq> - 1 then
          (case find_zero (map bmp ! i) (if i = start_block then start_bit else 0) of
             Some b \<Rightarrow>
               (let res = int i * 64 + int b in
                if res > size_b bmp then Inr (- 1, bmp)
                else Inr (res, bmp\<lparr>map := (map bmp)[i := map bmp ! i OR push_bit b 1],
                                   unused := unused bmp - 1, allocation := res + 1\<rparr>))
           | None \<Rightarrow> bitmap_alloc_loop start_block start_bit total_blocks (i + 1) bmp)
        else bitmap_alloc_loop start_block start_bit total_blocks (i + 1) bmp
      else Inr (- 1, bmp))"
  by pat_completeness auto
termination
  by (relation "measure (\<lambda>(_, _, total_blocks, i, _). total_blocks - i)") auto

definition bitmap_alloc :: "bitmap \<Rightarrow> (int \<times> bitmap) kres" where
  "bitmap_alloc bmp =
     (if unused bmp = 0 then Inr (- 1, bmp)
      else
        let total_blocks = nat ((size_b bmp + 63) div 64);
            start_block = nat (allocation bmp div 64);
            start_bit = nat (allocation bmp mod 64)
        in bitmap_alloc_loop start_block start_bit total_blocks start_block bmp)"

definition bitmap_free :: "int \<Rightarrow> bitmap \<Rightarrow> bitmap kres" where
  "bitmap_free index bmp =
     (if index < 0 \<or> index \<ge> size_b bmp then Inr bmp
      else
        let map_index = nat (index div 64);
            b = nat (index mod 64);
            bmp = (if index < allocation bmp then bmp\<lparr>allocation := index\<rparr> else bmp)
        in if map_index \<ge> length (map bmp) then Inl (Fault ''bitmap map'')
           else if map bmp ! map_index AND push_bit b 1 \<noteq> 0 then
             Inr (bmp\<lparr>map := (map bmp)[map_index := map bmp ! map_index AND NOT (push_bit b 1)],
                      unused := unused bmp + 1\<rparr>)
           else Inr bmp)"

definition bitmap_is_free :: "int \<Rightarrow> bitmap \<Rightarrow> int kres" where
  "bitmap_is_free index bmp =
     (if index < 0 \<or> index \<ge> size_b bmp then Inr (- 1)
      else
        let map_index = nat (index div 64); b = nat (index mod 64)
        in if map_index \<ge> length (map bmp) then Inl (Fault ''bitmap map'')
           else Inr (if map bmp ! map_index AND push_bit b 1 = 0 then 1 else 0))"

definition bitmap_reset_allo :: "int \<Rightarrow> bitmap \<Rightarrow> bitmap kres" where
  "bitmap_reset_allo start bmp =
     bindR (bitmap_alloc (bmp\<lparr>allocation := start\<rparr>)) (\<lambda>(index, bmp). bitmap_free index bmp)"

declare find_zero.simps [simp del] bitmap_alloc_loop.simps [simp del]

subsection \<open>The set of used indices and the invariant\<close>

definition used_at :: "u64 list \<Rightarrow> nat \<Rightarrow> bool" where
  "used_at ws n \<longleftrightarrow> bit (ws ! (n div 64)) (n mod 64)"

definition used :: "bitmap \<Rightarrow> nat set" where
  "used bmp = {n. int n < size_b bmp \<and> used_at (map bmp) n}"

definition bitmap_wf :: "bitmap \<Rightarrow> bool" where
  "bitmap_wf bmp \<longleftrightarrow>
     0 \<le> size_b bmp \<and> size_b bmp \<le> 64 * int (length (map bmp)) \<and>
     0 \<le> allocation bmp \<and> (\<forall>n. int n < allocation bmp \<longrightarrow> int n < size_b bmp \<longrightarrow> n \<in> used bmp) \<and>
     unused bmp = size_b bmp - int (card (used bmp))"

text \<open>The same with the first \<open>r\<close> indices reserved, whatever their bits are, and \<open>e\<close> too many counted as unused.\<close>

definition busy :: "nat \<Rightarrow> bitmap \<Rightarrow> nat set" where
  "busy r bmp = used bmp \<union> {..< r}"

definition zone_wf :: "nat \<Rightarrow> nat \<Rightarrow> bitmap \<Rightarrow> bool" where
  "zone_wf r e bmp \<longleftrightarrow>
     int r \<le> size_b bmp \<and> size_b bmp \<le> 64 * int (length (map bmp)) \<and>
     int r \<le> allocation bmp \<and> (\<forall>n. int n < allocation bmp \<longrightarrow> int n < size_b bmp \<longrightarrow> n \<in> busy r bmp) \<and>
     unused bmp = size_b bmp - int (card (busy r bmp)) + int e"

lemma busy_0 [simp]: "busy 0 = used"
  by (simp add: busy_def fun_eq_iff)

lemma bitmap_wf_zone: "bitmap_wf bmp \<longleftrightarrow> zone_wf 0 0 bmp"
  by (simp add: bitmap_wf_def zone_wf_def)

lemma find_zero_step:
  "find_zero w b = (if b < 64 then if bit w b then find_zero w (Suc b) else Some b else None)"
  by (subst find_zero.simps) (simp add: and_bit_mask_eq_0)

lemma find_zero_Some:
  "find_zero w b = Some c \<Longrightarrow> b \<le> c \<and> c < 64 \<and> \<not> bit w c \<and> (\<forall>k. b \<le> k \<longrightarrow> k < c \<longrightarrow> bit w k)"
proof (induction w b rule: find_zero.induct)
  case (1 w b)
  show ?case
  proof (cases "b < 64 \<and> bit w b")
    case True
    with 1 have "Suc b \<le> c \<and> c < 64 \<and> \<not> bit w c \<and> (\<forall>k. Suc b \<le> k \<longrightarrow> k < c \<longrightarrow> bit w k)"
      by (simp add: find_zero_step [of w b] and_bit_mask_eq_0)
    moreover have "Suc b \<le> k" if "b \<le> k" "k \<noteq> b" for k using that by simp
    ultimately show ?thesis using True by (metis Suc_leD)
  next
    case False
    with 1 show ?thesis by (auto simp: find_zero_step [of w b] split: if_splits)
  qed
qed

lemma find_zero_None: "find_zero w b = None \<Longrightarrow> b \<le> k \<Longrightarrow> k < 64 \<Longrightarrow> bit w k"
proof (induction w b rule: find_zero.induct)
  case (1 w b)
  then have "b < 64" by simp
  with 1 have "bit w b" "find_zero w (b + 1) = None"
    by (auto simp: find_zero_step [of w b] split: if_splits)
  with 1 \<open>b < 64\<close> show ?case by (cases "k = b") (simp_all add: and_bit_mask_eq_0)
qed

lemma div_mod_eq_iff: "(k :: nat) div 64 = n div 64 \<and> k mod 64 = n mod 64 \<longleftrightarrow> k = n"
  by (metis div_mult_mod_eq)

lemma used_at_set:
  assumes "n div 64 < length ws"
  shows "used_at (ws[n div 64 := ws ! (n div 64) OR push_bit (n mod 64) 1]) k \<longleftrightarrow> used_at ws k \<or> k = n"
  using assms div_mod_eq_iff [of k n]
  by (cases "k div 64 = n div 64") (auto simp: used_at_def bit_or_mask)

lemma used_at_clear:
  assumes "n div 64 < length ws"
  shows "used_at (ws[n div 64 := ws ! (n div 64) AND NOT (push_bit (n mod 64) 1)]) k \<longleftrightarrow> used_at ws k \<and> k \<noteq> n"
  using assms div_mod_eq_iff [of k n]
  by (cases "k div 64 = n div 64") (auto simp: used_at_def bit_clear_mask)

lemma used_at_word: "c < 64 \<Longrightarrow> used_at ws (64 * i + c) \<longleftrightarrow> bit (ws ! i) c"
  by (simp add: used_at_def)

subsection \<open>Allocation finds the first free index\<close>

definition take_bit_at :: "nat \<Rightarrow> bitmap \<Rightarrow> bitmap" where
  "take_bit_at n bmp =
     bmp\<lparr>map := (map bmp)[n div 64 := map bmp ! (n div 64) OR push_bit (n mod 64) 1],
         unused := unused bmp - 1, allocation := int n + 1\<rparr>"

lemma bitmap_fields:
  "map (bmp\<lparr>map := w, unused := u, allocation := a\<rparr>) = w" "size_b (bmp\<lparr>map := w, unused := u, allocation := a\<rparr>) = size_b bmp"
  "unused (bmp\<lparr>map := w, unused := u, allocation := a\<rparr>) = u" "allocation (bmp\<lparr>map := w, unused := u, allocation := a\<rparr>) = a"
  by simp_all

lemma take_bit_fields:
  "map (take_bit_at n bmp) = (map bmp)[n div 64 := map bmp ! (n div 64) OR push_bit (n mod 64) 1]"
  "size_b (take_bit_at n bmp) = size_b bmp" "unused (take_bit_at n bmp) = unused bmp - 1"
  "allocation (take_bit_at n bmp) = int n + 1"
  unfolding take_bit_at_def by (rule bitmap_fields)+

lemma alloc_start_bit:
  "(s :: nat) \<le> 64 * i + c \<longleftrightarrow> (if i = s div 64 then s mod 64 else 0) \<le> c"
  if "s div 64 \<le> i" "c < 64"
proof (cases "i = s div 64")
  case True
  have "s = 64 * (s div 64) + s mod 64" by simp
  then have "s \<le> 64 * i + c \<longleftrightarrow> s mod 64 \<le> c" using True by linarith
  with True show ?thesis by simp
next
  case False
  with that have "Suc (s div 64) \<le> i" by simp
  then have "64 * Suc (s div 64) \<le> 64 * i" by (rule mult_le_mono2)
  with False show ?thesis by simp
qed

lemma bitmap_alloc_loop_first:
  assumes free: "s \<le> n" "\<not> used_at (map bmp) n" "\<And>k. s \<le> k \<Longrightarrow> k < n \<Longrightarrow> used_at (map bmp) k"
    and size: "int n < size_b bmp" "n div 64 < total_blocks" "total_blocks \<le> length (map bmp)"
    and i: "s div 64 \<le> i" "i \<le> n div 64"
  shows "bitmap_alloc_loop (s div 64) (s mod 64) total_blocks i bmp = Inr (int n, take_bit_at n bmp)"
  using i
proof (induction "n div 64 - i" arbitrary: i)
  case (0 i)
  then have i: "i = n div 64" by simp
  let ?b = "if i = s div 64 then s mod 64 else 0"
  have n: "n = 64 * i + n mod 64" using i by simp
  then have clear: "\<not> bit (map bmp ! i) (n mod 64)"
    using free(2) used_at_word [of "n mod 64" "map bmp" i] by simp
  have b: "?b \<le> n mod 64" using alloc_start_bit [of s i "n mod 64"] 0(2) free(1) n by simp
  have "find_zero (map bmp ! i) ?b = Some (n mod 64)"
  proof (cases "find_zero (map bmp ! i) ?b")
    case None
    from find_zero_None [OF this b] clear show ?thesis by simp
  next
    case (Some c)
    note c = find_zero_Some [OF Some]
    have "\<not> n mod 64 < c" using c b clear by blast
    moreover have "\<not> c < n mod 64"
    proof
      assume "c < n mod 64"
      with n have "64 * i + c < n" by simp
      moreover have "s \<le> 64 * i + c" using alloc_start_bit [of s i c] 0(2) c by simp
      ultimately show False using free(3) c used_at_word by blast
    qed
    ultimately show ?thesis using Some by simp
  qed
  moreover have "map bmp ! i \<noteq> - 1" using clear by (auto simp: bit_simps)
  moreover have "int i * 64 + int (n mod 64) = int n" using n by linarith
  ultimately show ?case
    using i size by (subst bitmap_alloc_loop.simps) (simp add: take_bit_at_def Let_def)
next
  case (Suc d i)
  let ?b = "if i = s div 64 then s mod 64 else 0"
  from Suc have lt: "i < n div 64" by simp
  have "find_zero (map bmp ! i) ?b = None"
  proof (cases "find_zero (map bmp ! i) ?b")
    case (Some c)
    note c = find_zero_Some [OF Some]
    have "64 * i + c < n" using lt c by linarith
    moreover have "s \<le> 64 * i + c" using alloc_start_bit [of s i c] Suc.prems c by simp
    ultimately show ?thesis using free(3) c used_at_word by blast
  qed
  moreover have "bitmap_alloc_loop (s div 64) (s mod 64) total_blocks (i + 1) bmp = Inr (int n, take_bit_at n bmp)"
    using Suc lt by simp
  ultimately show ?case
    using lt size by (subst bitmap_alloc_loop.simps) simp
qed

lemma used_subset: "used bmp \<subseteq> {n. int n < size_b bmp}"
  by (auto simp: used_def)

lemma below_size: "{n. int n < size_b bmp} = {..< nat (size_b bmp)}"
  by auto

lemma finite_used [simp]: "finite (used bmp)"
  using finite_subset [OF used_subset [of bmp]] by (simp add: below_size)

lemma finite_busy [simp]: "finite (busy r bmp)"
  by (simp add: busy_def)

lemma busy_subset: "zone_wf r e bmp \<Longrightarrow> busy r bmp \<subseteq> {n. int n < size_b bmp}"
  using used_subset by (auto simp: busy_def zone_wf_def)

lemma busy_full_iff:
  assumes "zone_wf r e bmp"
  shows "int (card (busy r bmp)) = size_b bmp \<longleftrightarrow> busy r bmp = {n. int n < size_b bmp}"
proof
  assume "int (card (busy r bmp)) = size_b bmp"
  then have "card (busy r bmp) = card {..< nat (size_b bmp)}" by simp
  moreover have "busy r bmp \<subseteq> {..< nat (size_b bmp)}" using busy_subset [OF assms] unfolding below_size .
  ultimately have "busy r bmp = {..< nat (size_b bmp)}" by (intro card_subset_eq) simp_all
  then show "busy r bmp = {n. int n < size_b bmp}" by (simp only: below_size)
next
  assume "busy r bmp = {n. int n < size_b bmp}"
  then have "card (busy r bmp) = nat (size_b bmp)" by (simp only: below_size card_lessThan)
  with assms show "int (card (busy r bmp)) = size_b bmp" by (simp add: zone_wf_def)
qed

lemma used_take_bit_at:
  assumes "int n < size_b bmp" and "size_b bmp \<le> 64 * int (length (map bmp))"
  shows "used (take_bit_at n bmp) = insert n (used bmp)"
proof -
  have l: "n div 64 < length (map bmp)" using assms by linarith
  show ?thesis unfolding used_def take_bit_fields used_at_set [OF l] using assms(1) by blast
qed

text \<open>
  On a well-formed bitmap, \<open>bitmap_alloc\<close> takes the smallest index that is not taken, fails exactly
  when there is none, and keeps the bitmap well-formed.
\<close>

lemma bitmap_alloc_full:
  assumes wf: "zone_wf r 0 bmp" and "busy r bmp = {n. int n < size_b bmp}"
  shows "bitmap_alloc bmp = Inr (- 1, bmp)"
proof -
  have "unused bmp = 0" using assms busy_full_iff [OF wf] by (simp add: zone_wf_def)
  then show ?thesis by (simp add: bitmap_alloc_def)
qed

lemma bitmap_alloc_zone:
  assumes wf: "zone_wf r e bmp" and False: "busy r bmp \<noteq> {n. int n < size_b bmp}" and n_def: "n = (LEAST n. n \<notin> busy r bmp)"
  shows "bitmap_alloc bmp = Inr (int n, take_bit_at n bmp) \<and> int n < size_b bmp \<and>
    n \<notin> busy r bmp \<and> busy r (take_bit_at n bmp) = insert n (busy r bmp) \<and> zone_wf r e (take_bit_at n bmp)"
proof -
  from wf have size: "int r \<le> size_b bmp" "size_b bmp \<le> 64 * int (length (map bmp))" "int r \<le> allocation bmp"
    and low: "\<And>n. int n < allocation bmp \<Longrightarrow> int n < size_b bmp \<Longrightarrow> n \<in> busy r bmp"
    and unused: "unused bmp = size_b bmp - int (card (busy r bmp)) + int e"
    by (auto simp: zone_wf_def)
  from False busy_subset [OF wf] obtain m where m: "int m < size_b bmp" "m \<notin> busy r bmp" by auto
  have n: "n \<notin> busy r bmp" "\<And>k. k < n \<Longrightarrow> k \<in> busy r bmp" "n \<le> m"
    unfolding n_def using LeastI [of "\<lambda>n. n \<notin> busy r bmp" m] Least_le [of "\<lambda>n. n \<notin> busy r bmp" m] m(2)
    by (blast dest: not_less_Least)+
  then have nsize: "int n < size_b bmp" using m by simp
  have "int n \<ge> allocation bmp" using low [of n] n(1) nsize by linarith
  then have start: "nat (allocation bmp) \<le> n" by simp
  have "card (busy r bmp) < card {..< nat (size_b bmp)}"
    using False busy_subset [OF wf] unfolding below_size by (intro psubset_card_mono) auto
  then have "unused bmp \<noteq> 0" using unused by simp
  moreover have "nat (allocation bmp div 64) = nat (allocation bmp) div 64"
    "nat (allocation bmp mod 64) = nat (allocation bmp) mod 64"
    using size(3) by (simp_all add: nat_div_distrib nat_mod_distrib)
  moreover have "bitmap_alloc_loop (nat (allocation bmp) div 64) (nat (allocation bmp) mod 64)
      (nat ((size_b bmp + 63) div 64)) (nat (allocation bmp) div 64) bmp = Inr (int n, take_bit_at n bmp)"
  proof (rule bitmap_alloc_loop_first [OF start])
    show "\<not> used_at (map bmp) n" using n(1) nsize by (simp add: busy_def used_def)
    show "used_at (map bmp) k" if "nat (allocation bmp) \<le> k" "k < n" for k
      using n(2) [OF that(2)] that(1) size(3) by (auto simp: busy_def used_def)
    show "n div 64 < nat ((size_b bmp + 63) div 64)" using nsize by linarith
    show "nat ((size_b bmp + 63) div 64) \<le> length (map bmp)" using size by linarith
  qed (use start nsize in \<open>auto intro: div_le_mono\<close>)
  ultimately have alloc: "bitmap_alloc bmp = Inr (int n, take_bit_at n bmp)"
    by (simp add: bitmap_alloc_def Let_def)
  have busy': "busy r (take_bit_at n bmp) = insert n (busy r bmp)"
    using used_take_bit_at [OF nsize size(2)] by (simp add: busy_def)
  have "k \<in> insert n (busy r bmp)" if "int k < int n + 1" for k
    using that n(2) by (cases "k = n") auto
  moreover have "int (card (insert n (busy r bmp))) = int (card (busy r bmp)) + 1" using n(1) by simp
  moreover have "r \<le> n" using n(1) by (simp add: busy_def)
  ultimately have "zone_wf r e (take_bit_at n bmp)"
    unfolding zone_wf_def busy' take_bit_fields length_list_update using size unused by simp
  with alloc n nsize busy' show ?thesis by simp
qed

lemma bitmap_alloc_wf:
  assumes "bitmap_wf bmp"
  shows "if used bmp = {n. int n < size_b bmp} then bitmap_alloc bmp = Inr (- 1, bmp)
         else (let n = (LEAST n. n \<notin> used bmp) in
                 bitmap_alloc bmp = Inr (int n, take_bit_at n bmp) \<and> int n < size_b bmp \<and>
                 n \<notin> used bmp \<and> used (take_bit_at n bmp) = insert n (used bmp) \<and>
                 bitmap_wf (take_bit_at n bmp))"
proof (cases "used bmp = {n. int n < size_b bmp}")
  case True
  show ?thesis unfolding if_P [OF True] by (rule bitmap_alloc_full [of 0]) (use assms True in \<open>simp_all only: bitmap_wf_zone busy_0\<close>)
next
  case False
  show ?thesis unfolding if_not_P [OF False] Let_def
    using bitmap_alloc_zone [of 0 0 bmp, OF _ _ refl] assms False unfolding bitmap_wf_zone busy_0 by blast
qed

subsection \<open>Release, query and initialisation\<close>

definition drop_bit_at :: "nat \<Rightarrow> bitmap \<Rightarrow> bitmap" where
  "drop_bit_at n bmp =
     bmp\<lparr>map := (map bmp)[n div 64 := map bmp ! (n div 64) AND NOT (push_bit (n mod 64) 1)],
         unused := unused bmp + 1, allocation := min (int n) (allocation bmp)\<rparr>"

lemma drop_bit_fields:
  "map (drop_bit_at n bmp) = (map bmp)[n div 64 := map bmp ! (n div 64) AND NOT (push_bit (n mod 64) 1)]"
  "size_b (drop_bit_at n bmp) = size_b bmp" "unused (drop_bit_at n bmp) = unused bmp + 1"
  "allocation (drop_bit_at n bmp) = min (int n) (allocation bmp)"
  unfolding drop_bit_at_def by (rule bitmap_fields)+

lemma bitmap_free_cases:
  assumes "int n < size_b bmp" and "size_b bmp \<le> 64 * int (length (map bmp))"
  shows "bitmap_free (int n) bmp =
           Inr (if n \<in> used bmp then drop_bit_at n bmp
                else bmp\<lparr>allocation := min (int n) (allocation bmp)\<rparr>)"
proof -
  let ?h = "bmp\<lparr>allocation := min (int n) (allocation bmp)\<rparr>"
  have l: "\<not> length (map ?h) \<le> n div 64" using assms by simp
  have q: "nat (int n div 64) = n div 64" "nat (int n mod 64) = n mod 64"
    by (simp_all add: nat_div_distrib nat_mod_distrib)
  have u: "map ?h ! (n div 64) AND push_bit (n mod 64) 1 \<noteq> 0 \<longleftrightarrow> n \<in> used bmp"
    using assms(1) by (simp add: and_bit_mask_eq_0 used_def used_at_def)
  have h: "(if int n < allocation bmp then bmp\<lparr>allocation := int n\<rparr> else bmp) = ?h" by (simp add: min_def)
  have c: "\<not> (int n < 0 \<or> size_b bmp \<le> int n)" using assms by simp
  have e: "map ?h = map bmp" "unused ?h = unused bmp" "?h\<lparr>map := w, unused := v\<rparr> = bmp\<lparr>map := w, unused := v, allocation := min (int n) (allocation bmp)\<rparr>"
    for w v by simp_all
  show ?thesis unfolding bitmap_free_def Let_def if_not_P [OF c] q h if_not_P [OF l] u
    by (cases "n \<in> used bmp") (simp_all only: if_True if_False drop_bit_at_def e)
qed

lemma used_drop_bit_at:
  assumes "int n < size_b bmp" and "size_b bmp \<le> 64 * int (length (map bmp))"
  shows "used (drop_bit_at n bmp) = used bmp - {n}"
proof -
  have l: "n div 64 < length (map bmp)" using assms by linarith
  show ?thesis unfolding used_def drop_bit_fields used_at_clear [OF l] by blast
qed

lemma busy_drop_bit_at:
  assumes "int n < size_b bmp" and "size_b bmp \<le> 64 * int (length (map bmp))" and "r \<le> n"
  shows "busy r (drop_bit_at n bmp) = busy r bmp - {n}"
  unfolding busy_def used_drop_bit_at [OF assms(1,2)] using assms(3) by auto

lemma zone_wf_drop:
  assumes wf: "zone_wf r e bmp" and n: "n \<in> busy r bmp" "r \<le> n"
  shows "zone_wf r e (drop_bit_at n bmp)"
proof -
  have nsize: "int n < size_b bmp" using n by (auto simp: busy_def used_def)
  from wf have size: "size_b bmp \<le> 64 * int (length (map bmp))" by (simp add: zone_wf_def)
  have "Suc (card (busy r bmp - {n})) = card (busy r bmp)"
    using n by (intro card_Suc_Diff1) simp_all
  then have "int (card (busy r bmp - {n})) = int (card (busy r bmp)) - 1" by linarith
  moreover have "k \<in> busy r bmp - {n}" if "int k < min (int n) (allocation bmp)" "int k < size_b bmp" for k
    using that wf by (auto simp: zone_wf_def)
  ultimately show ?thesis
    using wf n(2) unfolding zone_wf_def busy_drop_bit_at [OF nsize size n(2)] drop_bit_fields length_list_update by simp
qed

text \<open>
  Freeing an index that is already free only lowers the search hint to it, which the invariant
  allows as every index below the hint stays used.
\<close>

lemma zone_wf_hint:
  assumes "zone_wf r e bmp" and "r \<le> n"
  shows "zone_wf r e (bmp\<lparr>allocation := min (int n) (allocation bmp)\<rparr>)"
    and "busy r (bmp\<lparr>allocation := a\<rparr>) = busy r bmp"
  using assms by (simp_all add: zone_wf_def busy_def used_def)

lemma bitmap_is_free_busy:
  assumes "zone_wf r e bmp" and "int n < size_b bmp" and "r \<le> n"
  shows "bitmap_is_free (int n) bmp = Inr (if n \<in> busy r bmp then 0 else 1)"
proof -
  have "n div 64 < length (map bmp)" using assms by (simp add: zone_wf_def) linarith
  moreover have "nat (int n div 64) = n div 64" "nat (int n mod 64) = n mod 64"
    by (simp_all add: nat_div_distrib nat_mod_distrib)
  ultimately show ?thesis
    using assms(2,3) by (simp add: bitmap_is_free_def busy_def used_def used_at_def and_bit_mask_eq_0 Let_def)
qed

lemmas bitmap_is_free_used = bitmap_is_free_busy [of 0 0, folded bitmap_wf_zone, simplified]

lemma used_at_clear_bytes:
  assumes "n < 8 * k" and "n div 64 < length ws"
  shows "\<not> used_at (clear_bytes k ws) n"
proof -
  have "r < 8 * min 8 (k - 8 * q)" if "n = 64 * q + r" "r < 64" for q r
    using that assms(1) by (cases "8 \<le> k - 8 * q") (simp_all add: min_def)
  from this [of "n div 64" "n mod 64"] have "n mod 64 < 8 * min 8 (k - 8 * (n div 64))" by simp
  then show ?thesis
    using assms(2) by (simp add: used_at_def clear_bytes_def nth_enumerate_eq bit_simps)
qed

lemma bitmap_init_wf:
  assumes "0 \<le> size_bits" and "size_bits \<le> 64 * int (length m)"
  shows "bitmap_wf (bitmap_init m size_bits)" and "used (bitmap_init m size_bits) = {}"
proof -
  show used: "used (bitmap_init m size_bits) = {}"
  proof -
    have "\<not> used_at (clear_bytes (nat ((size_bits + 7) div 8)) m) n" if "int n < size_bits" for n
    proof (rule used_at_clear_bytes)
      have "size_bits \<le> 8 * ((size_bits + 7) div 8)" by linarith
      with that show "n < 8 * nat ((size_bits + 7) div 8)" by linarith
      from that assms(2) have "n < 64 * length m" by linarith
      then show "n div 64 < length m" by (simp add: div_less_iff_less_mult)
    qed
    then show ?thesis by (auto simp: used_def bitmap_init_def)
  qed
  have "length (clear_bytes k m) = length m" for k by (simp add: clear_bytes_def)
  with used assms show "bitmap_wf (bitmap_init m size_bits)"
    by (simp add: bitmap_wf_def bitmap_init_def)
qed

subsection \<open>The contract of a number allocator\<close>

text \<open>\<open>alloc_n alloc k s\<close> allocates \<open>k\<close> times in a row.\<close>

fun alloc_n :: "('s \<Rightarrow> (int \<times> 's) kres) \<Rightarrow> nat \<Rightarrow> 's \<Rightarrow> (int list \<times> 's) kres" where
  "alloc_n alloc 0 s = Inr ([], s)"
| "alloc_n alloc (Suc k) s =
     bindR (alloc s) (\<lambda>(n, s). bindR (alloc_n alloc k s) (\<lambda>(ns, s). Inr (n # ns, s)))"

locale id_source =
  fixes inv :: "'s \<Rightarrow> bool"
    and ids :: "'s \<Rightarrow> nat set"
    and cap :: "'s \<Rightarrow> nat"
    and alloc :: "'s \<Rightarrow> (int \<times> 's) kres"
    and free :: "int \<Rightarrow> 's \<Rightarrow> 's kres"
    and low :: nat
  assumes ids_below: "inv s \<Longrightarrow> ids s \<subseteq> {..< cap s}"
    and alloc_fresh: "inv s \<Longrightarrow> ids s \<noteq> {..< cap s} \<Longrightarrow>
          \<exists>n s'. alloc s = Inr (int n, s') \<and> n < cap s \<and> n \<notin> ids s \<and>
                 ids s' = insert n (ids s) \<and> cap s' = cap s \<and> inv s'"
    and free_id: "inv s \<Longrightarrow> low \<le> n \<Longrightarrow> n < cap s \<Longrightarrow>
          \<exists>s'. free (int n) s = Inr s' \<and> ids s' = ids s - {n} \<and> cap s' = cap s \<and> inv s'"
begin

text \<open>As long as enough numbers are free, \<open>k\<close> allocations give \<open>k\<close> different new numbers.\<close>

lemma alloc_n_distinct:
  assumes "inv s" and "card (ids s) + k \<le> cap s"
  shows "\<exists>ns s'. alloc_n alloc k s = Inr (List.map int ns, s') \<and> length ns = k \<and> distinct ns \<and>
           set ns \<inter> ids s = {} \<and> ids s' = ids s \<union> set ns \<and> cap s' = cap s \<and> inv s'"
  using assms
proof (induction k arbitrary: s)
  case 0
  then show ?case by (intro exI [of _ "[]"] exI [of _ s]) simp
next
  case (Suc k)
  have fin: "finite (ids s)" by (rule finite_subset [OF ids_below [OF Suc.prems(1)] finite_lessThan])
  have "ids s \<noteq> {..< cap s}"
  proof
    assume "ids s = {..< cap s}"
    then have "card (ids s) = cap s" by simp
    with Suc.prems(2) show False by simp
  qed
  from alloc_fresh [OF Suc.prems(1) this] obtain n s1 where
    s1: "alloc s = Inr (int n, s1)" "n \<notin> ids s" "ids s1 = insert n (ids s)" "cap s1 = cap s" "inv s1"
    by blast
  have "card (ids s1) + k \<le> cap s1" using s1 fin Suc.prems(2) by simp
  from Suc.IH [OF s1(5) this] obtain ns s' where
    ns: "alloc_n alloc k s1 = Inr (List.map int ns, s')" "length ns = k" "distinct ns"
    "set ns \<inter> ids s1 = {}" "ids s' = ids s1 \<union> set ns" "cap s' = cap s1" "inv s'"
    by blast
  have "alloc_n alloc (Suc k) s = Inr (List.map int (n # ns), s')" using s1(1) ns(1) by simp
  moreover have "distinct (n # ns)" "set (n # ns) \<inter> ids s = {}" using s1 ns by auto
  ultimately show ?case using s1 ns by (intro exI [of _ "n # ns"] exI [of _ s']) simp
qed

text \<open>A freed number makes the next allocation succeed, even on a full allocator.\<close>

lemma alloc_after_free:
  assumes "inv s" and "low \<le> n" and "n < cap s"
  shows "\<exists>s' m s''. free (int n) s = Inr s' \<and> alloc s' = Inr (int m, s'') \<and> m < cap s \<and> m \<notin> ids s' \<and> inv s''"
proof -
  obtain s' where s': "free (int n) s = Inr s'" "ids s' = ids s - {n}" "cap s' = cap s" "inv s'"
    using free_id [OF assms] by blast
  have "ids s' \<noteq> {..< cap s'}" using s' assms(3) by auto
  from alloc_fresh [OF s'(4) this] obtain m s'' where
    "alloc s' = Inr (int m, s'')" "m < cap s'" "m \<notin> ids s'" "inv s''" by blast
  with s' show ?thesis by (intro exI [of _ s'] exI [of _ m] exI [of _ s'']) simp
qed

end

locale id_allocator = id_source +
  assumes alloc_full: "inv s \<Longrightarrow> ids s = {..< cap s} \<Longrightarrow> alloc s = Inr (- 1, s)"
begin

text \<open>The answer tells whether a number was free.\<close>

lemma alloc_decides:
  assumes "inv s"
  shows "\<exists>r s'. alloc s = Inr (r, s') \<and> (r = - 1 \<longleftrightarrow> ids s = {..< cap s})"
  using alloc_full [OF assms] alloc_fresh [OF assms] by (cases "ids s = {..< cap s}") auto

end

lemma bitmap_alloc_fresh:
  assumes "zone_wf r e bmp" and "busy r bmp \<noteq> {..< nat (size_b bmp)}"
  shows "\<exists>n bmp'. bitmap_alloc bmp = Inr (int n, bmp') \<and> n < nat (size_b bmp) \<and> n \<notin> busy r bmp \<and>
           busy r bmp' = insert n (busy r bmp) \<and> nat (size_b bmp') = nat (size_b bmp) \<and> zone_wf r e bmp'"
proof -
  define n where "n = (LEAST n. n \<notin> busy r bmp)"
  have "busy r bmp \<noteq> {n. int n < size_b bmp}" using assms(2) unfolding below_size .
  note alloc = bitmap_alloc_zone [OF assms(1) this n_def]
  then show ?thesis by (intro exI [of _ n] exI [of _ "take_bit_at n bmp"]) (simp add: take_bit_fields zless_nat_eq_int_zless)
qed

lemma bitmap_free_zone:
  assumes "zone_wf r e bmp" and "r \<le> n" and "n < nat (size_b bmp)"
  shows "\<exists>bmp'. bitmap_free (int n) bmp = Inr bmp' \<and> busy r bmp' = busy r bmp - {n} \<and>
           nat (size_b bmp') = nat (size_b bmp) \<and> zone_wf r e bmp'"
proof -
  from assms have n: "int n < size_b bmp" and size: "size_b bmp \<le> 64 * int (length (map bmp))"
    by (auto simp: zone_wf_def)
  have "n \<in> used bmp \<longleftrightarrow> n \<in> busy r bmp" using assms(2) by (simp add: busy_def)
  then show ?thesis
    unfolding bitmap_free_cases [OF n size]
    using busy_drop_bit_at [OF n size assms(2)] zone_wf_drop [OF assms(1) _ assms(2)] zone_wf_hint [OF assms(1,2)]
    by (cases "n \<in> busy r bmp") (auto simp: drop_bit_fields)
qed

lemmas bitmap_free_wf = bitmap_free_zone [of 0 0, folded bitmap_wf_zone, simplified]

interpretation zone: id_source "zone_wf r e" "busy r" "\<lambda>bmp. nat (size_b bmp)" bitmap_alloc bitmap_free r for r e
proof (unfold_locales, goal_cases)
  case (1 s) show ?case using busy_subset [OF 1] unfolding below_size .
next
  case (2 s) then show ?case by (rule bitmap_alloc_fresh)
next
  case (3 s n) then show ?case by (rule bitmap_free_zone)
qed

interpretation bits: id_allocator bitmap_wf used "\<lambda>bmp. nat (size_b bmp)" bitmap_alloc bitmap_free 0
proof -
  have "bitmap_wf = zone_wf 0 0" by (simp add: fun_eq_iff bitmap_wf_zone)
  moreover have "bitmap_alloc bmp = Inr (- 1, bmp)" if "zone_wf 0 0 bmp" "used bmp = {..< nat (size_b bmp)}" for bmp
    by (rule bitmap_alloc_full [OF that(1)]) (simp add: that(2) below_size)
  ultimately show "id_allocator bitmap_wf used (\<lambda>bmp. nat (size_b bmp)) bitmap_alloc bitmap_free 0"
    using zone.id_source_axioms [of 0 0] by (simp add: id_allocator_def id_allocator_axioms_def)
qed

text \<open>
  \<open>bitmap_alloc\<close> rejects \<open>res > size\<close>, so index \<open>size\<close> itself passes the check. The invariant keeps
  the scan from getting there; a bitmap whose \<open>unused\<close> count was set too high (by
  \<open>bitmap_reset_unused\<close>, from a superblock) hands out the index behind its last bit.
\<close>

lemma bitmap_alloc_past_end:
  "bitmap_alloc (bitmap_reset_unused 1 (bitmap_init_zone [0xF] 4)) =
     Inr (4, \<lparr>map = [0x1F], size_b = 4, unused = 0, allocation = 5\<rparr>)"
  by (simp add: bitmap_alloc_def bitmap_reset_unused_def bitmap_init_zone_def Let_def
      bitmap_alloc_loop.simps [of 0 0 "Suc 0" 0] find_zero.simps)

subsection \<open>Properties\<close>

text \<open>C30: on a well-formed bitmap \<open>bitmap_alloc\<close> returns the smallest free index and marks it used, or
  returns -1 and changes nothing exactly when every index is used; the bitmap stays well-formed.\<close>

theorem bitmap_alloc_least_free:
  assumes "bitmap_wf bmp"
  shows "if used bmp = {n. int n < size_b bmp} then bitmap_alloc bmp = Inr (- 1, bmp)
         else (\<exists>bmp'. bitmap_alloc bmp = Inr (int (LEAST n. n \<notin> used bmp), bmp') \<and>
                 int (LEAST n. n \<notin> used bmp) < size_b bmp \<and>
                 used bmp' = insert (LEAST n. n \<notin> used bmp) (used bmp) \<and> bitmap_wf bmp')"
  using bitmap_alloc_wf [OF assms] by (cases "used bmp = {n. int n < size_b bmp}") (simp_all add: Let_def)

lemma bitmap_100: "bitmap_wf (bitmap_init [0, 0] 100)" "used (bitmap_init [0, 0] 100) = {}" "size_b (bitmap_init [0, 0] 100) = 100"
  using bitmap_init_wf [of 100 "[0, 0]"] by (simp_all add: bitmap_init_def)

theorem bitmap_alloc_least_free_witness:
  "\<exists>bmp'. bitmap_alloc (bitmap_init [0, 0] 100) = Inr (0, bmp') \<and> used bmp' = {0} \<and> bitmap_wf bmp'"
proof -
  have "0 \<in> {n. int n < 100}" by simp
  then have "({} :: nat set) \<noteq> {n. int n < 100}" by blast
  moreover have "(LEAST n. n \<notin> ({} :: nat set)) = 0" by (rule Least_equality) simp_all
  ultimately show ?thesis using bitmap_alloc_least_free [OF bitmap_100(1)] unfolding bitmap_100(2,3)
    by (simp only: if_False) auto
qed

text \<open>as long as enough indices are free, \<open>k\<close> allocations in a row succeed and return \<open>k\<close> different
  indices below the size that were free before.\<close>

theorem bitmap_alloc_n_distinct:
  assumes "bitmap_wf bmp" and "card (used bmp) + k \<le> nat (size_b bmp)"
  shows "\<exists>ns bmp'. alloc_n bitmap_alloc k bmp = Inr (List.map int ns, bmp') \<and> length ns = k \<and> distinct ns \<and>
           set ns \<inter> used bmp = {} \<and> used bmp' = used bmp \<union> set ns \<and> bitmap_wf bmp'"
  using bits.alloc_n_distinct [OF assms] by blast

theorem bitmap_alloc_n_distinct_witness:
  "\<exists>ns bmp'. alloc_n bitmap_alloc 70 (bitmap_init [0, 0] 100) = Inr (List.map int ns, bmp') \<and> length ns = 70 \<and> distinct ns"
  using bitmap_alloc_n_distinct [of "bitmap_init [0, 0] 100" 70] bitmap_100 by auto

text \<open>\<open>bitmap_free\<close> of an index below the size frees exactly that index, used or not, and keeps the
  bitmap well-formed; \<open>bitmap_is_free\<close> then reports it free.\<close>

theorem bitmap_free_then_is_free:
  assumes "bitmap_wf bmp" and "int n < size_b bmp"
  shows "\<exists>bmp'. bitmap_free (int n) bmp = Inr bmp' \<and> used bmp' = used bmp - {n} \<and> bitmap_wf bmp' \<and>
           bitmap_is_free (int n) bmp' = Inr 1"
proof -
  have "n < nat (size_b bmp)" using assms(2) by linarith
  from bitmap_free_wf [OF assms(1) this] obtain bmp' where
    "bitmap_free (int n) bmp = Inr bmp'" "used bmp' = used bmp - {n}" "nat (size_b bmp') = nat (size_b bmp)" "bitmap_wf bmp'"
    by blast
  moreover from this(3) have "int n < size_b bmp'" using assms(2) by linarith
  ultimately show ?thesis using bitmap_is_free_used [of bmp' n] by auto
qed

theorem bitmap_free_then_is_free_witness:
  "\<exists>bmp'. bitmap_free (int 65) (bitmap_init [0, 0] 100) = Inr bmp' \<and> bitmap_is_free (int 65) bmp' = Inr 1"
  using bitmap_free_then_is_free [OF bitmap_100(1), of 65] bitmap_100(3) by auto

end
