(* ===== verification/Spinlock.thy ===== *)
theory Spinlock
  imports Kprelude
begin

text \<open>
  lib/spinlock.c, include/lib/atomic.h and the interrupt switches of include/riscv.h.

  The first part is the code run by one hart without interference: \<open>push_off\<close>, \<open>pop_off\<close>,
  \<open>holding\<close>, \<open>spin_lock\<close> and \<open>spin_unlock\<close> as functions on the hart's own state and the lock, and
  the combinator \<open>critical\<close> for a body between \<open>spin_lock\<close> and \<open>spin_unlock\<close>.
  The second part interleaves harts at the granularity of single memory accesses: a step
  relation on all harts and all locks, whose invariant gives mutual exclusion.
\<close>

subsection \<open>Hart state and lock operations\<close>

record hart =
  noff :: int
  intena :: bool
  sie :: bool      \<comment> \<open>the \<open>SSTATUS_SIE\<close> bit\<close>

record spinlock =
  lock :: int
  lk_cpuid :: int

definition intr_on :: "hart \<Rightarrow> hart" where "intr_on h = h\<lparr>sie := True\<rparr>"
definition intr_off :: "hart \<Rightarrow> hart" where "intr_off h = h\<lparr>sie := False\<rparr>"
definition intr_get :: "hart \<Rightarrow> bool" where "intr_get h = sie h"

abbreviation (input) SPIN_UNLOCKED :: int where "SPIN_UNLOCKED \<equiv> 0"
abbreviation (input) SPIN_LOCKED :: int where "SPIN_LOCKED \<equiv> 1"

definition spin_init :: spinlock where
  "spin_init = \<lparr>lock = SPIN_UNLOCKED, lk_cpuid = - 1\<rparr>"

definition push_off :: "hart \<Rightarrow> hart" where
  "push_off h =
     (let old = intr_get h;
          h = intr_off h;
          h = (if noff h = 0 then h\<lparr>intena := old\<rparr> else h)
      in h\<lparr>noff := noff h + 1\<rparr>)"

definition pop_off :: "hart \<Rightarrow> hart kres" where
  "pop_off h =
     (if intr_get h then Inl (Panic ''spinlock pop_off: intr on'')
      else if noff h < 1 then Inl (Panic ''spinlock pop_off: noff less than 1'')
      else
        let h = h\<lparr>noff := noff h - 1\<rparr>
        in Inr (if noff h = 0 \<and> intena h then intr_on h else h))"

definition holding :: "int \<Rightarrow> spinlock \<Rightarrow> bool" where
  "holding cpuid l \<longleftrightarrow> lock l = SPIN_LOCKED \<and> lk_cpuid l = cpuid"

text \<open>The test-and-set loop ends at once on a free lock; on a taken one it never ends by itself.\<close>

definition spin_lock :: "int \<Rightarrow> hart \<times> spinlock \<Rightarrow> (hart \<times> spinlock) kres" where
  "spin_lock cpuid s = (case s of (h, l) \<Rightarrow>
     let h = push_off h in
     if holding cpuid l then Inl (Panic ''spinlock: already held when trying to lock'')
     else if lock l \<noteq> 0 then Inl Spins
     else Inr (h, l\<lparr>lock := SPIN_LOCKED, lk_cpuid := cpuid\<rparr>))"

definition spin_unlock :: "int \<Rightarrow> hart \<times> spinlock \<Rightarrow> (hart \<times> spinlock) kres" where
  "spin_unlock cpuid s = (case s of (h, l) \<Rightarrow>
     if \<not> holding cpuid l then Inl (Panic ''spinlock: not held when trying to unlock'')
     else
       let l = l\<lparr>lk_cpuid := - 1\<rparr>; l = l\<lparr>lock := 0\<rparr>
       in bindR (pop_off h) (\<lambda>h. Inr (h, l)))"

lemmas lock_defs = intr_on_def intr_off_def intr_get_def push_off_def pop_off_def holding_def
  spin_lock_def spin_unlock_def spin_init_def

subsection \<open>The atomic counters\<close>

text \<open>\<open>amoadd.w\<close> adds modulo \<open>2\<^sup>3\<^sup>2\<close>; the counter reads back as a signed number.\<close>

definition wrap32 :: "int \<Rightarrow> int" where
  "wrap32 x = signed_take_bit 31 x"

definition atomic_add :: "int \<Rightarrow> int \<Rightarrow> int" where "atomic_add i v = wrap32 (v + i)"
definition atomic_sub :: "int \<Rightarrow> int \<Rightarrow> int" where "atomic_sub i v = wrap32 (v + (- i))"
definition atomic_inc :: "int \<Rightarrow> int" where "atomic_inc v = atomic_add 1 v"
definition atomic_dec :: "int \<Rightarrow> int" where "atomic_dec v = atomic_sub 1 v"

definition atomic_dec_and_test :: "int \<Rightarrow> bool \<times> int" where
  "atomic_dec_and_test v = (v - 1 = 0, wrap32 (v + (- 1)))"

lemma wrap32_id: "- (2 ^ 31) \<le> x \<Longrightarrow> x < 2 ^ 31 \<Longrightarrow> wrap32 x = x"
  by (simp add: wrap32_def signed_take_bit_int_eq_self)

lemma atomic_inc_id: "- (2 ^ 31) \<le> v \<Longrightarrow> v < 2 ^ 31 - 1 \<Longrightarrow> atomic_inc v = v + 1"
  by (simp add: atomic_inc_def atomic_add_def wrap32_id)

lemma atomic_dec_id: "- (2 ^ 31) < v \<Longrightarrow> v < 2 ^ 31 \<Longrightarrow> atomic_dec v = v - 1"
  by (simp add: atomic_dec_def atomic_sub_def wrap32_id)

subsection \<open>Matched pairs\<close>

text \<open>What every hart keeps: interrupts are off whenever the nesting depth is positive.\<close>

definition hart_ok :: "hart \<Rightarrow> bool" where
  "hart_ok h \<longleftrightarrow> noff h \<ge> 0 \<and> (noff h > 0 \<longrightarrow> \<not> sie h)"

lemma push_off_ok: "hart_ok h \<Longrightarrow> hart_ok (push_off h)"
  by (simp add: hart_ok_def lock_defs Let_def)

lemma pop_off_ok: "hart_ok h \<Longrightarrow> pop_off h = Inr h' \<Longrightarrow> hart_ok h'"
  by (auto simp: hart_ok_def lock_defs Let_def split: if_splits)

text \<open>A \<open>pop_off\<close> undoes the \<open>push_off\<close> before it, up to the saved \<open>intena\<close> of an outermost pair.\<close>

lemma pop_push_off:
  assumes "hart_ok h"
  shows "pop_off (push_off h) = Inr (if noff h = 0 then h\<lparr>intena := sie h\<rparr> else h)"
  using assms by (cases h) (auto simp: hart_ok_def lock_defs Let_def)

text \<open>\<open>nest n\<close>: \<open>n\<close> more levels, then the same number of \<open>pop_off\<close>s.\<close>

fun pop_n :: "nat \<Rightarrow> hart \<Rightarrow> hart kres" where
  "pop_n 0 h = Inr h"
| "pop_n (Suc n) h = bindR (pop_off h) (pop_n n)"

lemma push_off_inner:
  "hart_ok h \<Longrightarrow> noff h > 0 \<Longrightarrow> push_off h = h\<lparr>noff := noff h + 1\<rparr>"
  by (cases h) (simp add: hart_ok_def lock_defs)

lemma pop_push_n_inner:
  assumes "hart_ok h" and "noff h > 0"
  shows "pop_n n ((push_off ^^ n) h) = Inr h"
  using assms
proof (induction n)
  case (Suc n)
  have "hart_ok ((push_off ^^ n) h) \<and> noff ((push_off ^^ n) h) > 0"
    using Suc.prems by (induction n) (auto simp: push_off_inner hart_ok_def)
  with pop_push_off [of "(push_off ^^ n) h"] Suc show ?case by simp
qed simp

lemma pop_n_right: "pop_n (Suc n) g = bindR (pop_n n g) pop_off"
proof (induction n arbitrary: g)
  case 0
  then show ?case by (cases "pop_off g") simp_all
next
  case (Suc n)
  then show ?case by (cases "pop_off g") simp_all
qed

lemma pop_push_n:
  assumes "hart_ok h" and "noff h = 0"
  shows "pop_n (Suc n) ((push_off ^^ Suc n) h) = Inr (h\<lparr>intena := sie h\<rparr>)"
proof -
  have "hart_ok (push_off h)" "noff (push_off h) > 0"
    using assms by (simp_all add: push_off_ok) (simp add: push_off_def Let_def intr_off_def)
  from pop_push_n_inner [OF this, of n]
  have inner: "pop_n n ((push_off ^^ n) (push_off h)) = Inr (push_off h)" .
  with pop_push_off [OF assms(1)] assms(2) show ?thesis
    unfolding pop_n_right by (simp add: funpow_swap1)
qed

subsection \<open>Critical sections\<close>

definition critical ::
  "int \<Rightarrow> ('s \<Rightarrow> ('r \<times> 's) kres) \<Rightarrow> 's \<times> hart \<times> spinlock \<Rightarrow> ('r \<times> 's \<times> hart \<times> spinlock) kres" where
  "critical cpuid body g = (case g of (s, h, l) \<Rightarrow>
     bindR (spin_lock cpuid (h, l)) (\<lambda>(h, l).
     bindR (body s) (\<lambda>(r, s).
     bindR (spin_unlock cpuid (h, l)) (\<lambda>(h, l). Inr (r, s, h, l)))))"

text \<open>The hart after a matched outermost pair: only the saved \<open>intena\<close> may differ.\<close>

definition settled :: "hart \<Rightarrow> hart" where
  "settled h = (if noff h = 0 then h\<lparr>intena := sie h\<rparr> else h)"

lemma hart_ok_settled [simp]: "hart_ok (settled h) \<longleftrightarrow> hart_ok h"
  by (simp add: settled_def hart_ok_def)

definition lock_free :: "spinlock \<Rightarrow> bool" where
  "lock_free l \<longleftrightarrow> lock l = 0 \<and> lk_cpuid l = - 1"

lemma lock_free_init [simp]: "lock_free spin_init"
  by (simp add: lock_free_def spin_init_def)

lemma spin_lock_free:
  "lock_free l \<Longrightarrow> spin_lock c (h, l) = Inr (push_off h, l\<lparr>lock := 1, lk_cpuid := c\<rparr>)"
  by (simp add: spin_lock_def lock_free_def holding_def Let_def)

lemma spin_unlock_held:
  assumes "hart_ok h" and "lock_free l"
  shows "spin_unlock c (push_off h, l\<lparr>lock := 1, lk_cpuid := c\<rparr>) = Inr (settled h, l)"
  using pop_push_off [OF assms(1)] assms(2)
  by (cases l) (simp add: spin_unlock_def holding_def settled_def lock_free_def)

lemma critical_free:
  assumes "hart_ok h" and "lock_free l"
  shows "critical c body (s, h, l) = bindR (body s) (\<lambda>(r, s). Inr (r, s, settled h, l))"
  using assms
  by (cases "body s") (auto simp: critical_def spin_lock_free spin_unlock_held split: prod.splits)

subsection \<open>All harts together\<close>

datatype 'l pc =
    Run                 \<comment> \<open>outside the lock code\<close>
  | Chk_lock 'l         \<comment> \<open>\<open>spin_lock\<close>: \<open>holding\<close> reads \<open>lock->lock\<close>\<close>
  | Chk_cpu 'l          \<comment> \<open>\<open>spin_lock\<close>: \<open>holding\<close> reads \<open>lock->cpuid\<close>\<close>
  | Swap 'l             \<comment> \<open>\<open>__sync_lock_test_and_set\<close>\<close>
  | Set_cpu 'l          \<comment> \<open>\<open>lock->cpuid = cpuid()\<close>\<close>
  | Rchk_lock 'l        \<comment> \<open>\<open>spin_unlock\<close>: \<open>holding\<close> reads \<open>lock->lock\<close>\<close>
  | Rchk_cpu 'l         \<comment> \<open>\<open>spin_unlock\<close>: \<open>holding\<close> reads \<open>lock->cpuid\<close>\<close>
  | Clr_cpu 'l          \<comment> \<open>\<open>lock->cpuid = -1\<close>\<close>
  | Release 'l          \<comment> \<open>\<open>__sync_lock_release\<close>\<close>
  | Pop                 \<comment> \<open>\<open>pop_off\<close>\<close>
  | Dead                \<comment> \<open>\<open>panic\<close>\<close>

text \<open>
  \<open>held c\<close> is a history variable: the locks hart \<open>c\<close> is between the return of \<open>spin_lock\<close> and the
  release in \<open>spin_unlock\<close> for.
\<close>

record 'l machine =
  harts :: "nat \<Rightarrow> hart"
  locks :: "'l \<Rightarrow> spinlock"
  pcs :: "nat \<Rightarrow> 'l pc"
  held :: "nat \<Rightarrow> 'l set"

definition goto :: "nat \<Rightarrow> 'l pc \<Rightarrow> 'l machine \<Rightarrow> 'l machine" where
  "goto c p m = m\<lparr>pcs := (pcs m)(c := p)\<rparr>"

inductive mstep :: "'l machine \<Rightarrow> 'l machine \<Rightarrow> bool" where
  call_lock: "pcs m c = Run \<Longrightarrow>
    mstep m (goto c (Chk_lock l) (m\<lparr>harts := (harts m)(c := push_off (harts m c))\<rparr>))"
| chk_lock: "pcs m c = Chk_lock l \<Longrightarrow>
    mstep m (goto c (if lock (locks m l) = SPIN_LOCKED then Chk_cpu l else Swap l) m)"
| chk_cpu: "pcs m c = Chk_cpu l \<Longrightarrow>
    mstep m (goto c (if lk_cpuid (locks m l) = int c then Dead else Swap l) m)"
| swap: "pcs m c = Swap l \<Longrightarrow>
    mstep m (goto c (if lock (locks m l) \<noteq> 0 then Swap l else Set_cpu l)
      (m\<lparr>locks := (locks m)(l := (locks m l)\<lparr>lock := SPIN_LOCKED\<rparr>)\<rparr>))"
| set_cpu: "pcs m c = Set_cpu l \<Longrightarrow>
    mstep m (goto c Run
      (m\<lparr>locks := (locks m)(l := (locks m l)\<lparr>lk_cpuid := int c\<rparr>),
         held := (held m)(c := insert l (held m c))\<rparr>))"
| call_unlock: "pcs m c = Run \<Longrightarrow> mstep m (goto c (Rchk_lock l) m)"
| rchk_lock: "pcs m c = Rchk_lock l \<Longrightarrow>
    mstep m (goto c (if lock (locks m l) = SPIN_LOCKED then Rchk_cpu l else Dead) m)"
| rchk_cpu: "pcs m c = Rchk_cpu l \<Longrightarrow>
    mstep m (goto c (if lk_cpuid (locks m l) = int c then Clr_cpu l else Dead) m)"
| clr_cpu: "pcs m c = Clr_cpu l \<Longrightarrow>
    mstep m (goto c (Release l)
      (m\<lparr>locks := (locks m)(l := (locks m l)\<lparr>lk_cpuid := - 1\<rparr>),
         held := (held m)(c := held m c - {l})\<rparr>))"
| release: "pcs m c = Release l \<Longrightarrow>
    mstep m (goto c Pop (m\<lparr>locks := (locks m)(l := (locks m l)\<lparr>lock := 0\<rparr>)\<rparr>))"
| pop: "pcs m c = Pop \<Longrightarrow>
    mstep m (case pop_off (harts m c) of
        Inl _ \<Rightarrow> goto c Dead m
      | Inr h \<Rightarrow> goto c Run (m\<lparr>harts := (harts m)(c := h)\<rparr>))"
| switch: "pcs m c = Run \<Longrightarrow> noff (harts m c) = 0 \<Longrightarrow>
    mstep m (m\<lparr>harts := (harts m)(c := (if b then intr_on else intr_off) (harts m c))\<rparr>)"

definition minit :: "'l machine \<Rightarrow> bool" where
  "minit m \<longleftrightarrow> (\<forall>l. locks m l = spin_init) \<and>
     (\<forall>c. pcs m c = Run \<and> held m c = {} \<and> noff (harts m c) = 0)"

fun acquiring :: "'l pc \<Rightarrow> bool" where
  "acquiring (Chk_lock l) = True"
| "acquiring (Chk_cpu l) = True"
| "acquiring (Swap l) = True"
| "acquiring (Set_cpu l) = True"
| "acquiring (Release l) = True"
| "acquiring Pop = True"
| "acquiring _ = False"

text \<open>Hart \<open>c\<close> owns lock \<open>l\<close> from its successful test-and-set to the release store.\<close>

definition owns :: "'l machine \<Rightarrow> nat \<Rightarrow> 'l \<Rightarrow> bool" where
  "owns m c l \<longleftrightarrow> l \<in> held m c \<or> pcs m c = Set_cpu l \<or> pcs m c = Release l"

definition lock_inv :: "'l machine \<Rightarrow> 'l \<Rightarrow> bool" where
  "lock_inv m l \<longleftrightarrow>
     (lock (locks m l) = 0 \<or> lock (locks m l) = 1) \<and>
     (lock (locks m l) = 1 \<longleftrightarrow> (\<exists>c. owns m c l)) \<and>
     (\<forall>c d. owns m c l \<longrightarrow> owns m d l \<longrightarrow> c = d) \<and>
     (\<forall>c. l \<in> held m c \<longrightarrow> lk_cpuid (locks m l) = int c) \<and>
     (lk_cpuid (locks m l) = - 1 \<or> (\<exists>c. l \<in> held m c))"

definition hart_inv :: "'l machine \<Rightarrow> nat \<Rightarrow> bool" where
  "hart_inv m c \<longleftrightarrow>
     finite (held m c) \<and> hart_ok (harts m c) \<and>
     (pcs m c \<noteq> Dead \<longrightarrow>
        noff (harts m c) = int (card (held m c)) + (if acquiring (pcs m c) then 1 else 0)) \<and>
     (\<forall>l. (pcs m c = Clr_cpu l \<longrightarrow> l \<in> held m c) \<and>
          (pcs m c = Set_cpu l \<or> pcs m c = Release l \<longrightarrow> l \<notin> held m c))"

definition minv :: "'l machine \<Rightarrow> bool" where
  "minv m \<longleftrightarrow> (\<forall>l. lock_inv m l) \<and> (\<forall>c. hart_inv m c)"

subsection \<open>Mutual exclusion\<close>

lemma goto_simps [simp]:
  "harts (goto c p m) = harts m" "locks (goto c p m) = locks m" "held (goto c p m) = held m"
  "pcs (goto c p m) = (pcs m)(c := p)"
  by (simp_all add: goto_def)

lemma lock_inv_cong:
  assumes "locks m' l = locks m l" and "\<And>c. l \<in> held m' c \<longleftrightarrow> l \<in> held m c"
    and "\<And>c. owns m' c l \<longleftrightarrow> owns m c l"
  shows "lock_inv m' l \<longleftrightarrow> lock_inv m l"
  using assms by (simp add: lock_inv_def)

text \<open>A step that only moves the hart between places where it owns nothing extra.\<close>

lemma lock_inv_goto:
  assumes "lock_inv m l" and "pcs m c \<notin> {Set_cpu l, Release l}" and "p \<notin> {Set_cpu l, Release l}"
    and "locks m' = locks m" and "held m' = held m" and "pcs m' = (pcs m)(c := p)"
  shows "lock_inv m' l"
  using assms(1) lock_inv_cong [of m' l m] assms by (auto simp: owns_def)

lemma hart_inv_cong:
  assumes "harts m' c = harts m c" and "held m' c = held m c" and "pcs m' c = pcs m c"
  shows "hart_inv m' c \<longleftrightarrow> hart_inv m c"
  using assms by (simp add: hart_inv_def)

lemma minvI:
  assumes "minv m" and "\<And>l. lock_inv m' l" and "hart_inv m' c"
    and "\<And>d. d \<noteq> c \<Longrightarrow> harts m' d = harts m d \<and> held m' d = held m d \<and> pcs m' d = pcs m d"
  shows "minv m'"
  unfolding minv_def
proof (intro conjI allI)
  fix d
  show "hart_inv m' d"
  proof (cases "d = c")
    case False
    with assms(4) have "hart_inv m' d \<longleftrightarrow> hart_inv m d" by (intro hart_inv_cong) simp_all
    with assms(1) show ?thesis by (simp add: minv_def)
  qed (use assms(3) in simp)
qed (rule assms(2))

lemma minvD: "minv m \<Longrightarrow> lock_inv m l" "minv m \<Longrightarrow> hart_inv m c"
  by (simp_all add: minv_def)

lemma lock_inv_swap:
  assumes inv: "minv m" and pc: "pcs m c = Swap l"
    and m': "m' = goto c (if lock (locks m l) \<noteq> 0 then Swap l else Set_cpu l)
      (m\<lparr>locks := (locks m)(l := (locks m l)\<lparr>lock := SPIN_LOCKED\<rparr>)\<rparr>)"
  shows "lock_inv m' k"
proof (cases "k = l \<and> lock (locks m l) = 0")
  case True
  with minvD(1) [OF inv, of l] have free: "\<And>d. \<not> owns m d l" and cpu: "lk_cpuid (locks m l) = - 1"
    by (auto simp: lock_inv_def owns_def)
  from True have "owns m' d l \<longleftrightarrow> d = c" for d
    using free [of d] pc by (auto simp: owns_def m')
  moreover have "l \<notin> held m' d" for d using free [of d] True by (simp add: owns_def m')
  ultimately show ?thesis using True cpu by (simp add: lock_inv_def m')
next
  case False
  have "lock (locks m l) = 0 \<or> lock (locks m l) = 1"
    using minvD(1) [OF inv, of l] unfolding lock_inv_def by blast
  then have "locks m' k = locks m k" using False by (auto simp: m')
  then have "lock_inv m' k \<longleftrightarrow> lock_inv m k"
    using False pc by (intro lock_inv_cong) (auto simp: owns_def m')
  with minvD(1) [OF inv] show ?thesis by simp
qed

lemma lock_inv_set_cpu:
  assumes inv: "minv m" and pc: "pcs m c = Set_cpu l"
    and m': "m' = goto c Run (m\<lparr>locks := (locks m)(l := (locks m l)\<lparr>lk_cpuid := int c\<rparr>),
         held := (held m)(c := insert l (held m c))\<rparr>)"
  shows "lock_inv m' k"
proof (cases "k = l")
  case True
  have own: "owns m c l" using pc by (simp add: owns_def)
  then have uniq: "owns m d l \<longleftrightarrow> d = c" for d using minvD(1) [OF inv, of l] by (auto simp: lock_inv_def)
  then have "lock (locks m l) = 1" using minvD(1) [OF inv, of l] by (auto simp: lock_inv_def)
  moreover have "owns m' d l \<longleftrightarrow> d = c" for d using uniq [of d] by (auto simp: owns_def m')
  moreover have "l \<in> held m' d \<longleftrightarrow> d = c" for d using uniq [of d] by (auto simp: owns_def m')
  ultimately show ?thesis using True by (simp add: lock_inv_def m')
next
  case False
  then have "lock_inv m' k \<longleftrightarrow> lock_inv m k"
    using pc by (intro lock_inv_cong) (auto simp: owns_def m')
  with minvD(1) [OF inv] show ?thesis by simp
qed

lemma lock_inv_clr_cpu:
  assumes inv: "minv m" and pc: "pcs m c = Clr_cpu l"
    and m': "m' = goto c (Release l) (m\<lparr>locks := (locks m)(l := (locks m l)\<lparr>lk_cpuid := - 1\<rparr>),
         held := (held m)(c := held m c - {l})\<rparr>)"
  shows "lock_inv m' k"
proof (cases "k = l")
  case True
  have "l \<in> held m c" using minvD(2) [OF inv, of c] pc by (simp add: hart_inv_def)
  then have own: "owns m c l" by (simp add: owns_def)
  then have uniq: "owns m d l \<longleftrightarrow> d = c" for d using minvD(1) [OF inv, of l] by (auto simp: lock_inv_def)
  then have "lock (locks m l) = 1" using minvD(1) [OF inv, of l] by (auto simp: lock_inv_def)
  moreover have "owns m' d l \<longleftrightarrow> d = c" for d using uniq [of d] by (auto simp: owns_def m')
  moreover have "l \<notin> held m' d" for d using uniq [of d] by (auto simp: owns_def m')
  ultimately show ?thesis using True by (simp add: lock_inv_def m')
next
  case False
  then have "lock_inv m' k \<longleftrightarrow> lock_inv m k"
    using pc by (intro lock_inv_cong) (auto simp: owns_def m')
  with minvD(1) [OF inv] show ?thesis by simp
qed

lemma lock_inv_release:
  assumes inv: "minv m" and pc: "pcs m c = Release l"
    and m': "m' = goto c Pop (m\<lparr>locks := (locks m)(l := (locks m l)\<lparr>lock := 0\<rparr>)\<rparr>)"
  shows "lock_inv m' k"
proof (cases "k = l")
  case True
  have own: "owns m c l" using pc by (simp add: owns_def)
  then have uniq: "owns m d l \<longleftrightarrow> d = c" for d using minvD(1) [OF inv, of l] by (auto simp: lock_inv_def)
  have "l \<notin> held m c" using minvD(2) [OF inv, of c] pc by (simp add: hart_inv_def)
  then have none: "\<not> owns m' d l" "l \<notin> held m d" for d using uniq [of d] by (auto simp: owns_def m')
  moreover have "lk_cpuid (locks m l) = - 1" using minvD(1) [OF inv, of l] none by (auto simp: lock_inv_def)
  moreover have "held m' = held m" by (simp add: m')
  ultimately show ?thesis using True by (simp add: lock_inv_def m')
next
  case False
  then have "lock_inv m' k \<longleftrightarrow> lock_inv m k"
    using pc by (intro lock_inv_cong) (auto simp: owns_def m')
  with minvD(1) [OF inv] show ?thesis by simp
qed

lemma push_off_noff [simp]: "noff (push_off h) = noff h + 1"
  by (simp add: push_off_def Let_def intr_off_def)

lemma pop_off_depth:
  assumes "hart_ok h" and "0 < noff h"
  obtains h' where "pop_off h = Inr h'" and "hart_ok h'" and "noff h' = noff h - 1"
  using assms that by (auto simp: pop_off_def hart_ok_def intr_get_def intr_on_def Let_def)

fun owning :: "'l pc \<Rightarrow> bool" where
  "owning (Set_cpu l) = True"
| "owning (Release l) = True"
| "owning _ = False"

lemma minv_goto:
  assumes inv: "minv m" and pc: "\<not> owning (pcs m c)" "\<not> owning p"
    and m': "m' = goto c p (m\<lparr>harts := (harts m)(c := h)\<rparr>)"
    and own: "hart_inv m c \<Longrightarrow> hart_inv m' c"
  shows "minv m'"
proof (rule minvI [OF inv, of _ c])
  show "lock_inv m' l" for l
  proof (rule lock_inv_goto [OF minvD(1) [OF inv]])
    show "pcs m c \<notin> {Set_cpu l, Release l}" "p \<notin> {Set_cpu l, Release l}" using pc by auto
  qed (simp_all add: m')
  show "hart_inv m' c" by (rule own [OF minvD(2) [OF inv]])
  show "harts m' d = harts m d \<and> held m' d = held m d \<and> pcs m' d = pcs m d" if "d \<noteq> c" for d
    using that by (simp add: m')
qed

lemma goto_same_hart: "goto c p m = goto c p (m\<lparr>harts := (harts m)(c := harts m c)\<rparr>)"
  by (simp add: goto_def)

lemma minv_goto':
  assumes "minv m" and "\<not> owning (pcs m c)" "\<not> owning p"
    and "hart_inv m c \<Longrightarrow> hart_inv (goto c p m) c"
  shows "minv (goto c p m)"
  using minv_goto [OF assms(1-3) goto_same_hart] assms(4) by simp

lemma minv_step:
  assumes "mstep m m'" and inv: "minv m"
  shows "minv m'"
  using assms(1)
proof cases
  case (call_lock c l)
  then show ?thesis
    by (intro minv_goto [OF inv _ _ call_lock(1)]) (simp_all add: hart_inv_def push_off_ok)
next
  case (chk_lock c l)
  show ?thesis
    unfolding chk_lock(1) using chk_lock(2) by (intro minv_goto' [OF inv]) (simp_all add: hart_inv_def)
next
  case (chk_cpu c l)
  show ?thesis
    unfolding chk_cpu(1) using chk_cpu(2) by (intro minv_goto' [OF inv]) (simp_all add: hart_inv_def)
next
  case (swap c l)
  have "l \<notin> held m c" if "lock (locks m l) = 0"
    using minvD(1) [OF inv, of l] that unfolding lock_inv_def owns_def by auto
  with swap(2) minvD(2) [OF inv, of c] have "hart_inv m' c"
    unfolding swap(1) by (simp add: hart_inv_def)
  with swap show ?thesis by (intro minvI [OF inv lock_inv_swap [OF inv swap(2,1)], of c]) simp_all
next
  case (set_cpu c l)
  with minvD(2) [OF inv, of c] have "hart_inv m' c"
    unfolding set_cpu(1) by (simp add: hart_inv_def)
  with set_cpu show ?thesis by (intro minvI [OF inv lock_inv_set_cpu [OF inv set_cpu(2,1)], of c]) simp_all
next
  case (call_unlock c l)
  show ?thesis
    unfolding call_unlock(1) using call_unlock(2) by (intro minv_goto' [OF inv]) (simp_all add: hart_inv_def)
next
  case (rchk_lock c l)
  show ?thesis
    unfolding rchk_lock(1) using rchk_lock(2) by (intro minv_goto' [OF inv]) (simp_all add: hart_inv_def)
next
  case (rchk_cpu c l)
  have "l \<in> held m c" if "lk_cpuid (locks m l) = int c"
    using minvD(1) [OF inv, of l] that unfolding lock_inv_def by auto
  then show ?thesis
    unfolding rchk_cpu(1) using rchk_cpu(2) by (intro minv_goto' [OF inv]) (simp_all add: hart_inv_def)
next
  case (clr_cpu c l)
  have hc: "l \<in> held m c" "finite (held m c)"
    using minvD(2) [OF inv, of c] clr_cpu(2) by (simp_all add: hart_inv_def)
  then have "int (card (held m c - {l})) = int (card (held m c)) - 1"
    using card_Suc_Diff1 [of "held m c" l] by linarith
  with clr_cpu(2) minvD(2) [OF inv, of c] have "hart_inv m' c"
    unfolding clr_cpu(1) by (simp add: hart_inv_def)
  with clr_cpu show ?thesis by (intro minvI [OF inv lock_inv_clr_cpu [OF inv clr_cpu(2,1)], of c]) simp_all
next
  case (release c l)
  with minvD(2) [OF inv, of c] have "hart_inv m' c"
    unfolding release(1) by (simp add: hart_inv_def)
  with release show ?thesis by (intro minvI [OF inv lock_inv_release [OF inv release(2,1)], of c]) simp_all
next
  case (pop c)
  have "hart_ok (harts m c)" "0 < noff (harts m c)"
    using minvD(2) [OF inv, of c] pop(2) by (simp_all add: hart_inv_def)
  then obtain h' where h': "pop_off (harts m c) = Inr h'" "hart_ok h'" "noff h' = noff (harts m c) - 1"
    by (rule pop_off_depth)
  have m': "m' = goto c Run (m\<lparr>harts := (harts m)(c := h')\<rparr>)" using pop(1) h'(1) by simp
  show ?thesis
    using pop(2) h'(2,3) by (intro minv_goto [OF inv _ _ m']) (simp_all add: m' hart_inv_def)
next
  case (switch c b)
  define h' where "h' = (if b then intr_on else intr_off) (harts m c)"
  have h': "noff h' = 0" "hart_ok h'"
    using switch(3) by (simp_all add: h'_def hart_ok_def intr_on_def intr_off_def)
  have m': "m' = goto c Run (m\<lparr>harts := (harts m)(c := h')\<rparr>)"
    unfolding switch(1) goto_def h'_def using switch(2) by (simp add: fun_upd_idem)
  show ?thesis
    using switch(2,3) h' by (intro minv_goto [OF inv _ _ m']) (simp_all add: m' hart_inv_def)
qed

lemma minv_minit: "minit m \<Longrightarrow> minv m"
  by (auto simp: minit_def minv_def lock_inv_def hart_inv_def owns_def spin_init_def hart_ok_def)

lemma minv_reachable:
  assumes "mstep\<^sup>*\<^sup>* m m'" and "minit m"
  shows "minv m'"
  using assms by (induction rule: rtranclp_induct) (auto intro: minv_step minv_minit)

text \<open>
  The invariant at work: one owner per lock, interrupts off inside a critical section, \<open>holding\<close>
  answers exactly, and the only ways to a panic are locking a lock the hart holds already and
  unlocking one it does not hold.
\<close>

lemma minv_exclusion: "minv m \<Longrightarrow> l \<in> held m c \<Longrightarrow> l \<in> held m d \<Longrightarrow> c = d"
  using minvD(1) [of m l] by (auto simp: lock_inv_def owns_def)

lemma minv_holding:
  assumes "minv m"
  shows "holding (int c) (locks m l) \<longleftrightarrow> l \<in> held m c"
  using minvD(1) [OF assms, of l] by (auto simp: lock_inv_def owns_def holding_def)

lemma minv_intr_off:
  assumes "minv m" and "l \<in> held m c" and "pcs m c \<noteq> Dead"
  shows "\<not> sie (harts m c)"
proof -
  have "finite (held m c)" using minvD(2) [OF assms(1)] by (simp add: hart_inv_def)
  then have "0 < card (held m c)" using assms(2) by (auto simp: card_gt_0_iff)
  then show ?thesis
    using minvD(2) [OF assms(1), of c] assms(3) by (auto simp: hart_inv_def hart_ok_def split: if_splits)
qed

lemma minv_panic:
  assumes "mstep m m'" and "minv m" and "pcs m c \<noteq> Dead" and "pcs m' c = Dead"
  shows "(\<exists>l. pcs m c = Chk_cpu l \<and> l \<in> held m c) \<or>
         (\<exists>l. (pcs m c = Rchk_lock l \<or> pcs m c = Rchk_cpu l) \<and> l \<notin> held m c)"
  using assms(1)
proof cases
  case (chk_cpu d l)
  then have "d = c" "lk_cpuid (locks m l) = int c" using assms(3,4) by (auto split: if_splits)
  with chk_cpu show ?thesis using minvD(1) [OF assms(2), of l] by (auto simp: lock_inv_def)
next
  case (rchk_lock d l)
  then have "d = c" "lock (locks m l) \<noteq> 1" using assms(3,4) by (auto split: if_splits)
  with rchk_lock show ?thesis using minvD(1) [OF assms(2), of l] by (auto simp: lock_inv_def owns_def)
next
  case (rchk_cpu d l)
  then have "d = c" "lk_cpuid (locks m l) \<noteq> int c" using assms(3,4) by (auto split: if_splits)
  with rchk_cpu show ?thesis using minvD(1) [OF assms(2), of l] by (auto simp: lock_inv_def)
next
  case (pop d)
  show ?thesis
  proof (cases "d = c")
    case True
    have "hart_ok (harts m c)" "0 < noff (harts m c)"
      using minvD(2) [OF assms(2), of c] pop True by (simp_all add: hart_inv_def)
    then obtain h' where "pop_off (harts m c) = Inr h'" by (rule pop_off_depth)
    with pop True assms(4) show ?thesis by simp
  next
    case False
    with pop assms(3,4) show ?thesis by (simp split: sum.splits)
  qed
qed (use assms(3,4) in \<open>auto split: if_splits\<close>)

text \<open>Run alone, the steps of one hart are the function \<open>spin_lock\<close>.\<close>

lemma spin_lock_steps:
  assumes pc: "pcs m c = Run" and ok: "spin_lock (int c) (harts m c, locks m l) = Inr (h, k)"
  shows "mstep\<^sup>*\<^sup>* m (m\<lparr>harts := (harts m)(c := h), locks := (locks m)(l := k),
                        held := (held m)(c := insert l (held m c))\<rparr>)"
proof -
  from ok have free: "lock (locks m l) = 0" and h: "h = push_off (harts m c)"
    and k: "k = (locks m l)\<lparr>lock := 1, lk_cpuid := int c\<rparr>"
    by (auto simp: spin_lock_def Let_def split: if_splits)
  define m1 where "m1 = goto c (Chk_lock l) (m\<lparr>harts := (harts m)(c := h)\<rparr>)"
  define m2 where "m2 = goto c (Swap l) m1"
  define m3 where "m3 = goto c (Set_cpu l) (m2\<lparr>locks := (locks m2)(l := (locks m2 l)\<lparr>lock := 1\<rparr>)\<rparr>)"
  define m4 where "m4 = goto c Run (m3\<lparr>locks := (locks m3)(l := (locks m3 l)\<lparr>lk_cpuid := int c\<rparr>),
    held := (held m3)(c := insert l (held m3 c))\<rparr>)"
  have "mstep m m1" unfolding m1_def h using pc by (rule mstep.call_lock)
  moreover have "mstep m1 m2"
    using mstep.chk_lock [of m1 c l] free by (simp add: m1_def m2_def)
  moreover have "mstep m2 m3"
    using mstep.swap [of m2 c l] free by (simp add: m1_def m2_def m3_def)
  moreover have "mstep m3 m4"
    unfolding m4_def by (rule mstep.set_cpu) (simp add: m3_def)
  moreover have "m4 = m\<lparr>harts := (harts m)(c := h), locks := (locks m)(l := k),
                       held := (held m)(c := insert l (held m c))\<rparr>"
    using pc by (cases m) (simp add: m1_def m2_def m3_def m4_def goto_def k fun_upd_idem)
  ultimately show ?thesis by (metis (no_types) converse_rtranclp_into_rtranclp rtranclp.rtrancl_refl)
qed

subsection \<open>Properties\<close>

text \<open>All locks initialised and all harts outside of the lock code.\<close>

definition idle_machine :: "nat machine" where
  "idle_machine = \<lparr>harts = (\<lambda>_. \<lparr>noff = 0, intena = False, sie = True\<rparr>), locks = (\<lambda>_. spin_init),
     pcs = (\<lambda>_. Run), held = (\<lambda>_. {})\<rparr>"

lemma idle_minit: "minit idle_machine"
  by (simp add: minit_def idle_machine_def)

definition locked_machine :: "nat machine" where
  "locked_machine = idle_machine\<lparr>harts := (harts idle_machine)(1 := push_off (harts idle_machine 1)),
     locks := (locks idle_machine)(7 := spin_init\<lparr>lock := 1, lk_cpuid := 1\<rparr>),
     held := (held idle_machine)(1 := {7})\<rparr>"

lemma locked_reachable: "mstep\<^sup>*\<^sup>* idle_machine locked_machine"
proof -
  have "spin_lock (int 1) (harts idle_machine 1, locks idle_machine 7) =
      Inr (push_off (harts idle_machine 1), spin_init\<lparr>lock := 1, lk_cpuid := int 1\<rparr>)"
    by (simp add: idle_machine_def spin_lock_free)
  from spin_lock_steps [OF _ this] show ?thesis by (simp add: locked_machine_def idle_machine_def)
qed

text \<open>C1: in every state that any interleaving of the harts' steps through \<open>spin_lock\<close> and
  \<open>spin_unlock\<close> reaches, at most one hart is inside the critical section of a lock, \<open>holding\<close> is true
  for exactly that hart, and its interrupts are off.\<close>

theorem spinlock_mutual_exclusion:
  assumes "minit m" and "mstep\<^sup>*\<^sup>* m m'" and "l \<in> held m' c"
  shows "(\<forall>d. l \<in> held m' d \<longleftrightarrow> d = c) \<and> (\<forall>d. holding (int d) (locks m' l) \<longleftrightarrow> d = c) \<and>
         (pcs m' c = Dead \<or> \<not> sie (harts m' c))"
proof -
  have inv: "minv m'" using minv_reachable [OF assms(2,1)] .
  have "l \<in> held m' d \<longleftrightarrow> d = c" for d using minv_exclusion [OF inv] assms(3) by blast
  then show ?thesis using minv_holding [OF inv] minv_intr_off [OF inv assms(3)] by blast
qed

theorem spinlock_mutual_exclusion_witness:
  "holding 1 (locks locked_machine 7) \<and> \<not> holding 2 (locks locked_machine 7) \<and> \<not> sie (harts locked_machine 1)"
proof -
  have h: "7 \<in> held locked_machine 1" and p: "pcs locked_machine 1 \<noteq> Dead"
    by (simp_all add: locked_machine_def idle_machine_def)
  note ex = spinlock_mutual_exclusion [OF idle_minit locked_reachable h]
  have d: "\<And>d. holding (int d) (locks locked_machine 7) \<longleftrightarrow> d = 1" using ex by blast
  have "\<not> sie (harts locked_machine 1)" using ex p by blast
  with d [of 1] d [of 2] show ?thesis by simp
qed

text \<open>C28: the lock code panics only when it is misused: on taking a lock the same hart already holds,
  or on releasing a lock the hart does not hold. No interleaving with other harts causes a panic.\<close>

theorem spinlock_panics_only_on_misuse:
  assumes "minit m" and "mstep\<^sup>*\<^sup>* m m'" and "mstep m' m''" and "pcs m' c \<noteq> Dead" and "pcs m'' c = Dead"
  shows "(\<exists>l. pcs m' c = Chk_cpu l \<and> l \<in> held m' c) \<or>
         (\<exists>l. (pcs m' c = Rchk_lock l \<or> pcs m' c = Rchk_cpu l) \<and> l \<notin> held m' c)"
  by (rule minv_panic [OF assms(3) minv_reachable [OF assms(2,1)] assms(4,5)])

theorem spinlock_panics_only_on_misuse_witness:
  "let m' = goto 2 (Rchk_lock 7) idle_machine in
     mstep m' (goto 2 Dead m') \<and> 7 \<notin> held m' 2"
proof -
  let ?m = "goto 2 (Rchk_lock 7) idle_machine"
  have 1: "mstep\<^sup>*\<^sup>* idle_machine ?m"
    by (intro r_into_rtranclp mstep.call_unlock) (simp add: idle_machine_def)
  have 2: "mstep ?m (goto 2 Dead ?m)"
    using mstep.rchk_lock [of ?m 2 7] by (simp add: idle_machine_def spin_init_def)
  have "7 \<notin> held ?m 2"
    using spinlock_panics_only_on_misuse [OF idle_minit 1 2, of 2] by simp
  with 2 show ?thesis by (simp add: Let_def)
qed

text \<open>C29: the function \<open>spin_lock\<close> used by the other components is what the single steps of one hart
  do when no other hart interferes.\<close>

theorem spin_lock_refines_steps:
  assumes "pcs m c = Run" and "spin_lock (int c) (harts m c, locks m l) = Inr (h, k)"
  shows "mstep\<^sup>*\<^sup>* m (m\<lparr>harts := (harts m)(c := h), locks := (locks m)(l := k),
                        held := (held m)(c := insert l (held m c))\<rparr>)"
  using assms by (rule spin_lock_steps)

theorem spin_lock_refines_steps_witness:
  "mstep\<^sup>*\<^sup>* idle_machine (idle_machine\<lparr>harts := (harts idle_machine)(0 := push_off (harts idle_machine 0)),
     locks := (locks idle_machine)(3 := spin_init\<lparr>lock := 1, lk_cpuid := 0\<rparr>),
     held := (held idle_machine)(0 := {3})\<rparr>)"
proof -
  have "spin_lock (int 0) (harts idle_machine 0, locks idle_machine 3) =
      Inr (push_off (harts idle_machine 0), spin_init\<lparr>lock := 1, lk_cpuid := int 0\<rparr>)"
    by (simp add: idle_machine_def spin_lock_free)
  from spin_lock_refines_steps [OF _ this] show ?thesis by (simp add: idle_machine_def)
qed

text \<open>after \<open>n\<close> nested \<open>push_off\<close>s, \<open>n\<close> \<open>pop_off\<close>s succeed and restore the depth and the interrupt
  enable bit the hart started with.\<close>

theorem nested_pop_off_restores:
  assumes "hart_ok h" and "noff h = 0"
  shows "\<exists>h'. pop_n n ((push_off ^^ n) h) = Inr h' \<and> noff h' = 0 \<and> sie h' = sie h"
proof (cases n)
  case (Suc k)
  then show ?thesis using pop_push_n [OF assms, of k] assms(2) by (intro exI [of _ "h\<lparr>intena := sie h\<rparr>"]) simp
qed (use assms in simp)

theorem nested_pop_off_restores_witness:
  "\<exists>h'. pop_n 3 ((push_off ^^ 3) \<lparr>noff = 0, intena = False, sie = True\<rparr>) = Inr h' \<and> noff h' = 0 \<and> sie h'"
  using nested_pop_off_restores [of "\<lparr>noff = 0, intena = False, sie = True\<rparr>" 3] by (simp add: hart_ok_def)

end
