(* ===== verification/Page.thy ===== *)
theory Page
  imports Klist Spinlock Cstring
begin

text \<open>
  include/mm/page.h and mm/page.c: one \<open>struct page\<close> per physical page frame, held in the array
  \<open>mem_map.pages\<close>. A page pointer is its index in that array; an index outside the array is a
  \<open>Fault\<close> when it is used. The \<open>buddy\<close> list nodes of the pages and the heads of the buddy free
  lists live in one link heap. The reference count starts at \<open>PG_FREE = -1\<close>.
\<close>

subsection \<open>Addresses\<close>

abbreviation (input) PGSIZE :: nat where "PGSIZE \<equiv> 4096"
abbreviation (input) PGSHIFT :: nat where "PGSHIFT \<equiv> 12"
abbreviation (input) KERNBASE :: u64 where "KERNBASE \<equiv> 0x80000000"
abbreviation (input) ALL_PFN :: nat where "ALL_PFN \<equiv> 32768"
abbreviation (input) MAX_LEVEL :: nat where "MAX_LEVEL \<equiv> 11"
abbreviation (input) MAX_LEVEL_INDEX :: nat where "MAX_LEVEL_INDEX \<equiv> 10"
abbreviation (input) MAX_LEVEL_COUNT :: nat where "MAX_LEVEL_COUNT \<equiv> 1024"
abbreviation (input) PG_FREE :: int where "PG_FREE \<equiv> - 1"

definition index_to_page :: "u64 \<Rightarrow> u64" where
  "index_to_page i = push_bit PGSHIFT i + KERNBASE"

definition page_to_index :: "u64 \<Rightarrow> u64" where
  "page_to_index a = drop_bit PGSHIFT (a - KERNBASE)"

definition get_page_struct :: "u64 \<Rightarrow> nat" where
  "get_page_struct a = unat (page_to_index a)"

definition get_page_addr :: "nat \<Rightarrow> u64" where
  "get_page_addr i = index_to_page (of_nat i)"

text \<open>Page structs and page addresses correspond one to one; every address of a page finds it.\<close>

lemma unat_page_offset:
  assumes "i < ALL_PFN" and "d < PGSIZE"
  shows "unat (of_nat (i * PGSIZE + d) :: u64) = i * PGSIZE + d"
proof -
  have "i * PGSIZE + d < 2 ^ LENGTH(64)" using assms by simp
  then show ?thesis by (rule unat_of_nat_small)
qed

lemma get_page_addr_offset: "get_page_addr i = of_nat (i * PGSIZE) + KERNBASE"
  by (simp add: get_page_addr_def index_to_page_def push_bit_eq_mult mult.commute)

lemma get_page_struct_addr:
  assumes "i < ALL_PFN" and "d < PGSIZE"
  shows "get_page_struct (get_page_addr i + of_nat d) = i"
proof -
  have "get_page_addr i + of_nat d - KERNBASE = of_nat (i * PGSIZE + d)"
    by (simp add: get_page_addr_offset)
  then have "get_page_struct (get_page_addr i + of_nat d) = unat (drop_bit 12 (of_nat (i * PGSIZE + d) :: u64))"
    by (simp only: get_page_struct_def page_to_index_def)
  also have "\<dots> = drop_bit 12 (unat (of_nat (i * PGSIZE + d) :: u64))"
    by (rule unat_drop_bit_eq)
  also have "\<dots> = i" unfolding unat_page_offset [OF assms] using assms(2) by (simp add: drop_bit_eq_div)
  finally show ?thesis .
qed

subsection \<open>Page structs\<close>

record page =
  flags :: u32
  count :: int
  slab :: "nat option"

datatype mnode = Pg nat | Free nat

record mem_map =
  pages :: "nat \<Rightarrow> page"
  links :: "mnode lheap"
  kernel_pfn_end :: nat
  ram :: mem

definition upd_page :: "nat \<Rightarrow> (page \<Rightarrow> page) \<Rightarrow> mem_map \<Rightarrow> mem_map" where
  "upd_page i f s = s\<lparr>pages := (pages s)(i := f (pages s i))\<rparr>"

abbreviation (input) PG_dirty :: u32 where "PG_dirty \<equiv> 1"
abbreviation (input) PG_locked :: u32 where "PG_locked \<equiv> 2"
abbreviation (input) PG_anon :: u32 where "PG_anon \<equiv> 4"
abbreviation (input) PG_reserved :: u32 where "PG_reserved \<equiv> 8"
abbreviation (input) PG_Slab :: u32 where "PG_Slab \<equiv> 16"

definition TestPageFlag :: "nat \<Rightarrow> u32 \<Rightarrow> mem_map \<Rightarrow> bool" where
  "TestPageFlag i fl s \<longleftrightarrow> flags (pages s i) AND fl \<noteq> 0"

definition SetPageFlag :: "nat \<Rightarrow> u32 \<Rightarrow> mem_map \<Rightarrow> mem_map" where
  "SetPageFlag i fl = upd_page i (\<lambda>p. p\<lparr>flags := flags p OR fl\<rparr>)"

definition ClearPageFlag :: "nat \<Rightarrow> u32 \<Rightarrow> mem_map \<Rightarrow> mem_map" where
  "ClearPageFlag i fl = upd_page i (\<lambda>p. p\<lparr>flags := flags p AND NOT fl\<rparr>)"

definition ResetPageFlag :: "nat \<Rightarrow> mem_map \<Rightarrow> mem_map" where
  "ResetPageFlag i = upd_page i (\<lambda>p. p\<lparr>flags := 0\<rparr>)"

definition page_init :: "nat \<Rightarrow> u32 \<Rightarrow> mem_map \<Rightarrow> mem_map" where
  "page_init i fl s =
     (let s = upd_page i (\<lambda>p. p\<lparr>flags := fl, count := PG_FREE, slab := None\<rparr>) s
      in s\<lparr>links := INIT_LIST_HEAD (Pg i) (links s)\<rparr>)"

definition page_count :: "nat \<Rightarrow> mem_map \<Rightarrow> int" where
  "page_count i s = count (pages s i)"

definition is_page_free :: "nat \<Rightarrow> mem_map \<Rightarrow> bool" where
  "is_page_free i s \<longleftrightarrow> page_count i s = PG_FREE"

definition page_push :: "nat \<Rightarrow> mem_map \<Rightarrow> mem_map" where
  "page_push i = upd_page i (\<lambda>p. p\<lparr>count := atomic_inc (count p)\<rparr>)"

definition page_pop :: "nat \<Rightarrow> mem_map \<Rightarrow> mem_map" where
  "page_pop i = upd_page i (\<lambda>p. p\<lparr>count := atomic_dec (count p)\<rparr>)"

definition page_pop_test :: "nat \<Rightarrow> mem_map \<Rightarrow> bool \<times> mem_map" where
  "page_pop_test i s =
     (case atomic_dec_and_test (count (pages s i)) of (z, n) \<Rightarrow> (z, upd_page i (\<lambda>p. p\<lparr>count := n\<rparr>) s))"

text \<open>\<open>end_pfn\<close> is \<open>END_PFN\<close>, the frame of the linker symbol \<open>end\<close>.\<close>

definition all_page_init :: "nat \<Rightarrow> mem_map \<Rightarrow> mem_map" where
  "all_page_init end_pfn s =
     (let s = s\<lparr>kernel_pfn_end := end_pfn - unat (drop_bit PGSHIFT KERNBASE)\<rparr>;
          s = fold (\<lambda>i. page_init i 0) [0 ..< ALL_PFN] s
      in fold (\<lambda>i s. SetPageFlag i (PG_reserved OR PG_anon)
            (upd_page i (\<lambda>p. p\<lparr>count := atomic_inc (count p)\<rparr>) s)) [0 ..< kernel_pfn_end s] s)"

lemmas page_defs = upd_page_def TestPageFlag_def SetPageFlag_def ClearPageFlag_def
  ResetPageFlag_def page_count_def is_page_free_def page_push_def page_pop_def page_pop_test_def

lemma page_ops_frame [simp]:
  "links (upd_page i f s) = links s" "kernel_pfn_end (upd_page i f s) = kernel_pfn_end s"
  "ram (upd_page i f s) = ram s" "links (page_push i s) = links s" "links (SetPageFlag i fl s) = links s"
  by (simp_all add: page_defs)

subsubsection \<open>State after initialisation\<close>

lemma fold_page_init:
  "pages (fold (\<lambda>i. page_init i fl) is s) j =
     (if j \<in> set is then (pages s j)\<lparr>flags := fl, count := PG_FREE, slab := None\<rparr> else pages s j)"
  "l_next (links (fold (\<lambda>i. page_init i fl) is s)) (Pg j) =
     (if j \<in> set is then Pg j else l_next (links s) (Pg j))"
  "l_prev (links (fold (\<lambda>i. page_init i fl) is s)) (Pg j) =
     (if j \<in> set is then Pg j else l_prev (links s) (Pg j))"
  "kernel_pfn_end (fold (\<lambda>i. page_init i fl) is s) = kernel_pfn_end s"
  by (induction "is" arbitrary: s) (auto simp: page_init_def upd_page_def INIT_LIST_HEAD_def Let_def)

lemma fold_reserve:
  assumes "distinct is"
  shows "pages (fold (\<lambda>i s. SetPageFlag i fl (upd_page i (\<lambda>p. p\<lparr>count := atomic_inc (count p)\<rparr>) s)) is s) j =
     (if j \<in> set is then (pages s j)\<lparr>flags := flags (pages s j) OR fl, count := atomic_inc (count (pages s j))\<rparr>
      else pages s j)"
    and "links (fold (\<lambda>i s. SetPageFlag i fl (upd_page i (\<lambda>p. p\<lparr>count := atomic_inc (count p)\<rparr>) s)) is s) = links s"
    and "kernel_pfn_end (fold (\<lambda>i s. SetPageFlag i fl (upd_page i (\<lambda>p. p\<lparr>count := atomic_inc (count p)\<rparr>) s)) is s) = kernel_pfn_end s"
  using assms by (induction "is" arbitrary: s) (auto simp: SetPageFlag_def upd_page_def)

text \<open>Every frame below the kernel's end is reserved with count 0, every other one is free.\<close>

lemma all_page_init_pages:
  fixes s :: mem_map and end_pfn :: nat
  defines "s' \<equiv> all_page_init end_pfn s"
  assumes "end_pfn < 0x80000 + ALL_PFN" and "i < ALL_PFN"
  shows "count (pages s' i) = (if i < end_pfn - 0x80000 then 0 else PG_FREE)"
    and "flags (pages s' i) = (if i < end_pfn - 0x80000 then PG_reserved OR PG_anon else 0)"
    and "slab (pages s' i) = None"
    and "l_next (links s') (Pg i) = Pg i \<and> l_prev (links s') (Pg i) = Pg i"
    and "kernel_pfn_end s' = end_pfn - 0x80000"
proof -
  have k: "unat (drop_bit PGSHIFT KERNBASE) = 0x80000" by simp
  have one: "atomic_inc PG_FREE = 0" by (simp add: atomic_inc_id)
  show "count (pages s' i) = (if i < end_pfn - 0x80000 then 0 else PG_FREE)"
    "flags (pages s' i) = (if i < end_pfn - 0x80000 then PG_reserved OR PG_anon else 0)"
    "slab (pages s' i) = None"
    "l_next (links s') (Pg i) = Pg i \<and> l_prev (links s') (Pg i) = Pg i"
    "kernel_pfn_end s' = end_pfn - 0x80000"
    using assms(3) unfolding s'_def all_page_init_def Let_def k
    by (auto simp: fold_page_init fold_reserve one)
qed

subsection \<open>Properties\<close>

text \<open>\<open>get_page_struct\<close> maps every address inside page frame \<open>i\<close> back to the descriptor whose
  \<open>get_page_addr\<close> is the start of that frame.\<close>

theorem page_address_roundtrip:
  assumes "i < ALL_PFN" and "off < PGSIZE"
  shows "get_page_struct (get_page_addr i + of_nat off) = i"
  using assms by (rule get_page_struct_addr)

theorem page_address_roundtrip_witness: "get_page_struct (get_page_addr 32767 + of_nat 4095) = 32767"
  by (rule page_address_roundtrip) simp_all

end
