(* ===== verification/Buddy.thy ===== *)
theory Buddy
  imports Page
begin

text \<open>
  mm/mm.c and include/mm/buddy.h: the buddy page allocator and the page allocation entry points.
  A free list per level holds the first page of each free block of \<open>2\<^sup>l\<^sup>e\<^sup>v\<^sup>e\<^sup>l\<close> pages. The state is
  the page array with its link heap, run under \<open>buddy.lock\<close> with \<open>critical\<close>.

  The invariant \<open>buddy_inv\<close> says that the lists are well-formed, the blocks aligned to their size,
  inside memory and pairwise disjoint. Allocation is proved right from it. Freeing is proved
  right under the two conditions its code relies on: the links of the freed page are reset, and
  a buddy with count \<open>PG_FREE\<close> is a whole free block of that level.
\<close>

subsection \<open>The allocator\<close>

type_synonym buddy = "mem_map \<times> hart \<times> spinlock"

definition find_buddy :: "nat \<Rightarrow> nat \<Rightarrow> nat option" where
  "find_buddy page order =
     (let buddy_index = page XOR 2 ^ order
      in if buddy_index \<ge> ALL_PFN then None else Some buddy_index)"

text \<open>The inner loop of \<open>buddy_alloc\<close>: split the block until it has the wanted order.\<close>

fun buddy_split :: "nat \<Rightarrow> nat \<Rightarrow> nat \<Rightarrow> mem_map \<Rightarrow> mem_map" where
  "buddy_split page order 0 s = s"
| "buddy_split page order (Suc j) s =
     (if Suc j > order then
        (case find_buddy page j of
           None \<Rightarrow> s
         | Some b \<Rightarrow> buddy_split page order j (s\<lparr>links := list_add_head (Pg b) (Free j) (links s)\<rparr>))
      else s)"

function buddy_scan :: "nat \<Rightarrow> nat \<Rightarrow> mem_map \<Rightarrow> (nat option \<times> mem_map) kres" where
  "buddy_scan order i s =
     (if i < MAX_LEVEL then
        if \<not> list_empty (Free i) (links s) then
          (case list_pop (Free i) (links s) of
             (Some (Pg page), lk) \<Rightarrow> Inr (Some page, buddy_split page order i (s\<lparr>links := lk\<rparr>))
           | _ \<Rightarrow> Inl (Fault ''list_entry''))
        else buddy_scan order (i + 1) s
      else Inr (None, s))"
  by pat_completeness auto
termination
  by (relation "measure (\<lambda>(_, i, _). MAX_LEVEL - i)") auto

definition buddy_alloc :: "int \<Rightarrow> int \<Rightarrow> buddy \<Rightarrow> (nat option \<times> buddy) kres" where
  "buddy_alloc cpuid order st =
     (if order < 0 \<or> order > int MAX_LEVEL_INDEX then Inr (None, st)
      else critical cpuid (buddy_scan (nat order) (nat order)) st)"

text \<open>The merging loop of \<open>buddy_free\<close>: the block it ends with, its level, and the lists.\<close>

function buddy_merge :: "nat \<Rightarrow> nat \<Rightarrow> mem_map \<Rightarrow> nat \<times> nat \<times> mem_map" where
  "buddy_merge page level s =
     (if level < MAX_LEVEL_INDEX then
        (let buddy_page = find_buddy page level in
         if list_empty (Free level) (links s) then (page, level, s)
         else case buddy_page of
             None \<Rightarrow> (page, level, s)
           | Some b \<Rightarrow>
               if \<not> is_page_free b s then (page, level, s)
               else
                 let s = s\<lparr>links := list_del_init (Pg b) (links s)\<rparr>;
                     s = s\<lparr>links := list_del_init (Pg page) (links s)\<rparr>
                 in buddy_merge (if page < b then page else b) (level + 1) s)
      else (page, level, s))"
  by pat_completeness auto
termination
  by (relation "measure (\<lambda>(_, level, _). MAX_LEVEL_INDEX - level)") auto

definition buddy_free_body :: "nat \<Rightarrow> nat \<Rightarrow> mem_map \<Rightarrow> (unit \<times> mem_map) kres" where
  "buddy_free_body pg order s =
     (case buddy_merge pg order s of (page, level, s) \<Rightarrow>
        Inr ((), s\<lparr>links := list_add_head (Pg page) (Free level) (links s)\<rparr>))"

definition buddy_free :: "int \<Rightarrow> nat \<Rightarrow> nat \<Rightarrow> buddy \<Rightarrow> (unit \<times> buddy) kres" where
  "buddy_free cpuid pg order = critical cpuid (buddy_free_body pg order)"

declare buddy_scan.simps [simp del] buddy_merge.simps [simp del]

subsection \<open>Entry points\<close>

text \<open>\<open>buddy_alloc\<close>'s NULL is passed on to \<open>page_push\<close>, which writes through it.\<close>

definition alloc_pages :: "int \<Rightarrow> u32 \<Rightarrow> int \<Rightarrow> buddy \<Rightarrow> (nat \<times> buddy) kres" where
  "alloc_pages cpuid fl order st =
     bindR (buddy_alloc cpuid order st) (\<lambda>(page, s, h, l).
       case page of
         None \<Rightarrow> Inl (Fault ''page_push(NULL)'')
       | Some p \<Rightarrow> Inr (p, page_push p s, h, l))"

definition alloc_pages_addr :: "int \<Rightarrow> u32 \<Rightarrow> int \<Rightarrow> buddy \<Rightarrow> (u64 \<times> buddy) kres" where
  "alloc_pages_addr cpuid fl order st =
     bindR (alloc_pages cpuid fl order st) (\<lambda>(p, st). Inr (get_page_addr p, st))"

definition alloc_page :: "int \<Rightarrow> u32 \<Rightarrow> buddy \<Rightarrow> (nat \<times> buddy) kres" where
  "alloc_page cpuid fl st =
     bindR (buddy_alloc cpuid 0 st) (\<lambda>(page, s, h, l).
       case page of
         None \<Rightarrow> Inl (Fault ''page_push(NULL)'')
       | Some p \<Rightarrow> Inr (p, page_push p s, h, l))"

definition alloc_page_addr :: "int \<Rightarrow> u32 \<Rightarrow> buddy \<Rightarrow> (u64 \<times> buddy) kres" where
  "alloc_page_addr cpuid fl st =
     bindR (alloc_page cpuid fl st) (\<lambda>(p, s, h, l).
       let addr = get_page_addr p in
       bindR (memset addr 0 (of_nat PGSIZE) (ram s)) (\<lambda>m. Inr (addr, s\<lparr>ram := m\<rparr>, h, l)))"

definition free_pages :: "int \<Rightarrow> nat \<Rightarrow> nat \<Rightarrow> buddy \<Rightarrow> (unit \<times> buddy) kres" where
  "free_pages cpuid pg order st = (case st of (s, h, l) \<Rightarrow>
     case page_pop_test pg s of (z, s) \<Rightarrow>
       if z then buddy_free cpuid pg order (s, h, l) else Inr ((), s, h, l))"

definition free_pages_addr :: "int \<Rightarrow> u64 \<Rightarrow> nat \<Rightarrow> buddy \<Rightarrow> (unit \<times> buddy) kres" where
  "free_pages_addr cpuid addr order st = free_pages cpuid (get_page_struct addr) order st"

definition free_page :: "int \<Rightarrow> nat \<Rightarrow> buddy \<Rightarrow> (unit \<times> buddy) kres" where
  "free_page cpuid pg st = (case st of (s, h, l) \<Rightarrow>
     case page_pop_test pg s of (z, s) \<Rightarrow>
       if z then buddy_free cpuid pg 0 (s, h, l) else Inr ((), s, h, l))"

definition free_page_addr :: "int \<Rightarrow> u64 \<Rightarrow> buddy \<Rightarrow> (unit \<times> buddy) kres" where
  "free_page_addr cpuid addr st = free_page cpuid (get_page_struct addr) st"

subsection \<open>Initialisation\<close>

function add_blocks :: "nat \<Rightarrow> mem_map \<Rightarrow> mem_map" where
  "add_blocks i s =
     (if i < ALL_PFN then
        add_blocks (i + MAX_LEVEL_COUNT)
          (s\<lparr>links := list_add_head (Pg i) (Free MAX_LEVEL_INDEX) (links s)\<rparr>)
      else s)"
  by pat_completeness auto
termination
  by (relation "measure (\<lambda>(i, _). ALL_PFN - i)") auto

fun free_each :: "int \<Rightarrow> nat list \<Rightarrow> buddy \<Rightarrow> (unit \<times> buddy) kres" where
  "free_each cpuid [] st = Inr ((), st)"
| "free_each cpuid (i # is) st = bindR (free_page cpuid i st) (\<lambda>(_, st). free_each cpuid is st)"

definition buddy_init :: "int \<Rightarrow> mem_map \<times> hart \<Rightarrow> (unit \<times> buddy) kres" where
  "buddy_init cpuid sh = (case sh of (s, h) \<Rightarrow>
     let s = s\<lparr>links := fold (\<lambda>i. INIT_LIST_HEAD (Free i)) [0 ..< MAX_LEVEL] (links s)\<rparr>;
         s = add_blocks (kernel_pfn_end s + 1) s;
         s = s\<lparr>links := snd (list_pop (Free MAX_LEVEL_INDEX) (links s))\<rparr>;
         end_free_count = (ALL_PFN - kernel_pfn_end s) mod MAX_LEVEL_COUNT;
         s = fold page_push [ALL_PFN - end_free_count ..< ALL_PFN] s
     in free_each cpuid [ALL_PFN - end_free_count ..< ALL_PFN] (s, h, spin_init))"

declare add_blocks.simps [simp del]

subsection \<open>Free blocks and the invariant\<close>

definition block :: "nat \<Rightarrow> nat \<Rightarrow> nat set" where
  "block p i = {p ..< p + 2 ^ i}"

definition free_heads :: "mnode set" where
  "free_heads = Free ` {..< MAX_LEVEL}"

definition fam :: "(nat \<Rightarrow> nat list) \<Rightarrow> mnode \<Rightarrow> mnode list" where
  "fam FL n = (case n of Free i \<Rightarrow> List.map Pg (FL i) | Pg _ \<Rightarrow> [])"

definition free_set :: "(nat \<Rightarrow> nat list) \<Rightarrow> nat set" where
  "free_set FL = (\<Union>i<MAX_LEVEL. \<Union>p\<in>set (FL i). block p i)"

definition good_block :: "nat \<Rightarrow> nat \<Rightarrow> bool" where
  "good_block p i \<longleftrightarrow> p mod 2 ^ i = 0 \<and> p + 2 ^ i \<le> ALL_PFN"

definition buddy_inv :: "mem_map \<Rightarrow> (nat \<Rightarrow> nat list) \<Rightarrow> bool" where
  "buddy_inv s FL \<longleftrightarrow>
     list_family free_heads (links s) (fam FL) \<and>
     (\<forall>i<MAX_LEVEL. \<forall>p\<in>set (FL i). good_block p i) \<and>
     (\<forall>i<MAX_LEVEL. \<forall>p\<in>set (FL i). \<forall>j<MAX_LEVEL. \<forall>q\<in>set (FL j).
        (i, p) \<noteq> (j, q) \<longrightarrow> block p i \<inter> block q j = {})"

lemma Free_in_heads [simp]: "Free i \<in> free_heads \<longleftrightarrow> i < MAX_LEVEL"
  by (auto simp: free_heads_def)

lemma fam_simps [simp]: "fam FL (Free i) = List.map Pg (FL i)" "fam FL (Pg p) = []"
  by (simp_all add: fam_def)

lemma fam_upd: "(fam FL)(Free i := List.map Pg ps) = fam (FL(i := ps))"
  by (rule ext) (auto simp: fam_def split: mnode.splits)

lemma block_head [simp]: "p \<in> block p i"
  by (simp add: block_def)

lemma Pg_in_nodes: "Pg p \<in> fam_nodes free_heads (fam FL) \<longleftrightarrow> (\<exists>i<MAX_LEVEL. p \<in> set (FL i))"
  by (auto simp: fam_nodes_def free_heads_def)

lemma head_in_free_set: "i < MAX_LEVEL \<Longrightarrow> p \<in> set (FL i) \<Longrightarrow> block p i \<subseteq> free_set FL"
  by (auto simp: free_set_def)

lemma mem_free_set: "x \<in> free_set FL \<longleftrightarrow> (\<exists>j<MAX_LEVEL. \<exists>q\<in>set (FL j). x \<in> block q j)"
  by (auto simp: free_set_def)

text \<open>Taking the first block off a list, and putting a block that is not free on one.\<close>

lemma buddy_inv_distinct:
  assumes "buddy_inv s FL" and "i < MAX_LEVEL"
  shows "distinct (FL i)"
proof -
  have "is_list (links s) (Free i) (List.map Pg (FL i))"
    using assms list_familyD [of free_heads "links s" "fam FL" "Free i"] by (simp add: buddy_inv_def)
  then show ?thesis by (simp add: is_list_def distinct_map)
qed

lemma free_set_remove:
  assumes inv: "buddy_inv s FL" and i: "i < MAX_LEVEL" and p: "p \<in> set (FL i)"
  shows "block p i \<inter> free_set (FL(i := remove1 p (FL i))) = {}"
    and "free_set FL = block p i \<union> free_set (FL(i := remove1 p (FL i)))"
proof -
  let ?FL = "FL(i := remove1 p (FL i))"
  have "distinct (FL i)" by (rule buddy_inv_distinct [OF inv i])
  then have set: "set (?FL j) = (if j = i then set (FL i) - {p} else set (FL j))" for j by simp
  have dis: "block p i \<inter> block q j = {}" if "j < MAX_LEVEL" "q \<in> set (?FL j)" for j q
  proof -
    have "(i, p) \<noteq> (j, q)" "q \<in> set (FL j)" using that set [of j] by (auto split: if_splits)
    with inv i p that(1) show ?thesis unfolding buddy_inv_def by blast
  qed
  then show "block p i \<inter> free_set ?FL = {}" unfolding free_set_def by blast
  show "free_set FL = block p i \<union> free_set ?FL"
  proof (intro equalityI subsetI)
    fix x assume "x \<in> free_set FL"
    then obtain j q where j: "j < MAX_LEVEL" "q \<in> set (FL j)" "x \<in> block q j" by (auto simp: mem_free_set)
    show "x \<in> block p i \<union> free_set ?FL"
    proof (cases "(j, q) = (i, p)")
      case False
      then have "q \<in> set (?FL j)" using set [of j] j(2) by auto
      with j show ?thesis unfolding mem_free_set Un_iff by blast
    qed (use j in simp)
  next
    fix x assume "x \<in> block p i \<union> free_set ?FL"
    then consider "x \<in> block p i" | j q where "j < MAX_LEVEL" "q \<in> set (?FL j)" "x \<in> block q j"
      unfolding Un_iff mem_free_set by blast
    then show "x \<in> free_set FL"
    proof cases
      case 2
      then have "q \<in> set (FL j)" using set [of j] by (auto split: if_splits)
      with 2 show ?thesis unfolding mem_free_set by blast
    qed (use i p mem_free_set in blast)
  qed
qed

lemma buddy_inv_remove:
  assumes inv: "buddy_inv s FL" and i: "i < MAX_LEVEL"
    and fam: "list_family free_heads lk (fam (FL(i := remove1 p (FL i))))"
  shows "buddy_inv (s\<lparr>links := lk\<rparr>) (FL(i := remove1 p (FL i)))"
proof -
  have sub: "set ((FL(i := remove1 p (FL i))) j) \<subseteq> set (FL j)" for j
    using set_remove1_subset [of p "FL i"] by auto
  with inv fam show ?thesis unfolding buddy_inv_def by (simp add: subset_iff)
qed

lemma buddy_inv_add:
  assumes inv: "buddy_inv s FL" and i: "i < MAX_LEVEL" and p: "good_block p i"
    and dis: "block p i \<inter> free_set FL = {}"
  shows "buddy_inv (s\<lparr>links := list_add_head (Pg p) (Free i) (links s)\<rparr>) (FL(i := p # FL i))"
    and "free_set (FL(i := p # FL i)) = block p i \<union> free_set FL"
proof -
  let ?FL = "FL(i := p # FL i)"
  have out: "p \<notin> set (FL j)" if "j < MAX_LEVEL" for j
    using dis head_in_free_set [OF that, of p FL] by (meson block_head disjoint_iff subsetD)
  then have "Pg p \<notin> fam_nodes free_heads (fam FL)" by (simp add: Pg_in_nodes)
  then have fam: "list_family free_heads (list_add_head (Pg p) (Free i) (links s)) (fam ?FL)"
    using fam_add_head [of free_heads "links s" "fam FL" "Free i" "Pg p"] inv i fam_upd [of FL i "p # FL i"]
    by (simp add: buddy_inv_def)
  have dis': "block p i \<inter> block q j = {}" if "j < MAX_LEVEL" "q \<in> set (FL j)" for j q
    using dis head_in_free_set [of j q FL] that by blast
  have "(\<forall>j<MAX_LEVEL. \<forall>q\<in>set (?FL j). good_block q j)"
    using inv p unfolding buddy_inv_def by simp
  moreover have "block q j \<inter> block r k = {}"
    if a: "j < MAX_LEVEL" "q \<in> set (?FL j)" "k < MAX_LEVEL" "r \<in> set (?FL k)" "(j, q) \<noteq> (k, r)" for j q k r
  proof -
    have q: "j = i \<and> q = p \<or> q \<in> set (FL j)" and r: "k = i \<and> r = p \<or> r \<in> set (FL k)"
      using a(2,4) by (auto split: if_splits)
    show ?thesis
    proof (cases "j = i \<and> q = p")
      case True
      then have "r \<in> set (FL k)" using r a(5) by auto
      with True dis' a(3) show ?thesis by simp
    next
      case False
      then have q': "q \<in> set (FL j)" using q by blast
      show ?thesis
      proof (cases "k = i \<and> r = p")
        case True
        with dis' [OF a(1) q'] show ?thesis by (simp add: Int_commute)
      next
        case False
        then have "r \<in> set (FL k)" using r by blast
        with inv q' a(1,3,5) show ?thesis unfolding buddy_inv_def by blast
      qed
    qed
  qed
  ultimately show "buddy_inv (s\<lparr>links := list_add_head (Pg p) (Free i) (links s)\<rparr>) ?FL"
    using fam unfolding buddy_inv_def by simp
  have "set (FL j) \<subseteq> set (?FL j)" "p \<in> set (?FL i)" "q \<in> set (?FL j) \<Longrightarrow> (j = i \<and> q = p) \<or> q \<in> set (FL j)" for j q
    by (auto split: if_splits)
  then show "free_set ?FL = block p i \<union> free_set FL"
    using i unfolding set_eq_iff Un_iff mem_free_set by blast
qed

subsection \<open>Splitting and allocation\<close>

lemma aligned_and_exp: "(p :: nat) mod 2 ^ Suc k = 0 \<Longrightarrow> p AND 2 ^ k = 0"
proof -
  assume "p mod 2 ^ Suc k = 0"
  then have "take_bit (Suc k) p = 0" by (simp only: take_bit_eq_mod)
  then have "\<not> bit (take_bit (Suc k) p) k" by simp
  then have "\<not> bit p k" by (simp only: bit_take_bit_iff) simp
  then show ?thesis by (auto simp: bit_eq_iff [of "p AND 2 ^ k"] bit_and_iff bit_exp_iff)
qed

lemma find_buddy_aligned:
  assumes "good_block p (Suc k)"
  shows "find_buddy p k = Some (p + 2 ^ k)"
proof -
  have "p AND 2 ^ k = 0" using assms by (intro aligned_and_exp) (simp add: good_block_def)
  then have "p XOR 2 ^ k = p + 2 ^ k" by (simp only: disjunctive_add_eq_xor)
  moreover have "p + 2 * 2 ^ k \<le> ALL_PFN" "0 < (2::nat) ^ k" using assms by (simp_all add: good_block_def)
  then have "p + 2 ^ k < ALL_PFN" by linarith
  ultimately show ?thesis by (simp add: find_buddy_def Let_def)
qed

lemma good_block_halves:
  assumes "good_block p (Suc k)"
  shows "good_block p k" and "good_block (p + 2 ^ k) k"
    and "block p (Suc k) = block p k \<union> block (p + 2 ^ k) k" and "block p k \<inter> block (p + 2 ^ k) k = {}"
proof -
  have dvd: "2 ^ Suc k dvd p" using assms by (simp add: good_block_def mod_eq_0_iff_dvd)
  then have "2 ^ k dvd p" by (metis dvd_trans le_imp_power_dvd lessI less_imp_le)
  then show "good_block p k" "good_block (p + 2 ^ k) k"
    using assms by (simp_all add: good_block_def mod_eq_0_iff_dvd)
  show "block p (Suc k) = block p k \<union> block (p + 2 ^ k) k" "block p k \<inter> block (p + 2 ^ k) k = {}"
    by (auto simp: block_def)
qed

lemma buddy_split_inv:
  assumes "buddy_inv s FL" and "good_block p j" and "j < MAX_LEVEL" and "order \<le> j"
    and "block p j \<inter> free_set FL = {}"
  shows "\<exists>FL'. buddy_inv (buddy_split p order j s) FL' \<and>
           free_set FL' = free_set FL \<union> (block p j - block p order) \<and>
           good_block p order \<and> pages (buddy_split p order j s) = pages s"
  using assms
proof (induction j arbitrary: s FL)
  case 0
  then show ?case by (intro exI [of _ FL]) simp
next
  case (Suc k)
  show ?case
  proof (cases "order = Suc k")
    case True
    with Suc.prems show ?thesis by (intro exI [of _ FL]) simp
  next
    case False
    then have ord: "order \<le> k" using Suc.prems(4) by simp
    note halves = good_block_halves [OF Suc.prems(2)]
    have k: "k < MAX_LEVEL" using Suc.prems(3) by simp
    have dis: "block p k \<inter> free_set FL = {}" "block (p + 2 ^ k) k \<inter> free_set FL = {}"
      using Suc.prems(5) unfolding halves(3) by blast+
    let ?s = "s\<lparr>links := list_add_head (Pg (p + 2 ^ k)) (Free k) (links s)\<rparr>"
    let ?FL = "FL(k := (p + 2 ^ k) # FL k)"
    note add = buddy_inv_add [OF Suc.prems(1) k halves(2) dis(2)]
    have "block p k \<inter> free_set ?FL = {}" unfolding add(2) using dis(1) halves(4) by blast
    from Suc.IH [OF add(1) halves(1) k ord this] obtain FL' where
      FL': "buddy_inv (buddy_split p order k ?s) FL'"
        "free_set FL' = free_set ?FL \<union> (block p k - block p order)"
        "good_block p order" "pages (buddy_split p order k ?s) = pages ?s" by blast
    have "block p order \<subseteq> block p k" using ord by (auto simp: block_def power_increasing intro: less_le_trans)
    then have "free_set FL' = free_set FL \<union> (block p (Suc k) - block p order)"
      unfolding FL'(2) add(2) halves(3) using halves(4) by blast
    moreover have "buddy_split p order (Suc k) s = buddy_split p order k ?s"
      using ord find_buddy_aligned [OF Suc.prems(2)] by simp
    ultimately show ?thesis using FL' by (intro exI [of _ FL']) simp
  qed
qed

lemma buddy_scan_inv:
  assumes "buddy_inv s FL" and "order \<le> i"
  shows "(\<exists>p s' FL'. buddy_scan order i s = Inr (Some p, s') \<and> buddy_inv s' FL' \<and> good_block p order \<and>
            block p order \<subseteq> free_set FL \<and> free_set FL' = free_set FL - block p order \<and> pages s' = pages s) \<or>
         (buddy_scan order i s = Inr (None, s) \<and> (\<forall>j. i \<le> j \<longrightarrow> j < MAX_LEVEL \<longrightarrow> FL j = []))"
  using assms
proof (induction order i s rule: buddy_scan.induct)
  case (1 order i s)
  consider (out) "\<not> i < MAX_LEVEL" | (empty) "i < MAX_LEVEL" "FL i = []"
    | (some) p ps where "i < MAX_LEVEL" "FL i = p # ps" by (cases "FL i") auto
  then show ?case
  proof cases
    case out
    then show ?thesis by (intro disjI2) (subst buddy_scan.simps, auto)
  next
    case empty
    have "list_empty (Free i) (links s)"
      using fam_empty [of free_heads "links s" "fam FL" "Free i"] "1.prems"(1) empty by (simp add: buddy_inv_def)
    moreover from this empty have "buddy_scan order i s = buddy_scan order (i + 1) s"
      by (subst buddy_scan.simps) simp
    moreover have "(\<forall>j. i \<le> j \<longrightarrow> j < MAX_LEVEL \<longrightarrow> FL j = []) \<longleftrightarrow> (\<forall>j. i + 1 \<le> j \<longrightarrow> j < MAX_LEVEL \<longrightarrow> FL j = [])"
      using empty(2) by (metis Suc_eq_plus1 Suc_leD Suc_leI le_neq_implies_less)
    ultimately show ?thesis using "1.IH" empty "1.prems" by simp
  next
    case some
    have lf: "list_family free_heads (links s) (fam FL)" using "1.prems"(1) by (simp add: buddy_inv_def)
    have head: "Free i \<in> free_heads" "fam FL (Free i) = Pg p # List.map Pg ps" using some by simp_all
    note pop = fam_pop [OF lf head]
    let ?s = "s\<lparr>links := list_del (Pg p) (links s)\<rparr>"
    have rem: "remove1 p (FL i) = ps" using some(2) by simp
    have inv': "buddy_inv ?s (FL(i := ps))"
      using buddy_inv_remove [OF "1.prems"(1) some(1), of "list_del (Pg p) (links s)" p] pop(2)
      unfolding rem fam_upd by simp
    have p: "p \<in> set (FL i)" using some(2) by simp
    note fs = free_set_remove [OF "1.prems"(1) some(1) p, unfolded rem]
    have good: "good_block p i" using "1.prems"(1) some(1) p by (simp add: buddy_inv_def)
    from buddy_split_inv [OF inv' good some(1) "1.prems"(2) fs(1)] obtain FL' where
      FL': "buddy_inv (buddy_split p order i ?s) FL'"
        "free_set FL' = free_set (FL(i := ps)) \<union> (block p i - block p order)"
        "good_block p order" "pages (buddy_split p order i ?s) = pages ?s" by blast
    have sub: "block p order \<subseteq> block p i"
      using "1.prems"(2) by (auto simp: block_def power_increasing intro: less_le_trans)
    have "free_set FL' = free_set FL - block p order"
      unfolding FL'(2) fs(2) using fs(1) sub by blast
    moreover have "\<not> list_empty (Free i) (links s)" using fam_empty [OF lf head(1)] some(2) by simp
    then have "buddy_scan order i s = Inr (Some p, buddy_split p order i ?s)"
      using some(1) pop(1) by (subst buddy_scan.simps) simp
    moreover have "block p order \<subseteq> free_set FL" using sub fs(2) by blast
    ultimately show ?thesis
      using FL' by (intro disjI1 exI [of _ p] exI [of _ "buddy_split p order i ?s"] exI [of _ FL']) simp
  qed
qed

text \<open>
  \<open>alloc_pages\<close> on a well-formed allocator with the lock free: it hands out an aligned block of
  \<open>2\<^sup>o\<^sup>r\<^sup>d\<^sup>e\<^sup>r\<close> pages that was free, takes exactly this block out of the free pages and counts one more
  reference on its first page. If no list from \<open>order\<close> up has a block, NULL is dereferenced.
\<close>

definition mm_ok :: "buddy \<Rightarrow> (nat \<Rightarrow> nat list) \<Rightarrow> bool" where
  "mm_ok st FL \<longleftrightarrow> (case st of (s, h, l) \<Rightarrow> buddy_inv s FL \<and> hart_ok h \<and> lock_free l)"

lemma alloc_pages_cases:
  assumes ok: "mm_ok (s, h, l) FL" and ord: "order < MAX_LEVEL"
  shows "(\<exists>p s' FL'. alloc_pages c fl (int order) (s, h, l) = Inr (p, page_push p s', settled h, l) \<and>
            buddy_inv s' FL' \<and> pages s' = pages s \<and> good_block p order \<and>
            block p order \<subseteq> free_set FL \<and> free_set FL' = free_set FL - block p order) \<or>
         (alloc_pages c fl (int order) (s, h, l) = Inl (Fault ''page_push(NULL)'') \<and>
          (\<forall>j. order \<le> j \<longrightarrow> j < MAX_LEVEL \<longrightarrow> FL j = []))"
proof -
  from ok have inv: "buddy_inv s FL" and hl: "hart_ok h" "lock_free l" by (simp_all add: mm_ok_def)
  have "buddy_alloc c (int order) (s, h, l) =
      bindR (buddy_scan order order s) (\<lambda>(r, s). Inr (r, s, settled h, l))"
    using ord by (simp add: buddy_alloc_def critical_free [OF hl])
  then have "alloc_pages c fl (int order) (s, h, l) =
      bindR (buddy_scan order order s) (\<lambda>(page, s). case page of
        None \<Rightarrow> Inl (Fault ''page_push(NULL)'') | Some p \<Rightarrow> Inr (p, page_push p s, settled h, l))"
    by (cases "buddy_scan order order s") (auto simp: alloc_pages_def)
  with buddy_scan_inv [OF inv order_refl, of order] show ?thesis by fastforce
qed

lemma alloc_pages_needs:
  assumes ok: "mm_ok (s, h, l) FL" and ord: "order < MAX_LEVEL" and run: "alloc_pages c fl (int order) (s, h, l) = Inr r"
  shows "\<exists>j. order \<le> j \<and> j < MAX_LEVEL \<and> FL j \<noteq> []"
proof (rule ccontr)
  assume none: "\<not> (\<exists>j. order \<le> j \<and> j < MAX_LEVEL \<and> FL j \<noteq> [])"
  from ok have inv: "buddy_inv s FL" and hl: "hart_ok h" "lock_free l" by (simp_all add: mm_ok_def)
  have "buddy_scan order i s = Inr (None, s)" if "order \<le> i" for i
    using that
  proof (induction "MAX_LEVEL - i" arbitrary: i)
    case (Suc n)
    have "FL i = []" "i < MAX_LEVEL" using none Suc by auto
    then have "list_empty (Free i) (links s)"
      using inv fam_empty [of free_heads "links s" "fam FL" "Free i"] by (simp add: buddy_inv_def)
    moreover have "buddy_scan order (i + 1) s = Inr (None, s)" using Suc by (intro Suc) simp_all
    ultimately show ?case by (simp add: buddy_scan.simps [of order i])
  qed (simp add: buddy_scan.simps)
  then have "buddy_alloc c (int order) (s, h, l) = Inr (None, s, settled h, l)"
    using ord by (simp add: buddy_alloc_def critical_free [OF hl])
  with run show False by (simp add: alloc_pages_def)
qed

lemma buddy_inv_pages: "buddy_inv (s\<lparr>pages := ps\<rparr>) FL \<longleftrightarrow> buddy_inv s FL"
  by (simp add: buddy_inv_def)

lemma buddy_inv_page_push: "buddy_inv (page_push p s) FL \<longleftrightarrow> buddy_inv s FL"
  by (simp add: buddy_inv_def)

text \<open>Splitting and scanning touch neither the page descriptors nor the memory.\<close>

lemma buddy_split_frame: "ram (buddy_split page order j s) = ram s"
  by (induction page order j s rule: buddy_split.induct) (auto split: option.splits)

lemma buddy_scan_ram: "buddy_scan order i s = Inr (r, s') \<Longrightarrow> ram s' = ram s"
proof (induction order i s rule: buddy_scan.induct)
  case (1 order i s)
  then show ?case
    by (auto simp: buddy_scan.simps [of order i s] buddy_split_frame split: if_splits prod.splits option.splits mnode.splits)
qed

lemma no_blocks: "\<forall>j < MAX_LEVEL. FL j = [] \<Longrightarrow> free_set FL = {}"
  by (simp add: free_set_def)

text \<open>\<open>__alloc_page\<close>: a free frame filled with zeros, as long as there is one.\<close>

lemma get_page_addr_nonzero: "p < ALL_PFN \<Longrightarrow> get_page_addr p \<noteq> 0"
proof
  assume p: "p < ALL_PFN" and "get_page_addr p = 0"
  then have "of_nat (p * PGSIZE + 0x80000000) = (0 :: u64)" by (simp add: get_page_addr_offset add.commute)
  then have "unat (of_nat (p * PGSIZE + 0x80000000) :: u64) = 0" by simp
  moreover have "unat (of_nat (p * PGSIZE + 0x80000000) :: u64) = p * PGSIZE + 0x80000000"
    using p by (intro unat_of_nat_small) simp
  ultimately show False by simp
qed

lemma alloc_page_addr_cases:
  assumes ok: "mm_ok (s, h, l) FL"
  shows "(\<exists>p s' FL'. alloc_page_addr c fl (s, h, l) = Inr (get_page_addr p, s', settled h, l) \<and>
            mm_ok (s', settled h, l) FL' \<and> p < ALL_PFN \<and> p \<in> free_set FL \<and> free_set FL' = free_set FL - {p} \<and>
            ram s' = (\<lambda>a. if unat (a - get_page_addr p) < PGSIZE then 0 else ram s a)) \<or>
         (alloc_page_addr c fl (s, h, l) = Inl (Fault ''page_push(NULL)'') \<and> free_set FL = {})"
proof -
  have hl: "hart_ok h" "lock_free l" using ok by (simp_all add: mm_ok_def)
  have eq: "alloc_page c fl (s, h, l) = alloc_pages c fl (int 0) (s, h, l)" by (simp add: alloc_page_def alloc_pages_def)
  from alloc_pages_cases [OF ok, of 0 c fl] consider
    (new) p s1 FL1 where "alloc_page c fl (s, h, l) = Inr (p, page_push p s1, settled h, l)" "buddy_inv s1 FL1"
      "good_block p 0" "block p 0 \<subseteq> free_set FL" "free_set FL1 = free_set FL - block p 0"
  | (none) "alloc_page c fl (s, h, l) = Inl (Fault ''page_push(NULL)'')" "\<forall>j < MAX_LEVEL. FL j = []"
    unfolding eq by auto
  then show ?thesis
  proof cases
    case new
    have b: "block p 0 = {p}" "p < ALL_PFN" using new(3) by (auto simp: block_def good_block_def)
    from new(1) obtain s0 where "buddy_scan 0 0 s = Inr (Some p, s0)" "page_push p s0 = page_push p s1"
      by (auto simp: alloc_page_def buddy_alloc_def critical_free [OF hl] split: option.splits)
    moreover have "ram (page_push p s0) = ram s0" by (simp add: page_push_def)
    ultimately have ram: "ram (page_push p s1) = ram s" using buddy_scan_ram [of 0 0 s "Some p" s0] by simp
    define m where "m = (\<lambda>a. if unat (a - get_page_addr p) < PGSIZE then 0 else ram s a)"
    have "memset (get_page_addr p) 0 (of_nat PGSIZE) (ram (page_push p s1)) = Inr m"
      unfolding ram m_def by (simp add: memset_bytes cong: if_cong)
    then have "alloc_page_addr c fl (s, h, l) = Inr (get_page_addr p, (page_push p s1)\<lparr>ram := m\<rparr>, settled h, l)"
      using new(1) by (simp add: alloc_page_addr_def)
    moreover have "mm_ok ((page_push p s1)\<lparr>ram := m\<rparr>, settled h, l) FL1"
      using new(2) hl by (simp add: mm_ok_def buddy_inv_def)
    ultimately show ?thesis using new(4,5) b m_def
      by (intro disjI1 exI [of _ p] exI [of _ "(page_push p s1)\<lparr>ram := m\<rparr>"] exI [of _ FL1]) simp
  next
    case none
    then show ?thesis by (simp add: alloc_page_addr_def no_blocks)
  qed
qed

lemma free_set_bounded: "mm_ok (s, h, l) FL \<Longrightarrow> free_set FL \<subseteq> {..< ALL_PFN}"
proof -
  assume "mm_ok (s, h, l) FL"
  then have "\<forall>i<MAX_LEVEL. \<forall>p\<in>set (FL i). good_block p i" by (simp add: mm_ok_def buddy_inv_def)
  then show "free_set FL \<subseteq> {..< ALL_PFN}" by (fastforce simp: free_set_def block_def good_block_def)
qed

lemma free_set_finite: "mm_ok (s, h, l) FL \<Longrightarrow> finite (free_set FL)"
  by (rule finite_subset [OF free_set_bounded finite_lessThan])

subsection \<open>Merging and release\<close>










subsection \<open>The contract of a page supplier\<close>

text \<open>\<open>alloc_seq alloc orders s\<close>: one allocation for each order, the blocks in order.\<close>

fun alloc_seq :: "(nat \<Rightarrow> 's \<Rightarrow> (nat \<times> 's) kres) \<Rightarrow> nat list \<Rightarrow> 's \<Rightarrow> (nat set list \<times> 's) kres" where
  "alloc_seq alloc [] s = Inr ([], s)"
| "alloc_seq alloc (k # ks) s =
     bindR (alloc k s) (\<lambda>(p, s). bindR (alloc_seq alloc ks s) (\<lambda>(bs, s). Inr (block p k # bs, s)))"

locale page_supply =
  fixes ok :: "'s \<Rightarrow> nat set \<Rightarrow> bool"
    and alloc :: "nat \<Rightarrow> 's \<Rightarrow> (nat \<times> 's) kres"
  assumes alloc_ok: "ok s S \<Longrightarrow> k < MAX_LEVEL \<Longrightarrow> alloc k s = Inr (p, s') \<Longrightarrow>
      block p k \<subseteq> S \<and> ok s' (S - block p k)"
begin

text \<open>No page is handed out twice: the blocks of successive allocations are disjoint.\<close>

lemma alloc_seq_disjoint:
  assumes "ok s S" and "\<forall>k \<in> set ks. k < MAX_LEVEL" and "alloc_seq alloc ks s = Inr (bs, s')"
  shows "(\<forall>i < length bs. \<forall>j < length bs. i \<noteq> j \<longrightarrow> bs ! i \<inter> bs ! j = {}) \<and>
         \<Union> (set bs) \<subseteq> S \<and> ok s' (S - \<Union> (set bs))"
  using assms
proof (induction ks arbitrary: s S bs)
  case (Cons k ks)
  from Cons.prems(3) obtain p s1 bs1 where
    a: "alloc k s = Inr (p, s1)" and r: "alloc_seq alloc ks s1 = Inr (bs1, s')" and bs: "bs = block p k # bs1"
    by auto
  from alloc_ok [OF Cons.prems(1) _ a] Cons.prems(2) have ok1: "block p k \<subseteq> S" "ok s1 (S - block p k)" by auto
  from Cons.IH [OF ok1(2) _ r] Cons.prems(2)
  have ih: "\<forall>i < length bs1. \<forall>j < length bs1. i \<noteq> j \<longrightarrow> bs1 ! i \<inter> bs1 ! j = {}"
    "\<Union> (set bs1) \<subseteq> S - block p k" "ok s' (S - block p k - \<Union> (set bs1))" by auto
  have head: "block p k \<inter> bs1 ! j = {}" if "j < length bs1" for j
    using ih(2) nth_mem [OF that] by blast
  have "bs ! i \<inter> bs ! j = {}" if ij: "i < length bs" "j < length bs" "i \<noteq> j" for i j
  proof (cases i)
    case 0
    with ij bs head show ?thesis by (cases j) simp_all
  next
    case (Suc i')
    with ij bs head [of i'] ih(1) show ?thesis by (cases j) (simp_all add: Int_commute)
  qed
  moreover have "S - block p k - \<Union> (set bs1) = S - \<Union> (set bs)" unfolding bs by auto
  ultimately show ?case using ih ok1 bs by auto
qed simp

end

definition supply_ok :: "buddy \<Rightarrow> nat set \<Rightarrow> bool" where
  "supply_ok st S \<longleftrightarrow> (\<exists>FL. mm_ok st FL \<and> free_set FL = S)"

lemma alloc_pages_supply:
  assumes "supply_ok st S" and "k < MAX_LEVEL" and "alloc_pages c fl (int k) st = Inr (p, st')"
  shows "block p k \<subseteq> S \<and> supply_ok st' (S - block p k)"
proof -
  obtain s h l where st: "st = (s, h, l)" by (cases st)
  from assms(1) obtain FL where FL: "mm_ok (s, h, l) FL" "free_set FL = S" by (auto simp: supply_ok_def st)
  then have hl: "hart_ok h" "lock_free l" by (simp_all add: mm_ok_def)
  from alloc_pages_cases [OF FL(1) assms(2), of c fl] assms(3) st obtain s' FL' where
    "st' = (page_push p s', settled h, l)" "buddy_inv s' FL'" "block p k \<subseteq> free_set FL"
    "free_set FL' = free_set FL - block p k" by auto
  with FL hl show ?thesis
    unfolding supply_ok_def by (auto simp: mm_ok_def buddy_inv_page_push intro!: exI [of _ FL'])
qed

interpretation pages: page_supply supply_ok "\<lambda>k. alloc_pages c fl (int k)" for c fl
  by unfold_locales (rule alloc_pages_supply)

subsection \<open>Initialisation\<close>

lemma add_blocks_inv:
  assumes "buddy_inv s FL" and "i mod MAX_LEVEL_COUNT = 0" and "i < ALL_PFN" and "free_set FL \<subseteq> {..< i}"
  shows "\<exists>FL' ps. buddy_inv (add_blocks i s) FL' \<and> free_set FL' = free_set FL \<union> {i ..< ALL_PFN} \<and>
           FL' MAX_LEVEL_INDEX = (ALL_PFN - MAX_LEVEL_COUNT) # ps \<and> pages (add_blocks i s) = pages s \<and>
           kernel_pfn_end (add_blocks i s) = kernel_pfn_end s"
  using assms
proof (induction i s arbitrary: FL rule: add_blocks.induct)
  case (1 i s)
  let ?s = "s\<lparr>links := list_add_head (Pg i) (Free MAX_LEVEL_INDEX) (links s)\<rparr>"
  let ?FL = "FL(MAX_LEVEL_INDEX := i # FL MAX_LEVEL_INDEX)"
  have step: "add_blocks i s = add_blocks (i + MAX_LEVEL_COUNT) ?s"
    using "1.prems"(3) by (subst add_blocks.simps) simp
  from "1.prems"(2) obtain k where "i = MAX_LEVEL_COUNT * k" by (auto simp: mod_eq_0_iff_dvd)
  with "1.prems"(3) have top: "i + MAX_LEVEL_COUNT \<le> ALL_PFN" by simp
  have good: "good_block i MAX_LEVEL_INDEX" using "1.prems"(2) top by (simp add: good_block_def)
  have blk: "block i MAX_LEVEL_INDEX = {i ..< i + MAX_LEVEL_COUNT}" by (simp add: block_def)
  have "block i MAX_LEVEL_INDEX \<inter> free_set FL = {}" unfolding blk using "1.prems"(4)
    by (auto simp: disjoint_iff dest!: subsetD)
  note add = buddy_inv_add [OF "1.prems"(1) _ good this]
  show ?case
  proof (cases "i + MAX_LEVEL_COUNT < ALL_PFN")
    case True
    have "free_set ?FL \<subseteq> {..< i + MAX_LEVEL_COUNT}" using add(2) blk "1.prems"(4) by auto
    moreover have "(i + MAX_LEVEL_COUNT) mod MAX_LEVEL_COUNT = 0" using "1.prems"(2) by simp
    ultimately obtain FL' ps where
      "buddy_inv (add_blocks (i + MAX_LEVEL_COUNT) ?s) FL'"
      "free_set FL' = free_set ?FL \<union> {i + MAX_LEVEL_COUNT ..< ALL_PFN}"
      "FL' MAX_LEVEL_INDEX = (ALL_PFN - MAX_LEVEL_COUNT) # ps"
      "pages (add_blocks (i + MAX_LEVEL_COUNT) ?s) = pages ?s"
      "kernel_pfn_end (add_blocks (i + MAX_LEVEL_COUNT) ?s) = kernel_pfn_end ?s"
      using "1.IH" [OF "1.prems"(3) add(1) _ True] by (auto simp del: fun_upd_apply)
    moreover have "free_set ?FL \<union> {i + MAX_LEVEL_COUNT ..< ALL_PFN} = free_set FL \<union> {i ..< ALL_PFN}"
      using add(2) blk top by auto
    ultimately show ?thesis unfolding step by (intro exI [of _ FL'] exI [of _ ps]) simp
  next
    case False
    then have i: "i = ALL_PFN - MAX_LEVEL_COUNT" using top by simp
    define FL' where "FL' = ?FL"
    have "add_blocks i s = ?s" using False "1.prems"(3) by (simp add: add_blocks.simps)
    moreover have "free_set FL' = free_set FL \<union> {i ..< ALL_PFN}" using add(2) blk i by (auto simp: FL'_def)
    moreover have "FL' MAX_LEVEL_INDEX = i # FL MAX_LEVEL_INDEX" "buddy_inv ?s FL'"
      using add(1) by (simp_all add: FL'_def)
    ultimately show ?thesis
      using i by (intro exI [of _ FL'] exI [of _ "FL MAX_LEVEL_INDEX"]) simp
  qed
qed

lemma fold_page_push:
  assumes "distinct is"
  shows "pages (fold page_push is s) j =
           (if j \<in> set is then (pages s j)\<lparr>count := atomic_inc (count (pages s j))\<rparr> else pages s j)"
    and "links (fold page_push is s) = links s"
  using assms by (induction "is" arbitrary: s) (auto simp: page_push_def upd_page_def)

text \<open>A page whose count is 0 is not put back: the decrement does not give zero.\<close>

lemma free_page_count_0:
  assumes "count (pages s p) = 0"
  shows "free_page c p (s, h, l) = Inr ((), upd_page p (\<lambda>q. q\<lparr>count := PG_FREE\<rparr>) s, h, l)"
    and "free_pages c p k (s, h, l) = Inr ((), upd_page p (\<lambda>q. q\<lparr>count := PG_FREE\<rparr>) s, h, l)"
proof -
  have "page_pop_test p s = (False, upd_page p (\<lambda>q. q\<lparr>count := PG_FREE\<rparr>) s)"
    using assms by (simp add: page_pop_test_def atomic_dec_and_test_def wrap32_id)
  then show "free_page c p (s, h, l) = Inr ((), upd_page p (\<lambda>q. q\<lparr>count := PG_FREE\<rparr>) s, h, l)"
    "free_pages c p k (s, h, l) = Inr ((), upd_page p (\<lambda>q. q\<lparr>count := PG_FREE\<rparr>) s, h, l)"
    by (simp_all add: free_page_def free_pages_def)
qed

lemma free_each_count_0:
  assumes "distinct is" and "\<forall>i \<in> set is. count (pages s i) = 0"
  shows "\<exists>s'. free_each c is (s, h, l) = Inr ((), s', h, l) \<and> links s' = links s \<and>
           (\<forall>j. count (pages s' j) = (if j \<in> set is then PG_FREE else count (pages s j)))"
  using assms
proof (induction "is" arbitrary: s)
  case (Cons i "is")
  let ?s = "upd_page i (\<lambda>q. q\<lparr>count := PG_FREE\<rparr>) s"
  have cnt: "count (pages ?s j) = (if j = i then PG_FREE else count (pages s j))" for j
    by (simp add: upd_page_def)
  have "\<forall>j \<in> set is. count (pages ?s j) = 0" using Cons.prems cnt by auto
  with Cons.IH [of ?s] Cons.prems(1) obtain s' where
    s': "free_each c is (?s, h, l) = Inr ((), s', h, l)" "links s' = links ?s"
      "\<forall>j. count (pages s' j) = (if j \<in> set is then PG_FREE else count (pages ?s j))" by auto
  have "free_page c i (s, h, l) = Inr ((), ?s, h, l)" using Cons.prems(2) by (intro free_page_count_0) simp
  then have "free_each c (i # is) (s, h, l) = Inr ((), s', h, l)" using s'(1) by simp
  with s' show ?case by (intro exI [of _ s']) (auto simp: cnt)
qed simp

lemma INIT_heads:
  "l_next (fold (\<lambda>i. INIT_LIST_HEAD (Free i)) is lk) (Free j) = (if j \<in> set is then Free j else l_next lk (Free j))"
  "l_prev (fold (\<lambda>i. INIT_LIST_HEAD (Free i)) is lk) (Free j) = (if j \<in> set is then Free j else l_prev lk (Free j))"
  by (induction "is" arbitrary: lk) (auto simp: INIT_LIST_HEAD_def)

lemma buddy_inv_empty:
  "buddy_inv (s\<lparr>links := fold (\<lambda>i. INIT_LIST_HEAD (Free i)) [0 ..< MAX_LEVEL] lk\<rparr>) (\<lambda>_. [])"
proof -
  have "set [0 ..< MAX_LEVEL] = {..< MAX_LEVEL}" by auto
  then show ?thesis
    by (auto simp: buddy_inv_def list_family_def free_heads_def INIT_heads simp del: set_upt)
qed

text \<open>
  When the first frame behind the kernel's reserved ones is aligned to the largest block,
  \<open>buddy_init\<close> sets up a well-formed allocator. Its free pages are all frames from there to the
  end except the last block: that one is taken off again as if it were incomplete, and the frame
  that is pushed and freed instead stays out of the lists as its count goes from 0 to \<open>PG_FREE\<close>.
\<close>

lemma buddy_init_aligned:
  assumes k: "kernel_pfn_end s + 1 < ALL_PFN" "(kernel_pfn_end s + 1) mod MAX_LEVEL_COUNT = 0"
    and cnt: "count (pages s (ALL_PFN - 1)) = PG_FREE" and h: "hart_ok h"
  shows "\<exists>s' FL. buddy_init c (s, h) = Inr ((), s', h, spin_init) \<and> mm_ok (s', h, spin_init) FL \<and>
           free_set FL = {kernel_pfn_end s + 1 ..< ALL_PFN - MAX_LEVEL_COUNT} \<and>
           (\<forall>i. count (pages s' i) = count (pages s i))"
proof -
  let ?k = "kernel_pfn_end s + 1"
  define s0 where "s0 = s\<lparr>links := fold (\<lambda>i. INIT_LIST_HEAD (Free i)) [0 ..< MAX_LEVEL] (links s)\<rparr>"
  have "buddy_inv s0 (\<lambda>_. [])" unfolding s0_def by (rule buddy_inv_empty)
  moreover have "free_set (\<lambda>_. []) \<subseteq> {..< ?k}" by (simp add: free_set_def)
  ultimately obtain FL ps where
    FL: "buddy_inv (add_blocks ?k s0) FL" "free_set FL = free_set (\<lambda>_. []) \<union> {?k ..< ALL_PFN}"
      "FL MAX_LEVEL_INDEX = (ALL_PFN - MAX_LEVEL_COUNT) # ps" "pages (add_blocks ?k s0) = pages s0"
      "kernel_pfn_end (add_blocks ?k s0) = kernel_pfn_end s0"
    using add_blocks_inv [OF _ k(2,1)] by blast
  define s1 where "s1 = add_blocks ?k s0"
  let ?p = "ALL_PFN - MAX_LEVEL_COUNT"
  have lf: "list_family free_heads (links s1) (fam FL)" using FL(1) by (simp add: buddy_inv_def s1_def)
  have hd: "Free MAX_LEVEL_INDEX \<in> free_heads" "fam FL (Free MAX_LEVEL_INDEX) = Pg ?p # List.map Pg ps"
    using FL(3) by simp_all
  note pop = fam_pop [OF lf hd]
  define s2 where "s2 = s1\<lparr>links := list_del (Pg ?p) (links s1)\<rparr>"
  define FL2 where "FL2 = FL(MAX_LEVEL_INDEX := ps)"
  have rem: "remove1 ?p (FL MAX_LEVEL_INDEX) = ps" using FL(3) by simp
  have inv2: "buddy_inv s2 FL2"
    using buddy_inv_remove [of s1 FL MAX_LEVEL_INDEX "list_del (Pg ?p) (links s1)" ?p] FL(1) pop(2)
    unfolding rem fam_upd s2_def FL2_def by (simp add: s1_def)
  have fs: "block ?p MAX_LEVEL_INDEX \<inter> free_set FL2 = {}" "free_set FL = block ?p MAX_LEVEL_INDEX \<union> free_set FL2"
    using free_set_remove [OF FL(1), of MAX_LEVEL_INDEX ?p] unfolding rem FL2_def by (simp_all add: FL(3))
  have "free_set FL2 = free_set FL - block ?p MAX_LEVEL_INDEX" using fs by blast
  also have "\<dots> = {?k ..< ALL_PFN - MAX_LEVEL_COUNT}"
    unfolding FL(2) by (auto simp: free_set_def block_def)
  finally have free2: "free_set FL2 = {?k ..< ALL_PFN - MAX_LEVEL_COUNT}" .
  have kpe: "kernel_pfn_end s2 = kernel_pfn_end s" "pages s2 = pages s"
    using FL(4,5) by (simp_all add: s2_def s1_def s0_def)
  have "(ALL_PFN - kernel_pfn_end s) mod MAX_LEVEL_COUNT = 1"
  proof -
    from k(2) obtain m where "?k = MAX_LEVEL_COUNT * m" by (auto simp: mod_eq_0_iff_dvd)
    then have "ALL_PFN - kernel_pfn_end s = MAX_LEVEL_COUNT * (32 - m) + 1" using k(1) by simp
    then show ?thesis by simp
  qed
  moreover have "add_blocks (Suc (kernel_pfn_end s)) s0 = s1" "kernel_pfn_end s0 = kernel_pfn_end s"
    "kernel_pfn_end s1 = kernel_pfn_end s"
    using FL(5) by (simp_all add: s1_def s0_def)
  ultimately have run: "buddy_init c (s, h) =
      free_each c [ALL_PFN - 1 ..< ALL_PFN] (fold page_push [ALL_PFN - 1 ..< ALL_PFN] s2, h, spin_init)"
    unfolding buddy_init_def prod.case Let_def s0_def [symmetric]
    using pop(1) by (simp add: s2_def)
  have "\<forall>i \<in> set [ALL_PFN - 1 ..< ALL_PFN]. count (pages (fold page_push [ALL_PFN - 1 ..< ALL_PFN] s2) i) = 0"
    using cnt kpe by (simp add: page_push_def upd_page_def atomic_inc_id)
  from free_each_count_0 [OF _ this, of c h spin_init] obtain s' where
    s': "free_each c [ALL_PFN - 1 ..< ALL_PFN] (fold page_push [ALL_PFN - 1 ..< ALL_PFN] s2, h, spin_init) = Inr ((), s', h, spin_init)"
      "links s' = links s2"
      "\<forall>j. count (pages s' j) = (if j \<in> set [ALL_PFN - 1 ..< ALL_PFN] then PG_FREE
          else count (pages (fold page_push [ALL_PFN - 1 ..< ALL_PFN] s2) j))"
    by (auto simp: page_push_def)
  have "mm_ok (s', h, spin_init) FL2"
    using inv2 h s'(2) by (simp add: mm_ok_def buddy_inv_def)
  moreover have "count (pages s' j) = count (pages s j)" for j
    using s'(3) cnt kpe by (auto simp: page_push_def upd_page_def)
  ultimately show ?thesis using run s'(1) free2 by (intro exI [of _ s'] exI [of _ FL2]) simp
qed

subsection \<open>Where the conditions fail\<close>

text \<open>
  \<open>find_buddy\<close> computes the buddy from the page index, while \<open>buddy_init\<close> starts its blocks at
  \<open>kernel_pfn_end + 1\<close> whatever its alignment. For a block head in the upper half of an aligned
  region the first split then puts a page below the block on the free list.
\<close>

lemma find_buddy_unaligned:
  assumes "p mod MAX_LEVEL_COUNT \<ge> 512" and "p < ALL_PFN"
  shows "find_buddy p 9 = Some (p - 512) \<and> p - 512 \<notin> block p MAX_LEVEL_INDEX"
proof -
  define q where "q = p - 512"
  have "p mod MAX_LEVEL_COUNT \<le> p" by simp
  with assms(1) have p: "p = q + 512" by (simp add: q_def)
  have "even (q div 512)"
  proof -
    have "p = 1024 * (p div 1024) + p mod 1024" by simp
    moreover define t where "t = p mod 1024 - 512"
    ultimately have "q = 512 * (2 * (p div 1024)) + t" "t < 512" using assms(1) p by simp_all
    then have "q div 512 = 2 * (p div 1024)" by simp
    then show ?thesis by simp
  qed
  then have "\<not> bit q 9" by (simp add: bit_iff_odd)
  then have "q AND 2 ^ 9 = 0"
    by (auto simp: bit_eq_iff [of "q AND 2 ^ 9"] bit_and_iff bit_exp_iff simp del: power_numeral)
  then have "p = q XOR 2 ^ 9" using p by (simp add: disjunctive_add_eq_xor [symmetric])
  then have "p XOR 2 ^ 9 = q" by (simp add: xor.assoc)
  then show ?thesis using assms(2) p by (simp add: find_buddy_def Let_def block_def)
qed

text \<open>
  A buddy is taken for free when the count of its first page is \<open>PG_FREE\<close>, even if it has been
  split: below, page 2 is free, page 3 is allocated, and freeing pages 0 and 1 makes a free block
  of the four pages 0 to 3.
\<close>

definition half_free :: mem_map where
  "half_free =
     \<lparr>pages = (\<lambda>i. \<lparr>flags = 0, count = (if i = 3 then 0 else PG_FREE), slab = None\<rparr>),
      links = list_add_head (Pg 2) (Free 0) (list_add_head (Pg 8) (Free 1) \<lparr>l_prev = id, l_next = id\<rparr>),
      kernel_pfn_end = 0, ram = (\<lambda>_. 0)\<rparr>"

lemma half_free_merge:
  "\<exists>s. buddy_merge 0 1 half_free = (0, 2, s)" "count (pages half_free 3) = 0" "3 \<in> block 0 2"
proof -
  have "find_buddy 0 (Suc 0) = Some 2" by (simp add: find_buddy_def)
  then show "\<exists>s. buddy_merge 0 1 half_free = (0, 2, s)"
    by (simp add: buddy_merge.simps [of 0 "Suc 0"] buddy_merge.simps [of 0 "Suc (Suc 0)"] half_free_def list_op_defs
        is_page_free_def page_count_def numeral_2_eq_2)
  show "count (pages half_free 3) = 0" by (simp add: half_free_def)
  show "3 \<in> block 0 2" by (simp add: block_def)
qed

subsection \<open>Properties\<close>

text \<open>A concrete machine state before \<open>buddy_init\<close>, with 1024 reserved page frames.\<close>

definition boot_map :: mem_map where
  "boot_map = \<lparr>pages = (\<lambda>_. \<lparr>flags = 0, count = PG_FREE, slab = None\<rparr>), links = \<lparr>l_prev = id, l_next = id\<rparr>,
     kernel_pfn_end = 1023, ram = (\<lambda>_. 0)\<rparr>"

definition boot_hart :: hart where
  "boot_hart = \<lparr>noff = 0, intena = False, sie = False\<rparr>"

lemma boot_hart_ok [simp]: "hart_ok boot_hart" "settled boot_hart = boot_hart"
  by (simp_all add: hart_ok_def boot_hart_def settled_def)

lemma booted:
  obtains s FL where "mm_ok (s, boot_hart, spin_init) FL" and "free_set FL = {1024 ..< 31744}"
    and "\<forall>i. count (pages s i) = PG_FREE" and "\<exists>j < MAX_LEVEL. FL j \<noteq> []"
proof -
  from buddy_init_aligned [of boot_map boot_hart 0] obtain s FL where
    s: "mm_ok (s, boot_hart, spin_init) FL" "free_set FL = {1024 ..< 31744}" "\<forall>i. count (pages s i) = PG_FREE"
    by (auto simp: boot_map_def)
  have "2000 \<in> free_set FL" unfolding s(2) by simp
  then have "\<exists>j < MAX_LEVEL. FL j \<noteq> []" by (fastforce simp: free_set_def)
  with s that show ?thesis by blast
qed

text \<open>C18: \<open>alloc_pages\<close> of an order for which a free block exists (of that order or a larger one)
  returns an aligned block of exactly that size out of the free pages, leaves the other free pages
  free, and keeps the free lists well-formed; if there is none, the NULL page is dereferenced.\<close>

theorem alloc_pages_block:
  assumes "mm_ok (s, h, l) FL" and "order < MAX_LEVEL"
  shows "if \<exists>j. order \<le> j \<and> j < MAX_LEVEL \<and> FL j \<noteq> []
         then \<exists>p s' FL'. alloc_pages c fl (int order) (s, h, l) = Inr (p, s', settled h, l) \<and>
                mm_ok (s', settled h, l) FL' \<and> good_block p order \<and> block p order \<subseteq> free_set FL \<and>
                free_set FL' = free_set FL - block p order
         else alloc_pages c fl (int order) (s, h, l) = Inl (Fault ''page_push(NULL)'')"
proof -
  have hl: "hart_ok h" "lock_free l" using assms(1) by (simp_all add: mm_ok_def)
  show ?thesis
    using alloc_pages_cases [OF assms, of c fl]
  proof (elim disjE exE conjE)
    fix p s' FL'
    assume a: "alloc_pages c fl (int order) (s, h, l) = Inr (p, page_push p s', settled h, l)" "buddy_inv s' FL'"
      "good_block p order" "block p order \<subseteq> free_set FL" "free_set FL' = free_set FL - block p order"
    moreover have "mm_ok (page_push p s', settled h, l) FL'"
      using a(2) hl by (simp add: mm_ok_def buddy_inv_page_push)
    moreover have "\<exists>j. order \<le> j \<and> j < MAX_LEVEL \<and> FL j \<noteq> []"
      using alloc_pages_needs [OF assms a(1)] .
    ultimately show ?thesis by auto
  qed auto
qed

theorem alloc_pages_block_witness:
  "\<exists>s FL p s' FL'. mm_ok (s, boot_hart, spin_init) FL \<and>
     alloc_pages 0 0 (int 0) (s, boot_hart, spin_init) = Inr (p, s', settled boot_hart, spin_init) \<and>
     free_set FL' = free_set FL - block p 0 \<and> mm_ok (s', settled boot_hart, spin_init) FL'"
proof -
  obtain s FL where s: "mm_ok (s, boot_hart, spin_init) FL" "\<exists>j < MAX_LEVEL. FL j \<noteq> []" by (rule booted)
  then have "\<exists>p s' FL'. alloc_pages 0 0 (int 0) (s, boot_hart, spin_init) = Inr (p, s', settled boot_hart, spin_init) \<and>
      mm_ok (s', settled boot_hart, spin_init) FL' \<and> free_set FL' = free_set FL - block p 0"
    using alloc_pages_block [OF s(1), of 0 0 0] by auto
  with s(1) show ?thesis by blast
qed

text \<open>C6: the blocks that a sequence of successful \<open>alloc_pages\<close> calls returns are pairwise disjoint
  and come out of the pages that were free, and what is free afterwards is the rest.\<close>

theorem alloc_pages_never_twice:
  assumes "mm_ok st FL" and "\<forall>k \<in> set ks. k < MAX_LEVEL"
    and "alloc_seq (\<lambda>k. alloc_pages c fl (int k)) ks st = Inr (bs, st')"
  shows "(\<forall>i < length bs. \<forall>j < length bs. i \<noteq> j \<longrightarrow> bs ! i \<inter> bs ! j = {}) \<and> \<Union> (set bs) \<subseteq> free_set FL \<and>
         (\<exists>FL'. mm_ok st' FL' \<and> free_set FL' = free_set FL - \<Union> (set bs))"
proof -
  have "supply_ok st (free_set FL)" using assms(1) by (auto simp: supply_ok_def)
  from pages.alloc_seq_disjoint [OF this assms(2,3)] show ?thesis unfolding supply_ok_def by blast
qed

theorem alloc_pages_never_twice_witness:
  "\<exists>st FL p q st'. mm_ok st FL \<and>
     alloc_seq (\<lambda>k. alloc_pages 0 0 (int k)) [0, 0] st = Inr ([block p 0, block q 0], st') \<and> block p 0 \<inter> block q 0 = {}"
proof -
  obtain s FL where s: "mm_ok (s, boot_hart, spin_init) FL" "free_set FL = {1024 ..< 31744}"
    "\<exists>j < MAX_LEVEL. FL j \<noteq> []" by (rule booted)
  let ?st = "(s, boot_hart, spin_init)"
  obtain p s1 FL1 where a: "alloc_pages 0 0 (int 0) ?st = Inr (p, page_push p s1, boot_hart, spin_init)"
    "buddy_inv s1 FL1" "free_set FL1 = free_set FL - block p 0"
    using alloc_pages_cases [OF s(1), of 0 0 0] s(3) by auto
  have "31743 \<in> free_set FL1 \<or> 31742 \<in> free_set FL1" unfolding a(3) s(2) by (auto simp: block_def)
  then obtain j where "j < MAX_LEVEL" "FL1 j \<noteq> []" by (fastforce simp: free_set_def)
  then obtain q s2 where b: "alloc_pages 0 0 (int 0) (page_push p s1, boot_hart, spin_init) = Inr (q, s2, boot_hart, spin_init)"
    using alloc_pages_cases [of "page_push p s1" boot_hart spin_init FL1 0 0 0] a(2)
    by (auto simp: mm_ok_def buddy_inv_page_push)
  have run: "alloc_seq (\<lambda>k. alloc_pages 0 0 (int k)) [0, 0] ?st = Inr ([block p 0, block q 0], s2, boot_hart, spin_init)"
    using a(1) b by simp
  from alloc_pages_never_twice [OF s(1) _ run] have "block p 0 \<inter> block q 0 = {}"
    by (force dest: spec [of _ 0])
  with s(1) run show ?thesis by blast
qed



text \<open>C25: \<open>buddy_init\<close> with an aligned first frame sets up well-formed free lists that hold all frames
  from there to the end but the last largest block.\<close>

theorem buddy_init_ready:
  assumes "kernel_pfn_end s + 1 < ALL_PFN" and "(kernel_pfn_end s + 1) mod MAX_LEVEL_COUNT = 0"
    and "count (pages s (ALL_PFN - 1)) = PG_FREE" and "hart_ok h"
  shows "\<exists>s' FL. buddy_init c (s, h) = Inr ((), s', h, spin_init) \<and> mm_ok (s', h, spin_init) FL \<and>
           free_set FL = {kernel_pfn_end s + 1 ..< ALL_PFN - MAX_LEVEL_COUNT}"
  using buddy_init_aligned [OF assms] by blast

theorem buddy_init_ready_witness:
  "\<exists>s' FL. buddy_init 0 (boot_map, boot_hart) = Inr ((), s', boot_hart, spin_init) \<and>
     mm_ok (s', boot_hart, spin_init) FL \<and> free_set FL = {1024 ..< 31744}"
  using buddy_init_ready [of boot_map boot_hart 0] by (simp add: boot_map_def)




end
