(* ===== verification/Slab.thy ===== *)
theory Slab
  imports Buddy Cmath
begin

text \<open>
  include/mm/slab.h, mm/slab.c and mm/kmalloc.c: object caches on top of the page allocator.
  A slab is named by the index of the page that holds its descriptor, a cache by a number. The
  words behind \<open>free_list\<close> in the descriptor page are \<open>slots\<close>, indexed in units of eight bytes from
  the address of the \<open>free_list\<close> field, so \<open>free_list\<close> itself is such an index. Cache names are kept
  as strings cut to the length of the \<open>name\<close> array; they are only printed.
\<close>

subsection \<open>Data\<close>

abbreviation (input) MIN_OBJ_COUNT_PER_PAGE :: nat where "MIN_OBJ_COUNT_PER_PAGE \<equiv> 4"
abbreviation (input) CACHE_MAX_NAME_LEN :: nat where "CACHE_MAX_NAME_LEN \<equiv> 24"

record kmem_cache =
  cache_cpu :: "nat \<Rightarrow> nat"
  k_lock :: spinlock
  k_name :: string
  k_flags :: u32
  k_size :: u16
  k_order :: nat
  count_per_slab :: u16

record slab =
  kc :: nat
  objs :: u64
  inuse :: u16
  free_list :: nat
  slots :: "nat \<Rightarrow> u64"

datatype snode = Slab_node nat | Part_head nat | Full_head nat | Cache_node nat | Cache_list

record slab_state =
  mm :: buddy
  slabs :: "nat \<Rightarrow> slab"
  caches :: "nat \<Rightarrow> kmem_cache"
  slinks :: "snode lheap"

definition upd_cache :: "nat \<Rightarrow> (kmem_cache \<Rightarrow> kmem_cache) \<Rightarrow> slab_state \<Rightarrow> slab_state" where
  "upd_cache k f st = st\<lparr>caches := (caches st)(k := f (caches st k))\<rparr>"

definition lock_cache :: "int \<Rightarrow> nat \<Rightarrow> slab_state \<Rightarrow> slab_state kres" where
  "lock_cache cpuid k st = (case mm st of (s, h, l) \<Rightarrow>
     bindR (spin_lock cpuid (h, k_lock (caches st k))) (\<lambda>(h, lk).
       Inr (upd_cache k (\<lambda>c. c\<lparr>k_lock := lk\<rparr>) (st\<lparr>mm := (s, h, l)\<rparr>))))"

definition unlock_cache :: "int \<Rightarrow> nat \<Rightarrow> slab_state \<Rightarrow> slab_state kres" where
  "unlock_cache cpuid k st = (case mm st of (s, h, l) \<Rightarrow>
     bindR (spin_unlock cpuid (h, k_lock (caches st k))) (\<lambda>(h, lk).
       Inr (upd_cache k (\<lambda>c. c\<lparr>k_lock := lk\<rparr>) (st\<lparr>mm := (s, h, l)\<rparr>))))"

subsection \<open>Slabs\<close>

definition kmem_cache_init :: "slab_state \<Rightarrow> slab_state" where
  "kmem_cache_init st = st\<lparr>slinks := INIT_LIST_HEAD Cache_list (slinks st)\<rparr>"

text \<open>\<open>page->slab = slab\<close> inside the loop over \<open>page + i\<close> always sets the first page.\<close>

definition mark_slab_pages :: "nat \<Rightarrow> nat \<Rightarrow> u32 \<Rightarrow> nat option \<Rightarrow> mem_map \<Rightarrow> mem_map" where
  "mark_slab_pages page n fl sl s =
     fold (\<lambda>i s. upd_page page (\<lambda>p. p\<lparr>page.slab := sl\<rparr>) (SetPageFlag (page + i) fl s)) [0 ..< n] s"

definition fill_slots :: "u64 \<Rightarrow> nat \<Rightarrow> nat \<Rightarrow> (nat \<Rightarrow> u64) \<Rightarrow> (nat \<Rightarrow> u64)" where
  "fill_slots ob sz n f = fold (\<lambda>i f. f(i + 1 := ob + of_nat (i * sz))) [0 ..< n] f"

definition slab_create :: "int \<Rightarrow> nat \<Rightarrow> slab_state \<Rightarrow> (nat option \<times> slab_state) kres" where
  "slab_create cpuid k st =
     bindR (alloc_page_addr cpuid (k_flags (caches st k)) (mm st)) (\<lambda>(a, m).
     if a = 0 then Inr (None, st\<lparr>mm := m\<rparr>)
     else bindR (alloc_pages_addr cpuid (k_flags (caches st k)) (int (k_order (caches st k))) m) (\<lambda>(ob, m).
     if ob = 0 then bindR (free_page_addr cpuid a m) (\<lambda>(_, m). Inr (None, st\<lparr>mm := m\<rparr>))
     else
       let c = caches st k;
           sid = get_page_struct a;
           page = get_page_struct ob;
           m = (case m of (s, h, l) \<Rightarrow> (mark_slab_pages page (2 ^ k_order c) PG_Slab (Some sid) s, h, l));
           sl = \<lparr>kc = k, objs = ob, inuse = 0, free_list = 0,
                 slots = fill_slots ob (unat (k_size c)) (unat (count_per_slab c)) (\<lambda>_. 0)\<rparr>;
           sl = sl\<lparr>free_list := free_list sl + 1\<rparr>
       in Inr (Some sid, st\<lparr>mm := m, slabs := (slabs st)(sid := sl),
                            slinks := INIT_LIST_HEAD (Slab_node sid) (slinks st)\<rparr>)))"

definition slab_destory :: "int \<Rightarrow> nat \<Rightarrow> slab_state \<Rightarrow> slab_state kres" where
  "slab_destory cpuid sid st =
     (let sl = slabs st sid;
          order = k_order (caches st (kc sl));
          page = get_page_struct (objs sl);
          m = (case mm st of (s, h, l) \<Rightarrow> (mark_slab_pages page (2 ^ order) 0 None s, h, l))
      in bindR (free_pages_addr cpuid (objs sl) order m) (\<lambda>(_, m).
         bindR (free_page_addr cpuid (get_page_addr sid) m) (\<lambda>(_, m). Inr (st\<lparr>mm := m\<rparr>))))"

text \<open>\<open>require_size\<close> is at most \<open>4 * 65535\<close>, so the 32-bit \<open>slab_size\<close> never overflows.\<close>

function slab_order_loop :: "nat \<Rightarrow> nat \<Rightarrow> nat \<Rightarrow> nat" where
  "slab_order_loop require_size order slab_size =
     (if require_size > slab_size \<and> slab_size > 0 then slab_order_loop require_size (order + 1) (2 * slab_size)
      else order)"
  by pat_completeness auto
termination
  by (relation "measure (\<lambda>(r, _, n). r - n)") auto

definition calc_slab_order :: "u16 \<Rightarrow> nat" where
  "calc_slab_order obj_size = slab_order_loop (unat obj_size * MIN_OBJ_COUNT_PER_PAGE) 0 PGSIZE"

definition obj_pop :: "slab \<Rightarrow> u64 \<times> slab" where
  "obj_pop sl =
     (let sl = sl\<lparr>inuse := inuse sl + 1\<rparr>;
          tmp = slots sl (free_list sl)
      in (tmp, sl\<lparr>free_list := free_list sl + 1\<rparr>))"

definition obj_push :: "u64 \<Rightarrow> slab \<Rightarrow> slab" where
  "obj_push obj sl =
     (let sl = sl\<lparr>inuse := inuse sl - 1\<rparr>;
          sl = sl\<lparr>free_list := free_list sl - 1\<rparr>
      in sl\<lparr>slots := (slots sl)(free_list sl := obj)\<rparr>)"

definition is_slab_partial :: "slab \<Rightarrow> kmem_cache \<Rightarrow> bool" where
  "is_slab_partial sl c \<longleftrightarrow> inuse sl < count_per_slab c"

subsection \<open>Caches\<close>

definition upd_slab :: "nat \<Rightarrow> slab \<Rightarrow> slab_state \<Rightarrow> slab_state" where
  "upd_slab sid sl st = st\<lparr>slabs := (slabs st)(sid := sl)\<rparr>"

fun cache_cpu_init :: "int \<Rightarrow> nat \<Rightarrow> nat list \<Rightarrow> slab_state \<Rightarrow> slab_state kres" where
  "cache_cpu_init cpuid k [] st = Inr st"
| "cache_cpu_init cpuid k (i # is) st =
     bindR (slab_create cpuid k st) (\<lambda>(sl, st).
       case sl of
         None \<Rightarrow> Inl (Panic ''slab.c: cache_cpu_init Faild!'')
       | Some sid \<Rightarrow>
           cache_cpu_init cpuid k is (upd_cache k (\<lambda>c. c\<lparr>cache_cpu := (cache_cpu c)(i := sid)\<rparr>) st))"

text \<open>\<open>kmem_cache_add_slab\<close> links the new slab without a NULL check.\<close>

definition kmem_cache_add_slab :: "int \<Rightarrow> nat \<Rightarrow> slab_state \<Rightarrow> (nat \<times> slab_state) kres" where
  "kmem_cache_add_slab cpuid k st =
     bindR (slab_create cpuid k st) (\<lambda>(sl, st).
       case sl of
         None \<Rightarrow> Inl (Fault ''new_slab->list'')
       | Some sid \<Rightarrow> Inr (sid, st\<lparr>slinks := list_add_head (Slab_node sid) (Part_head k) (slinks st)\<rparr>))"

definition kmem_cache_create :: "int \<Rightarrow> nat \<Rightarrow> string \<Rightarrow> u16 \<Rightarrow> u32 \<Rightarrow> slab_state \<Rightarrow> slab_state kres" where
  "kmem_cache_create cpuid k name sz fl st =
     (let st = upd_cache k (\<lambda>c. c\<lparr>k_lock := spin_init\<rparr>) st in
      bindR (lock_cache cpuid k st) (\<lambda>st.
      let asz = ucast (next_power_of_2 (ucast sz)) :: u16;
          order = calc_slab_order sz
      in if asz = 0 then Inl (Fault ''division by zero'')
      else
        let st = upd_cache k (\<lambda>c. c\<lparr>k_name := take CACHE_MAX_NAME_LEN name, k_flags := fl, k_size := asz,
                   k_order := order, count_per_slab := of_nat (2 ^ order * PGSIZE div unat asz)\<rparr>) st;
            st = st\<lparr>slinks := INIT_LIST_HEAD (Part_head k) (slinks st)\<rparr>;
            st = st\<lparr>slinks := INIT_LIST_HEAD (Full_head k) (slinks st)\<rparr>;
            st = st\<lparr>slinks := INIT_LIST_HEAD (Cache_node k) (slinks st)\<rparr>
        in bindR (cache_cpu_init cpuid k [0 ..< NCPU] st) (\<lambda>st.
           unlock_cache cpuid k (st\<lparr>slinks := list_add_head (Cache_node k) Cache_list (slinks st)\<rparr>))))"

fun destory_each :: "int \<Rightarrow> nat list \<Rightarrow> slab_state \<Rightarrow> slab_state kres" where
  "destory_each cpuid [] st = Inr st"
| "destory_each cpuid (sid # sids) st = bindR (slab_destory cpuid sid st) (destory_each cpuid sids)"

text \<open>\<open>list_for_each_entry_safe\<close>: the slabs on a list, by the \<open>next\<close> links.\<close>

definition slab_entries :: "snode list \<Rightarrow> nat list option" where
  "slab_entries ns =
     those (List.map (\<lambda>n. case n of Slab_node sid \<Rightarrow> Some sid | _ \<Rightarrow> None) ns)"

definition slabs_on :: "snode \<Rightarrow> slab_state \<Rightarrow> nat list kres" where
  "slabs_on lh st =
     (case list_for_each lh (slinks st) of
        None \<Rightarrow> Inl Spins
      | Some ns \<Rightarrow> (case slab_entries ns of None \<Rightarrow> Inl (Fault ''list_entry'') | Some sids \<Rightarrow> Inr sids))"

definition kmem_cache_destory :: "int \<Rightarrow> nat \<Rightarrow> slab_state \<Rightarrow> slab_state kres" where
  "kmem_cache_destory cpuid k st =
     bindR (lock_cache cpuid k st) (\<lambda>st.
     bindR (destory_each cpuid (List.map (cache_cpu (caches st k)) [0 ..< NCPU]) st) (\<lambda>st.
     bindR (slabs_on (Part_head k) st) (\<lambda>ps.
     bindR (destory_each cpuid ps st) (\<lambda>st.
     bindR (slabs_on (Full_head k) st) (\<lambda>fs.
     bindR (destory_each cpuid fs st) (\<lambda>st.
       unlock_cache cpuid k (st\<lparr>slinks := list_del_init (Cache_node k) (slinks st)\<rparr>)))))))"

definition kmem_cache_alloc :: "int \<Rightarrow> nat \<Rightarrow> slab_state \<Rightarrow> (u64 \<times> slab_state) kres" where
  "kmem_cache_alloc cpuid k st =
     (if list_empty (Cache_node k) (slinks st) then Inl (Panic ''kmem_cache_alloc: already been freed'')
      else
        let cpu_slab = cache_cpu (caches st k) (nat cpuid) in
        if is_slab_partial (slabs st cpu_slab) (caches st k) then
          (case obj_pop (slabs st cpu_slab) of (addr, sl) \<Rightarrow> Inr (addr, upd_slab cpu_slab sl st))
        else
          bindR (lock_cache cpuid k st) (\<lambda>st.
          if list_empty (Part_head k) (slinks st) then
            bindR (kmem_cache_add_slab cpuid k st) (\<lambda>(sid, st).
            case obj_pop (slabs st sid) of (addr, sl) \<Rightarrow>
            bindR (unlock_cache cpuid k (upd_slab sid sl st)) (\<lambda>st. Inr (addr, st)))
          else
            case list_first (Part_head k) (slinks st) of
              Slab_node sid \<Rightarrow>
                (case obj_pop (slabs st sid) of (addr, sl) \<Rightarrow>
                 let st = upd_slab sid sl st;
                     st = (if \<not> is_slab_partial sl (caches st k) then
                             (let st = st\<lparr>slinks := list_del (Slab_node sid) (slinks st)\<rparr>
                              in st\<lparr>slinks := list_add_head (Slab_node sid) (Full_head k) (slinks st)\<rparr>)
                           else st)
                 in bindR (unlock_cache cpuid k st) (\<lambda>st. Inr (addr, st)))
            | _ \<Rightarrow> Inl (Fault ''list_entry'')))"

definition page_slab :: "u64 \<Rightarrow> slab_state \<Rightarrow> nat option" where
  "page_slab obj st = page.slab (pages (fst (mm st)) (get_page_struct obj))"

definition kmem_cache_free :: "int \<Rightarrow> nat \<Rightarrow> u64 \<Rightarrow> slab_state \<Rightarrow> slab_state kres" where
  "kmem_cache_free cpuid k obj st =
     (if list_empty (Cache_node k) (slinks st) then Inl (Panic ''kmem_cache_free: already been freed'')
      else
        case page_slab obj st of
          None \<Rightarrow> Inl (Fault ''slab->list'')
        | Some sid \<Rightarrow>
            if list_empty (Slab_node sid) (slinks st) then
              Inr (upd_slab sid (obj_push obj (slabs st sid)) st)
            else
              bindR (lock_cache cpuid k st) (\<lambda>st.
              let st = (if \<not> is_slab_partial (slabs st sid) (caches st k) then
                          (let st = st\<lparr>slinks := list_del (Slab_node sid) (slinks st)\<rparr>
                           in st\<lparr>slinks := list_add_head (Slab_node sid) (Part_head k) (slinks st)\<rparr>)
                        else st)
              in unlock_cache cpuid k (upd_slab sid (obj_push obj (slabs st sid)) st)))"

subsection \<open>kmalloc\<close>

text \<open>Caches 0 to 9 are \<open>kmalloc16\<close> to \<open>kmalloc8192\<close>; the array has no other entries.\<close>

definition kmalloc :: "int \<Rightarrow> int \<Rightarrow> u32 \<Rightarrow> slab_state \<Rightarrow> (u64 \<times> slab_state) kres" where
  "kmalloc cpuid sz fl st =
     (if sz < 1 \<or> sz > 8192 then Inr (0, st)
      else
        let order = calculate_order (word_of_int sz) - 4
        in if unat order < 10 then kmem_cache_alloc cpuid (unat order) st
           else Inl (Fault ''kmalloc_caches''))"

definition kfree :: "int \<Rightarrow> u64 \<Rightarrow> slab_state \<Rightarrow> slab_state kres" where
  "kfree cpuid obj st =
     (case page_slab obj st of
        None \<Rightarrow> Inl (Fault ''slab->kc'')
      | Some sid \<Rightarrow> kmem_cache_free cpuid (kc (slabs st sid)) obj st)"

fun create_all :: "int \<Rightarrow> (nat \<times> string \<times> u16) list \<Rightarrow> slab_state \<Rightarrow> slab_state kres" where
  "create_all cpuid [] st = Inr st"
| "create_all cpuid ((k, name, sz) # cs) st =
     bindR (kmem_cache_create cpuid k name sz 0 st) (create_all cpuid cs)"

text \<open>\<open>sizes\<close> are the \<open>sizeof\<close> values of the ten object types with a cache of their own.\<close>

definition kmalloc_init :: "int \<Rightarrow> (string \<times> u16) list \<Rightarrow> slab_state \<Rightarrow> slab_state kres" where
  "kmalloc_init cpuid sizes =
     create_all cpuid
       ([(0, ''kmalloc-16'', 16), (1, ''kmalloc-32'', 32), (2, ''kmalloc-64'', 64),
         (3, ''kmalloc-128'', 128), (4, ''kmalloc-256'', 256), (5, ''kmalloc-512'', 512),
         (6, ''kmalloc-1024'', 1024), (7, ''kmalloc-2048'', 2048), (8, ''kmalloc-4096'', 4096),
         (9, ''kmalloc-8192'', 8192)] @
        List.map (\<lambda>(i, name, sz). (i, name, sz)) (enumerate 10 sizes))"

declare slab_order_loop.simps [simp del]

subsection \<open>Geometry of a cache\<close>

lemma slab_order_loop_least:
  assumes "slab_order_loop req ord (PGSIZE * 2 ^ ord) = r"
  shows "req \<le> PGSIZE * 2 ^ r \<and> ord \<le> r \<and> (ord < r \<longrightarrow> PGSIZE * 2 ^ (r - 1) < req)"
  using assms
proof (induction "req - PGSIZE * 2 ^ ord" arbitrary: ord rule: less_induct)
  case less
  show ?case
  proof (cases "req > PGSIZE * 2 ^ ord")
    case True
    have "slab_order_loop req (Suc ord) (PGSIZE * 2 ^ Suc ord) = r"
      using less.prems True by (subst (asm) slab_order_loop.simps) (simp add: algebra_simps)
    moreover have "0 < (2::nat) ^ ord" by simp
    then have "req - PGSIZE * 2 ^ Suc ord < req - PGSIZE * 2 ^ ord"
      using True unfolding power_Suc by linarith
    ultimately have ih: "req \<le> PGSIZE * 2 ^ r \<and> Suc ord \<le> r \<and> (Suc ord < r \<longrightarrow> PGSIZE * 2 ^ (r - 1) < req)"
      using less.hyps by blast
    show ?thesis
    proof (cases "Suc ord = r")
      case eq: True
      then have "r - 1 = ord" by simp
      with True ih eq show ?thesis by simp
    qed (use ih in auto)
  next
    case False
    then have "r = ord" using less.prems by (subst (asm) slab_order_loop.simps) simp
    with False show ?thesis by simp
  qed
qed

text \<open>The object size is a power of two that holds the object, and at least four of them fill a slab.\<close>

lemma cache_geometry:
  assumes "0 < unat sz" and "unat sz \<le> 32768"
  defines "asz \<equiv> unat (ucast (next_power_of_2 (ucast (sz :: u16))) :: u16)"
    and "ord \<equiv> calc_slab_order sz"
  shows "asz = 2 ^ clog2 (unat sz)" and "unat sz \<le> asz" and "asz \<le> 32768" and "ord \<le> 5"
    and "2 ^ ord * PGSIZE div asz * asz = 2 ^ ord * PGSIZE"
    and "MIN_OBJ_COUNT_PER_PAGE \<le> 2 ^ ord * PGSIZE div asz" and "2 ^ ord * PGSIZE div asz \<le> PGSIZE"
proof -
  define k where "k = clog2 (unat sz)"
  have k: "k \<le> 15" "unat sz \<le> 2 ^ k" unfolding k_def
    using clog2_le [of "unat sz" 15] le_clog2 [of "unat sz"] assms(2) by simp_all
  have np: "next_power_of_2 (ucast sz) = 2 ^ k"
    using next_power_of_2_clog2 [of "ucast sz :: u64"] assms(1)
    by (simp add: k_def unat_ucast_up word_gt_0 unat_gt_0 [symmetric])
  have "unat (2 ^ k :: u16) = 2 ^ k"
    using k(1) unat_of_nat_small [of "2 ^ k" , where 'a = 16] power_strict_increasing [of k 16 "2::nat"] by simp
  moreover have "(ucast (2 ^ k :: u64) :: u16) = 2 ^ k"
    by (rule bit_word_eqI) (use k(1) in \<open>auto simp: bit_ucast_iff bit_exp_iff\<close>)
  ultimately show asz: "asz = 2 ^ clog2 (unat sz)" unfolding asz_def np k_def by simp
  show "unat sz \<le> asz" "asz \<le> 32768"
    using k power_increasing [of k 15 "2::nat"] by (simp_all add: asz k_def)
  have loop: "unat sz * 4 \<le> PGSIZE * 2 ^ ord" "0 < ord \<Longrightarrow> PGSIZE * 2 ^ (ord - 1) < unat sz * 4"
    using slab_order_loop_least [of "unat sz * 4" 0 ord] by (simp_all add: ord_def calc_slab_order_def)
  show "ord \<le> 5"
  proof (rule ccontr)
    assume "\<not> ord \<le> 5"
    then have "5 \<le> ord - 1" "0 < ord" by simp_all
    then have "PGSIZE * 2 ^ 5 \<le> PGSIZE * 2 ^ (ord - 1)" by (intro mult_le_mono2 power_increasing) simp_all
    with loop(2) [OF \<open>0 < ord\<close>] assms(2) show False by simp
  qed
  have "unat sz \<le> 2 ^ (ord + 10)" using loop(1) by (simp add: power_add)
  then have k10: "k \<le> ord + 10" unfolding k_def by (rule clog2_le)
  have "2 ^ (ord + 12 - k) * 2 ^ k = (2::nat) ^ (ord + 12)" using k10 by (simp flip: power_add)
  then have pow: "2 ^ ord * PGSIZE = 2 ^ (ord + 12 - k) * 2 ^ k" by (simp add: power_add)
  then have cnt: "2 ^ ord * PGSIZE div asz = 2 ^ (ord + 12 - k)" by (simp add: asz k_def)
  with pow show "2 ^ ord * PGSIZE div asz * asz = 2 ^ ord * PGSIZE" by (simp add: asz k_def)
  have "(2::nat) ^ 2 \<le> 2 ^ (ord + 12 - k)" using k10 by (intro power_increasing) simp_all
  with cnt show "MIN_OBJ_COUNT_PER_PAGE \<le> 2 ^ ord * PGSIZE div asz" by simp
  have "ord \<le> k"
  proof (cases "ord = 0")
    case False
    then have "PGSIZE * 2 ^ (ord - 1) < unat sz * 4" using loop(2) by simp
    then have "2 ^ (ord - 1 + 10) < unat sz" unfolding power_add by simp
    then have "2 ^ (ord - 1 + 10) < (2::nat) ^ k" using k(2) by linarith
    then have "ord - 1 + 10 < k" by (rule power_less_imp_less_exp [rotated]) simp
    then show ?thesis by simp
  qed simp
  then have "(2::nat) ^ (ord + 12 - k) \<le> 2 ^ 12" by (intro power_increasing) simp_all
  with cnt show "2 ^ ord * PGSIZE div asz \<le> PGSIZE" by simp
qed

subsection \<open>One slab: a stack of free objects\<close>

definition cache_ok :: "kmem_cache \<Rightarrow> bool" where
  "cache_ok c \<longleftrightarrow> 0 < unat (k_size c) \<and> k_order c < MAX_LEVEL \<and> 1 < unat (count_per_slab c) \<and>
     unat (count_per_slab c) * unat (k_size c) = 2 ^ k_order c * PGSIZE"

definition cnt :: "kmem_cache \<Rightarrow> nat" where
  "cnt c = unat (count_per_slab c)"

definition object :: "kmem_cache \<Rightarrow> slab \<Rightarrow> nat \<Rightarrow> u64" where
  "object c sl i = objs sl + of_nat (i * unat (k_size c))"

definition objects :: "kmem_cache \<Rightarrow> slab \<Rightarrow> u64 set" where
  "objects c sl = object c sl ` {..< cnt c}"

definition free_objs :: "kmem_cache \<Rightarrow> slab \<Rightarrow> u64 set" where
  "free_objs c sl = slots sl ` {free_list sl .. cnt c}"

definition slab_wf :: "kmem_cache \<Rightarrow> slab \<Rightarrow> bool" where
  "slab_wf c sl \<longleftrightarrow> free_list sl = unat (inuse sl) + 1 \<and> unat (inuse sl) \<le> cnt c \<and>
     inj_on (slots sl) {free_list sl .. cnt c} \<and> free_objs c sl \<subseteq> objects c sl"

lemma object_offset:
  assumes "cache_ok c" and "i < cnt c"
  shows "i * unat (k_size c) < 2 ^ LENGTH(64)" and "i * unat (k_size c) + unat (k_size c) \<le> 2 ^ k_order c * PGSIZE"
proof -
  have "Suc i * unat (k_size c) \<le> cnt c * unat (k_size c)" using assms(2) by (intro mult_le_mono1) simp
  then show top: "i * unat (k_size c) + unat (k_size c) \<le> 2 ^ k_order c * PGSIZE"
    using assms(1) by (simp add: cache_ok_def cnt_def)
  have "(2::nat) ^ k_order c \<le> 2 ^ 10" using assms(1) by (intro power_increasing) (simp_all add: cache_ok_def)
  then have "2 ^ k_order c * PGSIZE \<le> 2 ^ 10 * PGSIZE" by (rule mult_le_mono1)
  with top show "i * unat (k_size c) < 2 ^ LENGTH(64)" by simp
qed

lemma inj_object:
  assumes "cache_ok c"
  shows "inj_on (object c sl) {..< cnt c}"
proof (rule inj_onI)
  fix i j assume ij: "i \<in> {..< cnt c}" "j \<in> {..< cnt c}" "object c sl i = object c sl j"
  then have "(of_nat (i * unat (k_size c)) :: u64) = of_nat (j * unat (k_size c))" by (simp add: object_def)
  then have "unat (of_nat (i * unat (k_size c)) :: u64) = unat (of_nat (j * unat (k_size c)) :: u64)" by (rule arg_cong)
  moreover have "unat (of_nat (i * unat (k_size c)) :: u64) = i * unat (k_size c)"
    using object_offset(1) [OF assms, of i] ij(1) by (intro unat_of_nat_small) simp_all
  moreover have "unat (of_nat (j * unat (k_size c)) :: u64) = j * unat (k_size c)"
    using object_offset(1) [OF assms, of j] ij(2) by (intro unat_of_nat_small) simp_all
  ultimately have "i * unat (k_size c) = j * unat (k_size c)" by metis
  then show "i = j" using assms by (simp add: cache_ok_def)
qed

lemma card_objects: "cache_ok c \<Longrightarrow> card (objects c sl) = cnt c"
  by (simp add: objects_def card_image inj_object)

lemma card_free_objs: "slab_wf c sl \<Longrightarrow> card (free_objs c sl) = cnt c - unat (inuse sl)"
  using card_image [of "slots sl" "{free_list sl .. cnt c}"] by (auto simp: slab_wf_def free_objs_def)

lemma unat_inc16: "unat (x :: u16) < unat (y :: u16) \<Longrightarrow> unat (x + 1) = unat x + 1"
  by (rule unat_inc_less [of _ y]) (simp add: word_less_nat_alt)

lemma obj_pop_wf:
  assumes wf: "slab_wf c sl" and part: "is_slab_partial sl c" and pop: "obj_pop sl = (a, sl')"
  shows "a \<in> free_objs c sl" and "slab_wf c sl'" and "free_objs c sl' = free_objs c sl - {a}"
    and "objs sl' = objs sl" and "kc sl' = kc sl" and "unat (inuse sl') = unat (inuse sl) + 1"
proof -
  let ?f = "free_list sl"
  have less: "unat (inuse sl) < cnt c" using part by (simp add: is_slab_partial_def cnt_def word_less_nat_alt)
  then show inc: "unat (inuse sl') = unat (inuse sl) + 1"
    using pop unat_inc16 [of "inuse sl" "count_per_slab c"] by (auto simp: obj_pop_def cnt_def Let_def)
  from pop have sl': "a = slots sl ?f" "free_list sl' = ?f + 1" "slots sl' = slots sl" and
    same: "objs sl' = objs sl" "kc sl' = kc sl"
    by (auto simp: obj_pop_def Let_def)
  then show "objs sl' = objs sl" "kc sl' = kc sl" by simp_all
  have f1: "?f = unat (inuse sl) + 1" and inj: "inj_on (slots sl) {?f .. cnt c}"
    and sub: "free_objs c sl \<subseteq> objects c sl"
    using wf unfolding slab_wf_def by blast+
  with less have f: "?f = unat (inuse sl) + 1" "?f \<le> cnt c" by simp_all
  have split: "{?f .. cnt c} = insert ?f {?f + 1 .. cnt c}" using f(2) by auto
  show "a \<in> free_objs c sl" using f(2) by (auto simp: sl' free_objs_def)
  have "a \<notin> slots sl ` {?f + 1 .. cnt c}" using inj unfolding split sl'(1) by (simp add: inj_on_def) force
  then show free: "free_objs c sl' = free_objs c sl - {a}"
    unfolding free_objs_def sl'(2,3) split by (auto simp: sl'(1))
  have "objects c sl' = objects c sl" by (simp add: objects_def object_def same)
  moreover have "inj_on (slots sl) {?f + 1 .. cnt c}" using inj by (rule inj_on_subset) auto
  ultimately show "slab_wf c sl'"
    using free sub less inc f(1) by (auto simp: slab_wf_def sl'(2,3))
qed

lemma obj_push_wf:
  assumes wf: "slab_wf c sl" and c: "cache_ok c" and a: "a \<in> objects c sl" "a \<notin> free_objs c sl"
  shows "slab_wf c (obj_push a sl)" and "free_objs c (obj_push a sl) = insert a (free_objs c sl)"
    and "unat (inuse (obj_push a sl)) = unat (inuse sl) - 1" and "0 < unat (inuse sl)"
    and "objs (obj_push a sl) = objs sl" and "kc (obj_push a sl) = kc sl"
proof -
  let ?f = "free_list sl"
  from wf have f: "?f = unat (inuse sl) + 1" "unat (inuse sl) \<le> cnt c" "inj_on (slots sl) {?f .. cnt c}"
    "free_objs c sl \<subseteq> objects c sl" unfolding slab_wf_def by blast+
  have "card (free_objs c sl) < card (objects c sl)"
    using a f(4) by (intro psubset_card_mono) (auto simp: objects_def)
  then show pos: "0 < unat (inuse sl)" using card_free_objs [OF wf] card_objects [OF c, of sl] by simp
  then have dec: "unat (inuse sl - 1) = unat (inuse sl) - 1" by (intro unat_minus_1) auto
  have sl': "free_list (obj_push a sl) = unat (inuse sl)" "slots (obj_push a sl) = (slots sl)(unat (inuse sl) := a)"
    "inuse (obj_push a sl) = inuse sl - 1"
    using f(1) by (simp_all add: obj_push_def Let_def)
  show "objs (obj_push a sl) = objs sl" "kc (obj_push a sl) = kc sl" by (simp_all add: obj_push_def Let_def)
  then have obj: "objects c (obj_push a sl) = objects c sl" by (simp add: objects_def object_def)
  show "unat (inuse (obj_push a sl)) = unat (inuse sl) - 1" using dec sl'(3) by simp
  have split: "{unat (inuse sl) .. cnt c} = insert (unat (inuse sl)) {?f .. cnt c}" using f(1,2) by auto
  have "(slots sl)(unat (inuse sl) := a) ` {?f .. cnt c} = slots sl ` {?f .. cnt c}"
    using f(1) by (intro image_cong) auto
  then show free: "free_objs c (obj_push a sl) = insert a (free_objs c sl)"
    unfolding free_objs_def sl' split image_insert fun_upd_same by (simp only:)
  have "inj_on ((slots sl)(unat (inuse sl) := a)) {unat (inuse sl) .. cnt c}"
    unfolding split
  proof (rule inj_on_insert [THEN iffD2], intro conjI)
    show "inj_on ((slots sl)(unat (inuse sl) := a)) {?f .. cnt c}"
      using f(1,3) by (auto simp: inj_on_def)
    show "((slots sl)(unat (inuse sl) := a)) (unat (inuse sl)) \<notin>
        ((slots sl)(unat (inuse sl) := a)) ` ({?f .. cnt c} - {unat (inuse sl)})"
      using a(2) f(1) by (auto simp: free_objs_def)
  qed
  then show "slab_wf c (obj_push a sl)"
    using pos dec f(2,4) a(1) free obj unfolding slab_wf_def sl' by auto
qed

text \<open>A fresh slab has all its objects free.\<close>

lemma fill_slots_apply:
  "fill_slots ob sz n f j = (if 1 \<le> j \<and> j \<le> n then ob + of_nat ((j - 1) * sz) else f j)"
  by (induction n arbitrary: j) (auto simp: fill_slots_def)

lemma fresh_slab_wf:
  fixes sl :: slab
  assumes c: "cache_ok c"
    and sl: "inuse sl = 0" "free_list sl = 1" "slots sl = fill_slots (objs sl) (unat (k_size c)) (cnt c) f"
  shows "slab_wf c sl" and "free_objs c sl = objects c sl"
proof -
  have "{1 .. cnt c} = Suc ` {..< cnt c}" by (simp add: image_Suc_lessThan)
  moreover have "slots sl (Suc i) = object c sl i" if "i < cnt c" for i
    using that by (simp add: sl fill_slots_apply object_def)
  ultimately have img: "slots sl ` {1 .. cnt c} = object c sl ` {..< cnt c}"
    by (simp only: image_image) (intro image_cong; simp)
  then show free: "free_objs c sl = objects c sl" by (simp add: free_objs_def objects_def sl)
  have "inj_on (slots sl) {1 .. cnt c}"
    using img card_objects [OF c, of sl] by (intro eq_card_imp_inj_on) (simp_all add: objects_def)
  with free show "slab_wf c sl" by (simp add: slab_wf_def sl)
qed

subsection \<open>Creating a slab\<close>

lemma get_page_struct_get_page_addr: "p < ALL_PFN \<Longrightarrow> get_page_struct (get_page_addr p) = p"
  using get_page_struct_addr [of p 0] by simp

lemma good_block_less: "good_block p i \<Longrightarrow> p < ALL_PFN"
proof -
  assume "good_block p i"
  then have "p + 2 ^ i \<le> ALL_PFN" "0 < (2::nat) ^ i" by (simp_all add: good_block_def)
  then show ?thesis by linarith
qed

lemma settled_push_off [simp]: "hart_ok h \<Longrightarrow> settled (push_off h) = push_off h"
  by (simp add: settled_def hart_ok_def)

lemma settled_settled [simp]: "settled (settled h) = settled h"
  by (simp add: settled_def)

lemma alloc_page_eq: "alloc_page c fl st = alloc_pages c fl 0 st"
  by (simp add: alloc_page_def alloc_pages_def)

lemma mark_slab_pages_pages:
  "page.slab (pages (mark_slab_pages page n fl v s) j) =
     (if j = page \<and> 0 < n then v else page.slab (pages s j))"
  "links (mark_slab_pages page n fl v s) = links s"
  by (induction n arbitrary: j) (auto simp: mark_slab_pages_def upd_page_def SetPageFlag_def)

lemma page_push_slab [simp]: "page.slab (pages (page_push p s) j) = page.slab (pages s j)"
  by (simp add: page_push_def upd_page_def)

lemma buddy_inv_links: "links s' = links s \<Longrightarrow> buddy_inv s' FL \<longleftrightarrow> buddy_inv s FL"
  by (simp add: buddy_inv_def)

text \<open>Every way \<open>slab_create\<close> can go, for a cache of valid geometry and a well-formed allocator.\<close>

lemma slab_create_cases:
  assumes ok: "mm_ok (s, h, l) FL" and c: "cache_ok (caches st k)" and mm: "mm st = (s, h, l)"
  obtains (oom) "slab_create cid k st = Inl (Fault ''page_push(NULL)'')"
      "k_order (caches st k) = 0 \<Longrightarrow> card (free_set FL) < 2"
  | (new) sid p s' FL' where
      "slab_create cid k st =
         Inr (Some sid, st\<lparr>mm := (s', settled h, l),
           slabs := (slabs st)(sid := \<lparr>kc = k, objs = get_page_addr p, inuse = 0, free_list = 1,
             slots = fill_slots (get_page_addr p) (unat (k_size (caches st k))) (cnt (caches st k)) (\<lambda>_. 0)\<rparr>),
           slinks := INIT_LIST_HEAD (Slab_node sid) (slinks st)\<rparr>)"
      "mm_ok (s', settled h, l) FL'" "sid \<in> free_set FL" "good_block p (k_order (caches st k))"
      "block p (k_order (caches st k)) \<subseteq> free_set FL - {sid}"
      "free_set FL' = free_set FL - insert sid (block p (k_order (caches st k)))"
      "\<forall>j. page.slab (pages s' j) = (if j = p then Some sid else page.slab (pages s j))"
proof -
  let ?c = "caches st k"
  have hl: "hart_ok h" "lock_free l" using ok by (simp_all add: mm_ok_def)
  have ord: "k_order ?c < MAX_LEVEL" using c by (simp add: cache_ok_def)
  from alloc_pages_cases [OF ok, of 0 cid "k_flags ?c"]
  consider (a0) "alloc_pages cid (k_flags ?c) 0 (s, h, l) = Inl (Fault ''page_push(NULL)'')"
      "\<forall>j < MAX_LEVEL. FL j = []"
    | (a1) q s1 FL1 where "alloc_pages cid (k_flags ?c) 0 (s, h, l) = Inr (q, page_push q s1, settled h, l)"
      "buddy_inv s1 FL1" "pages s1 = pages s" "good_block q 0" "block q 0 \<subseteq> free_set FL"
      "free_set FL1 = free_set FL - block q 0"
    by auto
  then show thesis
  proof cases
    case a0
    then show ?thesis
      by (intro oom) (simp_all add: slab_create_def alloc_page_addr_def alloc_page_eq mm no_blocks)
  next
    case a1
    have q: "q < ALL_PFN" "block q 0 = {q}" using a1(4) by (auto simp: good_block_less block_def)
    obtain r where r: "memset (get_page_addr q) 0 (of_nat PGSIZE) (ram (page_push q s1)) = Inr r"
      by (simp add: memset_bytes)
    define s2 where "s2 = (page_push q s1)\<lparr>ram := r\<rparr>"
    have step1: "alloc_page_addr cid (k_flags ?c) (mm st) = Inr (get_page_addr q, s2, settled h, l)"
      using a1(1) r by (simp add: alloc_page_addr_def alloc_page_eq mm s2_def)
    have ok2: "mm_ok (s2, settled h, l) FL1"
      using a1(2) hl buddy_inv_links [of s2 s1 FL1] by (simp add: mm_ok_def s2_def)
    from alloc_pages_cases [OF ok2 ord, of cid "k_flags ?c"]
    consider (b0) "alloc_pages cid (k_flags ?c) (int (k_order ?c)) (s2, settled h, l) = Inl (Fault ''page_push(NULL)'')"
        "\<forall>j. k_order ?c \<le> j \<longrightarrow> j < MAX_LEVEL \<longrightarrow> FL1 j = []"
      | (b1) p s3 FL3 where
        "alloc_pages cid (k_flags ?c) (int (k_order ?c)) (s2, settled h, l) = Inr (p, page_push p s3, settled h, l)"
        "buddy_inv s3 FL3" "pages s3 = pages s2" "good_block p (k_order ?c)" "block p (k_order ?c) \<subseteq> free_set FL1"
        "free_set FL3 = free_set FL1 - block p (k_order ?c)"
      by auto
    then show ?thesis
    proof cases
      case b0
      have "card (free_set FL) < 2" if "k_order ?c = 0"
      proof -
        have "free_set FL1 = {}" using b0(2) that by (simp add: no_blocks)
        then have "free_set FL \<subseteq> {q}" using a1(6) q(2) by auto
        then have "card (free_set FL) \<le> 1" using card_mono [of "{q}"] by simp
        then show ?thesis by simp
      qed
      with b0 show ?thesis
        using step1 get_page_addr_nonzero [OF q(1)] by (intro oom) (simp_all add: slab_create_def alloc_pages_addr_def)
    next
      case b1
      have p: "p < ALL_PFN" using b1(4) by (rule good_block_less)
      define s4 where "s4 = mark_slab_pages p (2 ^ k_order ?c) PG_Slab (Some q) (page_push p s3)"
      have "slab_create cid k st =
         Inr (Some q, st\<lparr>mm := (s4, settled h, l),
           slabs := (slabs st)(q := \<lparr>kc = k, objs = get_page_addr p, inuse = 0, free_list = 1,
             slots = fill_slots (get_page_addr p) (unat (k_size ?c)) (cnt ?c) (\<lambda>_. 0)\<rparr>),
           slinks := INIT_LIST_HEAD (Slab_node q) (slinks st)\<rparr>)"
        using step1 b1(1) get_page_addr_nonzero [OF q(1)] get_page_addr_nonzero [OF p]
        by (simp add: slab_create_def alloc_pages_addr_def get_page_struct_get_page_addr p q(1) s4_def cnt_def Let_def)
      moreover have "mm_ok (s4, settled h, l) FL3"
        using b1(2) hl buddy_inv_links [of s4 s3 FL3] by (simp add: mm_ok_def s4_def mark_slab_pages_pages)
      moreover have "\<forall>j. page.slab (pages s4 j) = (if j = p then Some q else page.slab (pages s j))"
        using b1(3) a1(3) by (simp add: s4_def mark_slab_pages_pages s2_def)
      ultimately show ?thesis
        using a1(5,6) b1(4-6) q(2) by (intro new [of q p s4 FL3]) auto
    qed
  qed
qed

subsection \<open>Cache invariant\<close>

definition slab_fam :: "nat \<Rightarrow> nat list \<Rightarrow> nat list \<Rightarrow> snode \<Rightarrow> snode list" where
  "slab_fam k P Q n =
     (if n = Part_head k then List.map Slab_node P else if n = Full_head k then List.map Slab_node Q else [])"

definition slab_heads :: "nat \<Rightarrow> snode set" where
  "slab_heads k = {Part_head k, Full_head k}"

definition slab_pages :: "slab_state \<Rightarrow> nat \<Rightarrow> nat \<Rightarrow> nat set" where
  "slab_pages st k sid = insert sid (block (get_page_struct (objs (slabs st sid))) (k_order (caches st k)))"

definition slab_at :: "slab_state \<Rightarrow> nat \<Rightarrow> nat \<Rightarrow> bool" where
  "slab_at st k sid \<longleftrightarrow>
     kc (slabs st sid) = k \<and> slab_wf (caches st k) (slabs st sid) \<and>
     (\<exists>p. objs (slabs st sid) = get_page_addr p \<and> good_block p (k_order (caches st k)) \<and>
          page.slab (pages (fst (mm st)) p) = Some sid)"

text \<open>\<open>S\<close> is the set of slabs of the cache: their pages are disjoint and none of them is free.\<close>

definition live_ok :: "slab_state \<Rightarrow> (nat \<Rightarrow> nat list) \<Rightarrow> nat \<Rightarrow> nat set \<Rightarrow> bool" where
  "live_ok st FL k S \<longleftrightarrow>
     (\<forall>sid\<in>S. slab_at st k sid \<and> slab_pages st k sid \<inter> free_set FL = {}) \<and>
     (\<forall>sid\<in>S. \<forall>sid'\<in>S. sid \<noteq> sid' \<longrightarrow> slab_pages st k sid \<inter> slab_pages st k sid' = {})"

definition lists_ok :: "slab_state \<Rightarrow> nat \<Rightarrow> nat list \<Rightarrow> nat list \<Rightarrow> bool" where
  "lists_ok st k P Q \<longleftrightarrow>
     list_family (slab_heads k) (slinks st) (slab_fam k P Q) \<and> \<not> list_empty (Cache_node k) (slinks st) \<and>
     (\<forall>sid\<in>set P. is_slab_partial (slabs st sid) (caches st k)) \<and>
     (\<forall>sid\<in>set Q. \<not> is_slab_partial (slabs st sid) (caches st k)) \<and>
     (\<forall>i<NCPU. list_empty (Slab_node (cache_cpu (caches st k) i)) (slinks st) \<and>
        cache_cpu (caches st k) i \<notin> set P \<union> set Q)"

definition live :: "slab_state \<Rightarrow> nat \<Rightarrow> nat list \<Rightarrow> nat list \<Rightarrow> nat set" where
  "live st k P Q = set P \<union> set Q \<union> cache_cpu (caches st k) ` {..< NCPU}"

definition cache_inv :: "slab_state \<Rightarrow> nat \<Rightarrow> (nat \<Rightarrow> nat list) \<Rightarrow> nat list \<Rightarrow> nat list \<Rightarrow> bool" where
  "cache_inv st k FL P Q \<longleftrightarrow>
     mm_ok (mm st) FL \<and> cache_ok (caches st k) \<and> lock_free (k_lock (caches st k)) \<and>
     live_ok st FL k (live st k P Q) \<and> lists_ok st k P Q"

text \<open>The objects handed out and not given back.\<close>

definition used_objs :: "slab_state \<Rightarrow> nat \<Rightarrow> nat set \<Rightarrow> u64 set" where
  "used_objs st k S =
     (\<Union>sid\<in>S. objects (caches st k) (slabs st sid) - free_objs (caches st k) (slabs st sid))"

lemma slab_fam_simps [simp]:
  "slab_fam k P Q (Part_head k) = List.map Slab_node P" "slab_fam k P Q (Full_head k) = List.map Slab_node Q"
  by (simp_all add: slab_fam_def)

lemma slab_fam_upd:
  "(slab_fam k P Q)(Part_head k := List.map Slab_node P') = slab_fam k P' Q"
  "(slab_fam k P Q)(Full_head k := List.map Slab_node Q') = slab_fam k P Q'"
  by (auto simp: slab_fam_def fun_eq_iff)

lemma slab_heads_mem [simp]: "Part_head k \<in> slab_heads k" "Full_head k \<in> slab_heads k"
  by (simp_all add: slab_heads_def)

lemma slab_nodes:
  "fam_nodes (slab_heads k) (slab_fam k P Q) =
     {Part_head k, Full_head k} \<union> Slab_node ` (set P \<union> set Q)"
  by (auto simp: fam_nodes_def slab_heads_def)

text \<open>Every object of a slab lies in the slab's pages, so slabs never share objects.\<close>

lemma object_page:
  assumes c: "cache_ok c" and sl: "objs sl = get_page_addr p" "good_block p (k_order c)"
    and a: "a \<in> objects c sl"
  shows "get_page_struct a \<in> block p (k_order c)"
proof -
  obtain i where i: "i < cnt c" "a = object c sl i" using a by (auto simp: objects_def)
  let ?o = "i * unat (k_size c)"
  have top: "?o < 2 ^ k_order c * PGSIZE" using object_offset(2) [OF c i(1)] c by (simp add: cache_ok_def)
  then have q: "?o div PGSIZE < 2 ^ k_order c" by (simp add: div_less_iff_less_mult)
  have "p + 2 ^ k_order c \<le> ALL_PFN" using sl(2) by (simp add: good_block_def)
  then have r: "p + ?o div PGSIZE < ALL_PFN" using q by simp
  have "a = get_page_addr (p + ?o div PGSIZE) + of_nat (?o mod PGSIZE)"
  proof -
    have "?o = ?o div PGSIZE * PGSIZE + ?o mod PGSIZE" by simp
    then have "(of_nat ?o :: u64) = of_nat (?o div PGSIZE * PGSIZE) + of_nat (?o mod PGSIZE)"
      by (metis of_nat_add)
    then show ?thesis
      unfolding i(2) object_def sl(1) get_page_addr_offset by (simp add: algebra_simps)
  qed
  then have "get_page_struct a = p + ?o div PGSIZE" using get_page_struct_addr [OF r, of "?o mod PGSIZE"] by simp
  with q show ?thesis by (simp add: block_def)
qed

lemma objects_disjoint:
  assumes live: "live_ok st FL k S" and c: "cache_ok (caches st k)" and S: "x \<in> S" "y \<in> S" "x \<noteq> y"
  shows "objects (caches st k) (slabs st x) \<inter> objects (caches st k) (slabs st y) = {}"
proof -
  have page: "get_page_struct a \<in> slab_pages st k z"
    if "z \<in> S" "a \<in> objects (caches st k) (slabs st z)" for z a
  proof -
    from live that(1) obtain p where p: "objs (slabs st z) = get_page_addr p" "good_block p (k_order (caches st k))"
      by (auto simp: live_ok_def slab_at_def)
    from object_page [OF c p that(2)] show ?thesis
      using good_block_less [OF p(2)] by (simp add: slab_pages_def p(1) get_page_struct_get_page_addr)
  qed
  have "slab_pages st k x \<inter> slab_pages st k y = {}" using live S by (simp add: live_ok_def)
  then show ?thesis using page [OF S(1)] page [OF S(2)] by blast
qed

subsection \<open>Allocation and release of objects\<close>

lemma live_ok_upd_slab:
  assumes live: "live_ok st FL k S" and sid: "sid \<in> S"
    and sl: "kc sl = kc (slabs st sid)" "objs sl = objs (slabs st sid)" "slab_wf (caches st k) sl"
  shows "live_ok (upd_slab sid sl st) FL k S"
proof -
  have pg: "slab_pages (upd_slab sid sl st) k x = slab_pages st k x" for x
    by (simp add: slab_pages_def upd_slab_def sl(2))
  have at: "slab_at (upd_slab sid sl st) k x" if "slab_at st k x" for x
    using that sl by (auto simp: slab_at_def upd_slab_def)
  show ?thesis using live at unfolding live_ok_def pg by simp
qed

lemma used_objs_upd_slab:
  assumes "sid \<in> S"
  shows "used_objs (upd_slab sid sl st) k S =
     (objects (caches st k) sl - free_objs (caches st k) sl) \<union> used_objs st k (S - {sid})"
  using assms by (auto simp: used_objs_def upd_slab_def split: if_splits)

lemma used_objs_split:
  assumes "sid \<in> S"
  shows "used_objs st k S =
     (objects (caches st k) (slabs st sid) - free_objs (caches st k) (slabs st sid)) \<union> used_objs st k (S - {sid})"
  using assms by (auto simp: used_objs_def)

lemma used_objs_other:
  assumes "live_ok st FL k S" and "cache_ok (caches st k)" and "sid \<in> S"
  shows "objects (caches st k) (slabs st sid) \<inter> used_objs st k (S - {sid}) = {}"
  using objects_disjoint [OF assms(1,2)] assms(3) unfolding used_objs_def by blast

lemma objects_cong: "objs sl' = objs sl \<Longrightarrow> objects c sl' = objects c sl"
  by (simp add: objects_def object_def)

lemma pop_live:
  assumes live: "live_ok st FL k S" and c: "cache_ok (caches st k)" and sid: "sid \<in> S"
    and part: "is_slab_partial (slabs st sid) (caches st k)" and pop: "obj_pop (slabs st sid) = (a, sl)"
  shows "a \<notin> used_objs st k S" and "used_objs (upd_slab sid sl st) k S = insert a (used_objs st k S)"
    and "live_ok (upd_slab sid sl st) FL k S"
proof -
  have wf: "slab_wf (caches st k) (slabs st sid)" using live sid by (simp add: live_ok_def slab_at_def)
  note p = obj_pop_wf [OF wf part pop]
  have a: "a \<in> objects (caches st k) (slabs st sid)" using p(1) wf by (auto simp: slab_wf_def)
  note other = used_objs_other [OF live c sid]
  show "a \<notin> used_objs st k S" unfolding used_objs_split [OF sid] using a p(1) other by blast
  show "used_objs (upd_slab sid sl st) k S = insert a (used_objs st k S)"
    unfolding used_objs_upd_slab [OF sid] used_objs_split [OF sid, of st k] objects_cong [OF p(4)] p(3)
    using a p(1) by blast
  show "live_ok (upd_slab sid sl st) FL k S" by (rule live_ok_upd_slab [OF live sid p(5,4,2)])
qed

lemma push_live:
  assumes live: "live_ok st FL k S" and c: "cache_ok (caches st k)" and sid: "sid \<in> S"
    and a: "a \<in> objects (caches st k) (slabs st sid)" "a \<in> used_objs st k S"
  defines "sl \<equiv> obj_push a (slabs st sid)"
  shows "used_objs (upd_slab sid sl st) k S = used_objs st k S - {a}"
    and "live_ok (upd_slab sid sl st) FL k S" and "is_slab_partial sl (caches st k)"
proof -
  have wf: "slab_wf (caches st k) (slabs st sid)" using live sid by (simp add: live_ok_def slab_at_def)
  note other = used_objs_other [OF live c sid]
  have nf: "a \<notin> free_objs (caches st k) (slabs st sid)"
    using a other unfolding used_objs_split [OF sid] by blast
  note p = obj_push_wf [OF wf c a(1) nf, folded sl_def]
  show "used_objs (upd_slab sid sl st) k S = used_objs st k S - {a}"
    unfolding used_objs_upd_slab [OF sid] used_objs_split [OF sid, of st k] objects_cong [OF p(5)] p(2)
    using a(1) nf other by blast
  show "live_ok (upd_slab sid sl st) FL k S" by (rule live_ok_upd_slab [OF live sid p(6,5,1)])
  have "unat (inuse (slabs st sid)) \<le> cnt (caches st k)" using wf by (simp add: slab_wf_def)
  with p(3,4) show "is_slab_partial sl (caches st k)"
    by (simp add: is_slab_partial_def word_less_nat_alt cnt_def)
qed

text \<open>The lock and the hart change nothing the invariant is about.\<close>

lemma k_lock_irrelevant [simp]:
  "cache_ok (c\<lparr>k_lock := x\<rparr>) = cache_ok c" "cnt (c\<lparr>k_lock := x\<rparr>) = cnt c"
  "objects (c\<lparr>k_lock := x\<rparr>) sl = objects c sl" "free_objs (c\<lparr>k_lock := x\<rparr>) sl = free_objs c sl"
  "slab_wf (c\<lparr>k_lock := x\<rparr>) sl = slab_wf c sl" "is_slab_partial sl (c\<lparr>k_lock := x\<rparr>) = is_slab_partial sl c"
proof -
  show c: "cnt (c\<lparr>k_lock := x\<rparr>) = cnt c" by (simp add: cnt_def)
  show o: "objects (c\<lparr>k_lock := x\<rparr>) sl = objects c sl" by (simp add: objects_def object_def c)
  show f: "free_objs (c\<lparr>k_lock := x\<rparr>) sl = free_objs c sl" by (simp add: free_objs_def c)
  show "slab_wf (c\<lparr>k_lock := x\<rparr>) sl = slab_wf c sl" by (simp add: slab_wf_def c o f)
qed (simp_all add: cache_ok_def is_slab_partial_def)

definition relocked :: "nat \<Rightarrow> hart \<Rightarrow> spinlock \<Rightarrow> slab_state \<Rightarrow> slab_state" where
  "relocked k h lk st = (case mm st of (s, _, l) \<Rightarrow>
     upd_cache k (\<lambda>c. c\<lparr>k_lock := lk\<rparr>) (st\<lparr>mm := (s, h, l)\<rparr>))"

lemma relocked_irrelevant [simp]:
  "slabs (relocked k h lk st) = slabs st" "slinks (relocked k h lk st) = slinks st"
  "fst (mm (relocked k h lk st)) = fst (mm st)"
  "caches (relocked k h lk st) k = (caches st k)\<lparr>k_lock := lk\<rparr>"
  "live_ok (relocked k h lk st) FL k S \<longleftrightarrow> live_ok st FL k S"
  "lists_ok (relocked k h lk st) k P Q \<longleftrightarrow> lists_ok st k P Q"
  "used_objs (relocked k h lk st) k S = used_objs st k S"
  "live (relocked k h lk st) k P Q = live st k P Q"
proof -
  show sl: "slabs (relocked k h lk st) = slabs st" and "slinks (relocked k h lk st) = slinks st"
    and m: "fst (mm (relocked k h lk st)) = fst (mm st)"
    and c: "caches (relocked k h lk st) k = (caches st k)\<lparr>k_lock := lk\<rparr>"
    by (auto simp: relocked_def upd_cache_def split: prod.splits)
  then show "lists_ok (relocked k h lk st) k P Q \<longleftrightarrow> lists_ok st k P Q"
    "used_objs (relocked k h lk st) k S = used_objs st k S"
    "live (relocked k h lk st) k P Q = live st k P Q"
    by (simp_all add: lists_ok_def used_objs_def live_def)
  have "slab_at (relocked k h lk st) k x \<longleftrightarrow> slab_at st k x"
    "slab_pages (relocked k h lk st) k x = slab_pages st k x" for x
    using sl m c by (simp_all add: slab_at_def slab_pages_def)
  then show "live_ok (relocked k h lk st) FL k S \<longleftrightarrow> live_ok st FL k S" by (simp add: live_ok_def)
qed

lemma lock_cache_free:
  assumes "mm st = (s, h, l)" and "lock_free (k_lock (caches st k))"
  shows "lock_cache cid k st =
    Inr (relocked k (push_off h) ((k_lock (caches st k))\<lparr>lock := 1, lk_cpuid := cid\<rparr>) st)"
  using assms by (simp add: lock_cache_def relocked_def spin_lock_free)

lemma unlock_cache_taken:
  assumes "mm st = (s, push_off h, l)" and "hart_ok h" and "lock_free lk"
    and "k_lock (caches st k) = lk\<lparr>lock := 1, lk_cpuid := cid\<rparr>"
  shows "unlock_cache cid k st = Inr (relocked k (settled h) lk st)"
  using assms by (simp add: unlock_cache_def relocked_def spin_unlock_held)

lemma lists_ok_upd_slab:
  assumes "lists_ok st k P Q" and "sid \<in> set P \<Longrightarrow> is_slab_partial sl (caches st k)"
    and "sid \<in> set Q \<Longrightarrow> \<not> is_slab_partial sl (caches st k)"
  shows "lists_ok (upd_slab sid sl st) k P Q"
  using assms by (auto simp: lists_ok_def upd_slab_def)

lemma upd_slab_frame [simp]:
  "mm (upd_slab sid sl st) = mm st" "caches (upd_slab sid sl st) = caches st"
  "slinks (upd_slab sid sl st) = slinks st" "slabs (upd_slab sid sl st) sid = sl"
  "live (upd_slab sid sl st) k P Q = live st k P Q"
  by (simp_all add: upd_slab_def live_def)

lemma live_ok_slinks [simp]: "live_ok (st\<lparr>slinks := lk\<rparr>) FL k S \<longleftrightarrow> live_ok st FL k S"
  by (simp add: live_ok_def slab_at_def slab_pages_def)

lemma used_objs_slinks [simp]: "used_objs (st\<lparr>slinks := lk\<rparr>) k S = used_objs st k S"
  by (simp add: used_objs_def)

lemma live_slinks [simp]: "live (st\<lparr>slinks := lk\<rparr>) k P Q = live st k P Q"
  by (simp add: live_def)

lemma relocked_upd_slab: "relocked k h lk (upd_slab sid sl st) = upd_slab sid sl (relocked k h lk st)"
  by (simp add: relocked_def upd_slab_def upd_cache_def split: prod.splits)

lemma relocked_slinks: "relocked k h lk (st\<lparr>slinks := x\<rparr>) = (relocked k h lk st)\<lparr>slinks := x\<rparr>"
  by (simp add: relocked_def upd_cache_def split: prod.splits)

lemma upd_slab_slinks: "upd_slab sid sl (st\<lparr>slinks := x\<rparr>) = (upd_slab sid sl st)\<lparr>slinks := x\<rparr>"
  by (simp add: upd_slab_def)

lemma relocked_relocked: "relocked k h lk (relocked k h' lk' st) = relocked k h lk st"
  by (auto simp: relocked_def upd_cache_def split: prod.splits)

lemma cache_invI_relocked:
  assumes "mm_ok (s, h, l) FL" and "mm st = (s, h0, l)" and "cache_ok (caches st k)" and "lock_free lk"
    and "live_ok st FL k (live st k P Q)" and "lists_ok st k P Q"
  shows "cache_inv (relocked k h lk st) k FL P Q"
proof -
  have "mm (relocked k h lk st) = (s, h, l)" using assms(2) by (simp add: relocked_def upd_cache_def)
  with assms show ?thesis by (simp add: cache_inv_def)
qed

text \<open>Moving a slab between the two lists of its cache.\<close>

lemma lists_move:
  assumes lf: "list_family (slab_heads k) lk (slab_fam k P Q)" and sid: "sid \<in> set P"
  shows "list_family (slab_heads k) (list_add_head (Slab_node sid) (Full_head k) (list_del (Slab_node sid) lk))
           (slab_fam k (remove1 sid P) (sid # Q))"
proof -
  have e: "Slab_node sid \<in> set (slab_fam k P Q (Part_head k))" using sid by simp
  have r: "remove1 (Slab_node sid) (List.map Slab_node P) = List.map Slab_node (remove1 sid P)"
    by (rule remove1_map_inj) (simp add: inj_def)
  let ?F = "(slab_fam k P Q)(Part_head k := remove1 (Slab_node sid) (slab_fam k P Q (Part_head k)))"
  have "?F(Full_head k := Slab_node sid # ?F (Full_head k)) = slab_fam k (remove1 sid P) (sid # Q)"
    by (rule ext) (simp add: slab_fam_def r)
  with lists.move_to_head [OF lf slab_heads_mem e] show ?thesis by simp
qed

lemma lists_move_back:
  assumes lf: "list_family (slab_heads k) lk (slab_fam k P Q)" and sid: "sid \<in> set Q"
  shows "list_family (slab_heads k) (list_add_head (Slab_node sid) (Part_head k) (list_del (Slab_node sid) lk))
           (slab_fam k (sid # P) (remove1 sid Q))"
proof -
  have e: "Slab_node sid \<in> set (slab_fam k P Q (Full_head k))" using sid by simp
  have r: "remove1 (Slab_node sid) (List.map Slab_node Q) = List.map Slab_node (remove1 sid Q)"
    by (rule remove1_map_inj) (simp add: inj_def)
  let ?F = "(slab_fam k P Q)(Full_head k := remove1 (Slab_node sid) (slab_fam k P Q (Full_head k)))"
  have "?F(Part_head k := Slab_node sid # ?F (Part_head k)) = slab_fam k (sid # P) (remove1 sid Q)"
    by (rule ext) (simp add: slab_fam_def r)
  with lists.move_to_head [OF lf slab_heads_mem(2,1) e] show ?thesis by simp
qed

text \<open>Nodes outside the two lists keep their links.\<close>

lemma move_frame:
  assumes lf: "list_family (slab_heads k) lk (slab_fam k P Q)" and a: "a \<in> slab_heads k" "b \<in> slab_heads k"
    and e: "e \<in> set (slab_fam k P Q a)" and m: "m \<notin> fam_nodes (slab_heads k) (slab_fam k P Q)"
  shows "list_empty m (list_add_head e b (list_del e lk)) \<longleftrightarrow> list_empty m lk"
proof -
  have ma: "m \<notin> insert a (set (slab_fam k P Q a))" and mb: "m \<notin> insert b (set (slab_fam k P Q b))"
    using m a by (auto simp: fam_nodes_def)
  have d: "l_next (list_del e lk) m = l_next lk m" using list_del_frame [OF list_familyD [OF lf a(1)] e ma] by simp
  have "list_family (slab_heads k) (list_del e lk) ((slab_fam k P Q)(a := remove1 e (slab_fam k P Q a)))"
    by (rule fam_del [OF lf a(1) e])
  from is_list_link_in(1) [OF list_familyD [OF this a(2)]]
  have "l_next (list_del e lk) b \<in> insert b (set (((slab_fam k P Q)(a := remove1 e (slab_fam k P Q a))) b))" .
  moreover have "set (((slab_fam k P Q)(a := remove1 e (slab_fam k P Q a))) b) \<subseteq> set (slab_fam k P Q b)"
    using set_remove1_subset [of e "slab_fam k P Q a"] by auto
  ultimately have "m \<noteq> l_next (list_del e lk) b" using mb by auto
  moreover have "m \<noteq> e" "m \<noteq> b" using ma mb e by auto
  ultimately show ?thesis
    by (simp add: list_empty_def list_add_head_def list_add_between_def Let_def d)
qed

lemma lists_ok_disjoint: "lists_ok st k P Q \<Longrightarrow> sid \<in> set P \<Longrightarrow> sid \<notin> set Q"
  by (auto simp: lists_ok_def)

lemma lists_ok_distinct:
  assumes "lists_ok st k P Q"
  shows "distinct P" and "distinct Q"
proof -
  have lf: "list_family (slab_heads k) (slinks st) (slab_fam k P Q)" using assms by (simp add: lists_ok_def)
  from list_familyD [OF lf slab_heads_mem(1)] show "distinct P" by (simp add: is_list_def distinct_map)
  from list_familyD [OF lf slab_heads_mem(2)] show "distinct Q" by (simp add: is_list_def distinct_map)
qed

lemma outside_nodes:
  assumes "lists_ok st k P Q"
  shows "Cache_node k \<notin> fam_nodes (slab_heads k) (slab_fam k P Q)"
    and "i < NCPU \<Longrightarrow> Slab_node (cache_cpu (caches st k) i) \<notin> fam_nodes (slab_heads k) (slab_fam k P Q)"
  using assms by (auto simp: slab_nodes lists_ok_def)

lemma lists_ok_to_full:
  assumes lo: "lists_ok st k P Q" and sid: "sid \<in> set P" and full: "\<not> is_slab_partial sl (caches st k)"
  shows "lists_ok ((upd_slab sid sl st)\<lparr>slinks := list_add_head (Slab_node sid) (Full_head k)
            (list_del (Slab_node sid) (slinks st))\<rparr>) k (remove1 sid P) (sid # Q)"
proof -
  have lf: "list_family (slab_heads k) (slinks st) (slab_fam k P Q)" using lo by (simp add: lists_ok_def)
  have e: "Slab_node sid \<in> set (slab_fam k P Q (Part_head k))" using sid by simp
  note fr = move_frame [OF lf slab_heads_mem e]
  have rem: "set (remove1 sid P) = set P - {sid}" using lists_ok_distinct [OF lo] by simp
  show ?thesis
    unfolding lists_ok_def
    using lo sid full lists_move [OF lf sid] fr [OF outside_nodes(1) [OF lo]] fr [OF outside_nodes(2) [OF lo]]
    by (auto simp: lists_ok_def upd_slab_def rem)
qed

lemma lists_ok_to_part:
  assumes lo: "lists_ok st k P Q" and sid: "sid \<in> set Q" and part: "is_slab_partial sl (caches st k)"
  shows "lists_ok ((upd_slab sid sl st)\<lparr>slinks := list_add_head (Slab_node sid) (Part_head k)
            (list_del (Slab_node sid) (slinks st))\<rparr>) k (sid # P) (remove1 sid Q)"
proof -
  have lf: "list_family (slab_heads k) (slinks st) (slab_fam k P Q)" using lo by (simp add: lists_ok_def)
  have e: "Slab_node sid \<in> set (slab_fam k P Q (Full_head k))" using sid by simp
  note fr = move_frame [OF lf slab_heads_mem(2,1) e]
  have rem: "set (remove1 sid Q) = set Q - {sid}" using lists_ok_distinct [OF lo] by simp
  show ?thesis
    unfolding lists_ok_def
    using lo sid part lists_move_back [OF lf sid] fr [OF outside_nodes(1) [OF lo]] fr [OF outside_nodes(2) [OF lo]]
    by (auto simp: lists_ok_def upd_slab_def rem)
qed

definition cid_ok :: "int \<Rightarrow> bool" where
  "cid_ok cid \<longleftrightarrow> 0 \<le> cid \<and> cid < int NCPU"

text \<open>\<open>grants\<close>: an allocation of cache \<open>k\<close> from \<open>st\<close> gave object \<open>a\<close>, which nobody held before.\<close>

definition grants :: "slab_state \<Rightarrow> nat \<Rightarrow> nat set \<Rightarrow> u64 \<Rightarrow> slab_state \<Rightarrow> bool" where
  "grants st k S a st' \<longleftrightarrow> (\<exists>FL P Q. cache_inv st' k FL P Q \<and> a \<notin> used_objs st k S \<and>
     used_objs st' k (live st' k P Q) = insert a (used_objs st k S)) \<and> caches st' k = caches st k"

lemma grantsI:
  "cache_inv st' k FL P Q \<Longrightarrow> a \<notin> used_objs st k S \<Longrightarrow>
   used_objs st' k (live st' k P Q) = insert a (used_objs st k S) \<Longrightarrow> caches st' k = caches st k \<Longrightarrow>
   grants st k S a st'"
  unfolding grants_def by blast

lemma alloc_cpu_slab:
  assumes inv: "cache_inv st k FL P Q" and cid: "cid_ok cid"
    and part: "is_slab_partial (slabs st (cache_cpu (caches st k) (nat cid))) (caches st k)"
  shows "\<exists>a st'. kmem_cache_alloc cid k st = Inr (a, st') \<and> grants st k (live st k P Q) a st'"
proof -
  let ?sid = "cache_cpu (caches st k) (nat cid)"
  from inv have lo: "lists_ok st k P Q" and live: "live_ok st FL k (live st k P Q)" and c: "cache_ok (caches st k)"
    by (simp_all add: cache_inv_def)
  have i: "nat cid < NCPU" using cid unfolding cid_ok_def by linarith
  then have sid: "?sid \<in> live st k P Q" by (simp add: live_def)
  obtain a sl where pop: "obj_pop (slabs st ?sid) = (a, sl)" by (cases "obj_pop (slabs st ?sid)")
  have "kmem_cache_alloc cid k st = Inr (a, upd_slab ?sid sl st)"
    using lo part pop by (simp add: kmem_cache_alloc_def lists_ok_def Let_def)
  moreover have "?sid \<notin> set P" "?sid \<notin> set Q" using lo i by (auto simp: lists_ok_def)
  then have "lists_ok (upd_slab ?sid sl st) k P Q" using lo by (intro lists_ok_upd_slab) simp_all
  then have "cache_inv (upd_slab ?sid sl st) k FL P Q"
    using inv pop_live(3) [OF live c sid part pop] by (simp add: cache_inv_def)
  then have "grants st k (live st k P Q) a (upd_slab ?sid sl st)"
    using pop_live(1,2) [OF live c sid part pop] by (intro grantsI) simp_all
  ultimately show ?thesis by blast
qed

lemma alloc_part_slab:
  assumes inv: "cache_inv st k FL P Q" and cid: "cid_ok cid" and P: "P = sid # P'"
    and cpu: "\<not> is_slab_partial (slabs st (cache_cpu (caches st k) (nat cid))) (caches st k)"
  shows "\<exists>a st'. kmem_cache_alloc cid k st = Inr (a, st') \<and> grants st k (live st k P Q) a st'"
proof -
  obtain s h l where mm: "mm st = (s, h, l)" by (cases "mm st")
  from inv have lo: "lists_ok st k P Q" and live: "live_ok st FL k (live st k P Q)" and c: "cache_ok (caches st k)"
    and lk: "lock_free (k_lock (caches st k))" and ok: "mm_ok (s, h, l) FL"
    by (simp_all add: cache_inv_def mm)
  then have h: "hart_ok h" by (simp add: mm_ok_def)
  have lf: "list_family (slab_heads k) (slinks st) (slab_fam k P Q)" using lo by (simp add: lists_ok_def)
  have sid: "sid \<in> live st k P Q" "sid \<in> set P" by (simp_all add: live_def P)
  have part: "is_slab_partial (slabs st sid) (caches st k)" using lo sid(2) by (simp add: lists_ok_def)
  obtain a sl where pop: "obj_pop (slabs st sid) = (a, sl)" by (cases "obj_pop (slabs st sid)")
  note pl = pop_live [OF live c sid(1) part pop]
  have P_head: "list_first (Part_head k) (slinks st) = Slab_node sid" "\<not> list_empty (Part_head k) (slinks st)"
    using is_list_next [of "slinks st" "Part_head k" "Slab_node sid" "List.map Slab_node P'"]
      list_familyD [OF lf slab_heads_mem(1)] fam_empty [OF lf slab_heads_mem(1)]
    by (simp_all add: list_first_def P)
  let ?lk = "(k_lock (caches st k))\<lparr>lock := 1, lk_cpuid := cid\<rparr>"
  let ?l = "relocked k (push_off h) ?lk st"
  define st1 where "st1 = upd_slab sid sl st"
  define st2 where "st2 = (if \<not> is_slab_partial sl (caches st k)
     then st1\<lparr>slinks := list_add_head (Slab_node sid) (Full_head k) (list_del (Slab_node sid) (slinks st1))\<rparr> else st1)"
  have "kmem_cache_alloc cid k st =
      bindR (unlock_cache cid k (relocked k (push_off h) ?lk st2)) (\<lambda>st. Inr (a, st))"
    using lo cpu P_head pop lock_cache_free [OF mm lk, of cid]
    by (cases "is_slab_partial sl (caches st k)")
      (simp_all add: kmem_cache_alloc_def lists_ok_def Let_def st2_def st1_def relocked_upd_slab relocked_slinks)
  moreover have "mm (relocked k (push_off h) ?lk st2) = (s, push_off h, l)"
    "k_lock (caches (relocked k (push_off h) ?lk st2) k) = ?lk"
    by (simp_all add: relocked_def upd_cache_def st2_def st1_def mm)
  ultimately have run: "kmem_cache_alloc cid k st = Inr (a, relocked k (settled h) (k_lock (caches st k)) st2)"
    using unlock_cache_taken [OF _ h lk] by (simp add: relocked_relocked)
  have "\<exists>P2 Q2. lists_ok st2 k P2 Q2 \<and> live st2 k P2 Q2 = live st k P Q"
  proof (cases "is_slab_partial sl (caches st k)")
    case True
    then have "lists_ok st2 k P Q"
      using lists_ok_upd_slab [OF lo, of sid sl] lists_ok_disjoint [OF lo sid(2)] by (simp add: st2_def st1_def)
    with True show ?thesis by (intro exI [of _ P] exI [of _ Q]) (simp add: st2_def st1_def)
  next
    case False
    have "set (remove1 sid P) = set P - {sid}" using lists_ok_distinct [OF lo] by simp
    with sid(2) have "live st2 k (remove1 sid P) (sid # Q) = live st k P Q"
      using False by (auto simp: live_def st2_def st1_def)
    moreover from False lists_ok_to_full [OF lo sid(2)] have "lists_ok st2 k (remove1 sid P) (sid # Q)"
      by (simp add: st2_def st1_def)
    ultimately show ?thesis by blast
  qed
  then obtain P2 Q2 where PQ: "lists_ok st2 k P2 Q2" "live st2 k P2 Q2 = live st k P Q" by blast
  have used: "used_objs st2 k S = used_objs st1 k S" "live_ok st2 FL k S = live_ok st1 FL k S" for S
    by (simp_all add: st2_def)
  have "cache_inv (relocked k (settled h) (k_lock (caches st k)) st2) k FL P2 Q2"
  proof (rule cache_invI_relocked)
    show "mm_ok (s, settled h, l) FL" using ok by (simp add: mm_ok_def)
    show "mm st2 = (s, h, l)" by (simp add: st2_def st1_def mm)
    show "cache_ok (caches st2 k)" using c by (simp add: st2_def st1_def)
    show "live_ok st2 FL k (live st2 k P2 Q2)" using PQ(2) used pl(3) by (simp add: st1_def)
  qed (rule lk, rule PQ(1))
  moreover have "caches st2 k = caches st k" by (simp add: st2_def st1_def)
  moreover have "used_objs (relocked k (settled h) (k_lock (caches st k)) st2) k
      (live (relocked k (settled h) (k_lock (caches st k)) st2) k P2 Q2) = insert a (used_objs st k (live st k P Q))"
    using pl(2) PQ(2) used by (simp add: st1_def)
  ultimately have "grants st k (live st k P Q) a (relocked k (settled h) (k_lock (caches st k)) st2)"
    using pl(1) by (intro grantsI) simp_all
  with run show ?thesis by blast
qed

lemma live_ok_add:
  assumes live: "live_ok st FL k S" and sub: "free_set FL' = free_set FL - insert sid (block p (k_order (caches st k)))"
    and sid: "sid \<in> free_set FL" and p: "good_block p (k_order (caches st k))"
    and blk: "block p (k_order (caches st k)) \<subseteq> free_set FL - {sid}"
    and pg: "\<forall>j. page.slab (pages s' j) = (if j = p then Some sid else page.slab (pages (fst (mm st)) j))"
    and st': "fst (mm st') = s'" "slabs st' = (slabs st)(sid := sl)" "caches st' k = caches st k"
    and sl: "kc sl = k" "slab_wf (caches st k) sl" "objs sl = get_page_addr p"
  shows "live_ok st' FL' k (insert sid S)" and "sid \<notin> S"
proof -
  have out: "x \<noteq> sid" "p' \<noteq> p" if "x \<in> S" "objs (slabs st x) = get_page_addr p'"
    "good_block p' (k_order (caches st k))" for x p'
  proof -
    have "slab_pages st k x \<inter> free_set FL = {}" using live that(1) by (simp add: live_ok_def)
    moreover have "x \<in> slab_pages st k x" "p' \<in> slab_pages st k x"
      using that(2,3) by (simp_all add: slab_pages_def get_page_struct_get_page_addr good_block_less)
    moreover have "p \<in> free_set FL" using blk by (meson DiffD1 block_head subsetD)
    ultimately show "x \<noteq> sid" "p' \<noteq> p" using sid by auto
  qed
  have ne: "x \<noteq> sid" if "x \<in> S" for x
    using out that live unfolding live_ok_def slab_at_def by blast
  then show "sid \<notin> S" by blast
  have old: "slab_at st' k x" "slab_pages st' k x = slab_pages st k x" if "x \<in> S" for x
  proof -
    from live that obtain p' where p': "objs (slabs st x) = get_page_addr p'" "good_block p' (k_order (caches st k))"
      "page.slab (pages (fst (mm st)) p') = Some x" "kc (slabs st x) = k" "slab_wf (caches st k) (slabs st x)"
      by (auto simp: live_ok_def slab_at_def)
    with out(2) [OF that p'(1,2)] ne [OF that] show "slab_at st' k x"
      using pg by (auto simp: slab_at_def st')
    show "slab_pages st' k x = slab_pages st k x" using ne [OF that] by (simp add: slab_pages_def st')
  qed
  have new: "slab_at st' k sid" "slab_pages st' k sid = insert sid (block p (k_order (caches st k)))"
    using p sl pg by (auto simp: slab_at_def slab_pages_def st' get_page_struct_get_page_addr good_block_less)
  then have nf: "slab_pages st' k sid \<subseteq> free_set FL" using sid blk by auto
  have dis: "slab_pages st' k x \<inter> free_set FL = {}" if "x \<in> S" for x
    using live that old(2) by (simp add: live_ok_def)
  have "slab_at st' k x \<and> slab_pages st' k x \<inter> free_set FL' = {}" if "x \<in> insert sid S" for x
  proof (cases "x = sid")
    case True
    then show ?thesis using new unfolding sub by auto
  next
    case False
    then have "x \<in> S" using that by simp
    then show ?thesis using old(1) dis unfolding sub by blast
  qed
  moreover have "slab_pages st' k x \<inter> slab_pages st' k y = {}"
    if xy: "x \<in> insert sid S" "y \<in> insert sid S" "x \<noteq> y" for x y
  proof (cases "x = sid \<or> y = sid")
    case True
    then show ?thesis using xy dis nf by auto
  next
    case False
    then have "x \<in> S" "y \<in> S" using xy by auto
    then show ?thesis using live old(2) xy(3) by (simp add: live_ok_def)
  qed
  ultimately show "live_ok st' FL' k (insert sid S)" unfolding live_ok_def by blast
qed

lemma lists_ok_add:
  assumes lo: "lists_ok st k [] Q" and sid: "sid \<notin> live st k [] Q"
    and st': "slinks st' = list_add_head (Slab_node sid) (Part_head k) (INIT_LIST_HEAD (Slab_node sid) (slinks st))"
      "caches st' k = caches st k" "\<forall>x. x \<noteq> sid \<longrightarrow> slabs st' x = slabs st x"
    and part: "is_slab_partial (slabs st' sid) (caches st k)"
  shows "lists_ok st' k [sid] Q"
proof -
  have lf: "list_family (slab_heads k) (slinks st) (slab_fam k [] Q)" using lo by (simp add: lists_ok_def)
  have out: "Slab_node sid \<notin> fam_nodes (slab_heads k) (slab_fam k [] Q)"
    using sid by (auto simp: slab_nodes live_def)
  define lk where "lk = INIT_LIST_HEAD (Slab_node sid) (slinks st)"
  have lf1: "list_family (slab_heads k) lk (slab_fam k [] Q)"
    unfolding lk_def by (rule fam_INIT_other [OF lf out])
  have "list_family (slab_heads k) (slinks st') (slab_fam k [sid] Q)"
    using fam_add_head [OF lf1 slab_heads_mem(1) out] slab_fam_upd(1) [of k "[]" Q "[sid]"]
    by (simp add: st'(1) lk_def)
  moreover have "l_next lk (Part_head k) = Part_head k"
    using fam_empty [OF lf1 slab_heads_mem(1)] by (simp add: list_empty_def)
  then have keep: "list_empty m (slinks st') \<longleftrightarrow> list_empty m (slinks st)" if "m \<noteq> Slab_node sid" "m \<noteq> Part_head k" for m
    using that by (simp add: st'(1) list_empty_def list_add_head_def list_add_between_def Let_def lk_def INIT_LIST_HEAD_def)
  moreover have "cache_cpu (caches st k) i \<noteq> sid" if "i < NCPU" for i using sid that by (auto simp: live_def)
  moreover have "x \<noteq> sid" if "x \<in> set Q" for x using sid that by (auto simp: live_def)
  ultimately show ?thesis
    using lo part st'(2,3) unfolding lists_ok_def by auto
qed

lemma alloc_new_slab:
  assumes inv: "cache_inv st k FL [] Q" and cid: "cid_ok cid"
    and cpu: "\<not> is_slab_partial (slabs st (cache_cpu (caches st k) (nat cid))) (caches st k)"
  shows "kmem_cache_alloc cid k st = Inl (Fault ''page_push(NULL)'') \<or>
     (\<exists>a st'. kmem_cache_alloc cid k st = Inr (a, st') \<and> grants st k (live st k [] Q) a st')"
proof -
  obtain s h l where mm: "mm st = (s, h, l)" by (cases "mm st")
  from inv have lo: "lists_ok st k [] Q" and live: "live_ok st FL k (live st k [] Q)" and c: "cache_ok (caches st k)"
    and lk: "lock_free (k_lock (caches st k))" and ok: "mm_ok (s, h, l) FL"
    by (simp_all add: cache_inv_def mm)
  then have h: "hart_ok h" by (simp add: mm_ok_def)
  have lf: "list_family (slab_heads k) (slinks st) (slab_fam k [] Q)" using lo by (simp add: lists_ok_def)
  have P_head: "list_empty (Part_head k) (slinks st)" using fam_empty [OF lf slab_heads_mem(1)] by simp
  let ?lk = "(k_lock (caches st k))\<lparr>lock := 1, lk_cpuid := cid\<rparr>"
  define st0 where "st0 = relocked k (push_off h) ?lk st"
  have mm0: "mm st0 = (s, push_off h, l)" by (simp add: st0_def relocked_def upd_cache_def mm)
  have ok0: "mm_ok (s, push_off h, l) FL" using ok h by (simp add: mm_ok_def push_off_ok)
  have c0: "cache_ok (caches st0 k)" "k_lock (caches st0 k) = ?lk" using c by (simp_all add: st0_def)
  have run0: "kmem_cache_alloc cid k st =
      bindR (kmem_cache_add_slab cid k st0) (\<lambda>(sid, st). case obj_pop (slabs st sid) of (addr, sl) \<Rightarrow>
            bindR (unlock_cache cid k (upd_slab sid sl st)) (\<lambda>st. Inr (addr, st)))"
    using lo cpu P_head lock_cache_free [OF mm lk, of cid]
    by (simp add: kmem_cache_alloc_def lists_ok_def Let_def st0_def)
  show ?thesis
    using ok0 c0(1) mm0
  proof (cases rule: slab_create_cases [where cid = cid])
    case oom
    then show ?thesis by (simp add: run0 kmem_cache_add_slab_def)
  next
    case (new sid p s' FL')
    let ?c = "caches st0 k"
    define sl0 where "sl0 = \<lparr>kc = k, objs = get_page_addr p, inuse = 0, free_list = 1,
      slots = fill_slots (get_page_addr p) (unat (k_size ?c)) (cnt ?c) (\<lambda>_. 0)\<rparr>"
    define st2 where "st2 = st0\<lparr>mm := (s', push_off h, l), slabs := (slabs st0)(sid := sl0),
      slinks := list_add_head (Slab_node sid) (Part_head k) (INIT_LIST_HEAD (Slab_node sid) (slinks st0))\<rparr>"
    define S where "S = live st k [] Q"
    have fresh: "slab_wf ?c sl0" "free_objs ?c sl0 = objects ?c sl0"
      using fresh_slab_wf [OF c0(1), of sl0] by (simp_all add: sl0_def)
    have add: "kmem_cache_add_slab cid k st0 = Inr (sid, st2)"
      using new(1) h by (simp add: kmem_cache_add_slab_def st2_def sl0_def)
    have live0: "live_ok st0 FL k S" using live by (simp add: st0_def S_def)
    note nw = live_ok_add [OF live0 new(6,3,4,5), of s' st2 sl0]
    have S2: "live_ok st2 FL' k (insert sid S)" "sid \<notin> S"
      using nw new(7) fresh(1) by (simp_all add: st2_def sl0_def mm0)
    have c2: "caches st2 k = ?c" "slabs st2 sid = sl0" by (simp_all add: st2_def)
    have part0: "is_slab_partial (slabs st2 sid) (caches st2 k)"
      using c0(1) by (simp add: c2 is_slab_partial_def sl0_def cache_ok_def word_gt_0 unat_gt_0 [symmetric])
    obtain a sl where pop: "obj_pop (slabs st2 sid) = (a, sl)" by (cases "obj_pop (slabs st2 sid)")
    note pl = pop_live [OF S2(1) _ insertI1 part0 pop, unfolded c2, OF c0(1)]
    have "unat (inuse sl) = 1" using obj_pop_wf(6) [of ?c sl0 a sl] fresh(1) part0 pop by (simp add: c2 sl0_def)
    then have part1: "is_slab_partial sl ?c"
      using c0(1) by (simp add: is_slab_partial_def cache_ok_def word_less_nat_alt)
    define st3 where "st3 = upd_slab sid sl st2"
    have mm3: "mm st3 = (s', push_off h, l)" "caches st3 k = ?c" by (simp_all add: st3_def st2_def)
    have "unlock_cache cid k st3 = Inr (relocked k (settled h) (k_lock (caches st k)) st3)"
      using mm3 c0(2) by (intro unlock_cache_taken [OF _ h lk]) simp_all
    then have run: "kmem_cache_alloc cid k st = Inr (a, relocked k (settled h) (k_lock (caches st k)) st3)"
      by (simp add: run0 add pop st3_def)
    have lo0: "lists_ok st0 k [] Q" "live st0 k [] Q = S" using lo by (simp_all add: st0_def S_def)
    have lo3: "lists_ok st3 k [sid] Q"
      using lo0 S2(2) part1 by (intro lists_ok_add [of st0 k Q sid]) (simp_all add: st3_def st2_def upd_slab_def)
    have liv3: "live st3 k [sid] Q = insert sid S"
      using lo0(2) by (auto simp: live_def mm3)
    have used2: "used_objs st2 k (insert sid S) = used_objs st k S"
    proof -
      have "used_objs st2 k S = used_objs st0 k S"
        unfolding used_objs_def using S2(2) by (intro SUP_cong) (auto simp: st2_def)
      then show ?thesis
        using used_objs_split [of sid "insert sid S" st2 k] S2(2) fresh(2) by (simp add: c2 st0_def)
    qed
    have "cache_inv (relocked k (settled h) (k_lock (caches st k)) st3) k FL' [sid] Q"
    proof (rule cache_invI_relocked)
      show "mm_ok (s', settled h, l) FL'" using new(2) h by (simp add: mm_ok_def)
      show "live_ok st3 FL' k (live st3 k [sid] Q)" unfolding liv3 using pl(3) by (simp add: st3_def)
    qed (use mm3 c0(1) lk lo3 in simp_all)
    moreover have "caches (relocked k (settled h) (k_lock (caches st k)) st3) k = caches st k"
      by (simp add: mm3 st0_def)
    moreover have "used_objs (relocked k (settled h) (k_lock (caches st k)) st3) k
        (live (relocked k (settled h) (k_lock (caches st k)) st3) k [sid] Q) = insert a (used_objs st k S)"
      using pl(2) used2 liv3 by (simp add: st3_def)
    ultimately have "grants st k S a (relocked k (settled h) (k_lock (caches st k)) st3)"
      using pl(1) unfolding used2 by (intro grantsI) simp_all
    with run show ?thesis unfolding S_def by blast
  qed
qed

text \<open>
  \<open>kmem_cache_alloc\<close> either gives an object nobody holds, or runs out of pages, in which case the
  NULL page is dereferenced.
\<close>

lemma kmem_cache_alloc_fresh:
  assumes "cache_inv st k FL P Q" and "cid_ok cid"
  shows "kmem_cache_alloc cid k st = Inl (Fault ''page_push(NULL)'') \<or>
     (\<exists>a st'. kmem_cache_alloc cid k st = Inr (a, st') \<and> grants st k (live st k P Q) a st')"
proof (cases "is_slab_partial (slabs st (cache_cpu (caches st k) (nat cid))) (caches st k)")
  case True
  then show ?thesis using alloc_cpu_slab [OF assms] by blast
next
  case False
  then show ?thesis
    using alloc_part_slab [OF assms _ False] alloc_new_slab [of st k FL Q cid] assms by (cases P) auto
qed

text \<open>The slab of an object on the first page of its slab is found through the page struct.\<close>

lemma page_slab_first:
  assumes live: "live_ok st FL k S" and c: "cache_ok (caches st k)" and ord: "k_order (caches st k) = 0"
    and sid: "sid \<in> S" and a: "a \<in> objects (caches st k) (slabs st sid)"
  shows "page_slab a st = Some sid"
proof -
  from live sid obtain p where p: "objs (slabs st sid) = get_page_addr p" "good_block p (k_order (caches st k))"
    "page.slab (pages (fst (mm st)) p) = Some sid" by (auto simp: live_ok_def slab_at_def)
  from object_page [OF c p(1,2) a] have "get_page_struct a = p" by (simp add: ord block_def)
  with p(3) show ?thesis by (simp add: page_slab_def)
qed

lemma kmem_cache_free_returns:
  assumes inv: "cache_inv st k FL P Q" and ord: "k_order (caches st k) = 0"
    and a: "a \<in> used_objs st k (live st k P Q)"
  shows "\<exists>st' P' Q'. kmem_cache_free cid k a st = Inr st' \<and> cache_inv st' k FL P' Q' \<and>
     used_objs st' k (live st' k P' Q') = used_objs st k (live st k P Q) - {a} \<and>
     caches st' k = caches st k"
proof -
  obtain s h l where mm: "mm st = (s, h, l)" by (cases "mm st")
  from inv have lo: "lists_ok st k P Q" and live: "live_ok st FL k (live st k P Q)" and c: "cache_ok (caches st k)"
    and lk: "lock_free (k_lock (caches st k))" and ok: "mm_ok (s, h, l) FL"
    by (simp_all add: cache_inv_def mm)
  then have h: "hart_ok h" by (simp add: mm_ok_def)
  have lf: "list_family (slab_heads k) (slinks st) (slab_fam k P Q)" using lo by (simp add: lists_ok_def)
  from a obtain sid where sid: "sid \<in> live st k P Q" "a \<in> objects (caches st k) (slabs st sid)"
    by (auto simp: used_objs_def)
  note slab = page_slab_first [OF live c ord sid]
  define sl where "sl = obj_push a (slabs st sid)"
  note pu = push_live [OF live c sid a, folded sl_def]
  show ?thesis
  proof (cases "sid \<in> set P \<union> set Q")
    case False
    then obtain i where "i < NCPU" "sid = cache_cpu (caches st k) i" using sid(1) by (auto simp: live_def)
    then have "kmem_cache_free cid k a st = Inr (upd_slab sid sl st)"
      using lo slab by (simp add: kmem_cache_free_def lists_ok_def sl_def)
    moreover have "lists_ok (upd_slab sid sl st) k P Q" using lo False by (intro lists_ok_upd_slab) simp_all
    then have "cache_inv (upd_slab sid sl st) k FL P Q" using inv pu(2) by (simp add: cache_inv_def)
    ultimately show ?thesis using pu(1) by (intro exI [of _ "upd_slab sid sl st"] exI [of _ P] exI [of _ Q]) simp
  next
    case True
    then have ne: "\<not> list_empty (Slab_node sid) (slinks st)"
      using is_list_linked [OF list_familyD [OF lf slab_heads_mem(1)], of "Slab_node sid"]
        is_list_linked [OF list_familyD [OF lf slab_heads_mem(2)], of "Slab_node sid"] by auto
    let ?lk = "(k_lock (caches st k))\<lparr>lock := 1, lk_cpuid := cid\<rparr>"
    define st1 where "st1 = upd_slab sid sl st"
    define st2 where "st2 = (if sid \<in> set Q
      then st1\<lparr>slinks := list_add_head (Slab_node sid) (Part_head k) (list_del (Slab_node sid) (slinks st1))\<rparr> else st1)"
    have role: "is_slab_partial (slabs st sid) (caches st k) \<longleftrightarrow> sid \<notin> set Q"
      using True lo lists_ok_disjoint [OF lo, of sid] by (auto simp: lists_ok_def)
    have "kmem_cache_free cid k a st = unlock_cache cid k (relocked k (push_off h) ?lk st2)"
      using lo slab ne role lock_cache_free [OF mm lk, of cid]
      by (cases "sid \<in> set Q") (simp_all add: kmem_cache_free_def lists_ok_def Let_def st2_def st1_def sl_def
          relocked_upd_slab relocked_slinks upd_slab_slinks)
    moreover have "mm (relocked k (push_off h) ?lk st2) = (s, push_off h, l)"
      "k_lock (caches (relocked k (push_off h) ?lk st2) k) = ?lk"
      by (simp_all add: relocked_def upd_cache_def st2_def st1_def mm)
    ultimately have run: "kmem_cache_free cid k a st = Inr (relocked k (settled h) (k_lock (caches st k)) st2)"
      using unlock_cache_taken [OF _ h lk] by (simp add: relocked_relocked)
    have "\<exists>P2 Q2. lists_ok st2 k P2 Q2 \<and> live st2 k P2 Q2 = live st k P Q"
    proof (cases "sid \<in> set Q")
      case False
      then have "lists_ok st2 k P Q" using lists_ok_upd_slab [OF lo, of sid sl] pu(3) by (simp add: st2_def st1_def)
      with False show ?thesis by (intro exI [of _ P] exI [of _ Q]) (simp add: st2_def st1_def)
    next
      case True
      have "set (remove1 sid Q) = set Q - {sid}" using lists_ok_distinct [OF lo] by simp
      with True have "live st2 k (sid # P) (remove1 sid Q) = live st k P Q"
        by (auto simp: live_def st2_def st1_def)
      moreover from True lists_ok_to_part [OF lo True pu(3)] have "lists_ok st2 k (sid # P) (remove1 sid Q)"
        by (simp add: st2_def st1_def)
      ultimately show ?thesis by blast
    qed
    then obtain P2 Q2 where PQ: "lists_ok st2 k P2 Q2" "live st2 k P2 Q2 = live st k P Q" by blast
    have used: "used_objs st2 k S = used_objs st1 k S" "live_ok st2 FL k S = live_ok st1 FL k S" for S
      by (simp_all add: st2_def)
    have "cache_inv (relocked k (settled h) (k_lock (caches st k)) st2) k FL P2 Q2"
    proof (rule cache_invI_relocked)
      show "mm_ok (s, settled h, l) FL" using ok by (simp add: mm_ok_def)
      show "mm st2 = (s, h, l)" by (simp add: st2_def st1_def mm)
      show "cache_ok (caches st2 k)" using c by (simp add: st2_def st1_def)
      show "live_ok st2 FL k (live st2 k P2 Q2)" using PQ(2) used pu(2) by (simp add: st1_def)
    qed (rule lk, rule PQ(1))
    moreover have "caches st2 k = caches st k" by (simp add: st2_def st1_def)
    then have "caches (relocked k (settled h) (k_lock (caches st k)) st2) k = caches st k" by simp
    moreover have "used_objs (relocked k (settled h) (k_lock (caches st k)) st2) k
        (live (relocked k (settled h) (k_lock (caches st k)) st2) k P2 Q2) = used_objs st k (live st k P Q) - {a}"
      using pu(1) PQ(2) used by (simp add: st1_def)
    ultimately show ?thesis using run by blast
  qed
qed

subsection \<open>The contract of an object cache\<close>

fun alloc_objs :: "('s \<Rightarrow> ('a \<times> 's) kres) \<Rightarrow> nat \<Rightarrow> 's \<Rightarrow> ('a list \<times> 's) kres" where
  "alloc_objs alloc 0 s = Inr ([], s)"
| "alloc_objs alloc (Suc n) s =
     bindR (alloc s) (\<lambda>(a, s). bindR (alloc_objs alloc n s) (\<lambda>(as, s). Inr (a # as, s)))"

locale object_cache =
  fixes ok :: "'s \<Rightarrow> 'a set \<Rightarrow> bool"
    and alloc :: "'s \<Rightarrow> ('a \<times> 's) kres"
    and free :: "'a \<Rightarrow> 's \<Rightarrow> 's kres"
  assumes alloc_new: "ok s U \<Longrightarrow> alloc s = Inr (a, s') \<Longrightarrow> a \<notin> U \<and> ok s' (insert a U)"
    and free_old: "ok s U \<Longrightarrow> a \<in> U \<Longrightarrow> \<exists>s'. free a s = Inr s' \<and> ok s' (U - {a})"
begin

lemma alloc_objs_distinct:
  assumes "ok s U" and "alloc_objs alloc n s = Inr (as, s')"
  shows "distinct as \<and> set as \<inter> U = {} \<and> ok s' (U \<union> set as)"
  using assms
proof (induction n arbitrary: s U as)
  case (Suc n)
  from Suc.prems(2) obtain a s1 as1 where a: "alloc s = Inr (a, s1)" "alloc_objs alloc n s1 = Inr (as1, s')" "as = a # as1"
    by auto
  from alloc_new [OF Suc.prems(1) a(1)] have ok1: "a \<notin> U" "ok s1 (insert a U)" by auto
  from Suc.IH [OF ok1(2) a(2)] ok1(1) a(3) show ?case by auto
qed simp

text \<open>Every object that was handed out can be given back, and the cache is then as before.\<close>

lemma alloc_free:
  assumes "ok s U" and "alloc s = Inr (a, s')"
  shows "\<exists>s''. free a s' = Inr s'' \<and> ok s'' U"
  using alloc_new [OF assms] free_old [of s' "insert a U" a] by auto

end

definition small_cache :: "int \<Rightarrow> nat \<Rightarrow> slab_state \<Rightarrow> u64 set \<Rightarrow> bool" where
  "small_cache cid k st U \<longleftrightarrow> cid_ok cid \<and> k_order (caches st k) = 0 \<and>
     (\<exists>FL P Q. cache_inv st k FL P Q \<and> used_objs st k (live st k P Q) = U)"

interpretation kmem: object_cache "small_cache cid k" "kmem_cache_alloc cid k" "kmem_cache_free cid k" for cid k
proof (unfold_locales, goal_cases)
  case (1 st U a st')
  then obtain FL P Q where inv: "cid_ok cid" "k_order (caches st k) = 0" "cache_inv st k FL P Q"
    "used_objs st k (live st k P Q) = U" by (auto simp: small_cache_def)
  from kmem_cache_alloc_fresh [OF inv(3,1)] 1(2) inv(4) have "grants st k (live st k P Q) a st'" by auto
  with inv show ?case unfolding grants_def small_cache_def by auto
next
  case (2 st U a)
  then obtain FL P Q where inv: "cid_ok cid" "k_order (caches st k) = 0" "cache_inv st k FL P Q"
    "used_objs st k (live st k P Q) = U" by (auto simp: small_cache_def)
  have "a \<in> used_objs st k (live st k P Q)" using 2(2) inv(4) by simp
  from kmem_cache_free_returns [OF inv(3,2) this, of cid] obtain st' P' Q' where
    st': "kmem_cache_free cid k a st = Inr st'" "cache_inv st' k FL P' Q'"
      "used_objs st' k (live st' k P' Q') = used_objs st k (live st k P Q) - {a}" "caches st' k = caches st k"
    by blast
  have "small_cache cid k st' (U - {a})"
    unfolding small_cache_def using st'(2,3,4) inv by metis
  with st'(1) show ?case by blast
qed

subsection \<open>Creating a cache\<close>

lemma cache_cpu_irrelevant [simp]:
  "cache_ok (c\<lparr>cache_cpu := x\<rparr>) = cache_ok c" "cnt (c\<lparr>cache_cpu := x\<rparr>) = cnt c"
  "objects (c\<lparr>cache_cpu := x\<rparr>) sl = objects c sl" "free_objs (c\<lparr>cache_cpu := x\<rparr>) sl = free_objs c sl"
  "slab_wf (c\<lparr>cache_cpu := x\<rparr>) sl = slab_wf c sl"
proof -
  show c: "cnt (c\<lparr>cache_cpu := x\<rparr>) = cnt c" by (simp add: cnt_def)
  show o: "objects (c\<lparr>cache_cpu := x\<rparr>) sl = objects c sl" by (simp add: objects_def object_def c)
  show f: "free_objs (c\<lparr>cache_cpu := x\<rparr>) sl = free_objs c sl" by (simp add: free_objs_def c)
  show "slab_wf (c\<lparr>cache_cpu := x\<rparr>) sl = slab_wf c sl" by (simp add: slab_wf_def c o f)
qed (simp add: cache_ok_def)

definition with_cpu :: "nat \<Rightarrow> (nat \<Rightarrow> nat) \<Rightarrow> slab_state \<Rightarrow> slab_state" where
  "with_cpu k f st = upd_cache k (\<lambda>c. c\<lparr>cache_cpu := f\<rparr>) st"

lemma with_cpu_simps [simp]:
  "mm (with_cpu k f st) = mm st" "slabs (with_cpu k f st) = slabs st" "slinks (with_cpu k f st) = slinks st"
  "caches (with_cpu k f st) k = (caches st k)\<lparr>cache_cpu := f\<rparr>"
  "live_ok (with_cpu k f st) FL k S \<longleftrightarrow> live_ok st FL k S"
proof -
  show m: "mm (with_cpu k f st) = mm st" and s: "slabs (with_cpu k f st) = slabs st"
    and "slinks (with_cpu k f st) = slinks st"
    and c: "caches (with_cpu k f st) k = (caches st k)\<lparr>cache_cpu := f\<rparr>"
    by (simp_all add: with_cpu_def upd_cache_def)
  have "slab_at (with_cpu k f st) k x \<longleftrightarrow> slab_at st k x" "slab_pages (with_cpu k f st) k x = slab_pages st k x" for x
    using m s c by (simp_all add: slab_at_def slab_pages_def)
  then show "live_ok (with_cpu k f st) FL k S \<longleftrightarrow> live_ok st FL k S" by (simp add: live_ok_def)
qed

text \<open>What \<open>cache_cpu_init\<close> has done after the CPUs in \<open>is\<close>.\<close>

definition cpu_done :: "slab_state \<Rightarrow> nat \<Rightarrow> nat set \<Rightarrow> nat list \<Rightarrow> hart \<Rightarrow> spinlock \<Rightarrow> slab_state \<Rightarrow> (nat \<Rightarrow> nat list) \<Rightarrow> bool" where
  "cpu_done st k S is h l st' FL' \<longleftrightarrow>
     (\<exists>s' f. mm st' = (s', h, l) \<and> mm_ok (s', h, l) FL' \<and> caches st' k = (caches st k)\<lparr>cache_cpu := f\<rparr> \<and>
        (\<forall>i. i \<notin> set is \<longrightarrow> f i = cache_cpu (caches st k) i) \<and>
        live_ok st' FL' k (S \<union> f ` set is) \<and> S \<inter> f ` set is = {} \<and>
        (\<forall>x\<in>S. slabs st' x = slabs st x \<and> list_empty (Slab_node x) (slinks st') = list_empty (Slab_node x) (slinks st)) \<and>
        (\<forall>i\<in>set is. free_objs (caches st k) (slabs st' (f i)) = objects (caches st k) (slabs st' (f i)) \<and>
           list_empty (Slab_node (f i)) (slinks st')) \<and>
        (\<forall>n. (\<forall>x. n \<noteq> Slab_node x) \<longrightarrow>
           l_next (slinks st') n = l_next (slinks st) n \<and> l_prev (slinks st') n = l_prev (slinks st) n))"

lemma cache_cpu_init_done:
  assumes "mm st = (s, h, l)" and "mm_ok (s, h, l) FL" and "settled h = h" and "cache_ok (caches st k)"
    and "live_ok st FL k S" and "distinct is" and "cache_cpu_init cid k is st = Inr st'"
  shows "\<exists>FL'. cpu_done st k S is h l st' FL'"
  using assms
proof (induction "is" arbitrary: st s FL S)
  case Nil
  then have "cpu_done st k S [] h l st' FL" unfolding cpu_done_def
    by (intro exI [of _ s] exI [of _ "cache_cpu (caches st k)"]) simp
  then show ?case by blast
next
  case (Cons i "is")
  show ?case
    using Cons.prems(2,4,1)
  proof (cases rule: slab_create_cases [where cid = cid])
    case oom
    with Cons.prems(7) show ?thesis by simp
  next
    case (new sid p s1 FL1)
    let ?c = "caches st k"
    define sl0 where "sl0 = \<lparr>kc = k, objs = get_page_addr p, inuse = 0, free_list = 1,
      slots = fill_slots (get_page_addr p) (unat (k_size ?c)) (cnt ?c) (\<lambda>_. 0)\<rparr>"
    define st1 where "st1 = st\<lparr>mm := (s1, h, l), slabs := (slabs st)(sid := sl0),
      slinks := INIT_LIST_HEAD (Slab_node sid) (slinks st)\<rparr>"
    define f1 where "f1 = (cache_cpu ?c)(i := sid)"
    define st2 where "st2 = with_cpu k f1 st1"
    have fresh: "slab_wf ?c sl0" "free_objs ?c sl0 = objects ?c sl0"
      using fresh_slab_wf [OF Cons.prems(4), of sl0] by (simp_all add: sl0_def)
    have "slab_create cid k st = Inr (Some sid, st1)" using new(1) Cons.prems(3) by (simp add: st1_def sl0_def)
    with Cons.prems(7) have rest: "cache_cpu_init cid k is st2 = Inr st'"
      by (simp add: st2_def with_cpu_def f1_def upd_cache_def st1_def)
    note nw = live_ok_add [OF Cons.prems(5) new(6,3,4,5), of s1 st1 sl0]
    have S1: "live_ok st2 FL1 k (insert sid S)" "sid \<notin> S"
      using nw new(7) fresh(1) Cons.prems(1) by (simp_all add: st2_def st1_def sl0_def)
    have m2: "mm st2 = (s1, h, l)" "mm_ok (s1, h, l) FL1" "cache_ok (caches st2 k)"
      using new(2) Cons.prems(3,4) by (simp_all add: st2_def st1_def)
    from Cons.IH [OF m2(1,2) Cons.prems(3) m2(3) S1(1) _ rest] Cons.prems(6) obtain FL' where
      "cpu_done st2 k (insert sid S) is h l st' FL'" by auto
    then obtain s' f where ih: "mm st' = (s', h, l)" "mm_ok (s', h, l) FL'"
      "caches st' k = (caches st2 k)\<lparr>cache_cpu := f\<rparr>" "\<forall>j. j \<notin> set is \<longrightarrow> f j = cache_cpu (caches st2 k) j"
      "live_ok st' FL' k (insert sid S \<union> f ` set is)" "insert sid S \<inter> f ` set is = {}"
      "\<forall>x\<in>insert sid S. slabs st' x = slabs st2 x \<and> list_empty (Slab_node x) (slinks st') = list_empty (Slab_node x) (slinks st2)"
      "\<forall>j\<in>set is. free_objs (caches st2 k) (slabs st' (f j)) = objects (caches st2 k) (slabs st' (f j)) \<and>
           list_empty (Slab_node (f j)) (slinks st')"
      "\<forall>n. (\<forall>x. n \<noteq> Slab_node x) \<longrightarrow>
           l_next (slinks st') n = l_next (slinks st2) n \<and> l_prev (slinks st') n = l_prev (slinks st2) n"
      unfolding cpu_done_def by blast
    have c2: "caches st2 k = ?c\<lparr>cache_cpu := f1\<rparr>" by (simp add: st2_def st1_def)
    have fi: "f i = sid" using ih(4) Cons.prems(6) by (simp add: c2 f1_def)
    have img: "f ` set (i # is) = insert sid (f ` set is)" by (simp add: fi)
    have lk2: "slinks st2 = INIT_LIST_HEAD (Slab_node sid) (slinks st)" by (simp add: st2_def st1_def)
    have "cpu_done st k S (i # is) h l st' FL'"
      unfolding cpu_done_def
    proof (intro exI [of _ s'] exI [of _ f] conjI)
      show "caches st' k = ?c\<lparr>cache_cpu := f\<rparr>" using ih(3) by (simp add: c2)
      show "\<forall>j. j \<notin> set (i # is) \<longrightarrow> f j = cache_cpu ?c j" using ih(4) by (simp add: c2 f1_def)
      show "live_ok st' FL' k (S \<union> f ` set (i # is))" using ih(5) unfolding img by simp
      show "S \<inter> f ` set (i # is) = {}" unfolding img using ih(6) S1(2) by auto
      show "\<forall>x\<in>S. slabs st' x = slabs st x \<and> list_empty (Slab_node x) (slinks st') = list_empty (Slab_node x) (slinks st)"
        using ih(7) S1(2) by (auto simp: st2_def st1_def list_empty_def INIT_LIST_HEAD_def)
      have "free_objs ?c (slabs st' sid) = objects ?c (slabs st' sid)" "list_empty (Slab_node sid) (slinks st')"
        using ih(7) fresh(2) by (simp_all add: st2_def st1_def list_empty_def INIT_LIST_HEAD_def)
      then show "\<forall>j\<in>set (i # is). free_objs ?c (slabs st' (f j)) = objects ?c (slabs st' (f j)) \<and>
           list_empty (Slab_node (f j)) (slinks st')"
        using ih(8) fi by (simp add: c2)
      show "\<forall>n. (\<forall>x. n \<noteq> Slab_node x) \<longrightarrow>
           l_next (slinks st') n = l_next (slinks st) n \<and> l_prev (slinks st') n = l_prev (slinks st) n"
        using ih(9) by (auto simp: lk2 INIT_LIST_HEAD_def)
    qed (rule ih(1), rule ih(2))
    then show ?thesis by blast
  qed
qed

text \<open>With two free pages per CPU, the slabs of a cache of order 0 are all created.\<close>

lemma cache_cpu_init_succeeds:
  assumes "mm st = (s, h, l)" and "mm_ok (s, h, l) FL" and "settled h = h" and "cache_ok (caches st k)"
    and "k_order (caches st k) = 0" and "2 * length is \<le> card (free_set FL)"
  shows "\<exists>st'. cache_cpu_init cid k is st = Inr st'"
  using assms
proof (induction "is" arbitrary: st s FL)
  case (Cons i "is")
  show ?case
    using Cons.prems(2,4,1)
  proof (cases rule: slab_create_cases [where cid = cid])
    case oom
    with Cons.prems(5,6) show ?thesis by simp
  next
    case (new sid p s1 FL1)
    have "block p 0 = {p}" by (auto simp: block_def)
    with new(6) Cons.prems(5) have "free_set FL1 = free_set FL - {sid, p}" by simp
    moreover have "card {sid, p} \<le> 2" by (simp add: card_insert_if)
    ultimately have "card (free_set FL) \<le> card (free_set FL1) + 2"
      using diff_card_le_card_Diff [of "{sid, p}" "free_set FL"] by simp
    then have "2 * length is \<le> card (free_set FL1)" using Cons.prems(6) by simp
    then show ?thesis
      using new(1,2) Cons.prems(3-5)
      by (simp, intro Cons.IH [of _ s1 FL1]) (simp_all add: upd_cache_def)
  qed
qed simp

text \<open>
  The state in which \<open>kmem_cache_create\<close> starts to create the slabs: the lock is taken, the cache is
  filled in and its list heads are empty.
\<close>

definition new_cache :: "int \<Rightarrow> string \<Rightarrow> u16 \<Rightarrow> u32 \<Rightarrow> kmem_cache \<Rightarrow> kmem_cache" where
  "new_cache cid name sz fl c =
     (let asz = ucast (next_power_of_2 (ucast sz)); ord = calc_slab_order sz
      in c\<lparr>k_lock := spin_init\<lparr>lock := 1, lk_cpuid := cid\<rparr>, k_name := take CACHE_MAX_NAME_LEN name,
           k_flags := fl, k_size := asz, k_order := ord, count_per_slab := of_nat (2 ^ ord * PGSIZE div unat asz)\<rparr>)"

definition create_begin :: "int \<Rightarrow> nat \<Rightarrow> string \<Rightarrow> u16 \<Rightarrow> u32 \<Rightarrow> slab_state \<Rightarrow> slab_state" where
  "create_begin cid k name sz fl st =
     (case mm st of (s, h, l) \<Rightarrow>
        st\<lparr>mm := (s, push_off h, l), caches := (caches st)(k := new_cache cid name sz fl (caches st k)),
           slinks := INIT_LIST_HEAD (Cache_node k) (INIT_LIST_HEAD (Full_head k) (INIT_LIST_HEAD (Part_head k) (slinks st)))\<rparr>)"

lemma new_cache_geometry:
  assumes "0 < unat sz" and "unat sz \<le> 32768"
  shows "cache_ok (new_cache cid name sz fl c)" and "unat sz \<le> unat (k_size (new_cache cid name sz fl c))"
    and "k_order (new_cache cid name sz fl c) = calc_slab_order sz"
    and "(ucast (next_power_of_2 (ucast sz)) :: u16) \<noteq> 0"
proof -
  define asz :: u16 where "asz = ucast (next_power_of_2 (ucast sz))"
  define ord where "ord = calc_slab_order sz"
  note geo = cache_geometry [OF assms, folded asz_def ord_def]
  have asz0: "asz \<noteq> 0" using geo(2) assms(1) by auto
  have "unat (of_nat (2 ^ ord * PGSIZE div unat asz) :: u16) = 2 ^ ord * PGSIZE div unat asz"
    using geo(7) by (intro unat_of_nat_small) simp
  then show "cache_ok (new_cache cid name sz fl c)"
    using geo assms asz0
    by (simp add: cache_ok_def new_cache_def Let_def asz_def [symmetric] ord_def [symmetric] unat_gt_0)
  show "unat sz \<le> unat (k_size (new_cache cid name sz fl c))"
    and "k_order (new_cache cid name sz fl c) = calc_slab_order sz"
    and "(ucast (next_power_of_2 (ucast sz)) :: u16) \<noteq> 0"
    using geo(2) asz0 by (simp_all add: new_cache_def Let_def asz_def)
qed

lemma create_begin_simps:
  assumes "mm st = (s, h, l)"
  shows "mm (create_begin cid k name sz fl st) = (s, push_off h, l)"
    and "caches (create_begin cid k name sz fl st) k = new_cache cid name sz fl (caches st k)"
    and "n \<in> {Part_head k, Full_head k, Cache_node k} \<Longrightarrow>
           l_next (slinks (create_begin cid k name sz fl st)) n = n \<and> l_prev (slinks (create_begin cid k name sz fl st)) n = n"
    and "l_next (slinks (create_begin cid k name sz fl st)) Cache_list = l_next (slinks st) Cache_list"
  using assms by (auto simp: create_begin_def INIT_LIST_HEAD_def)

lemma kmem_cache_create_run:
  assumes "mm st = (s, h, l)" and "0 < unat sz" "unat sz \<le> 32768"
  shows "kmem_cache_create cid k name sz fl st =
      bindR (cache_cpu_init cid k [0 ..< NCPU] (create_begin cid k name sz fl st)) (\<lambda>st.
           unlock_cache cid k (st\<lparr>slinks := list_add_head (Cache_node k) Cache_list (slinks st)\<rparr>))"
proof -
  have "spin_lock cid (h, spin_init) = Inr (push_off h, spin_init\<lparr>lock := 1, lk_cpuid := cid\<rparr>)"
    by (simp add: spin_lock_free)
  then show ?thesis
    using new_cache_geometry(4) [OF assms(2,3)] assms(1)
    by (simp add: kmem_cache_create_def lock_cache_def upd_cache_def create_begin_def new_cache_def Let_def)
qed

text \<open>The end of \<open>kmem_cache_create\<close>: the finished cache goes on the list of caches and is unlocked.\<close>

lemma create_end:
  assumes d: "cpu_done (create_begin cid k name sz fl st) k {} [0 ..< NCPU] (push_off h) l st2 FL'"
    and mm: "mm st = (s, h, l)" and h: "hart_ok h" and sz: "0 < unat sz" "unat sz \<le> 32768"
    and lst: "l_next (slinks st) Cache_list = Cache_list \<or> (\<exists>j. j \<noteq> k \<and> l_next (slinks st) Cache_list = Cache_node j)"
  defines "st3 \<equiv> st2\<lparr>slinks := list_add_head (Cache_node k) Cache_list (slinks st2)\<rparr>"
  defines "st' \<equiv> relocked k (settled h) spin_init st3"
  shows "unlock_cache cid k st3 = Inr st'" and "cache_inv st' k FL' [] []"
    and "used_objs st' k (live st' k [] []) = {}" and "unat sz \<le> unat (k_size (caches st' k))"
    and "k_order (caches st' k) = calc_slab_order sz"
proof -
  let ?b = "create_begin cid k name sz fl st" and ?c = "new_cache cid name sz fl (caches st k)"
  note geo = new_cache_geometry(1,2,3) [OF sz, where cid = cid and name = name and fl = fl and c = "caches st k"]
  note b = create_begin_simps [OF mm, where cid = cid and k = k and name = name and sz = sz and fl = fl]
  have cpus: "set [0 ..< NCPU] = {..< NCPU}" by auto
  obtain s' f where d: "mm st2 = (s', push_off h, l)" "mm_ok (s', push_off h, l) FL'"
    "caches st2 k = ?c\<lparr>cache_cpu := f\<rparr>" "live_ok st2 FL' k (f ` {..< NCPU})"
    "\<forall>i<NCPU. free_objs ?c (slabs st2 (f i)) = objects ?c (slabs st2 (f i)) \<and> list_empty (Slab_node (f i)) (slinks st2)"
    "\<forall>n. (\<forall>x. n \<noteq> Slab_node x) \<longrightarrow>
       l_next (slinks st2) n = l_next (slinks ?b) n \<and> l_prev (slinks st2) n = l_prev (slinks ?b) n"
    using d unfolding cpu_done_def b(2) cpus by auto
  have cl: "l_next (slinks st2) Cache_list = l_next (slinks st) Cache_list" using d(6) b(4) by simp
  have c3: "caches st3 k = ?c\<lparr>cache_cpu := f\<rparr>" using d(3) by (simp add: st3_def)
  have lk3: "l_next (slinks st3) n = n" "l_prev (slinks st3) n = n" if "n \<in> {Part_head k, Full_head k}" for n
    using that lst cl d(6) b(3) [of n] by (auto simp: st3_def list_add_head_def list_add_between_def Let_def)
  then have "list_family (slab_heads k) (slinks st3) (slab_fam k [] [])"
    by (auto simp: list_family_def slab_heads_def)
  moreover have "\<not> list_empty (Cache_node k) (slinks st3)"
    using lst cl by (auto simp: st3_def list_empty_def list_add_head_def list_add_between_def Let_def)
  moreover have "list_empty (Slab_node x) (slinks st3) \<longleftrightarrow> list_empty (Slab_node x) (slinks st2)" for x
    by (simp add: st3_def list_empty_def list_add_head_def list_add_between_def Let_def)
  ultimately have lo: "lists_ok st3 k [] []" using d(5) by (simp add: lists_ok_def c3)
  have liv: "live st3 k [] [] = f ` {..< NCPU}" by (simp add: live_def c3)
  show "unlock_cache cid k st3 = Inr st'"
    using unlock_cache_taken [of st3 s' h l spin_init k cid] d(1) c3 h
    by (simp add: st3_def st'_def new_cache_def Let_def)
  show "cache_inv st' k FL' [] []"
    unfolding st'_def
  proof (rule cache_invI_relocked)
    show "mm_ok (s', settled h, l) FL'" using d(2) h by (simp add: mm_ok_def)
    show "mm st3 = (s', push_off h, l)" using d(1) by (simp add: st3_def)
    show "cache_ok (caches st3 k)" using geo(1) by (simp add: c3)
    show "live_ok st3 FL' k (live st3 k [] [])" using d(4) unfolding liv by (simp add: st3_def)
  qed (use lo in simp_all)
  have "used_objs st3 k (f ` {..< NCPU}) = {}"
    using d(5) unfolding used_objs_def c3 by (auto simp: st3_def)
  then show "used_objs st' k (live st' k [] []) = {}" by (simp add: st'_def liv)
  show "unat sz \<le> unat (k_size (caches st' k))" "k_order (caches st' k) = calc_slab_order sz"
    using geo(2,3) by (simp_all add: st'_def c3)
qed

text \<open>
  \<open>kmem_cache_create\<close> for any object size up to 32768: if it returns, the cache is well-formed, all
  its objects are free and each is large enough; for objects of up to 512 bytes eight free pages are
  enough for it to return.
\<close>

lemma create_begin_ready:
  assumes "mm_ok (s, h, l) FL" and "mm st = (s, h, l)" and "0 < unat sz" "unat sz \<le> 32768"
  shows "mm (create_begin cid k name sz fl st) = (s, push_off h, l) \<and> mm_ok (s, push_off h, l) FL \<and>
         settled (push_off h) = push_off h \<and> cache_ok (caches (create_begin cid k name sz fl st) k) \<and>
         k_order (caches (create_begin cid k name sz fl st) k) = calc_slab_order sz"
  using assms new_cache_geometry(1,3) [OF assms(3,4)] by (simp_all add: create_begin_simps mm_ok_def push_off_ok)

lemma kmem_cache_create_inv:
  assumes ok: "mm_ok (mm st) FL" and sz: "0 < unat sz" "unat sz \<le> 32768"
    and lst: "l_next (slinks st) Cache_list = Cache_list \<or> (\<exists>j. j \<noteq> k \<and> l_next (slinks st) Cache_list = Cache_node j)"
    and run: "kmem_cache_create cid k name sz fl st = Inr st'"
  shows "(\<exists>FL'. cache_inv st' k FL' [] []) \<and> used_objs st' k (live st' k [] []) = {} \<and>
         unat sz \<le> unat (k_size (caches st' k)) \<and> k_order (caches st' k) = calc_slab_order sz"
proof -
  obtain s h l where mm: "mm st = (s, h, l)" by (cases "mm st")
  have h: "hart_ok h" using ok mm by (simp add: mm_ok_def)
  from run obtain st2 where
    st2: "cache_cpu_init cid k [0 ..< NCPU] (create_begin cid k name sz fl st) = Inr st2"
      "unlock_cache cid k (st2\<lparr>slinks := list_add_head (Cache_node k) Cache_list (slinks st2)\<rparr>) = Inr st'"
    unfolding kmem_cache_create_run [OF mm sz] by auto
  from create_begin_ready [OF _ mm sz, of FL cid k name fl] ok mm
  have b: "mm (create_begin cid k name sz fl st) = (s, push_off h, l)" "mm_ok (s, push_off h, l) FL"
    "settled (push_off h) = push_off h" "cache_ok (caches (create_begin cid k name sz fl st) k)" by auto
  have "live_ok (create_begin cid k name sz fl st) FL k {}" by (simp add: live_ok_def)
  then obtain FL' where d: "cpu_done (create_begin cid k name sz fl st) k {} [0 ..< NCPU] (push_off h) l st2 FL'"
    using cache_cpu_init_done [OF b(1-4) _ _ st2(1)] ok mm by auto
  from create_end [OF d mm h sz lst] st2(2) show ?thesis by auto
qed

lemma kmem_cache_create_succeeds:
  assumes ok: "mm_ok (mm st) FL" and sz: "0 < unat sz" "unat sz \<le> 512" and pgs: "2 * NCPU \<le> card (free_set FL)"
    and lst: "l_next (slinks st) Cache_list = Cache_list \<or> (\<exists>j. j \<noteq> k \<and> l_next (slinks st) Cache_list = Cache_node j)"
  shows "\<exists>st'. kmem_cache_create cid k name sz fl st = Inr st'"
proof -
  obtain s h l where mm: "mm st = (s, h, l)" by (cases "mm st")
  have h: "hart_ok h" using ok mm by (simp add: mm_ok_def)
  have sz': "unat sz \<le> 32768" using sz(2) by simp
  have ord: "calc_slab_order sz = 0" using sz by (simp add: calc_slab_order_def slab_order_loop.simps)
  from create_begin_ready [OF _ mm sz(1) sz', of FL cid k name fl] ok mm
  have b: "mm (create_begin cid k name sz fl st) = (s, push_off h, l)" "mm_ok (s, push_off h, l) FL"
    "settled (push_off h) = push_off h" "cache_ok (caches (create_begin cid k name sz fl st) k)"
    "k_order (caches (create_begin cid k name sz fl st) k) = calc_slab_order sz" by auto
  have "2 * length [0 ..< NCPU] \<le> card (free_set FL)" using pgs by simp
  then obtain st2 where st2: "cache_cpu_init cid k [0 ..< NCPU] (create_begin cid k name sz fl st) = Inr st2"
    using cache_cpu_init_succeeds [OF b(1-4), of "[0 ..< NCPU]" cid] b(5) ord by auto
  have "live_ok (create_begin cid k name sz fl st) FL k {}" by (simp add: live_ok_def)
  then obtain FL' where d: "cpu_done (create_begin cid k name sz fl st) k {} [0 ..< NCPU] (push_off h) l st2 FL'"
    using cache_cpu_init_done [OF b(1-4) _ _ st2] ok mm by auto
  from create_end(1) [OF d mm h sz(1) sz' lst] st2 show ?thesis
    unfolding kmem_cache_create_run [OF mm sz(1) sz'] by auto
qed

subsection \<open>kmalloc\<close>

lemma unat_word_of_int_pos:
  assumes "0 \<le> n" and "n < 2 ^ 32"
  shows "unat (word_of_int n :: u32) = nat n"
proof -
  have "(word_of_int n :: u32) = of_nat (nat n)" using assms(1) by simp
  moreover have "nat n < 2 ^ LENGTH(32)" using assms by simp
  ultimately show ?thesis by (simp only: unat_of_nat_small)
qed

text \<open>A request of 9 to 8192 bytes goes to the cache of the smallest power of two that holds it.\<close>

lemma kmalloc_picks:
  assumes "9 \<le> n" and "n \<le> 8192"
  shows "kmalloc cid n fl st = kmem_cache_alloc cid (clog2 (nat n) - 4) st"
    and "nat n \<le> 16 * 2 ^ (clog2 (nat n) - 4)" and "clog2 (nat n) - 4 < 10"
proof -
  have u: "unat (word_of_int n :: u32) = nat n" using assms by (intro unat_word_of_int_pos) simp_all
  have pos: "0 < (word_of_int n :: u32)" using u assms by (simp add: word_gt_0 unat_gt_0 [symmetric])
  have c: "unat (calculate_order (word_of_int n)) = clog2 (nat n)"
    using calculate_order_clog2 [OF pos] u by simp
  have lo: "4 \<le> clog2 (nat n)"
  proof (rule ccontr)
    assume "\<not> 4 \<le> clog2 (nat n)"
    then have "(2::nat) ^ clog2 (nat n) \<le> 2 ^ 3" by (intro power_increasing) simp_all
    then have "(2::nat) ^ clog2 (nat n) \<le> 8" by simp
    moreover have "9 \<le> nat n" using assms(1) by linarith
    moreover have "nat n \<le> 2 ^ clog2 (nat n)" by (rule le_clog2)
    ultimately show False by linarith
  qed
  have hi: "clog2 (nat n) \<le> 13" using assms by (intro clog2_le) simp
  then show "clog2 (nat n) - 4 < 10" by simp
  have "unat (calculate_order (word_of_int n) - 4) = clog2 (nat n) - 4"
    using c lo by (subst unat_sub) (simp_all add: word_le_nat_alt)
  moreover have "clog2 (nat n) - 4 < 10" using hi by simp
  ultimately show "kmalloc cid n fl st = kmem_cache_alloc cid (clog2 (nat n) - 4) st"
    using assms by (simp add: kmalloc_def)
  have "(2::nat) ^ clog2 (nat n) = 16 * 2 ^ (clog2 (nat n) - 4)"
    using power_add [of "2::nat" 4 "clog2 (nat n) - 4"] lo by simp
  with le_clog2 [of "nat n"] show "nat n \<le> 16 * 2 ^ (clog2 (nat n) - 4)" by simp
qed

text \<open>For 1 to 8 bytes the subtraction of 4 wraps around and the cache table is read out of bounds.\<close>

lemma kmalloc_small_faults:
  assumes "1 \<le> n" and "n \<le> 8"
  shows "kmalloc cid n fl st = Inl (Fault ''kmalloc_caches'')"
proof -
  have u: "unat (word_of_int n :: u32) = nat n" using assms by (intro unat_word_of_int_pos) simp_all
  have pos: "0 < (word_of_int n :: u32)" using u assms by (simp add: word_gt_0 unat_gt_0 [symmetric])
  have "clog2 (nat n) \<le> 3" using assms by (intro clog2_le) simp
  then have c: "unat (calculate_order (word_of_int n)) \<le> 3" using calculate_order_clog2 [OF pos] u by simp
  define w where "w = calculate_order (word_of_int n)"
  have "w = 0 \<or> w = 1 \<or> w = 2 \<or> w = 3"
  proof -
    have "unat w = 0 \<or> unat w = 1 \<or> unat w = 2 \<or> unat w = 3" using c unfolding w_def by linarith
    then show ?thesis by (simp add: word_unat_eq_iff)
  qed
  then have "10 \<le> unat (w - 4)" by (auto simp: unsigned_minus_1_eq_mask mask_eq_exp_minus_1)
  then show ?thesis using assms by (simp add: kmalloc_def w_def)
qed

subsection \<open>Properties\<close>

text \<open>While no object of a cache is in use, the CPU slabs have free objects, so an allocation succeeds.\<close>

lemma unused_cpu_slab:
  assumes inv: "cache_inv st k FL P Q" and none: "used_objs st k (live st k P Q) = {}" and cid: "cid_ok cid"
  shows "is_slab_partial (slabs st (cache_cpu (caches st k) (nat cid))) (caches st k)"
proof -
  let ?sl = "slabs st (cache_cpu (caches st k) (nat cid))" and ?c = "caches st k"
  have mem: "cache_cpu ?c (nat cid) \<in> live st k P Q" using cid by (auto simp: live_def cid_ok_def)
  then have wf: "slab_wf ?c ?sl" and c: "cache_ok ?c"
    using inv by (auto simp: cache_inv_def live_ok_def slab_at_def)
  have "objects ?c ?sl \<subseteq> free_objs ?c ?sl" using none mem unfolding used_objs_def by blast
  then have "card (objects ?c ?sl) \<le> card (free_objs ?c ?sl)" by (intro card_mono) (simp_all add: free_objs_def)
  then have "cnt ?c \<le> cnt ?c - unat (inuse ?sl)" using card_objects [OF c] card_free_objs [OF wf] by simp
  moreover have "1 < cnt ?c" using c by (simp add: cache_ok_def cnt_def)
  ultimately have "unat (inuse ?sl) < cnt ?c" by linarith
  then show ?thesis by (simp add: is_slab_partial_def cnt_def word_less_nat_alt)
qed

text \<open>A cache of 64-byte objects created from the booted page allocator.\<close>

lemma created:
  obtains st FL where "cache_inv st 0 FL [] []" and "used_objs st 0 (live st 0 [] []) = {}"
    and "k_order (caches st 0) = 0"
proof -
  obtain s FL where s: "mm_ok (s, boot_hart, spin_init) FL" "free_set FL = {1024 ..< 31744}" by (rule booted)
  define st0 where "st0 = \<lparr>mm = (s, boot_hart, spin_init), slabs = undefined, caches = undefined,
    slinks = \<lparr>l_prev = id, l_next = id\<rparr>\<rparr>"
  have ok: "mm_ok (mm st0) FL" and lst: "l_next (slinks st0) Cache_list = Cache_list"
    and pgs: "2 * NCPU \<le> card (free_set FL)"
    using s by (simp_all add: st0_def)
  obtain st where run: "kmem_cache_create 0 0 ''test'' 64 0 st0 = Inr st"
    using kmem_cache_create_succeeds [OF ok _ _ pgs, of 64 0 0 "''test''" 0] lst by auto
  have "calc_slab_order 64 = 0" by (simp add: calc_slab_order_def slab_order_loop.simps)
  with kmem_cache_create_inv [OF ok _ _ _ run] lst that show ?thesis by auto
qed





text \<open>any number of successful allocations in a row return pairwise different objects, none of
  which was in use before.\<close>

theorem kmem_cache_objects_distinct:
  assumes "small_cache cid k st U" and "alloc_objs (kmem_cache_alloc cid k) n st = Inr (as, st')"
  shows "distinct as \<and> set as \<inter> U = {} \<and> small_cache cid k st' (U \<union> set as)"
  using assms by (rule kmem.alloc_objs_distinct)

theorem kmem_cache_objects_distinct_witness:
  "\<exists>st a st'. alloc_objs (kmem_cache_alloc 2 0) 1 st = Inr ([a], st') \<and> small_cache 2 0 st' {a}"
proof -
  obtain st FL where st: "cache_inv st 0 FL [] []" "used_objs st 0 (live st 0 [] []) = {}" "k_order (caches st 0) = 0"
    by (rule created)
  have cid: "cid_ok 2" by (simp add: cid_ok_def)
  obtain a st' where "kmem_cache_alloc 2 0 st = Inr (a, st')"
    using alloc_cpu_slab [OF st(1) cid unused_cpu_slab [OF st(1,2) cid]] by blast
  then have a: "alloc_objs (kmem_cache_alloc 2 0) 1 st = Inr ([a], st')" by simp
  have ok: "small_cache 2 0 st {}" unfolding small_cache_def using st cid by blast
  from kmem_cache_objects_distinct [OF ok a] a show ?thesis by auto
qed



text \<open>C40: a request of 9 to 8192 bytes is served by the cache of the smallest power of two that is
  large enough, and a request of 1 to 8 bytes reads the table of caches out of bounds.\<close>

theorem kmalloc_cache_choice:
  assumes "1 \<le> n" and "n \<le> 8192"
  shows "if n \<le> 8 then kmalloc cid n fl st = Inl (Fault ''kmalloc_caches'')
         else kmalloc cid n fl st = kmem_cache_alloc cid (clog2 (nat n) - 4) st \<and>
              nat n \<le> 16 * 2 ^ (clog2 (nat n) - 4) \<and> clog2 (nat n) - 4 < 10"
  using kmalloc_picks(1) [of n cid fl st] kmalloc_picks(2,3) [of n] kmalloc_small_faults [of n cid fl st] assms
  by simp

theorem kmalloc_cache_choice_witness:
  "\<forall>st. kmalloc 0 8 0 st = Inl (Fault ''kmalloc_caches'') \<and> kmalloc 0 100 0 st = kmem_cache_alloc 0 3 st"
proof
  fix st
  have "clog2 100 = 7" by (rule clog2_eqI) simp_all
  then show "kmalloc 0 8 0 st = Inl (Fault ''kmalloc_caches'') \<and> kmalloc 0 100 0 st = kmem_cache_alloc 0 3 st"
    using kmalloc_cache_choice [of 8 0 0 st] kmalloc_cache_choice [of 100 0 0 st] by simp
qed

end
