(* ===== verification/Sched.thy ===== *)
theory Sched
  imports Klist Spinlock
begin

text \<open>
  kernel/sched.c, the thread part of kernel/proc.c and include/core/proc.h, and the blocking
  primitives of lib/semaphore.c, lib/mutex.c and lib/sleeplock.c.

  The state has one record per CPU, thread and semaphore and one link heap for all the queues a
  thread can be on (a run or exit queue of a CPU, the waiters of a semaphore). Every lock is
  taken and released with the functions of \<open>Spinlock\<close>; a lock that is taken makes the operation
  \<open>Spins\<close>, which in the step relation below means that it cannot happen yet.

  \<open>swtch\<close> is modelled by what runs next: a thread that calls \<open>sched\<close> records where it will go on
  (\<open>ctx\<close>) and its CPU continues in \<open>scheduler\<close> behind the call of \<open>swtch\<close>; a CPU that picks a
  thread continues that thread's record. Between putting itself on a queue and calling \<open>sched\<close> a
  thread holds its own lock; the mode \<open>Descend\<close> makes this window visible to other CPUs.
\<close>

subsection \<open>State\<close>

abbreviation (input) MUTEX_LOCK :: int where "MUTEX_LOCK \<equiv> 1"
abbreviation (input) MUTEX_UNLOCK :: int where "MUTEX_UNLOCK \<equiv> 0"
abbreviation (input) NO_CPU_AFF :: int where "NO_CPU_AFF \<equiv> - 1"

datatype task_state = UNUSED | USED | SLEEPING | RUNNABLE | RUNNING | ZOMBIE | IDLE

text \<open>
  Where a switched-out thread goes on, with the \<open>intena\<close> that \<open>sched\<close> saved on its stack. A thread in
  \<open>sem_wait\<close> was called by \<open>mutex_lock\<close> of a mutex, or not.
\<close>

datatype resume_point =
    Thread_entry
  | Forkret
  | In_yield bool
  | In_sem_wait bool "nat option"
  | In_quit bool

record thread_info =
  t_lock :: spinlock
  state :: task_state
  pid :: int
  ticks :: u64
  cpu_affinity :: int
  ctx :: resume_point

datatype cause = Sleep "nat option" | Yield | Quit

datatype mode = Sched_loop | Exec nat | Descend nat cause

record cpu =
  c_hart :: hart
  c_thread :: "nat option"
  c_mode :: mode

datatype tnode = Th nat | Run_head nat | Out_head nat | Wait_head nat

record semaphore =
  sem_value :: int
  s_lock :: spinlock
  waiters :: "tnode fifo"

record mutex =
  locked :: int
  m_thread :: "nat option"

record sys =
  cpus :: "nat \<Rightarrow> cpu"
  threads :: "nat \<Rightarrow> thread_info"
  sems :: "nat \<Rightarrow> semaphore"
  mutexes :: "nat \<Rightarrow> mutex"
  nodes :: "tnode lheap"
  rq_lock :: "nat \<Rightarrow> spinlock"
  load_lock :: spinlock
  load_cpu_id :: int
  pid_lock :: spinlock
  pids :: int

datatype lock_id = L_thread nat | L_sem nat | L_rq nat | L_load | L_pid

definition upd_thread :: "nat \<Rightarrow> (thread_info \<Rightarrow> thread_info) \<Rightarrow> sys \<Rightarrow> sys" where
  "upd_thread t f st = st\<lparr>threads := (threads st)(t := f (threads st t))\<rparr>"

definition upd_cpu :: "nat \<Rightarrow> (cpu \<Rightarrow> cpu) \<Rightarrow> sys \<Rightarrow> sys" where
  "upd_cpu c f st = st\<lparr>cpus := (cpus st)(c := f (cpus st c))\<rparr>"

definition upd_mutex :: "nat \<Rightarrow> (mutex \<Rightarrow> mutex) \<Rightarrow> sys \<Rightarrow> sys" where
  "upd_mutex m f st = st\<lparr>mutexes := (mutexes st)(m := f (mutexes st m))\<rparr>"

definition upd_sem :: "nat \<Rightarrow> (semaphore \<Rightarrow> semaphore) \<Rightarrow> sys \<Rightarrow> sys" where
  "upd_sem s f st = st\<lparr>sems := (sems st)(s := f (sems st s))\<rparr>"

fun get_lock :: "lock_id \<Rightarrow> sys \<Rightarrow> spinlock" where
  "get_lock (L_thread t) st = t_lock (threads st t)"
| "get_lock (L_sem s) st = s_lock (sems st s)"
| "get_lock (L_rq c) st = rq_lock st c"
| "get_lock L_load st = load_lock st"
| "get_lock L_pid st = pid_lock st"

fun put_lock :: "lock_id \<Rightarrow> spinlock \<Rightarrow> sys \<Rightarrow> sys" where
  "put_lock (L_thread t) l st = upd_thread t (\<lambda>x. x\<lparr>t_lock := l\<rparr>) st"
| "put_lock (L_sem s) l st = upd_sem s (\<lambda>x. x\<lparr>s_lock := l\<rparr>) st"
| "put_lock (L_rq c) l st = st\<lparr>rq_lock := (rq_lock st)(c := l)\<rparr>"
| "put_lock L_load l st = st\<lparr>load_lock := l\<rparr>"
| "put_lock L_pid l st = st\<lparr>pid_lock := l\<rparr>"

definition put_hart :: "nat \<Rightarrow> hart \<Rightarrow> sys \<Rightarrow> sys" where
  "put_hart c h = upd_cpu c (\<lambda>x. x\<lparr>c_hart := h\<rparr>)"

definition acquire :: "nat \<Rightarrow> lock_id \<Rightarrow> sys \<Rightarrow> sys kres" where
  "acquire c lid st =
     bindR (spin_lock (int c) (c_hart (cpus st c), get_lock lid st)) (\<lambda>(h, l).
       Inr (put_lock lid l (put_hart c h st)))"

definition release :: "nat \<Rightarrow> lock_id \<Rightarrow> sys \<Rightarrow> sys kres" where
  "release c lid st =
     bindR (spin_unlock (int c) (c_hart (cpus st c), get_lock lid st)) (\<lambda>(h, l).
       Inr (put_lock lid l (put_hart c h st)))"

subsection \<open>Scheduling\<close>

text \<open>\<open>myproc\<close> reads \<open>cpu->thread\<close> between \<open>push_off\<close> and \<open>pop_off\<close>; a NULL thread is a fault when used.\<close>

definition myproc :: "nat \<Rightarrow> sys \<Rightarrow> (nat option \<times> sys) kres" where
  "myproc c st = bindR (pop_off (push_off (c_hart (cpus st c)))) (\<lambda>h. Inr (c_thread (cpus st c), put_hart c h st))"

definition this_thread :: "nat \<Rightarrow> sys \<Rightarrow> (nat \<times> sys) kres" where
  "this_thread c st =
     bindR (myproc c st) (\<lambda>(p, st). case p of None \<Rightarrow> Inl (Fault ''myproc() is NULL'') | Some t \<Rightarrow> Inr (t, st))"

definition thread_entries :: "tnode list \<Rightarrow> nat list option" where
  "thread_entries ns = those (List.map (\<lambda>n. case n of Th t \<Rightarrow> Some t | _ \<Rightarrow> None) ns)"

definition pick_next_task :: "nat \<Rightarrow> sys \<Rightarrow> nat option kres" where
  "pick_next_task c st =
     (if list_empty (Run_head c) (nodes st) then Inr None
      else case list_for_each_reverse (Run_head c) (nodes st) of
          None \<Rightarrow> Inl Spins
        | Some ns \<Rightarrow>
            (case thread_entries ns of
               None \<Rightarrow> Inl (Fault ''list_entry'')
             | Some ts \<Rightarrow> Inr (find (\<lambda>t. state (threads st t) = RUNNABLE) ts)))"

definition add_runnable_task :: "nat \<Rightarrow> nat \<Rightarrow> sys \<Rightarrow> sys kres" where
  "add_runnable_task c t st =
     (let aff = cpu_affinity (threads st t) in
      bindR (acquire c L_load st) (\<lambda>st.
      let st = (if aff = NO_CPU_AFF then st\<lparr>load_cpu_id := (load_cpu_id st + 1) mod int NCPU\<rparr> else st);
          target = nat (if aff = NO_CPU_AFF then load_cpu_id st else aff)
      in bindR (release c L_load st) (\<lambda>st.
         bindR (acquire c (L_rq target) st) (\<lambda>st.
         release c (L_rq target)
           (st\<lparr>nodes := list_add_head (Th t) (Run_head target) (nodes st)\<rparr>)))))"

text \<open>
  \<open>sched\<close> up to the call of \<open>swtch\<close>, and then the scheduler of this CPU behind its own call of
  \<open>swtch\<close>: unlock the thread that was running and forget it.
\<close>

definition sched :: "nat \<Rightarrow> (bool \<Rightarrow> resume_point) \<Rightarrow> sys \<Rightarrow> sys kres" where
  "sched c back st =
     bindR (this_thread c st) (\<lambda>(t, st).
     bindR (assertR (holding (int c) (t_lock (threads st t))) ''sched: not held p->lock'') (\<lambda>_.
     bindR (assertR (state (threads st t) \<noteq> RUNNING) ''sched: is running'') (\<lambda>_.
     bindR (assertR (\<not> intr_get (c_hart (cpus st c))) ''sched interruptible'') (\<lambda>_.
     let st = upd_thread t (\<lambda>x. x\<lparr>ctx := back (intena (c_hart (cpus st c)))\<rparr>) st
     in bindR (release c (L_thread t) st) (\<lambda>st.
        Inr (upd_cpu c (\<lambda>x. x\<lparr>c_thread := None, c_mode := Sched_loop\<rparr>) st))))))"

text \<open>The end of \<open>mutex_lock\<close>, behind its \<open>sem_wait\<close>.\<close>

definition mutex_taken :: "nat \<Rightarrow> nat \<Rightarrow> sys \<Rightarrow> sys kres" where
  "mutex_taken c m st =
     bindR (myproc c (upd_mutex m (\<lambda>x. x\<lparr>locked := MUTEX_LOCK\<rparr>) st)) (\<lambda>(p, st).
       Inr (upd_mutex m (\<lambda>x. x\<lparr>m_thread := p\<rparr>) st))"

text \<open>A thread that is switched to: the rest of \<open>sched\<close> and of its callers, or the first entry.\<close>

definition resume_thread :: "nat \<Rightarrow> nat \<Rightarrow> sys \<Rightarrow> sys kres" where
  "resume_thread c t st =
     bindR (release c (L_thread t) st) (\<lambda>st.
       case ctx (threads st t) of
         Thread_entry \<Rightarrow> Inr (put_hart c (intr_on (c_hart (cpus st c))) st)
       | Forkret \<Rightarrow> Inr st
       | In_yield i \<Rightarrow> Inr (put_hart c ((c_hart (cpus st c))\<lparr>intena := i\<rparr>) st)
       | In_quit i \<Rightarrow> Inr (put_hart c ((c_hart (cpus st c))\<lparr>intena := i\<rparr>) st)
       | In_sem_wait i k \<Rightarrow>
           bindR (pop_off ((c_hart (cpus st c))\<lparr>intena := i\<rparr>)) (\<lambda>h.
             case k of None \<Rightarrow> Inr (put_hart c h st) | Some m \<Rightarrow> mutex_taken c m (put_hart c h st)))"

text \<open>One round of the loop in \<open>scheduler\<close>, up to the moment the picked thread runs on its own.\<close>

definition scheduler :: "nat \<Rightarrow> sys \<Rightarrow> sys kres" where
  "scheduler c st =
     bindR (acquire c (L_rq c) st) (\<lambda>st.
     bindR (pick_next_task c st) (\<lambda>next.
       case next of
         Some t \<Rightarrow>
           bindR (acquire c (L_thread t) st) (\<lambda>st.
           let st = st\<lparr>nodes := list_del (Th t) (nodes st)\<rparr>
           in bindR (release c (L_rq c) st) (\<lambda>st.
           let st = upd_thread t (\<lambda>x. x\<lparr>state := RUNNING\<rparr>) st;
               st = upd_cpu c (\<lambda>x. x\<lparr>c_thread := Some t, c_mode := Exec t\<rparr>) st
           in resume_thread c t st))
       | None \<Rightarrow>
           bindR (release c (L_rq c) st) (\<lambda>st. Inr (put_hart c (intr_on (c_hart (cpus st c))) st))))"

definition wakeup_process :: "nat \<Rightarrow> nat \<Rightarrow> sys \<Rightarrow> sys kres" where
  "wakeup_process c t st =
     bindR (acquire c (L_thread t) st) (\<lambda>st.
     let st = upd_thread t (\<lambda>x. x\<lparr>state := RUNNABLE\<rparr>) st
     in bindR (add_runnable_task c t st) (\<lambda>st. release c (L_thread t) st))"

text \<open>\<open>yield\<close> in two parts, before and from the call of \<open>sched\<close>; \<open>timer_intr\<close> gets there through the tick count.\<close>

definition yield :: "nat \<Rightarrow> sys \<Rightarrow> sys kres" where
  "yield c st =
     bindR (this_thread c st) (\<lambda>(t, st).
     bindR (acquire c (L_thread t) st) (\<lambda>st.
     let st = upd_thread t (\<lambda>x. x\<lparr>ticks := 10, state := RUNNABLE\<rparr>) st
     in bindR (add_runnable_task c t st) (\<lambda>st.
        Inr (upd_cpu c (\<lambda>x. x\<lparr>c_mode := Descend t Yield\<rparr>) st))))"

definition timer_tick :: "nat \<Rightarrow> sys \<Rightarrow> sys kres" where
  "timer_tick c st =
     bindR (myproc c st) (\<lambda>(p, st). case p of
         None \<Rightarrow> Inr st
       | Some t \<Rightarrow>
           (let st = upd_thread t (\<lambda>x. x\<lparr>ticks := ticks x - 1\<rparr>) st
            in if ticks (threads st t) = 0 then yield c st else Inr st))"

text \<open>\<open>quit\<close>, before the call of \<open>sched\<close>, and \<open>thread_exit\<close>.\<close>

definition quit :: "nat \<Rightarrow> sys \<Rightarrow> sys kres" where
  "quit c st =
     (case c_thread (cpus st c) of
        None \<Rightarrow> Inl (Fault ''cpu->thread is NULL'')
      | Some t \<Rightarrow>
          bindR (acquire c (L_thread t) st) (\<lambda>st.
          let st = upd_thread t (\<lambda>x. x\<lparr>state := ZOMBIE\<rparr>) st;
              st = st\<lparr>nodes := list_add_tail (Th t) (Out_head c) (nodes st)\<rparr>
          in Inr (upd_cpu c (\<lambda>x. x\<lparr>c_mode := Descend t Quit\<rparr>) st)))"

definition thread_exit :: "nat \<Rightarrow> sys \<Rightarrow> sys kres" where
  "thread_exit c st =
     bindR (this_thread c st) (\<lambda>(t, st). quit c (put_hart c (intr_off (c_hart (cpus st c))) st))"

subsection \<open>Semaphores\<close>

definition sem_init :: "nat \<Rightarrow> int \<Rightarrow> sys \<Rightarrow> sys" where
  "sem_init s v st =
     (case fifo_init (waiters (sems st s), nodes st) of (f, lk) \<Rightarrow>
        (upd_sem s (\<lambda>x. x\<lparr>sem_value := v, s_lock := spin_init, waiters := f\<rparr>) st)\<lparr>nodes := lk\<rparr>)"

text \<open>\<open>sem_wait\<close> up to the point where the semaphore lock is released; \<open>k\<close> is the calling \<open>mutex_lock\<close>, if any.\<close>

definition sem_wait_for :: "nat option \<Rightarrow> nat \<Rightarrow> nat \<Rightarrow> sys \<Rightarrow> sys kres" where
  "sem_wait_for k c s st =
     bindR (acquire c (L_sem s) st) (\<lambda>st.
     let st = upd_sem s (\<lambda>x. x\<lparr>sem_value := atomic_dec (sem_value x)\<rparr>) st
     in if sem_value (sems st s) < 0 then
          bindR (this_thread c st) (\<lambda>(t, st).
          bindR (acquire c (L_thread t) st) (\<lambda>st.
          case fifo_push (Th t) (waiters (sems st s), nodes st) of (f, lk) \<Rightarrow>
          let st = (upd_sem s (\<lambda>x. x\<lparr>waiters := f\<rparr>) st)\<lparr>nodes := lk\<rparr>
          in bindR (release c (L_sem s) st) (\<lambda>st.
             Inr (upd_cpu c (\<lambda>x. x\<lparr>c_mode := Descend t (Sleep k)\<rparr>) st))))
        else release c (L_sem s) st)"

definition sem_wait :: "nat \<Rightarrow> nat \<Rightarrow> sys \<Rightarrow> sys kres" where
  "sem_wait = sem_wait_for None"

definition sem_signal :: "nat \<Rightarrow> nat \<Rightarrow> sys \<Rightarrow> sys kres" where
  "sem_signal c s st =
     bindR (acquire c (L_sem s) st) (\<lambda>st.
     let st = upd_sem s (\<lambda>x. x\<lparr>sem_value := atomic_inc (sem_value x)\<rparr>) st
     in if sem_value (sems st s) \<le> 0 then
          (case fifo_pop (waiters (sems st s), nodes st) of
             (Some (Th t), f, lk) \<Rightarrow>
               bindR (wakeup_process c t ((upd_sem s (\<lambda>x. x\<lparr>waiters := f\<rparr>) st)\<lparr>nodes := lk\<rparr>)) (release c (L_sem s))
           | (Some _, _, _) \<Rightarrow> Inl (Fault ''list_entry'')
           | (None, _, _) \<Rightarrow> Inl (Panic ''sem_signal: queue may have a race condition''))
        else release c (L_sem s) st)"

text \<open>The rest of \<open>sem_wait\<close>, \<open>yield\<close> and \<open>quit\<close>: the way down into the scheduler.\<close>

definition descend :: "nat \<Rightarrow> sys \<Rightarrow> sys kres" where
  "descend c st =
     (case c_mode (cpus st c) of
        Descend t (Sleep k) \<Rightarrow>
          (let st = upd_thread t (\<lambda>x. x\<lparr>state := SLEEPING\<rparr>) st;
               st = put_hart c (push_off (c_hart (cpus st c))) st
           in sched c (\<lambda>i. In_sem_wait i k) st)
      | Descend t Yield \<Rightarrow> sched c In_yield st
      | Descend t Quit \<Rightarrow> sched c In_quit st
      | _ \<Rightarrow> Inl (Fault ''descend''))"

subsection \<open>Mutexes and sleep locks\<close>

text \<open>The semaphore of the mutex \<open>m\<close> is the semaphore \<open>m\<close>.\<close>

definition mutex_init :: "nat \<Rightarrow> sys \<Rightarrow> sys" where
  "mutex_init m st = upd_mutex m (\<lambda>x. x\<lparr>locked := MUTEX_LOCK, m_thread := None\<rparr>) (sem_init m MUTEX_LOCK st)"

definition mutex_init_zero :: "nat \<Rightarrow> sys \<Rightarrow> sys" where
  "mutex_init_zero m st = upd_mutex m (\<lambda>x. x\<lparr>locked := MUTEX_UNLOCK, m_thread := None\<rparr>) (sem_init m MUTEX_UNLOCK st)"

text \<open>A thread that must wait does the rest of \<open>mutex_lock\<close> when it is switched to again.\<close>

definition mutex_lock :: "nat \<Rightarrow> nat \<Rightarrow> sys \<Rightarrow> sys kres" where
  "mutex_lock c m st =
     bindR (sem_wait_for (Some m) c m st) (\<lambda>st.
       case c_mode (cpus st c) of Descend _ _ \<Rightarrow> Inr st | _ \<Rightarrow> mutex_taken c m st)"

definition mutex_unlock :: "nat \<Rightarrow> nat \<Rightarrow> sys \<Rightarrow> sys kres" where
  "mutex_unlock c m st = sem_signal c m (upd_mutex m (\<lambda>x. x\<lparr>locked := MUTEX_UNLOCK, m_thread := None\<rparr>) st)"

definition mutex_is_hold :: "nat \<Rightarrow> nat \<Rightarrow> sys \<Rightarrow> (bool \<times> sys) kres" where
  "mutex_is_hold c m st =
     bindR (acquire c (L_sem m) st) (\<lambda>st.
     bindR (if locked (mutexes st m) \<noteq> 0
            then bindR (myproc c st) (\<lambda>(p, st). Inr (m_thread (mutexes st m) = p, st)) else Inr (False, st)) (\<lambda>(r, st).
     bindR (release c (L_sem m) st) (\<lambda>st. Inr (r, st))))"

definition sleep_init :: "nat \<Rightarrow> sys \<Rightarrow> sys" where "sleep_init = mutex_init"
definition sleep_init_zero :: "nat \<Rightarrow> sys \<Rightarrow> sys" where "sleep_init_zero = mutex_init_zero"
definition sleep_waiters_count :: "nat \<Rightarrow> sys \<Rightarrow> int" where "sleep_waiters_count m st = sem_value (sems st m)"
definition lk_sleep_on :: "nat \<Rightarrow> nat \<Rightarrow> sys \<Rightarrow> sys kres" where "lk_sleep_on = mutex_lock"
definition lk_wake_up :: "nat \<Rightarrow> nat \<Rightarrow> sys \<Rightarrow> sys kres" where "lk_wake_up = mutex_unlock"
definition sleep_is_hold :: "nat \<Rightarrow> nat \<Rightarrow> sys \<Rightarrow> (bool \<times> sys) kres" where "sleep_is_hold = mutex_is_hold"

subsection \<open>Threads\<close>

definition sched_init :: "sys \<Rightarrow> sys" where
  "sched_init st =
     fold (\<lambda>i st. st\<lparr>rq_lock := (rq_lock st)(i := spin_init), nodes := INIT_LIST_HEAD (Out_head i) (INIT_LIST_HEAD (Run_head i) (nodes st))\<rparr>)
       [0 ..< NCPU] (st\<lparr>load_lock := spin_init\<rparr>)"

definition proc_init :: "sys \<Rightarrow> sys" where
  "proc_init st = st\<lparr>pid_lock := spin_init, pids := 0\<rparr>"

definition thread_info_init :: "nat \<Rightarrow> sys \<Rightarrow> sys" where
  "thread_info_init t st =
     (upd_thread t (\<lambda>x. x\<lparr>t_lock := spin_init, ticks := 10, cpu_affinity := NO_CPU_AFF\<rparr>) st)\<lparr>nodes := INIT_LIST_HEAD (Th t) (nodes st)\<rparr>"

text \<open>\<open>alloc_thread\<close> on the object \<open>t\<close> that the cache of threads gave.\<close>

definition alloc_thread :: "nat \<Rightarrow> nat \<Rightarrow> sys \<Rightarrow> sys kres" where
  "alloc_thread c t st =
     bindR (acquire c L_pid (thread_info_init t st)) (\<lambda>st.
       release c L_pid
         (if pid (threads st t) = 0 then (upd_thread t (\<lambda>x. x\<lparr>pid := pids st\<rparr>) st)\<lparr>pids := pids st + 1\<rparr> else st))"

definition alloc_kthread :: "nat \<Rightarrow> nat \<Rightarrow> sys \<Rightarrow> sys kres" where
  "alloc_kthread c t st = bindR (alloc_thread c t st) (\<lambda>st. Inr (upd_thread t (\<lambda>x. x\<lparr>ctx := Thread_entry\<rparr>) st))"

definition alloc_uthread :: "nat \<Rightarrow> nat \<Rightarrow> sys \<Rightarrow> sys kres" where
  "alloc_uthread c t st = bindR (alloc_thread c t st) (\<lambda>st. Inr (upd_thread t (\<lambda>x. x\<lparr>ctx := Forkret\<rparr>) st))"

text \<open>\<open>obj\<close> is what the caches of tasks and threads gave, if both gave something.\<close>

definition kthread_create :: "nat \<Rightarrow> int \<Rightarrow> nat option \<Rightarrow> sys \<Rightarrow> sys kres" where
  "kthread_create c aff obj st =
     (if aff < NO_CPU_AFF \<or> aff \<ge> int NCPU then Inr st
      else case obj of
          None \<Rightarrow> Inr st
        | Some t \<Rightarrow>
            bindR (alloc_kthread c t st) (\<lambda>st. wakeup_process c t (upd_thread t (\<lambda>x. x\<lparr>cpu_affinity := aff\<rparr>) st)))"

end
