(* ===== verification/Vm.thy ===== *)
theory Vm
  imports Buddy
begin

text \<open>
  kernel/vm.c with the page table macros of include/riscv.h: Sv39 page tables in physical memory,
  the walk that finds or allocates the tables for a virtual address, the mapping of ranges, the
  kernel's page table, the first user address space, copy-on-write marks and the page fault handler.

  A page table lives in the byte memory \<open>ram\<close> of the page allocator; a page table pointer is a
  physical address and an entry is read and written as eight little-endian bytes. The proofs read
  the tables as one function from page frame and index to entry. \<open>pt_tree\<close> says that the tables
  form a tree without sharing; under it a walk changes no translation and \<open>mappages\<close> changes
  exactly those of its range.
\<close>

subsection \<open>Memory access in double words\<close>

definition load64 :: "mem \<Rightarrow> u64 \<Rightarrow> u64" where
  "load64 m a = horner_sum of_bool 2 (List.map (\<lambda>n. bit (m (a + of_nat (n div 8))) (n mod 8)) [0 ..< 64])"

definition store64 :: "u64 \<Rightarrow> u64 \<Rightarrow> mem \<Rightarrow> mem" where
  "store64 a v m = (\<lambda>b. if unat (b - a) < 8 then ucast (drop_bit (8 * unat (b - a)) v) else m b)"

subsection \<open>Page table entries\<close>

abbreviation (input) PTE_V :: u64 where "PTE_V \<equiv> 1"
abbreviation (input) PTE_R :: u64 where "PTE_R \<equiv> 2"
abbreviation (input) PTE_W :: u64 where "PTE_W \<equiv> 4"
abbreviation (input) PTE_X :: u64 where "PTE_X \<equiv> 8"
abbreviation (input) PTE_U :: u64 where "PTE_U \<equiv> 16"
abbreviation (input) PTE_COW :: u64 where "PTE_COW \<equiv> 256"
abbreviation (input) MAXVA :: u64 where "MAXVA \<equiv> 0x4000000000"
abbreviation (input) PHYSTOP :: u64 where "PHYSTOP \<equiv> 0x88000000"
abbreviation (input) UART0 :: u64 where "UART0 \<equiv> 0x10000000"
abbreviation (input) VIRTIO0 :: u64 where "VIRTIO0 \<equiv> 0x10001000"
abbreviation (input) PLIC :: u64 where "PLIC \<equiv> 0x0c000000"
abbreviation (input) USER_TEXT_BASE :: u64 where "USER_TEXT_BASE \<equiv> 0x200000000"
abbreviation (input) USER_STACK_TOP :: u64 where "USER_STACK_TOP \<equiv> 0x200000000 - 0x1000 - 8"

definition PA2PTE :: "u64 \<Rightarrow> u64" where
  "PA2PTE pa = push_bit 10 (drop_bit 12 pa)"

definition PTE2PA :: "u64 \<Rightarrow> u64" where
  "PTE2PA pte = push_bit 12 (drop_bit 10 pte)"

definition PX :: "nat \<Rightarrow> u64 \<Rightarrow> u64" where
  "PX level va = drop_bit (12 + 9 * level) va AND 0x1FF"

subsection \<open>Walking and mapping\<close>

text \<open>\<open>walk_loop\<close>: the loop of \<open>walk\<close> from \<open>level\<close> down to 1, and the address of the last entry.\<close>

fun walk_loop :: "int \<Rightarrow> u64 \<Rightarrow> bool \<Rightarrow> nat \<Rightarrow> u64 \<Rightarrow> buddy \<Rightarrow> (u64 option \<times> buddy) kres" where
  "walk_loop cpuid va alloc 0 pagetable st = Inr (Some (pagetable + 8 * PX 0 va), st)"
| "walk_loop cpuid va alloc (Suc l) pagetable st =
     (let pte = pagetable + 8 * PX (Suc l) va;
          v = load64 (ram (fst st)) pte
      in if v AND PTE_V \<noteq> 0 then walk_loop cpuid va alloc l (PTE2PA v) st
         else if \<not> alloc then Inr (None, st)
         else bindR (alloc_page_addr cpuid 0 st) (\<lambda>(pagetable, s, h, lk).
           if pagetable = 0 then Inr (None, s, h, lk)
           else bindR (memset pagetable 0 (of_nat PGSIZE) (ram s)) (\<lambda>m.
             walk_loop cpuid va alloc l pagetable
               (s\<lparr>ram := store64 pte (PA2PTE pagetable OR PTE_V) m\<rparr>, h, lk))))"

definition walk :: "int \<Rightarrow> u64 \<Rightarrow> u64 \<Rightarrow> bool \<Rightarrow> buddy \<Rightarrow> (u64 option \<times> buddy) kres" where
  "walk cpuid pagetable va alloc st =
     (if va \<ge> MAXVA then Inr (None, st) else walk_loop cpuid va alloc 2 pagetable st)"

text \<open>
  The loop of \<open>mappages\<close>. Its address reaches \<open>last\<close> because both are page aligned, which the
  panics before the loop ensure; the case in which it would step over \<open>last\<close> is written as \<open>Spins\<close>.
  \<open>walk\<close> giving NULL is the early return, with \<open>mem_map.lock\<close> held: the result says so.
\<close>

datatype map_end = Mapped | No_table

function mappages_loop :: "int \<Rightarrow> u64 \<Rightarrow> u64 \<Rightarrow> u64 \<Rightarrow> u64 \<Rightarrow> u64 \<Rightarrow> buddy \<Rightarrow> (map_end \<times> buddy) kres" where
  "mappages_loop cpuid pagetable lst perm a pa st =
     bindR (walk cpuid pagetable a True st) (\<lambda>(pte, s, h, lk).
       case pte of
         None \<Rightarrow> Inr (No_table, s, h, lk)
       | Some pte \<Rightarrow>
           if load64 (ram s) pte AND PTE_V \<noteq> 0 then Inl (Panic ''vm.c mappages: remap'')
           else
             let s = s\<lparr>ram := store64 pte (PA2PTE pa OR perm OR PTE_V) (ram s)\<rparr>
             in if a = lst then Inr (Mapped, s, h, lk)
                else if unat (lst - a) < PGSIZE then Inl Spins
                else mappages_loop cpuid pagetable lst perm (a + of_nat PGSIZE) (pa + of_nat PGSIZE) (s, h, lk))"
  by pat_completeness auto
termination
proof (relation "measure (\<lambda>(_, _, lst, _, a, _, _). unat (lst - a))", simp, goal_cases)
  case (1 cpuid pagetable lst perm a pa st x pte z s y h lk x2 xa)
  then have "\<not> unat (lst - a) < 4096" by simp
  then have "unat (lst - a - 4096) = unat (lst - a) - 4096"
    by (subst unat_sub) (simp_all add: word_le_nat_alt)
  then have "unat (lst - (a + 4096)) = unat (lst - a) - 4096" by (simp add: algebra_simps)
  with \<open>\<not> unat (lst - a) < 4096\<close> show ?case by simp
qed

declare mappages_loop.simps [simp del]

text \<open>The page allocator's state and \<open>mem_map.lock\<close>.\<close>

type_synonym vmem = "buddy \<times> spinlock"

definition mappages :: "int \<Rightarrow> u64 \<Rightarrow> u64 \<Rightarrow> u64 \<Rightarrow> u64 \<Rightarrow> u64 \<Rightarrow> vmem \<Rightarrow> (int \<times> vmem) kres" where
  "mappages cpuid pagetable va pa sz perm vs =
     (if va mod of_nat PGSIZE \<noteq> 0 then Inl (Panic ''mappages: va not aligned'')
      else if sz mod of_nat PGSIZE \<noteq> 0 then Inl (Panic ''mappages: size not aligned'')
      else if sz = 0 then Inl (Panic ''mappages: size'')
      else case vs of ((s, h, bl), ml) \<Rightarrow>
        bindR (spin_lock cpuid (h, ml)) (\<lambda>(h, ml).
        bindR (mappages_loop cpuid pagetable (va + sz - of_nat PGSIZE) perm va pa (s, h, bl)) (\<lambda>(r, s, h, bl).
        case r of
          No_table \<Rightarrow> Inr (- 1, (s, h, bl), ml)
        | Mapped \<Rightarrow> bindR (spin_unlock cpuid (h, ml)) (\<lambda>(h, ml). Inr (0, (s, h, bl), ml)))))"

definition kvm_map :: "int \<Rightarrow> u64 \<Rightarrow> u64 \<Rightarrow> u64 \<Rightarrow> u64 \<Rightarrow> u64 \<Rightarrow> vmem \<Rightarrow> vmem kres" where
  "kvm_map cpuid kpgtbl va pa sz perm vs =
     bindR (mappages cpuid kpgtbl va pa sz perm vs) (\<lambda>(r, vs).
       if r \<noteq> 0 then Inl (Panic ''vm.c kvm_map: Error!'') else Inr vs)"

definition alloc_pgt :: "int \<Rightarrow> vmem \<Rightarrow> (u64 \<times> vmem) kres" where
  "alloc_pgt cpuid vs = (case vs of (st, ml) \<Rightarrow> bindR (alloc_page_addr cpuid 0 st) (\<lambda>(a, st). Inr (a, st, ml)))"

text \<open>\<open>etext\<close> is placed by the linker: a parameter. The result is the address of the kernel's table.\<close>

definition kvm_init :: "int \<Rightarrow> u64 \<Rightarrow> vmem \<Rightarrow> (u64 \<times> vmem) kres" where
  "kvm_init cpuid etext vs =
     bindR (alloc_pgt cpuid vs) (\<lambda>(kpgtbl, (s, h, bl), ml).
     if kpgtbl = 0 then Inl (Panic ''Failed to apply for kernel page table space!'')
     else
     bindR (memset kpgtbl 0 (of_nat PGSIZE) (ram s)) (\<lambda>m.
     bindR (kvm_map cpuid kpgtbl UART0 UART0 (of_nat PGSIZE) (PTE_R OR PTE_W) ((s\<lparr>ram := m\<rparr>, h, bl), ml)) (\<lambda>vs.
     bindR (kvm_map cpuid kpgtbl VIRTIO0 VIRTIO0 (of_nat PGSIZE) (PTE_R OR PTE_W) vs) (\<lambda>vs.
     bindR (kvm_map cpuid kpgtbl PLIC PLIC 0x4000000 (PTE_R OR PTE_W) vs) (\<lambda>vs.
     bindR (kvm_map cpuid kpgtbl KERNBASE KERNBASE (etext - KERNBASE) (PTE_R OR PTE_X) vs) (\<lambda>vs.
     bindR (kvm_map cpuid kpgtbl etext etext (PHYSTOP - etext) (PTE_R OR PTE_W) vs) (\<lambda>vs.
       Inr (kpgtbl, vs))))))))"

text \<open>
  \<open>uvmfirst\<close> for the first thread: its page table \<open>pgd\<close>, the kernel's table and the code at \<open>src\<close>.
  The results of \<open>mappages\<close> are ignored. The trap frame gets the user's program counter and stack
  pointer: the returned pair.
\<close>

definition uvmfirst :: "int \<Rightarrow> u64 \<Rightarrow> u64 \<Rightarrow> u64 \<Rightarrow> u64 \<Rightarrow> vmem \<Rightarrow> ((u64 \<times> u64) \<times> vmem) kres" where
  "uvmfirst cpuid kernel_pagetable pgd src sz vs =
     bindR (assertR (sz \<le> of_nat PGSIZE) ''uvmfirst: more than a page'') (\<lambda>_.
     case vs of ((s, h, bl), ml) \<Rightarrow>
     let s = s\<lparr>ram := memcpy pgd kernel_pagetable (of_nat (PGSIZE div 64)) (ram s)\<rparr> in
     bindR (alloc_page_addr cpuid 0 (s, h, bl)) (\<lambda>(text, st).
     bindR (mappages cpuid pgd (USER_TEXT_BASE AND 0xfffffffffffff000) text (of_nat PGSIZE) (PTE_R OR PTE_X OR PTE_U) (st, ml))
       (\<lambda>(_, (s, h, bl), ml).
     let s = s\<lparr>ram := memcpy text src sz (ram s)\<rparr> in
     bindR (alloc_page_addr cpuid 0 (s, h, bl)) (\<lambda>(stack, st).
     bindR (mappages cpuid pgd (USER_STACK_TOP AND 0xfffffffffffff000) stack (of_nat PGSIZE) (PTE_R OR PTE_W OR PTE_U) (st, ml))
       (\<lambda>(_, vs). Inr ((USER_TEXT_BASE, USER_STACK_TOP), vs))))))"

subsection \<open>Copy on write, memory areas and page faults\<close>

definition set_cow_page :: "u64 \<Rightarrow> mem_map \<Rightarrow> mem_map" where
  "set_cow_page pte s =
     (let s = s\<lparr>ram := store64 pte (load64 (ram s) pte AND NOT PTE_W) (ram s)\<rparr>;
          s = s\<lparr>ram := store64 pte (load64 (ram s) pte OR PTE_COW) (ram s)\<rparr>
      in page_push (get_page_struct (PTE2PA (load64 (ram s) pte))) s)"

definition clear_cow_page :: "u64 \<Rightarrow> mem_map \<Rightarrow> mem_map" where
  "clear_cow_page pte s = s\<lparr>ram := store64 pte (load64 (ram s) pte AND NOT PTE_COW) (ram s)\<rparr>"

definition is_cow_page :: "u64 \<Rightarrow> mem_map \<Rightarrow> int" where
  "is_cow_page pte s = of_bool (load64 (ram s) pte AND PTE_COW \<noteq> 0)"

record vm_area_struct =
  vm_start :: u64
  vm_end :: u64
  vm_prot :: u32
  vm_pgoff :: u32
  vm_file :: "nat option"

text \<open>\<open>mm->mmap\<close> with its \<open>vm_next\<close> pointers is the list of the areas in that order.\<close>

record mm_struct =
  pgd :: u64
  mmap :: "vm_area_struct list"
  mm_lock :: spinlock

primrec vma_search :: "u64 \<Rightarrow> vm_area_struct list \<Rightarrow> vm_area_struct option" where
  "vma_search addr [] = None"
| "vma_search addr (v # vs) = (if addr \<ge> vm_start v \<and> addr \<le> vm_end v then Some v else vma_search addr vs)"

definition find_vma :: "int \<Rightarrow> u64 \<Rightarrow> hart \<times> mm_struct \<Rightarrow> (vm_area_struct option \<times> hart \<times> mm_struct) kres" where
  "find_vma cpuid addr hm = (case hm of (h, mm) \<Rightarrow>
     bindR (spin_lock cpuid (h, mm_lock mm)) (\<lambda>(h, lk).
     let v = vma_search addr (mmap mm) in
     bindR (spin_unlock cpuid (h, lk)) (\<lambda>(h, lk). Inr (v, h, mm\<lparr>mm_lock := lk\<rparr>))))"

definition vm_rx_fault :: "vm_area_struct \<Rightarrow> int kres" where
  "vm_rx_fault vm =
     (if vm_prot vm AND 0x80000000 \<noteq> 0 then Inr 0
      else if vm_file vm \<noteq> None then Inr 0
      else Inl (Panic ''vm_rx_fault''))"

text \<open>
  \<open>page_fault_handler\<close>, with the area's \<open>vm_ops->fault\<close> as a parameter. C's \<open>~\<close> is the bitwise
  complement: \<open>~x\<close> is \<open>- x - 1\<close> on the 0 or 1 that \<open>is_cow_page\<close> returns.
\<close>

definition page_fault_handler ::
  "int \<Rightarrow> (vm_area_struct \<Rightarrow> u64 \<Rightarrow> mem_map \<Rightarrow> mem_map kres) \<Rightarrow> u64 \<Rightarrow> buddy \<times> mm_struct \<Rightarrow> (buddy \<times> mm_struct) kres" where
  "page_fault_handler cpuid fault fault_addr sm = (case sm of ((s, h, bl), mm) \<Rightarrow>
     bindR (find_vma cpuid fault_addr (h, mm)) (\<lambda>(v, h, mm).
     case v of
       None \<Rightarrow> Inl (Panic ''page_fault_handler: illegal addr'')
     | Some v \<Rightarrow>
         bindR (walk cpuid (pgd mm) fault_addr False (s, h, bl)) (\<lambda>(pte, s, h, bl).
         if (case pte of None \<Rightarrow> False | Some pte \<Rightarrow> - is_cow_page pte s - 1 \<noteq> 0)
         then Inl (Panic ''page_fault_handler: illegal addr'')
         else bindR (fault v fault_addr s) (\<lambda>s. Inr ((s, h, bl), mm)))))"

subsection \<open>Entries of page frames\<close>

lemma bit_load64: "bit (load64 m a) n \<longleftrightarrow> n < 64 \<and> bit (m (a + of_nat (n div 8))) (n mod 8)"
  by (auto simp: load64_def bit_horner_sum_bit_iff)

lemma load_store_same: "load64 (store64 a v m) a = v"
proof (rule bit_word_eqI)
  fix n assume "n < LENGTH(64)"
  then have n: "n < 64" by simp
  then have "n div 8 < 8" by linarith
  then have "unat (of_nat (n div 8) :: u64) = n div 8" by (intro unat_of_nat_small) simp
  with \<open>n div 8 < 8\<close> n show "bit (load64 (store64 a v m) a) n = bit v n"
    by (simp add: bit_load64 store64_def bit_simps)
qed

text \<open>The address of entry \<open>i\<close> of the table in frame \<open>p\<close>, and the entry there.\<close>

definition entry_addr :: "nat \<Rightarrow> nat \<Rightarrow> u64" where
  "entry_addr p i = get_page_addr p + 8 * of_nat i"

definition entries :: "mem \<Rightarrow> nat \<Rightarrow> nat \<Rightarrow> u64" where
  "entries m p i = load64 m (entry_addr p i)"

lemma entry_addr_nat: "entry_addr p i = of_nat (0x80000000 + 4096 * p + 8 * i)"
  by (simp add: entry_addr_def get_page_addr_offset algebra_simps)

lemma unat_diff_of_nat:
  assumes "N < 2 ^ 64" and "M < 2 ^ 64"
  shows "unat (of_nat M - of_nat N :: u64) = (if N \<le> M then M - N else M + 2 ^ 64 - N)"
proof -
  have N: "unat (of_nat N :: u64) = N" by (rule unat_of_nat_small) (use assms in simp)
  have M: "unat (of_nat M :: u64) = M" by (rule unat_of_nat_small) (use assms in simp)
  show ?thesis by (simp only: unat_sub_if' N M) simp
qed

lemma far_apart:
  assumes "N + 8 \<le> M \<or> M + 8 \<le> N" and "N < 2 ^ 63" "M < 2 ^ 63" and "k < 8"
  shows "8 \<le> unat (of_nat M + of_nat k - of_nat N :: u64)"
proof -
  have "8 \<le> unat (of_nat (M + k) - of_nat N :: u64)"
    using assms by (subst unat_diff_of_nat) auto
  then show ?thesis by simp
qed

lemma load_store_far:
  assumes "N + 8 \<le> M \<or> M + 8 \<le> N" and "N < 2 ^ 63" "M < 2 ^ 63"
  shows "load64 (store64 (of_nat N) v m) (of_nat M) = load64 m (of_nat M)"
proof (rule bit_word_eqI)
  fix n assume "n < LENGTH(64)"
  then have "n div 8 < 8" by (simp add: div_less_iff_less_mult)
  from far_apart [OF assms this] have "\<not> unat (of_nat M + of_nat (n div 8) - of_nat N :: u64) < 8" by simp
  then show "bit (load64 (store64 (of_nat N) v m) (of_nat M)) n = bit (load64 m (of_nat M)) n"
    by (simp add: bit_load64 store64_def)
qed

definition upd_entry :: "nat \<Rightarrow> nat \<Rightarrow> u64 \<Rightarrow> (nat \<Rightarrow> nat \<Rightarrow> u64) \<Rightarrow> nat \<Rightarrow> nat \<Rightarrow> u64" where
  "upd_entry p i v E = E(p := (E p)(i := v))"

lemma upd_entry_apply: "upd_entry p i v E q j = (if q = p \<and> j = i then v else E q j)"
  by (simp add: upd_entry_def)

lemma entries_store:
  assumes "p < ALL_PFN" "i < 512" "q < ALL_PFN" "j < 512"
  shows "entries (store64 (entry_addr p i) v m) q j = upd_entry p i v (entries m) q j"
proof (cases "q = p \<and> j = i")
  case True
  then show ?thesis by (simp add: entries_def load_store_same upd_entry_apply)
next
  case False
  let ?N = "0x80000000 + 4096 * p + 8 * i" and ?M = "0x80000000 + 4096 * q + 8 * j"
  have "512 * p + i \<noteq> 512 * q + j"
  proof
    assume "512 * p + i = 512 * q + j"
    then have "(512 * p + i) div 512 = (512 * q + j) div 512" "(512 * p + i) mod 512 = (512 * q + j) mod 512" by simp_all
    with assms False show False by simp
  qed
  then have "?N + 8 \<le> ?M \<or> ?M + 8 \<le> ?N" by linarith
  moreover have "?N < 2 ^ 63" "?M < 2 ^ 63" using assms by simp_all
  ultimately show ?thesis
    using False load_store_far [of ?N ?M v m] unfolding entries_def entry_addr_nat upd_entry_apply by auto
qed

lemma entries_zero:
  assumes "q < ALL_PFN" "p < ALL_PFN" "i < 512"
  shows "entries (\<lambda>a. if unat (a - get_page_addr q) < PGSIZE then 0 else m a) p i = (if p = q then 0 else entries m p i)"
proof -
  define m' where "m' = (\<lambda>a. if unat (a - get_page_addr q) < PGSIZE then 0 else m a)"
  define N where "N = 0x80000000 + 4096 * q"
  define M where "M = 0x80000000 + 4096 * p + 8 * i"
  have addr: "get_page_addr q = of_nat N" "entry_addr p i = of_nat M"
    by (simp_all add: get_page_addr_offset entry_addr_nat N_def M_def)
  have bound: "N < 2 ^ 40" "M + 8 < 2 ^ 40" using assms by (simp_all add: N_def M_def)
  have page: "M + k < N" if "k < 8" "p < q" for k
  proof -
    from that have "Suc p \<le> q" by simp
    then show ?thesis using assms(3) that by (simp add: N_def M_def)
  qed
  have page': "N + PGSIZE \<le> M" if "q < p"
  proof -
    from that have "Suc q \<le> p" by simp
    then show ?thesis by (simp add: N_def M_def)
  qed
  have in_page: "unat (entry_addr p i + of_nat k - get_page_addr q) < PGSIZE \<longleftrightarrow> p = q" if k: "k < 8" for k
  proof -
    have "unat (of_nat (M + k) - of_nat N :: u64) = (if N \<le> M + k then M + k - N else M + k + 2 ^ 64 - N)"
      using bound k by (intro unat_diff_of_nat) simp_all
    moreover have "entry_addr p i + of_nat k - get_page_addr q = of_nat (M + k) - of_nat N" by (simp add: addr)
    ultimately have u: "unat (entry_addr p i + of_nat k - get_page_addr q) = (if N \<le> M + k then M + k - N else M + k + 2 ^ 64 - N)"
      by (simp only:)
    have "M = N + 8 * i" if "p = q" using that by (simp add: N_def M_def)
    then show ?thesis
      unfolding u using page [OF k] page' bound assms(3) k by (cases p q rule: linorder_cases) auto
  qed
  have "bit (entries m' p i) n = bit (if p = q then 0 else entries m p i) n" if "n < 64" for n
  proof -
    have "n div 8 < 8" using that by linarith
    from in_page [OF this] show ?thesis using that by (simp add: entries_def bit_load64 m'_def)
  qed
  then have "entries m' p i = (if p = q then 0 else entries m p i)" by (intro bit_word_eqI) simp
  then show ?thesis by (simp add: m'_def)
qed

subsection \<open>Page tables as trees\<close>

definition pte_valid :: "u64 \<Rightarrow> bool" where
  "pte_valid e \<longleftrightarrow> e AND PTE_V \<noteq> 0"

definition px :: "nat \<Rightarrow> u64 \<Rightarrow> nat" where
  "px level va = unat (PX level va)"

definition child :: "(nat \<Rightarrow> nat \<Rightarrow> u64) \<Rightarrow> nat \<Rightarrow> nat \<Rightarrow> nat" where
  "child E p i = get_page_struct (PTE2PA (E p i))"

text \<open>
  \<open>pt_tree E l p S\<close>: the frames \<open>S\<close> are a tree of tables with root \<open>p\<close> and \<open>l\<close> levels below it, no
  frame used twice. The entries of the last level are leaves.
\<close>

fun pt_tree :: "(nat \<Rightarrow> nat \<Rightarrow> u64) \<Rightarrow> nat \<Rightarrow> nat \<Rightarrow> nat set \<Rightarrow> bool" where
  "pt_tree E 0 p S \<longleftrightarrow> p < ALL_PFN \<and> S = {p}"
| "pt_tree E (Suc l) p S \<longleftrightarrow> p < ALL_PFN \<and>
     (\<exists>f. S = insert p (\<Union>i<512. f i) \<and> (\<forall>i<512. p \<notin> f i) \<and> (\<forall>i<512. \<forall>j<512. i \<noteq> j \<longrightarrow> f i \<inter> f j = {}) \<and>
        (\<forall>i<512. if pte_valid (E p i) then PTE2PA (E p i) = get_page_addr (child E p i) \<and> pt_tree E l (child E p i) (f i)
                 else f i = {}))"

text \<open>The frame and index of the leaf entry for a virtual address, and that entry (0 if there is none).\<close>

fun slot :: "(nat \<Rightarrow> nat \<Rightarrow> u64) \<Rightarrow> nat \<Rightarrow> nat \<Rightarrow> u64 \<Rightarrow> (nat \<times> nat) option" where
  "slot E 0 p va = Some (p, px 0 va)"
| "slot E (Suc l) p va = (if pte_valid (E p (px (Suc l) va)) then slot E l (child E p (px (Suc l) va)) va else None)"

definition leaf :: "(nat \<Rightarrow> nat \<Rightarrow> u64) \<Rightarrow> nat \<Rightarrow> nat \<Rightarrow> u64 \<Rightarrow> u64" where
  "leaf E l p va = (case slot E l p va of None \<Rightarrow> 0 | Some (r, i) \<Rightarrow> E r i)"

definition agree :: "(nat \<Rightarrow> nat \<Rightarrow> u64) \<Rightarrow> (nat \<Rightarrow> nat \<Rightarrow> u64) \<Rightarrow> nat set \<Rightarrow> bool" where
  "agree E' E R \<longleftrightarrow> (\<forall>r\<in>R. \<forall>i<512. E' r i = E r i)"

lemma px_less [simp]: "px l va < 512"
proof -
  have "PX l va = take_bit 9 (drop_bit (12 + 9 * l) va)" by (simp add: PX_def take_bit_eq_mask mask_eq_exp_minus_1)
  then have "px l va = take_bit 9 (unat (drop_bit (12 + 9 * l) va))" by (simp add: px_def unsigned_take_bit_eq)
  then show ?thesis by (simp add: take_bit_eq_mod)
qed

lemma px_eq: "px l va = unat va div 2 ^ (12 + 9 * l) mod 512"
proof -
  have "PX l va = take_bit 9 (drop_bit (12 + 9 * l) va)" by (simp add: PX_def take_bit_eq_mask mask_eq_exp_minus_1)
  then have "px l va = take_bit 9 (drop_bit (12 + 9 * l) (unat va))"
    by (simp add: px_def unsigned_take_bit_eq unat_drop_bit_eq)
  then show ?thesis by (simp add: take_bit_eq_mod drop_bit_eq_div)
qed

lemma entry_addr_px: "get_page_addr p + 8 * PX l va = entry_addr p (px l va)"
  by (simp add: entry_addr_def px_def)

lemma agree_subset: "agree E' E R \<Longrightarrow> R' \<subseteq> R \<Longrightarrow> agree E' E R'"
  by (auto simp: agree_def)

lemma agree_trans: "agree E'' E' R \<Longrightarrow> agree E' E R \<Longrightarrow> agree E'' E R"
  by (simp add: agree_def)

lemma tree_SucE:
  assumes "pt_tree E (Suc l) p S"
  obtains f where "S = insert p (\<Union>i<512. f i)" and "p < ALL_PFN" and "\<And>i. i < 512 \<Longrightarrow> p \<notin> f i"
    and "\<And>i j. i < 512 \<Longrightarrow> j < 512 \<Longrightarrow> i \<noteq> j \<Longrightarrow> f i \<inter> f j = {}"
    and "\<And>i. i < 512 \<Longrightarrow> pte_valid (E p i) \<Longrightarrow> PTE2PA (E p i) = get_page_addr (child E p i) \<and> pt_tree E l (child E p i) (f i)"
    and "\<And>i. i < 512 \<Longrightarrow> \<not> pte_valid (E p i) \<Longrightarrow> f i = {}"
proof -
  from assms have p: "p < ALL_PFN" and ex: "\<exists>f. S = insert p (\<Union>i<512. f i) \<and> (\<forall>i<512. p \<notin> f i) \<and>
      (\<forall>i<512. \<forall>j<512. i \<noteq> j \<longrightarrow> f i \<inter> f j = {}) \<and>
      (\<forall>i<512. if pte_valid (E p i) then PTE2PA (E p i) = get_page_addr (child E p i) \<and> pt_tree E l (child E p i) (f i)
               else f i = {})"
    by (simp_all only: pt_tree.simps)
  from ex show ?thesis
  proof (elim exE conjE)
    fix f
    assume f: "S = insert p (\<Union>i<512. f i)" "\<forall>i<512. p \<notin> f i" "\<forall>i<512. \<forall>j<512. i \<noteq> j \<longrightarrow> f i \<inter> f j = {}"
      "\<forall>i<512. if pte_valid (E p i) then PTE2PA (E p i) = get_page_addr (child E p i) \<and> pt_tree E l (child E p i) (f i)
               else f i = {}"
    show ?thesis
    proof (rule that [OF f(1) p])
      fix i :: nat assume i: "i < 512"
      show "p \<notin> f i" using f(2) i by simp
      show "f i \<inter> f j = {}" if "j < 512" "i \<noteq> j" for j using f(3) i that by (simp only: simp_thms)
      show "PTE2PA (E p i) = get_page_addr (child E p i) \<and> pt_tree E l (child E p i) (f i)" if "pte_valid (E p i)"
        using f(4) [rule_format, OF i] that by (simp only: if_True simp_thms)
      show "f i = {}" if "\<not> pte_valid (E p i)" using f(4) [rule_format, OF i] that by (simp only: if_False simp_thms)
    qed
  qed
qed

lemma tree_SucI:
  assumes "S = insert p (\<Union>i<512. f i)" and "p < ALL_PFN" and "\<And>i. i < 512 \<Longrightarrow> p \<notin> f i"
    and "\<And>i j. i < 512 \<Longrightarrow> j < 512 \<Longrightarrow> i \<noteq> j \<Longrightarrow> f i \<inter> f j = {}"
    and "\<And>i. i < 512 \<Longrightarrow> pte_valid (E p i) \<Longrightarrow> PTE2PA (E p i) = get_page_addr (child E p i) \<and> pt_tree E l (child E p i) (f i)"
    and "\<And>i. i < 512 \<Longrightarrow> \<not> pte_valid (E p i) \<Longrightarrow> f i = {}"
  shows "pt_tree E (Suc l) p S"
proof -
  have "if pte_valid (E p i) then PTE2PA (E p i) = get_page_addr (child E p i) \<and> pt_tree E l (child E p i) (f i) else f i = {}"
    if "i < 512" for i
    using assms(5,6) [OF that] by (simp only: split: if_split) blast
  with assms(1-4) show ?thesis unfolding pt_tree.simps by (intro conjI exI [of _ f] allI impI)
qed

declare pt_tree.simps(2) [simp del]

lemma tree_root: "pt_tree E l p S \<Longrightarrow> p \<in> S \<and> p < ALL_PFN"
  by (cases l) (auto elim: tree_SucE)

lemma tree_bounded: "pt_tree E l p S \<Longrightarrow> S \<subseteq> {..< ALL_PFN}"
proof (induction l arbitrary: p S)
  case (Suc l)
  from Suc.prems show ?case
  proof (rule tree_SucE)
    fix f
    assume f: "S = insert p (\<Union>i<512. f i)" "p < ALL_PFN"
      "\<And>i. i < 512 \<Longrightarrow> pte_valid (E p i) \<Longrightarrow> PTE2PA (E p i) = get_page_addr (child E p i) \<and> pt_tree E l (child E p i) (f i)"
      "\<And>i. i < 512 \<Longrightarrow> \<not> pte_valid (E p i) \<Longrightarrow> f i = {}"
    have "f i \<subseteq> {..< ALL_PFN}" if "i < 512" for i
      using Suc.IH f(3,4) that by (cases "pte_valid (E p i)") blast+
    with f(1,2) show ?thesis by blast
  qed
qed auto

lemma tree_cong:
  assumes "pt_tree E l p S" and "agree E' E S"
  shows "pt_tree E' l p S"
  using assms
proof (induction l arbitrary: p S)
  case (Suc l)
  from Suc.prems(1) show ?case
  proof (rule tree_SucE)
    fix f
    assume f: "S = insert p (\<Union>i<512. f i)" "p < ALL_PFN" "\<And>i. i < 512 \<Longrightarrow> p \<notin> f i"
      "\<And>i j. i < 512 \<Longrightarrow> j < 512 \<Longrightarrow> i \<noteq> j \<Longrightarrow> f i \<inter> f j = {}"
      "\<And>i. i < 512 \<Longrightarrow> pte_valid (E p i) \<Longrightarrow> PTE2PA (E p i) = get_page_addr (child E p i) \<and> pt_tree E l (child E p i) (f i)"
      "\<And>i. i < 512 \<Longrightarrow> \<not> pte_valid (E p i) \<Longrightarrow> f i = {}"
    have same: "E' p i = E p i" if "i < 512" for i using Suc.prems(2) f(1) that by (auto simp: agree_def)
    have ag: "agree E' E (f i)" if "i < 512" for i
      using agree_subset [OF Suc.prems(2)] f(1) that by blast
    show ?thesis
    proof (rule tree_SucI [OF f(1-4)])
      fix i :: nat assume i: "i < 512"
      show "f i = {}" if "\<not> pte_valid (E' p i)" using f(6) [OF i] same [OF i] that by simp
      assume "pte_valid (E' p i)"
      then have "pte_valid (E p i)" by (simp add: same i)
      from f(5) [OF i this] Suc.IH [OF _ ag [OF i]]
      show "PTE2PA (E' p i) = get_page_addr (child E' p i) \<and> pt_tree E' l (child E' p i) (f i)"
        by (simp add: same [OF i] child_def)
    qed
  qed
qed simp

lemma slot_cong:
  assumes "pt_tree E l p S" and "agree E' E S"
  shows "slot E' l p va = slot E l p va" and "slot E l p va = Some (r, i) \<Longrightarrow> r \<in> S \<and> i < 512"
proof -
  have "slot E' l p va = slot E l p va \<and> (slot E l p va = Some (r, i) \<longrightarrow> r \<in> S \<and> i < 512)"
    using assms
  proof (induction l arbitrary: p S)
    case (Suc l)
    let ?i = "px (Suc l) va"
    from Suc.prems(1) show ?case
    proof (rule tree_SucE)
      fix f
      assume f: "S = insert p (\<Union>i<512. f i)"
        "\<And>i. i < 512 \<Longrightarrow> pte_valid (E p i) \<Longrightarrow> PTE2PA (E p i) = get_page_addr (child E p i) \<and> pt_tree E l (child E p i) (f i)"
      have sub: "f ?i \<subseteq> S" unfolding f(1) using px_less [of "Suc l" va] by (intro subset_insertI2 UN_upper) simp
      then have ag: "agree E' E (f ?i)" using Suc.prems(2) agree_subset by blast
      have same: "E' p ?i = E p ?i" using Suc.prems(2) f(1) px_less [of "Suc l" va] by (simp add: agree_def)
      show ?thesis
      proof (cases "pte_valid (E p ?i)")
        case True
        have "pt_tree E l (child E p ?i) (f ?i)" using f(2) [OF px_less True] by simp
        from Suc.IH [OF this ag] have "slot E' l (child E p ?i) va = slot E l (child E p ?i) va \<and>
            (slot E l (child E p ?i) va = Some (r, i) \<longrightarrow> r \<in> f ?i \<and> i < 512)" .
        moreover have "child E' p ?i = child E p ?i" by (simp add: child_def same)
        ultimately show ?thesis using True sub by (auto simp: same)
      qed (simp add: same)
    qed
  qed auto
  then show "slot E' l p va = slot E l p va" and "slot E l p va = Some (r, i) \<Longrightarrow> r \<in> S \<and> i < 512" by blast+
qed

lemma agree_refl [simp]: "agree E E S"
  by (simp add: agree_def)

lemmas slot_in = slot_cong(2) [OF _ agree_refl]

lemma leaf_cong:
  assumes "pt_tree E l p S" and "agree E' E S"
  shows "leaf E' l p va = leaf E l p va"
  using slot_cong(1) [OF assms, of va] slot_in [OF assms(1), of va] assms(2)
  by (auto simp: leaf_def agree_def split: option.splits)

text \<open>Taking a tree apart at one valid entry and putting a changed subtree back in its place.\<close>

lemma union_except: "i < (n::nat) \<Longrightarrow> (\<Union>j<n. (f(i := C)) j) = C \<union> (\<Union>j\<in>{..<n} - {i}. f j)"
  by (auto split: if_splits)

definition subtree :: "(nat \<Rightarrow> nat \<Rightarrow> u64) \<Rightarrow> nat \<Rightarrow> nat \<Rightarrow> nat \<Rightarrow> nat set \<Rightarrow> nat set \<Rightarrow> bool" where
  "subtree E l p i S C \<longleftrightarrow> pt_tree E l (child E p i) C \<and> C \<subseteq> S \<and> p \<notin> C \<and> PTE2PA (E p i) = get_page_addr (child E p i) \<and>
     (\<forall>E' C'. pt_tree E' l (child E p i) C' \<longrightarrow> C' \<inter> (S - C) = {} \<longrightarrow> agree E' E (S - C) \<longrightarrow>
        pt_tree E' (Suc l) p (S - C \<union> C')) \<and>
     (\<forall>j<512. j \<noteq> i \<longrightarrow> pte_valid (E p j) \<longrightarrow> (\<exists>D. pt_tree E l (child E p j) D \<and> D \<subseteq> S - C))"

lemma subtreeD:
  assumes "subtree E l p i S C"
  shows "pt_tree E l (child E p i) C" and "C \<subseteq> S" and "p \<notin> C" and "PTE2PA (E p i) = get_page_addr (child E p i)"
    and "pt_tree E' l (child E p i) C' \<Longrightarrow> C' \<inter> (S - C) = {} \<Longrightarrow> agree E' E (S - C) \<Longrightarrow>
           pt_tree E' (Suc l) p (S - C \<union> C')"
    and "j < 512 \<Longrightarrow> j \<noteq> i \<Longrightarrow> pte_valid (E p j) \<Longrightarrow> \<exists>D. pt_tree E l (child E p j) D \<and> D \<subseteq> S - C"
  using assms unfolding subtree_def by blast+

lemma tree_child:
  assumes "pt_tree E (Suc l) p S" and i: "i < 512" and v: "pte_valid (E p i)"
  shows "\<exists>C. subtree E l p i S C"
proof -
  from assms(1) obtain f where f: "S = insert p (\<Union>i<512. f i)" "p < ALL_PFN" "\<And>i. i < 512 \<Longrightarrow> p \<notin> f i"
    "\<And>i j. i < 512 \<Longrightarrow> j < 512 \<Longrightarrow> i \<noteq> j \<Longrightarrow> f i \<inter> f j = {}"
    "\<And>i. i < 512 \<Longrightarrow> pte_valid (E p i) \<Longrightarrow> PTE2PA (E p i) = get_page_addr (child E p i) \<and> pt_tree E l (child E p i) (f i)"
    "\<And>i. i < 512 \<Longrightarrow> \<not> pte_valid (E p i) \<Longrightarrow> f i = {}"
    by (rule tree_SucE) blast
  have rest: "f j \<subseteq> S - f i" if "j < 512" "j \<noteq> i" for j using f(1) f(4) [OF that(1) i that(2)] that(1) by blast
  have p: "p \<in> S - f i" using f(1) f(3) [OF i] by blast
  have cut: "S - f i = insert p (\<Union>j\<in>{..<512} - {i}. f j)"
  proof -
    have "S = insert p (f i \<union> (\<Union>j\<in>{..<512} - {i}. f j))" using f(1) i by blast
    with p rest show ?thesis by blast
  qed
  have "subtree E l p i S (f i)"
    unfolding subtree_def
  proof (intro conjI allI impI)
    show "pt_tree E l (child E p i) (f i)" "PTE2PA (E p i) = get_page_addr (child E p i)" using f(5) [OF i v] by simp_all
    show "f i \<subseteq> S" "p \<notin> f i" using f(1) f(3) [OF i] i by blast+
    show "\<exists>D. pt_tree E l (child E p j) D \<and> D \<subseteq> S - f i" if "j < 512" "j \<noteq> i" "pte_valid (E p j)" for j
      using f(5) rest that by blast
    fix E' C'
    assume C': "pt_tree E' l (child E p i) C'" "C' \<inter> (S - f i) = {}" and ag: "agree E' E (S - f i)"
    have same: "E' p j = E p j" if "j < 512" for j using ag p that by (simp add: agree_def)
    define f' where "f' = f(i := C')"
    show "pt_tree E' (Suc l) p (S - f i \<union> C')"
    proof (rule tree_SucI [where f = f'])
      show "S - f i \<union> C' = insert p (\<Union>j<512. f' j)" unfolding f'_def union_except [OF i] cut by blast
      show "p < ALL_PFN" by (rule f(2))
      fix j :: nat assume j: "j < 512"
      show "p \<notin> f' j" using f(3) [OF j] C'(2) p by (auto simp: f'_def)
      show "f' j \<inter> f' k = {}" if "k < 512" "j \<noteq> k" for k
        using f(4) [OF j that] rest [OF j] rest [OF that(1)] C'(2) that(2) unfolding f'_def
        by (cases "j = i"; cases "k = i") auto
      show "f' j = {}" if "\<not> pte_valid (E' p j)"
        using f(6) [OF j] that v same [OF j] by (auto simp: f'_def)
      assume "pte_valid (E' p j)"
      then have "PTE2PA (E p j) = get_page_addr (child E p j) \<and> pt_tree E l (child E p j) (f j)"
        using f(5) [OF j] by (simp add: same j)
      moreover have "pt_tree E' l (child E p j) (f j)" if "pt_tree E l (child E p j) (f j)" "j \<noteq> i"
        by (rule tree_cong [OF that(1) agree_subset [OF ag rest [OF j that(2)]]])
      ultimately show "PTE2PA (E' p j) = get_page_addr (child E' p j) \<and> pt_tree E' l (child E' p j) (f' j)"
        using C'(1) same [OF j] by (cases "j = i") (auto simp: f'_def child_def)
    qed
  qed
  then show ?thesis by blast
qed

text \<open>Hanging a new empty table below an invalid entry.\<close>

lemma empty_table:
  assumes "q < ALL_PFN" and "\<forall>i<512. E q i = 0"
  shows "pt_tree E l q {q}" and "leaf E l q va = 0"
proof -
  have z: "\<not> pte_valid 0" by (simp add: pte_valid_def)
  show "pt_tree E l q {q}"
  proof (cases l)
    case (Suc k)
    show ?thesis unfolding Suc
      by (rule tree_SucI [where f = "\<lambda>_. {}"]) (use assms z in simp_all)
  qed (use assms in simp)
  show "leaf E l q va = 0"
    using assms(2) z by (cases l) (simp_all add: leaf_def)
qed

lemma tree_add:
  assumes t: "pt_tree E (Suc l) p S" and i: "i < 512" "\<not> pte_valid (E p i)" and q: "q \<notin> S" "q < ALL_PFN"
    and E': "agree E' E (S - {p})" "\<forall>j<512. E' p j = (if j = i then v else E p j)" "\<forall>j<512. E' q j = 0"
    and v: "pte_valid v" "PTE2PA v = get_page_addr q"
  shows "pt_tree E' (Suc l) p (insert q S)" and "child E' p i = q" and "leaf E' (Suc l) p va = leaf E (Suc l) p va"
proof -
  from t obtain f where f: "S = insert p (\<Union>i<512. f i)" "p < ALL_PFN" "\<And>i. i < 512 \<Longrightarrow> p \<notin> f i"
    "\<And>i j. i < 512 \<Longrightarrow> j < 512 \<Longrightarrow> i \<noteq> j \<Longrightarrow> f i \<inter> f j = {}"
    "\<And>i. i < 512 \<Longrightarrow> pte_valid (E p i) \<Longrightarrow> PTE2PA (E p i) = get_page_addr (child E p i) \<and> pt_tree E l (child E p i) (f i)"
    "\<And>i. i < 512 \<Longrightarrow> \<not> pte_valid (E p i) \<Longrightarrow> f i = {}"
    by (rule tree_SucE) blast
  have Ei: "E' p i = v" using E'(2) i(1) by simp
  have Ej: "E' p j = E p j" if "j < 512" "j \<noteq> i" for j using E'(2) that by simp
  show ch: "child E' p i = q"
    using v(2) get_page_struct_addr [OF q(2), of 0] by (simp add: child_def Ei)
  have ag: "agree E' E (f j)" if "j < 512" for j
    using agree_subset [OF E'(1)] f(1) f(3) [OF that] that by blast
  have qf: "q \<notin> f j" if "j < 512" for j using q(1) f(1) that by blast
  define f' where "f' = f(i := {q})"
  show "pt_tree E' (Suc l) p (insert q S)"
  proof (rule tree_SucI [where f = f'])
    have "S = insert p (\<Union>j\<in>{..<512} - {i}. f j)" using f(1) f(6) [OF i] by blast
    then show "insert q S = insert p (\<Union>j<512. f' j)" unfolding f'_def union_except [OF i(1)] by blast
    show "p < ALL_PFN" by (rule f(2))
    fix j :: nat assume j: "j < 512"
    show "p \<notin> f' j" using f(3) [OF j] f(1) q(1) by (auto simp: f'_def)
    show "f' j \<inter> f' k = {}" if "k < 512" "j \<noteq> k" for k
      using f(4) [OF j that] qf [OF j] qf [OF that(1)] that(2) by (auto simp: f'_def)
    show "f' j = {}" if "\<not> pte_valid (E' p j)"
      using f(6) [OF j] that v(1) Ei Ej [OF j] by (cases "j = i") (auto simp: f'_def)
    assume val: "pte_valid (E' p j)"
    show "PTE2PA (E' p j) = get_page_addr (child E' p j) \<and> pt_tree E' l (child E' p j) (f' j)"
    proof (cases "j = i")
      case True
      then show ?thesis using v(2) ch empty_table(1) [of q E', OF q(2) E'(3)] by (simp add: f'_def Ei)
    next
      case False
      with val have "PTE2PA (E p j) = get_page_addr (child E p j) \<and> pt_tree E l (child E p j) (f j)"
        using f(5) [OF j] Ej [OF j] by simp
      then show ?thesis
        using False tree_cong [OF _ ag [OF j], of l] by (simp add: f'_def Ej j child_def)
    qed
  qed
  show "leaf E' (Suc l) p va = leaf E (Suc l) p va"
  proof (cases "px (Suc l) va = i")
    case True
    then show ?thesis
      using i(2) v(1) ch empty_table(2) [of q E' l va, OF q(2) E'(3)] by (simp add: leaf_def Ei)
  next
    case False
    let ?j = "px (Suc l) va"
    note same = Ej [OF px_less False]
    have "leaf E' l (child E p ?j) va = leaf E l (child E p ?j) va" if "pte_valid (E p ?j)"
      using f(5) [OF px_less that] leaf_cong [OF _ ag [OF px_less], of l "child E p ?j" "Suc l" va va] by blast
    then show ?thesis by (cases "pte_valid (E p ?j)") (simp_all add: leaf_def same child_def)
  qed
qed

text \<open>Writing the leaf entry of one address changes the leaf of exactly the addresses of its page.\<close>

lemma slot_update:
  assumes "pt_tree E l p S" and "slot E l p va = Some (r, i)"
    and "agree E' E (S - {r})"
  shows "pt_tree E' l p S \<and> slot E' l p w = slot E l p w"
  using assms
proof (induction l arbitrary: p S)
  case (Suc l)
  let ?i = "px (Suc l) va" and ?j = "px (Suc l) w"
  from Suc.prems(2) have v: "pte_valid (E p ?i)" and sl: "slot E l (child E p ?i) va = Some (r, i)"
    by (simp_all split: if_splits)
  obtain C where sub: "subtree E l p ?i S C" using tree_child [OF Suc.prems(1) px_less v] by blast
  note C = subtreeD [OF sub]
  have r: "r \<in> C" using slot_in [OF C(1) sl] by simp
  have ag: "agree E' E (S - C)" "agree E' E (C - {r})"
    by (rule agree_subset [OF Suc.prems(3)]; use r C(2) in blast)+
  from Suc.IH [OF C(1) sl ag(2)] have t: "pt_tree E' l (child E p ?i) C"
    and s: "slot E' l (child E p ?i) w = slot E l (child E p ?i) w" by simp_all
  have eq: "S - C \<union> C = S" using C(2) by blast
  have "pt_tree E' (Suc l) p (S - C \<union> C)" by (rule C(5) [OF t _ ag(1)]) blast
  then have "pt_tree E' (Suc l) p S" by (simp only: eq)
  moreover have same: "E' p j = E p j" if "j < 512" for j
    using ag(1) tree_root [OF Suc.prems(1)] C(3) that by (simp add: agree_def)
  have ch: "child E' p ?j = child E p ?j" by (simp add: child_def same)
  have "slot E' l (child E p ?j) w = slot E l (child E p ?j) w" if "pte_valid (E p ?j)"
  proof (cases "?j = ?i")
    case True
    with s show ?thesis by simp
  next
    case False
    from C(6) [OF px_less False that] obtain D where D: "pt_tree E l (child E p ?j) D" "D \<subseteq> S - C" by blast
    show ?thesis by (rule slot_cong(1) [OF D(1) agree_subset [OF ag(1) D(2)]])
  qed
  then have "slot E' (Suc l) p w = slot E (Suc l) p w" by (simp add: same ch)
  ultimately show ?case by blast
qed simp

lemma slot_inj:
  assumes "pt_tree E l p S" and "slot E l p va = Some x" and "slot E l p w = Some x"
  shows "\<forall>k\<le>l. px k va = px k w"
  using assms
proof (induction l arbitrary: p S)
  case (Suc l)
  let ?i = "px (Suc l) va" and ?j = "px (Suc l) w"
  from Suc.prems(2,3) have v: "pte_valid (E p ?i)" "pte_valid (E p ?j)"
    and sl: "slot E l (child E p ?i) va = Some x" "slot E l (child E p ?j) w = Some x"
    by (simp_all split: if_splits)
  obtain C where sub: "subtree E l p ?i S C" using tree_child [OF Suc.prems(1) px_less v(1)] by blast
  note C = subtreeD [OF sub]
  obtain r i where x: "x = (r, i)" by (cases x)
  have r: "r \<in> C" using slot_in [OF C(1)] sl(1) x by blast
  have eq: "?j = ?i"
  proof (rule ccontr)
    assume "?j \<noteq> ?i"
    from C(6) [OF px_less this v(2)] obtain D where D: "pt_tree E l (child E p ?j) D" "D \<subseteq> S - C" by blast
    have "r \<in> D" using slot_in [OF D(1)] sl(2) x by blast
    with D(2) r show False by blast
  qed
  with Suc.IH [OF C(1)] sl have "\<forall>k\<le>l. px k va = px k w" by simp
  with eq show ?case by (auto simp: le_Suc_eq)
qed auto

lemma leaf_update:
  assumes t: "pt_tree E l p S" and s: "slot E l p va = Some (r, i)"
    and E': "agree E' E (S - {r})" "\<forall>j<512. E' r j = (if j = i then v else E r j)"
  shows "leaf E' l p w = (if \<forall>k\<le>l. px k va = px k w then v else leaf E l p w)"
proof -
  have sw: "slot E' l p w = slot E l p w" using slot_update [OF t s E'(1)] by simp
  show ?thesis
  proof (cases "slot E l p w")
    case None
    have "slot E l p w = slot E l p va" if "\<forall>k\<le>l. px k va = px k w"
      using that by (induction l arbitrary: p) simp_all
    with None s sw show ?thesis by (auto simp: leaf_def)
  next
    case (Some x)
    obtain r' i' where x: "x = (r', i')" by (cases x)
    have in_S: "r' \<in> S" "i' < 512" using slot_in [OF t] Some x by blast+
    have iff: "(r', i') = (r, i) \<longleftrightarrow> (\<forall>k\<le>l. px k va = px k w)"
    proof
      assume "(r', i') = (r, i)"
      with slot_inj [OF t s] Some x show "\<forall>k\<le>l. px k va = px k w" by simp
    next
      assume "\<forall>k\<le>l. px k va = px k w"
      then have "slot E l p w = slot E l p va" by (induction l arbitrary: p) simp_all
      with Some s x show "(r', i') = (r, i)" by simp
    qed
    have "E' r' i' = (if (r', i') = (r, i) then v else E r' i')"
      using E' in_S by (cases "r' = r") (auto simp: agree_def)
    then have "E' r' i' = (if \<forall>k\<le>l. px k va = px k w then v else E r' i')" by (simp only: iff)
    moreover have "leaf E' l p w = E' r' i'" "leaf E l p w = E r' i'" using Some x sw by (simp_all add: leaf_def)
    ultimately show ?thesis by (simp only:)
  qed
qed

subsection \<open>Entries and addresses\<close>

lemma get_page_addr_push: "get_page_addr q = push_bit 12 (of_nat (q + 0x80000))"
  by (simp add: get_page_addr_offset push_bit_eq_mult algebra_simps)

lemma PTE2PA_PA2PTE:
  assumes "pa = push_bit 12 x" and "fl AND mask 10 = fl"
  shows "PTE2PA (PA2PTE pa OR fl) = pa"
proof (rule bit_word_eqI)
  fix n assume "n < LENGTH(64)"
  have "\<not> bit fl k" if "10 \<le> k" for k
  proof -
    have "bit fl k \<longleftrightarrow> bit (fl AND mask 10) k" using assms(2) by simp
    with that show ?thesis by (simp add: bit_simps)
  qed
  then show "bit (PTE2PA (PA2PTE pa OR fl)) n = bit pa n"
    using \<open>n < LENGTH(64)\<close> unfolding PTE2PA_def PA2PTE_def assms(1) by (auto simp: bit_simps)
qed

lemma table_entry:
  "PTE2PA (PA2PTE (get_page_addr q) OR PTE_V) = get_page_addr q" "pte_valid (PA2PTE (get_page_addr q) OR PTE_V)"
proof -
  have "(1 :: u64) AND mask 10 = 1" by (simp add: mask_eq_exp_minus_1)
  then show "PTE2PA (PA2PTE (get_page_addr q) OR PTE_V) = get_page_addr q"
    by (intro PTE2PA_PA2PTE [OF get_page_addr_push])
  have "bit ((PA2PTE (get_page_addr q) OR 1) AND 1) 0" by (simp add: bit_simps)
  then show "pte_valid (PA2PTE (get_page_addr q) OR PTE_V)" unfolding pte_valid_def by force
qed

text \<open>Below \<open>MAXVA\<close> the three indices determine the page.\<close>

lemma same_page_iff:
  assumes "va < MAXVA" and "w < MAXVA"
  shows "(\<forall>k\<le>2. px k va = px k w) \<longleftrightarrow> unat va div 4096 = unat w div 4096"
proof -
  define y where "y x = unat x div 4096" for x :: u64
  have p: "px 0 x = y x mod 512" "px 1 x = y x div 512 mod 512" "px 2 x = y x div 512 div 512 mod 512" for x
    by (simp_all add: px_eq y_def div_mult2_eq [symmetric])
  have top: "y x div 512 div 512 mod 512 = y x div 512 div 512" if "x < MAXVA" for x
  proof -
    have "unat x < 2 ^ 38" using that by (simp add: word_less_nat_alt)
    then have "y x div 512 div 512 < 512" by (simp add: y_def div_mult2_eq [symmetric] div_less_iff_less_mult)
    then show ?thesis by simp
  qed
  have "(\<forall>k\<le>2. px k va = px k w) \<longleftrightarrow> px 0 va = px 0 w \<and> px 1 va = px 1 w \<and> px 2 va = px 2 w"
    by (auto simp: numeral_2_eq_2 le_Suc_eq)
  also have "\<dots> \<longleftrightarrow> y va = y w"
  proof
    assume e: "px 0 va = px 0 w \<and> px 1 va = px 1 w \<and> px 2 va = px 2 w"
    then have "y va div 512 div 512 = y w div 512 div 512" unfolding p top [OF assms(1)] top [OF assms(2)] by simp
    moreover have "y va div 512 mod 512 = y w div 512 mod 512" using e unfolding p by simp
    ultimately have "y va div 512 = y w div 512" by (metis div_mult_mod_eq)
    moreover have "y va mod 512 = y w mod 512" using e unfolding p by simp
    ultimately show "y va = y w" by (metis div_mult_mod_eq)
  qed (simp only: p simp_thms)
  also have "\<dots> \<longleftrightarrow> unat va div 4096 = unat w div 4096" by (simp add: y_def)
  finally show ?thesis .
qed

subsection \<open>What a walk does\<close>

text \<open>
  \<open>grown l p s FL S s' FL' S'\<close>: the tree with frames \<open>S\<close> became the tree with frames \<open>S'\<close> by taking
  free frames, at most one per level, without changing a leaf or a frame outside.
\<close>

definition grown ::
  "nat \<Rightarrow> nat \<Rightarrow> mem_map \<Rightarrow> (nat \<Rightarrow> nat list) \<Rightarrow> nat set \<Rightarrow> mem_map \<Rightarrow> (nat \<Rightarrow> nat list) \<Rightarrow> nat set \<Rightarrow> bool" where
  "grown l p s FL S s' FL' S' \<longleftrightarrow>
     pt_tree (entries (ram s')) l p S' \<and> S \<subseteq> S' \<and> S' \<subseteq> S \<union> free_set FL \<and> free_set FL' = free_set FL - S' \<and>
     (\<forall>w. leaf (entries (ram s')) l p w = leaf (entries (ram s)) l p w) \<and>
     agree (entries (ram s')) (entries (ram s)) ({..< ALL_PFN} - (S \<union> free_set FL)) \<and>
     card (free_set FL) \<le> card (free_set FL') + l"

lemma grownD:
  assumes "grown l p s FL S s' FL' S'"
  shows "pt_tree (entries (ram s')) l p S'" "S \<subseteq> S'" "S' \<subseteq> S \<union> free_set FL" "free_set FL' = free_set FL - S'"
    "leaf (entries (ram s')) l p w = leaf (entries (ram s)) l p w"
    "agree (entries (ram s')) (entries (ram s)) ({..< ALL_PFN} - (S \<union> free_set FL))"
    "card (free_set FL) \<le> card (free_set FL') + l"
  using assms unfolding grown_def by blast+

lemma grown_up:
  assumes t: "pt_tree (entries (ram s)) (Suc l) p S" and sub: "subtree (entries (ram s)) l p i S C"
    and i: "i < 512" and v: "pte_valid (entries (ram s) p i)" and dis: "S \<inter> free_set FL = {}"
    and g: "grown l (child (entries (ram s)) p i) s FL C s' FL' C'"
  shows "grown (Suc l) p s FL S s' FL' (S - C \<union> C')" and "entries (ram s') p i = entries (ram s) p i"
proof -
  let ?E = "entries (ram s)" and ?E' = "entries (ram s')"
  note C = subtreeD [OF sub] and G = grownD [OF g]
  have SC: "S - C \<subseteq> {..< ALL_PFN} - (C \<union> free_set FL)" using tree_bounded [OF t] dis by blast
  then have ag: "agree ?E' ?E (S - C)" by (rule agree_subset [OF G(6)])
  have C': "C' \<inter> (S - C) = {}" using G(3) dis by blast
  have p: "p \<in> S - C" using tree_root [OF t] C(3) by blast
  have same: "?E' p j = ?E p j" if "j < 512" for j using ag p that by (simp add: agree_def)
  then show "?E' p i = ?E p i" using i by simp
  have lf: "leaf ?E' (Suc l) p w = leaf ?E (Suc l) p w" for w
  proof (cases "pte_valid (?E p (px (Suc l) w))")
    case True
    let ?j = "px (Suc l) w"
    have "leaf ?E' l (child ?E p ?j) w = leaf ?E l (child ?E p ?j) w"
    proof (cases "?j = i")
      case False
      from C(6) [OF px_less this True] obtain D where D: "pt_tree ?E l (child ?E p ?j) D" "D \<subseteq> S - C" by blast
      show ?thesis by (rule leaf_cong [OF D(1) agree_subset [OF ag D(2)]])
    qed (use G(5) in simp)
    moreover have "child ?E' p ?j = child ?E p ?j" by (simp add: child_def same)
    ultimately show ?thesis using True by (simp add: leaf_def same)
  qed (simp add: leaf_def same)
  have free: "free_set FL' = free_set FL - (S - C \<union> C')" using G(4) dis by blast
  have "agree ?E' ?E ({..< ALL_PFN} - (S \<union> free_set FL))"
    by (rule agree_subset [OF G(6)]) (use C(2) in blast)
  moreover have "pt_tree ?E' (Suc l) p (S - C \<union> C')" by (rule C(5) [OF G(1) C' ag])
  moreover have "S \<subseteq> S - C \<union> C'" "S - C \<union> C' \<subseteq> S \<union> free_set FL" using G(2,3) C(2) by blast+
  ultimately show "grown (Suc l) p s FL S s' FL' (S - C \<union> C')"
    unfolding grown_def using lf free G(7) by auto
qed

text \<open>One new table: a zeroed free frame linked below an invalid entry.\<close>

lemma added_table:
  assumes t: "pt_tree (entries (ram s)) (Suc l) p S" and i: "i < 512" "\<not> pte_valid (entries (ram s) p i)"
    and q: "q \<notin> S" "q < ALL_PFN"
    and ram: "ram s2 = store64 (entry_addr p i) (PA2PTE (get_page_addr q) OR PTE_V)
        (\<lambda>a. if unat (a - get_page_addr q) < PGSIZE then 0 else ram s a)"
  shows "pt_tree (entries (ram s2)) (Suc l) p (insert q S)" and "child (entries (ram s2)) p i = q"
    and "pte_valid (entries (ram s2) p i)"
    and "leaf (entries (ram s2)) (Suc l) p w = leaf (entries (ram s)) (Suc l) p w"
    and "agree (entries (ram s2)) (entries (ram s)) ({..< ALL_PFN} - insert q S)"
proof -
  let ?E = "entries (ram s)" and ?E2 = "entries (ram s2)"
  have pb: "p < ALL_PFN" "p \<in> S" using tree_root [OF t] by simp_all
  have E2: "?E2 r j = (if r = p \<and> j = i then PA2PTE (get_page_addr q) OR PTE_V else if r = q then 0 else ?E r j)"
    if "r < ALL_PFN" "j < 512" for r j
    unfolding ram using that i(1) pb(1) q(2) by (simp add: entries_store upd_entry_apply entries_zero)
  have E: "agree ?E2 ?E (S - {p})" "\<forall>j<512. ?E2 p j = (if j = i then PA2PTE (get_page_addr q) OR PTE_V else ?E p j)"
    "\<forall>j<512. ?E2 q j = 0"
    using E2 tree_bounded [OF t] q pb by (auto simp: agree_def subset_iff)
  show "pt_tree ?E2 (Suc l) p (insert q S)" "child ?E2 p i = q" "leaf ?E2 (Suc l) p w = leaf ?E (Suc l) p w"
    by (rule tree_add [OF t i q E table_entry(2,1)])+
  show "pte_valid (?E2 p i)" using E(2) i(1) table_entry(2) by simp
  show "agree ?E2 ?E ({..< ALL_PFN} - insert q S)" using E2 pb by (auto simp: agree_def)
qed

lemma grown_add:
  assumes q: "q \<in> free_set FL" and dis: "S \<inter> free_set FL = {}" and fin: "finite (free_set FL)"
    and FL1: "free_set FL1 = free_set FL - {q}"
    and lf: "\<And>w. leaf (entries (ram s2)) (Suc l) p w = leaf (entries (ram s)) (Suc l) p w"
    and ag: "agree (entries (ram s2)) (entries (ram s)) ({..< ALL_PFN} - insert q S)"
    and g: "grown (Suc l) p s2 FL1 (insert q S) s' FL' S'" and lv: "card (free_set FL1) \<le> card (free_set FL') + l"
  shows "grown (Suc l) p s FL S s' FL' S'"
proof -
  note G = grownD [OF g]
  have eq: "{..< ALL_PFN} - (S \<union> free_set FL) = {..< ALL_PFN} - (insert q S \<union> free_set FL1)" using FL1 q by blast
  have "agree (entries (ram s2)) (entries (ram s)) ({..< ALL_PFN} - (S \<union> free_set FL))"
    by (rule agree_subset [OF ag]) (use q in blast)
  then have "agree (entries (ram s')) (entries (ram s)) ({..< ALL_PFN} - (S \<union> free_set FL))"
    using agree_trans [OF G(6) [folded eq]] by blast
  moreover have "S \<subseteq> S'" "S' \<subseteq> S \<union> free_set FL" "free_set FL' = free_set FL - S'" using G(2,3,4) FL1 q by blast+
  moreover have "card (free_set FL) = card (free_set FL1) + 1"
    using q fin unfolding FL1 by (metis Suc_eq_plus1 card_Suc_Diff1)
  ultimately show ?thesis unfolding grown_def using G(1,5) lf lv by simp
qed

lemma grown_refl:
  assumes "pt_tree (entries (ram s)) l p S" and "S \<inter> free_set FL = {}"
  shows "grown l p s FL S s FL S"
  using assms by (auto simp: grown_def agree_def)

lemma walk_loop_ok:
  assumes "mm_ok (s, h, lk) FL" and "settled h = h"
    and "pt_tree (entries (ram s)) l p S" and "S \<inter> free_set FL = {}"
  shows "(\<exists>s' FL' S' r i. walk_loop c va True l (get_page_addr p) (s, h, lk) = Inr (Some (entry_addr r i), s', h, lk) \<and>
            mm_ok (s', h, lk) FL' \<and> grown l p s FL S s' FL' S' \<and> slot (entries (ram s')) l p va = Some (r, i) \<and>
            (slot (entries (ram s)) l p va \<noteq> None \<longrightarrow> FL' = FL)) \<or>
         (walk_loop c va True l (get_page_addr p) (s, h, lk) = Inl (Fault ''page_push(NULL)'') \<and>
          card (free_set FL) < l \<and> slot (entries (ram s)) l p va = None)"
  using assms
proof (induction l arbitrary: p S s FL)
  case 0
  then have "grown 0 p s FL S s FL S" by (intro grown_refl)
  with "0.prems"(1) show ?case by (auto simp: entry_addr_px)
next
  case (Suc l)
  let ?E = "entries (ram s)" and ?i = "px (Suc l) va"
  have ld: "load64 (ram s) (entry_addr p ?i) = ?E p ?i" by (simp add: entries_def)
  show ?case
  proof (cases "pte_valid (?E p ?i)")
    case True
    obtain C where sub: "subtree ?E l p ?i S C" using tree_child [OF Suc.prems(3) px_less True] by blast
    note C = subtreeD [OF sub]
    have dis: "C \<inter> free_set FL = {}" using C(2) Suc.prems(4) by blast
    have step: "walk_loop c va True (Suc l) (get_page_addr p) (s, h, lk) =
        walk_loop c va True l (get_page_addr (child ?E p ?i)) (s, h, lk)"
      using True C(4) by (simp add: entry_addr_px ld pte_valid_def Let_def)
    from Suc.IH [OF Suc.prems(1,2) C(1) dis] show ?thesis
    proof (elim disjE exE conjE)
      fix s' FL' C' r i
      assume w: "walk_loop c va True l (get_page_addr (child ?E p ?i)) (s, h, lk) = Inr (Some (entry_addr r i), s', h, lk)"
        "mm_ok (s', h, lk) FL'" and g: "grown l (child ?E p ?i) s FL C s' FL' C'"
        and sl: "slot (entries (ram s')) l (child ?E p ?i) va = Some (r, i)"
        and no: "slot ?E l (child ?E p ?i) va \<noteq> None \<longrightarrow> FL' = FL"
      note up = grown_up [OF Suc.prems(3) sub px_less True Suc.prems(4) g]
      have "child (entries (ram s')) p ?i = child ?E p ?i" by (simp add: child_def up(2))
      then have "slot (entries (ram s')) (Suc l) p va = Some (r, i)" using sl True by (simp add: up(2))
      moreover have "slot ?E (Suc l) p va \<noteq> None \<longrightarrow> FL' = FL" using no True by simp
      moreover have "walk_loop c va True (Suc l) (get_page_addr p) (s, h, lk) = Inr (Some (entry_addr r i), s', h, lk)"
        using w(1) by (simp only: step)
      ultimately show ?thesis using w(2) up(1) by blast
    next
      assume "walk_loop c va True l (get_page_addr (child ?E p ?i)) (s, h, lk) = Inl (Fault ''page_push(NULL)'')"
        "card (free_set FL) < l" "slot ?E l (child ?E p ?i) va = None"
      then show ?thesis using step True by simp
    qed
  next
    case False
    have none: "slot ?E (Suc l) p va = None" using False by simp
    from alloc_page_addr_cases [OF Suc.prems(1), of c 0] show ?thesis
    proof (elim disjE exE conjE)
      fix q s1 FL1
      assume a: "alloc_page_addr c 0 (s, h, lk) = Inr (get_page_addr q, s1, settled h, lk)"
        "mm_ok (s1, settled h, lk) FL1" "q < ALL_PFN" "q \<in> free_set FL" "free_set FL1 = free_set FL - {q}"
        "ram s1 = (\<lambda>a. if unat (a - get_page_addr q) < PGSIZE then 0 else ram s a)"
      define s2 where "s2 = s1\<lparr>ram := store64 (entry_addr p ?i) (PA2PTE (get_page_addr q) OR PTE_V) (ram s1)\<rparr>"
      have mz: "memset (get_page_addr q) 0 (of_nat PGSIZE) (ram s1) = Inr (ram s1)"
        unfolding a(6) by (simp add: memset_bytes cong: if_cong)
      have step: "walk_loop c va True (Suc l) (get_page_addr p) (s, h, lk) =
          walk_loop c va True l (get_page_addr q) (s2, h, lk)"
        using False a(1) mz get_page_addr_nonzero [OF a(3)] Suc.prems(2)
        by (simp add: entry_addr_px ld pte_valid_def s2_def Let_def)
      have qS: "q \<notin> S" using a(4) Suc.prems(4) by blast
      have ram2: "ram s2 = store64 (entry_addr p ?i) (PA2PTE (get_page_addr q) OR PTE_V)
          (\<lambda>a. if unat (a - get_page_addr q) < PGSIZE then 0 else ram s a)" by (simp add: s2_def a(6))
      note new = added_table [OF Suc.prems(3) px_less False qS a(3) ram2]
      have ok2: "mm_ok (s2, h, lk) FL1" using a(2) Suc.prems(2) by (simp add: mm_ok_def buddy_inv_def s2_def)
      have dis2: "insert q S \<inter> free_set FL1 = {}" using a(5) Suc.prems(4) by blast
      obtain C where sub: "subtree (entries (ram s2)) l p ?i (insert q S) C" using tree_child [OF new(1) px_less new(3)] by blast
      note C = subtreeD [OF sub, unfolded new(2)]
      have dis: "C \<inter> free_set FL1 = {}" using C(2) dis2 by blast
      have fin: "finite (free_set FL)" by (rule free_set_finite [OF Suc.prems(1)])
      from Suc.IH [OF ok2 Suc.prems(2) C(1) dis] show ?thesis
      proof (elim disjE exE conjE)
        fix s' FL' C' r i
        assume w: "walk_loop c va True l (get_page_addr q) (s2, h, lk) = Inr (Some (entry_addr r i), s', h, lk)"
          "mm_ok (s', h, lk) FL'" and g: "grown l q s2 FL1 C s' FL' C'" and sl: "slot (entries (ram s')) l q va = Some (r, i)"
        note up = grown_up [OF new(1) sub px_less new(3) dis2, unfolded new(2), OF g]
        have "child (entries (ram s')) p ?i = q" using new(2) by (simp add: child_def up(2))
        then have "slot (entries (ram s')) (Suc l) p va = Some (r, i)" using sl new(3) by (simp add: up(2))
        moreover have "grown (Suc l) p s FL S s' FL' (insert q S - C \<union> C')"
          by (rule grown_add [OF a(4) Suc.prems(4) fin a(5) new(4,5) up(1) grownD(7) [OF g]])
        moreover have "walk_loop c va True (Suc l) (get_page_addr p) (s, h, lk) = Inr (Some (entry_addr r i), s', h, lk)"
          using w(1) by (simp only: step)
        ultimately show ?thesis using w(2) none by blast
      next
        assume "walk_loop c va True l (get_page_addr q) (s2, h, lk) = Inl (Fault ''page_push(NULL)'')" "card (free_set FL1) < l"
        moreover have "card (free_set FL) = card (free_set FL1) + 1"
          using a(4) fin unfolding a(5) by (metis Suc_eq_plus1 card_Suc_Diff1)
        ultimately show ?thesis using step none by simp
      qed
    next
      assume "alloc_page_addr c 0 (s, h, lk) = Inl (Fault ''page_push(NULL)'')" "free_set FL = {}"
      then show ?thesis using False none by (simp add: entry_addr_px ld pte_valid_def Let_def)
    qed
  qed
qed

subsection \<open>What mapping a range does\<close>

definition vpn :: "u64 \<Rightarrow> nat" where
  "vpn w = unat w div PGSIZE"

definition page_at :: "nat \<Rightarrow> u64" where
  "page_at v = of_nat (v * PGSIZE)"

text \<open>
  \<open>mapped p v n pa perm \<dots>\<close>: the tree at \<open>p\<close> took some free frames as tables and translates the \<open>n\<close>
  virtual pages from \<open>v\<close> on to the frames from \<open>pa\<close> on; every other translation is as before, as are
  the frames outside of the tree and the free ones.
\<close>

definition mapped ::
  "nat \<Rightarrow> nat \<Rightarrow> nat \<Rightarrow> u64 \<Rightarrow> u64 \<Rightarrow> mem_map \<Rightarrow> (nat \<Rightarrow> nat list) \<Rightarrow> nat set \<Rightarrow>
   mem_map \<Rightarrow> (nat \<Rightarrow> nat list) \<Rightarrow> nat set \<Rightarrow> bool" where
  "mapped p v n pa perm s FL S s' FL' S' \<longleftrightarrow>
     pt_tree (entries (ram s')) 2 p S' \<and> S \<subseteq> S' \<and> S' \<subseteq> S \<union> free_set FL \<and> free_set FL' = free_set FL - S' \<and>
     agree (entries (ram s')) (entries (ram s)) ({..< ALL_PFN} - (S \<union> free_set FL)) \<and>
     (\<forall>w < MAXVA. leaf (entries (ram s')) 2 p w =
        (if v \<le> vpn w \<and> vpn w < v + n then PA2PTE (pa + page_at (vpn w - v)) OR perm OR PTE_V
         else leaf (entries (ram s)) 2 p w))"

lemma mappedD:
  assumes "mapped p v n pa perm s FL S s' FL' S'"
  shows "pt_tree (entries (ram s')) 2 p S'" "S \<subseteq> S'" "S' \<subseteq> S \<union> free_set FL" "free_set FL' = free_set FL - S'"
    "agree (entries (ram s')) (entries (ram s)) ({..< ALL_PFN} - (S \<union> free_set FL))"
    "w < MAXVA \<Longrightarrow> leaf (entries (ram s')) 2 p w =
        (if v \<le> vpn w \<and> vpn w < v + n then PA2PTE (pa + page_at (vpn w - v)) OR perm OR PTE_V
         else leaf (entries (ram s)) 2 p w)"
  using assms unfolding mapped_def by blast+

lemma mapped_trans:
  assumes a: "mapped p v m pa perm s FL S s1 FL1 S1"
    and b: "mapped p (v + m) n (pa + page_at m) perm s1 FL1 S1 s2 FL2 S2"
  shows "mapped p v (m + n) pa perm s FL S s2 FL2 S2"
proof -
  note A = mappedD [OF a] and B = mappedD [OF b]
  have eq: "{..< ALL_PFN} - (S1 \<union> free_set FL1) = {..< ALL_PFN} - (S \<union> free_set FL)" using A(2,3,4) by blast
  have "leaf (entries (ram s2)) 2 p w =
      (if v \<le> vpn w \<and> vpn w < v + (m + n) then PA2PTE (pa + page_at (vpn w - v)) OR perm OR PTE_V
       else leaf (entries (ram s)) 2 p w)" if w: "w < MAXVA" for w
  proof (cases "v + m \<le> vpn w \<and> vpn w < v + m + n")
    case True
    then have "page_at m + page_at (vpn w - (v + m)) = page_at (vpn w - v)"
      unfolding page_at_def of_nat_add [symmetric] distrib_right [symmetric] by (intro arg_cong [where f = of_nat]) simp
    with True show ?thesis by (simp add: B(6) [OF w] add.assoc)
  qed (use A(6) [OF w] B(6) [OF w] in auto)
  moreover have "agree (entries (ram s2)) (entries (ram s)) ({..< ALL_PFN} - (S \<union> free_set FL))"
    using agree_trans [OF B(5) [unfolded eq] A(5)] .
  moreover have "S \<subseteq> S2" "S2 \<subseteq> S \<union> free_set FL" "free_set FL2 = free_set FL - S2" using A(2-4) B(2-4) by blast+
  ultimately show ?thesis unfolding mapped_def using B(1) by blast
qed

lemma vpn_page_at: "v < 2 ^ 26 \<Longrightarrow> vpn (page_at v) = v"
  and unat_page_at: "v < 2 ^ 26 \<Longrightarrow> unat (page_at v) = v * PGSIZE"
proof -
  have "unat (page_at v) = v * PGSIZE" if "v < 2 ^ 26"
    unfolding page_at_def using that by (intro unat_of_nat_small) simp
  then show "v < 2 ^ 26 \<Longrightarrow> vpn (page_at v) = v" "v < 2 ^ 26 \<Longrightarrow> unat (page_at v) = v * PGSIZE"
    by (simp_all add: vpn_def)
qed

lemma page_at_less: "v < 2 ^ 26 \<Longrightarrow> page_at v < MAXVA"
  using unat_page_at [of v] by (simp add: word_less_nat_alt)

lemma same_vpn: "va < MAXVA \<Longrightarrow> w < MAXVA \<Longrightarrow> (\<forall>k\<le>2. px k va = px k w) \<longleftrightarrow> vpn va = vpn w"
  by (simp add: same_page_iff vpn_def)

text \<open>One page: the walk, then the store of the entry.\<close>

lemma map_page:
  assumes g: "grown 2 p s FL S s1 FL1 S1" and sl: "slot (entries (ram s1)) 2 p (page_at v) = Some (r, i)"
    and v: "v < 2 ^ 26" and dis: "S \<inter> free_set FL = {}"
    and s2: "s2 = s1\<lparr>ram := store64 (entry_addr r i) (PA2PTE pa OR perm OR PTE_V) (ram s1)\<rparr>"
  shows "mapped p v 1 pa perm s FL S s2 FL1 S1" and "slot (entries (ram s2)) 2 p w = slot (entries (ram s1)) 2 p w"
proof -
  let ?E1 = "entries (ram s1)" and ?E2 = "entries (ram s2)" and ?e = "PA2PTE pa OR perm OR PTE_V"
  note G = grownD [OF g]
  have r: "r \<in> S1" "i < 512" using slot_in [OF G(1) sl] by auto
  then have rb: "r < ALL_PFN" using tree_bounded [OF G(1)] by blast
  have E2: "?E2 q j = (if q = r \<and> j = i then ?e else ?E1 q j)" if "q < ALL_PFN" "j < 512" for q j
    unfolding s2 using that rb r(2) by (simp add: entries_store upd_entry_apply)
  have ag: "agree ?E2 ?E1 (S1 - {r})" "\<forall>j<512. ?E2 r j = (if j = i then ?e else ?E1 r j)"
    using E2 tree_bounded [OF G(1)] rb by (auto simp: agree_def subset_iff)
  note su = slot_update [OF G(1) sl ag(1)]
  from su show "slot ?E2 2 p w = slot ?E1 2 p w" by simp
  have lf: "leaf ?E2 2 p w = (if vpn w = v then ?e else leaf (entries (ram s)) 2 p w)" if w: "w < MAXVA" for w
    using leaf_update [OF G(1) sl ag, of w] same_vpn [OF page_at_less [OF v] w]
    by (auto simp: G(5) vpn_page_at [OF v])
  have "S1 \<subseteq> S \<union> free_set FL" by (rule G(3))
  then have "agree ?E2 ?E1 ({..< ALL_PFN} - (S \<union> free_set FL))" using E2 r(1) by (auto simp: agree_def)
  then have "agree ?E2 (entries (ram s)) ({..< ALL_PFN} - (S \<union> free_set FL))" using agree_trans G(6) by blast
  moreover have "leaf ?E2 2 p w = (if v \<le> vpn w \<and> vpn w < v + 1 then PA2PTE (pa + page_at (vpn w - v)) OR perm OR PTE_V
       else leaf (entries (ram s)) 2 p w)" if "w < MAXVA" for w
    using lf [OF that] by (auto simp: page_at_def)
  ultimately show "mapped p v 1 pa perm s FL S s2 FL1 S1" unfolding mapped_def using su G(2-4) by blast
qed

text \<open>Pages of the same two megabytes share their last table.\<close>

lemma slot_same_region:
  assumes "v div 512 = u div 512" and "v < 2 ^ 26" and "u < 2 ^ 26"
  shows "slot E 2 p (page_at v) = None \<longleftrightarrow> slot E 2 p (page_at u) = None"
proof -
  have "px 1 (page_at x) = x div 512 mod 512" "px 2 (page_at x) = x div 512 div 512 mod 512" if "x < 2 ^ 26" for x
    using unat_page_at [OF that] by (simp_all add: px_eq div_mult2_eq [symmetric])
  with assms show ?thesis by (simp add: numeral_2_eq_2)
qed

text \<open>The tables that mapping the pages from \<open>v\<close> to \<open>v + n\<close> may need.\<close>

definition tables_needed :: "(nat \<Rightarrow> nat \<Rightarrow> u64) \<Rightarrow> nat \<Rightarrow> nat \<Rightarrow> nat \<Rightarrow> nat" where
  "tables_needed E p v n = 2 * ((v + n) div 512 - v div 512) + (if slot E 2 p (page_at v) = None then 2 else 0)"

lemma tables_needed_Suc:
  assumes "slot E' 2 p (page_at v) \<noteq> None" and "v + Suc n < 2 ^ 26"
  shows "tables_needed E' p (Suc v) n + (if slot E 2 p (page_at v) = None then 2 else 0) \<le> tables_needed E p v (Suc n)"
proof (cases "Suc v div 512 = v div 512")
  case True
  then have "slot E' 2 p (page_at (Suc v)) \<noteq> None" using slot_same_region [OF True] assms by simp
  with True show ?thesis by (simp add: tables_needed_def)
next
  case False
  then have "Suc v div 512 = Suc (v div 512)" by (simp add: div_Suc split: if_splits)
  moreover have "Suc v div 512 \<le> (v + Suc n) div 512" by (intro div_le_mono) simp
  moreover have "2 * (b - Suc a) + x + y \<le> 2 * (b - a) + y" if "Suc a \<le> b" "x \<le> 2" for a b x y :: nat using that by linarith
  ultimately show ?thesis unfolding tables_needed_def by (simp only: add_Suc add_Suc_right) simp
qed

text \<open>One round of the loop of \<open>mappages\<close>.\<close>

lemma mappages_page:
  assumes ok: "mm_ok (s, h, lk) FL" "settled h = h" and t: "pt_tree (entries (ram s)) 2 p S"
    and dis: "S \<inter> free_set FL = {}" and v: "v < 2 ^ 26"
    and nv: "\<not> pte_valid (leaf (entries (ram s)) 2 p (page_at v))"
    and need: "tables_needed (entries (ram s)) p v 0 \<le> card (free_set FL)"
  obtains s' FL' S' where
    "\<forall>lst. mappages_loop c (get_page_addr p) lst perm (page_at v) pa (s, h, lk) =
       (if page_at v = lst then Inr (Mapped, s', h, lk)
        else if unat (lst - page_at v) < PGSIZE then Inl Spins
        else mappages_loop c (get_page_addr p) lst perm (page_at v + of_nat PGSIZE) (pa + of_nat PGSIZE) (s', h, lk))"
    and "mm_ok (s', h, lk) FL'" and "mapped p v 1 pa perm s FL S s' FL' S'"
    and "slot (entries (ram s')) 2 p (page_at v) \<noteq> None"
    and "card (free_set FL) \<le> card (free_set FL') + tables_needed (entries (ram s)) p v 0"
proof -
  have w: "walk c (get_page_addr p) (page_at v) True (s, h, lk) = walk_loop c (page_at v) True 2 (get_page_addr p) (s, h, lk)"
    using page_at_less [OF v] by (simp add: walk_def not_le [symmetric])
  from walk_loop_ok [OF ok t dis, of c "page_at v"] show ?thesis
  proof (elim disjE exE conjE)
    fix s1 FL1 S1 r i
    assume r: "walk_loop c (page_at v) True 2 (get_page_addr p) (s, h, lk) = Inr (Some (entry_addr r i), s1, h, lk)"
      and ok1: "mm_ok (s1, h, lk) FL1" and g: "grown 2 p s FL S s1 FL1 S1"
      and sl: "slot (entries (ram s1)) 2 p (page_at v) = Some (r, i)"
      and same: "slot (entries (ram s)) 2 p (page_at v) \<noteq> None \<longrightarrow> FL1 = FL"
    define s2 where "s2 = s1\<lparr>ram := store64 (entry_addr r i) (PA2PTE pa OR perm OR PTE_V) (ram s1)\<rparr>"
    note m = map_page [OF g sl v dis s2_def]
    have "leaf (entries (ram s1)) 2 p (page_at v) = load64 (ram s1) (entry_addr r i)"
      using sl by (simp add: leaf_def entries_def)
    then have inv: "load64 (ram s1) (entry_addr r i) AND PTE_V = 0" using nv grownD(5) [OF g] by (simp add: pte_valid_def)
    show ?thesis
    proof (rule that [OF _ _ m(1)])
      show "\<forall>lst. mappages_loop c (get_page_addr p) lst perm (page_at v) pa (s, h, lk) =
          (if page_at v = lst then Inr (Mapped, s2, h, lk) else if unat (lst - page_at v) < PGSIZE then Inl Spins
           else mappages_loop c (get_page_addr p) lst perm (page_at v + of_nat PGSIZE) (pa + of_nat PGSIZE) (s2, h, lk))"
        by (intro allI, subst mappages_loop.simps) (simp add: w r inv s2_def Let_def)
      show "mm_ok (s2, h, lk) FL1" using ok1 by (simp add: mm_ok_def buddy_inv_def s2_def)
      show "slot (entries (ram s2)) 2 p (page_at v) \<noteq> None" using m(2) sl by simp
      show "card (free_set FL) \<le> card (free_set FL1) + tables_needed (entries (ram s)) p v 0"
        using same grownD(7) [OF g] by (cases "slot (entries (ram s)) 2 p (page_at v)") (simp_all add: tables_needed_def)
    qed
  next
    assume "card (free_set FL) < 2" "slot (entries (ram s)) 2 p (page_at v) = None"
    then show ?thesis using need by (simp add: tables_needed_def)
  qed
qed

lemma page_at_Suc: "page_at v + of_nat PGSIZE = page_at (Suc v)"
  by (simp add: page_at_def algebra_simps)

lemma mappages_loop_ok:
  assumes "mm_ok (s, h, lk) FL" and "settled h = h" and "pt_tree (entries (ram s)) 2 p S"
    and "S \<inter> free_set FL = {}" and "v + n < 2 ^ 26"
    and "\<forall>k. v \<le> k \<and> k \<le> v + n \<longrightarrow> \<not> pte_valid (leaf (entries (ram s)) 2 p (page_at k))"
    and "tables_needed (entries (ram s)) p v n \<le> card (free_set FL)"
  shows "\<exists>s' FL' S'. mappages_loop c (get_page_addr p) (page_at (v + n)) perm (page_at v) pa (s, h, lk) = Inr (Mapped, s', h, lk) \<and>
           mm_ok (s', h, lk) FL' \<and> mapped p v (Suc n) pa perm s FL S s' FL' S' \<and>
           card (free_set FL) \<le> card (free_set FL') + tables_needed (entries (ram s)) p v n"
  using assms
proof (induction n arbitrary: v s FL S pa)
  case 0
  from 0(5) have v: "v < 2 ^ 26" by simp
  obtain s' FL' S' where "\<forall>lst. mappages_loop c (get_page_addr p) lst perm (page_at v) pa (s, h, lk) =
       (if page_at v = lst then Inr (Mapped, s', h, lk) else if unat (lst - page_at v) < PGSIZE then Inl Spins
        else mappages_loop c (get_page_addr p) lst perm (page_at v + of_nat PGSIZE) (pa + of_nat PGSIZE) (s', h, lk))"
      "mm_ok (s', h, lk) FL'" "mapped p v 1 pa perm s FL S s' FL' S'"
      "card (free_set FL) \<le> card (free_set FL') + tables_needed (entries (ram s)) p v 0"
    by (rule mappages_page [OF 0(1-4) v, where pa = pa and c = c and perm = perm]) (use 0(6,7) in auto)
  then show ?case by auto
next
  case (Suc n)
  let ?E = "entries (ram s)"
  from Suc.prems(5) have v: "v < 2 ^ 26" by simp
  have "tables_needed ?E p v 0 \<le> tables_needed ?E p v (Suc n)" by (simp add: tables_needed_def)
  with Suc.prems(7) have need: "tables_needed ?E p v 0 \<le> card (free_set FL)" by linarith
  have nv: "\<not> pte_valid (leaf ?E 2 p (page_at v))" using Suc.prems(6) by simp
  obtain s1 FL1 S1 where
    step: "\<forall>lst. mappages_loop c (get_page_addr p) lst perm (page_at v) pa (s, h, lk) =
       (if page_at v = lst then Inr (Mapped, s1, h, lk) else if unat (lst - page_at v) < PGSIZE then Inl Spins
        else mappages_loop c (get_page_addr p) lst perm (page_at v + of_nat PGSIZE) (pa + of_nat PGSIZE) (s1, h, lk))"
    and ok1: "mm_ok (s1, h, lk) FL1" and m1: "mapped p v 1 pa perm s FL S s1 FL1 S1"
    and sl: "slot (entries (ram s1)) 2 p (page_at v) \<noteq> None"
    and c1: "card (free_set FL) \<le> card (free_set FL1) + tables_needed ?E p v 0"
    by (rule mappages_page [OF Suc.prems(1-4) v nv need, where pa = pa and c = c and perm = perm]) (rule that)
  note M = mappedD [OF m1]
  have dis: "S1 \<inter> free_set FL1 = {}" using M(4) by blast
  have lf: "leaf (entries (ram s1)) 2 p (page_at k) = leaf ?E 2 p (page_at k)" if "Suc v \<le> k" "k \<le> Suc v + n" for k
    using M(6) [of "page_at k"] page_at_less [of k] vpn_page_at [of k] that Suc.prems(5) by simp
  have cost: "tables_needed (entries (ram s1)) p (Suc v) n + tables_needed ?E p v 0 \<le> tables_needed ?E p v (Suc n)"
    using tables_needed_Suc [OF sl Suc.prems(5), of ?E] by (simp add: tables_needed_def)
  have far: "unat (page_at (v + Suc n) - page_at v) = Suc n * PGSIZE"
  proof -
    have "page_at (v + Suc n) - page_at v = page_at (Suc n)" by (simp add: page_at_def algebra_simps)
    then show ?thesis using unat_page_at [of "Suc n"] Suc.prems(5) by simp
  qed
  then have "page_at (v + Suc n) \<noteq> page_at v" by auto
  then have run: "mappages_loop c (get_page_addr p) (page_at (v + Suc n)) perm (page_at v) pa (s, h, lk) =
      mappages_loop c (get_page_addr p) (page_at (Suc v + n)) perm (page_at (Suc v)) (pa + of_nat PGSIZE) (s1, h, lk)"
    using far by (subst step [rule_format]) (simp add: page_at_Suc [simplified])
  have "\<exists>s' FL' S'. mappages_loop c (get_page_addr p) (page_at (Suc v + n)) perm (page_at (Suc v)) (pa + of_nat PGSIZE) (s1, h, lk) =
           Inr (Mapped, s', h, lk) \<and> mm_ok (s', h, lk) FL' \<and>
           mapped p (Suc v) (Suc n) (pa + of_nat PGSIZE) perm s1 FL1 S1 s' FL' S' \<and>
           card (free_set FL1) \<le> card (free_set FL') + tables_needed (entries (ram s1)) p (Suc v) n"
  proof (rule Suc.IH [OF ok1 Suc.prems(2) M(1) dis])
    show "Suc v + n < 2 ^ 26" using Suc.prems(5) by simp
    show "\<forall>k. Suc v \<le> k \<and> k \<le> Suc v + n \<longrightarrow> \<not> pte_valid (leaf (entries (ram s1)) 2 p (page_at k))"
      using lf Suc.prems(6) by simp
    show "tables_needed (entries (ram s1)) p (Suc v) n \<le> card (free_set FL1)" using cost c1 Suc.prems(7) by linarith
  qed
  then obtain s' FL' S' where r: "mappages_loop c (get_page_addr p) (page_at (Suc v + n)) perm (page_at (Suc v))
        (pa + of_nat PGSIZE) (s1, h, lk) = Inr (Mapped, s', h, lk)" "mm_ok (s', h, lk) FL'"
    and m2: "mapped p (Suc v) (Suc n) (pa + of_nat PGSIZE) perm s1 FL1 S1 s' FL' S'"
    and c2: "card (free_set FL1) \<le> card (free_set FL') + tables_needed (entries (ram s1)) p (Suc v) n" by blast
  have "mapped p v (1 + Suc n) pa perm s FL S s' FL' S'" using m2 by (intro mapped_trans [OF m1]) (simp add: page_at_def)
  moreover have "card (free_set FL) \<le> card (free_set FL') + tables_needed ?E p v (Suc n)" using c1 c2 cost by linarith
  ultimately show ?case using r run by auto
qed

lemma mappages_ok:
  assumes ok: "mm_ok (s, h, bl) FL" and ml: "lock_free ml" and t: "pt_tree (entries (ram s)) 2 p S"
    and dis: "S \<inter> free_set FL = {}" and v: "v + n < 2 ^ 26"
    and nv: "\<forall>k. v \<le> k \<and> k \<le> v + n \<longrightarrow> \<not> pte_valid (leaf (entries (ram s)) 2 p (page_at k))"
    and need: "tables_needed (entries (ram s)) p v n \<le> card (free_set FL)"
  shows "\<exists>s' FL' S'. mappages c (get_page_addr p) (page_at v) pa (page_at (Suc n)) perm ((s, h, bl), ml) =
             Inr (0, (s', settled h, bl), ml) \<and>
           mm_ok (s', settled h, bl) FL' \<and> mapped p v (Suc n) pa perm s FL S s' FL' S' \<and>
           card (free_set FL) \<le> card (free_set FL') + tables_needed (entries (ram s)) p v n"
proof -
  have h: "hart_ok h" using ok by (simp add: mm_ok_def)
  have ok1: "mm_ok (s, push_off h, bl) FL" and st: "settled (push_off h) = push_off h"
    using ok by (auto simp: mm_ok_def hart_ok_def settled_def push_off_def intr_off_def Let_def)
  obtain s' FL' S' where r: "mappages_loop c (get_page_addr p) (page_at (v + n)) perm (page_at v) pa (s, push_off h, bl) =
        Inr (Mapped, s', push_off h, bl)"
      "mm_ok (s', push_off h, bl) FL'" "mapped p v (Suc n) pa perm s FL S s' FL' S'"
      "card (free_set FL) \<le> card (free_set FL') + tables_needed (entries (ram s)) p v n"
    using mappages_loop_ok [OF ok1 st t dis v nv need] by blast
  have u: "unat (page_at k) = k * PGSIZE" if "k \<le> 2 ^ 26" for k
    unfolding page_at_def using that by (intro unat_of_nat_small) simp
  have al: "page_at k mod of_nat PGSIZE = 0" if "k \<le> 2 ^ 26" for k
    using u [OF that] by (intro word_unat_eq_iff [THEN iffD2]) (simp add: unat_mod)
  have sz: "page_at (Suc n) \<noteq> 0" using u [of "Suc n"] v by auto
  have last: "page_at v + page_at (Suc n) - of_nat PGSIZE = page_at (v + n)" by (simp add: page_at_def algebra_simps)
  have "mappages c (get_page_addr p) (page_at v) pa (page_at (Suc n)) perm ((s, h, bl), ml) = Inr (0, (s', settled h, bl), ml)"
    unfolding mappages_def last using al [of v] al [of "Suc n"] v sz r(1) spin_unlock_held [OF h ml]
    by (simp add: spin_lock_free [OF ml])
  moreover have "mm_ok (s', settled h, bl) FL'" using r(2) h by (simp add: mm_ok_def)
  ultimately show ?thesis using r(3,4) by blast
qed

subsection \<open>The kernel's page table\<close>

text \<open>The table at \<open>p\<close> translates page \<open>x\<close> by the entry \<open>M x\<close>, with \<open>k\<close> frames free.\<close>

definition table_is :: "nat \<Rightarrow> (nat \<Rightarrow> u64) \<Rightarrow> nat \<Rightarrow> buddy \<Rightarrow> bool" where
  "table_is p M k st \<longleftrightarrow> (\<exists>FL S. mm_ok st FL \<and> pt_tree (entries (ram (fst st))) 2 p S \<and> S \<inter> free_set FL = {} \<and>
     (\<forall>w < MAXVA. leaf (entries (ram (fst st))) 2 p w = M (vpn w)) \<and> k \<le> card (free_set FL))"

lemma table_is_mono: "table_is p M k' st \<Longrightarrow> k \<le> k' \<Longrightarrow> table_is p M k st"
  unfolding table_is_def by (meson le_trans)

definition ident :: "u64 \<Rightarrow> nat \<Rightarrow> u64" where
  "ident perm x = PA2PTE (page_at x) OR perm OR PTE_V"

lemma kvm_map_ok:
  assumes t: "table_is p M (2 * (n div 512) + 4 + k) (s, h, bl)" and ml: "lock_free ml" and v: "v + n < 2 ^ 26"
    and M: "\<forall>x. v \<le> x \<and> x \<le> v + n \<longrightarrow> M x = 0"
  obtains s' where
    "kvm_map c (get_page_addr p) (page_at v) (page_at v) (page_at (Suc n)) perm ((s, h, bl), ml) = Inr ((s', settled h, bl), ml)"
    and "table_is p (\<lambda>x. if v \<le> x \<and> x \<le> v + n then ident perm x else M x) k (s', settled h, bl)"
proof -
  let ?E = "entries (ram s)"
  from t obtain FL S where ok: "mm_ok (s, h, bl) FL" and tr: "pt_tree ?E 2 p S" and dis: "S \<inter> free_set FL = {}"
    and lf: "\<And>w. w < MAXVA \<Longrightarrow> leaf ?E 2 p w = M (vpn w)" and k: "2 * (n div 512) + 4 + k \<le> card (free_set FL)"
    by (auto simp: table_is_def)
  have "(v + n) div 512 \<le> v div 512 + n div 512 + 1" by linarith
  then have need: "tables_needed ?E p v n \<le> 2 * (n div 512) + 4" by (auto simp: tables_needed_def)
  with k have need': "tables_needed ?E p v n \<le> card (free_set FL)" by linarith
  have nv: "\<forall>k. v \<le> k \<and> k \<le> v + n \<longrightarrow> \<not> pte_valid (leaf ?E 2 p (page_at k))"
    using lf [OF page_at_less] vpn_page_at M v by (simp add: pte_valid_def)
  obtain s' FL' S' where r: "mappages c (get_page_addr p) (page_at v) (page_at v) (page_at (Suc n)) perm ((s, h, bl), ml) =
        Inr (0, (s', settled h, bl), ml)" and ok': "mm_ok (s', settled h, bl) FL'"
    and m: "mapped p v (Suc n) (page_at v) perm s FL S s' FL' S'"
    and c: "card (free_set FL) \<le> card (free_set FL') + tables_needed ?E p v n"
    using mappages_ok [OF ok ml tr dis v nv need'] by blast
  note D = mappedD [OF m]
  have "leaf (entries (ram s')) 2 p w = (if v \<le> vpn w \<and> vpn w \<le> v + n then ident perm (vpn w) else M (vpn w))" if w: "w < MAXVA" for w
  proof -
    have "page_at v + page_at (vpn w - v) = page_at (vpn w)" if "v \<le> vpn w"
      unfolding page_at_def of_nat_add [symmetric] distrib_right [symmetric] using that by simp
    then show ?thesis using D(6) [OF w] lf [OF w] by (auto simp: ident_def)
  qed
  moreover have "k \<le> card (free_set FL')" using c k need by linarith
  moreover have "S' \<inter> free_set FL' = {}" using D(4) by blast
  ultimately have "table_is p (\<lambda>x. if v \<le> x \<and> x \<le> v + n then ident perm x else M x) k (s', settled h, bl)"
    unfolding table_is_def using ok' D(1) by (intro exI [of _ FL'] exI [of _ S']) simp
  then show ?thesis using that r by (simp add: kvm_map_def)
qed

text \<open>The entries the kernel's table is meant to have: devices, text and data mapped to themselves.\<close>

definition kernel_entry :: "nat \<Rightarrow> nat \<Rightarrow> u64" where
  "kernel_entry e x =
     (if x = 0x10000 \<or> x = 0x10001 \<or> 0xc000 \<le> x \<and> x < 0x10000 \<or> e \<le> x \<and> x < 0x88000 then ident (PTE_R OR PTE_W) x
      else if 0x80000 \<le> x \<and> x < e then ident (PTE_R OR PTE_X) x
      else 0)"

lemma kvm_init_table:
  assumes ok: "mm_ok (s, h, bl) FL" and free: "0 < card (free_set FL)"
  obtains p s' where "alloc_pgt c ((s, h, bl), ml) = Inr (get_page_addr p, (s', settled h, bl), ml)"
    and "memset (get_page_addr p) 0 (of_nat PGSIZE) (ram s') = Inr (ram s')" and "p < ALL_PFN"
    and "table_is p (\<lambda>x. 0) (card (free_set FL) - 1) (s', settled h, bl)"
proof -
  have "free_set FL \<noteq> {}" using free by auto
  with alloc_page_addr_cases [OF ok, of c 0] obtain p s' FL' where
    a: "alloc_page_addr c 0 (s, h, bl) = Inr (get_page_addr p, s', settled h, bl)"
      "mm_ok (s', settled h, bl) FL'" "p < ALL_PFN" "p \<in> free_set FL" "free_set FL' = free_set FL - {p}"
      "ram s' = (\<lambda>a. if unat (a - get_page_addr p) < PGSIZE then 0 else ram s a)" by blast
  have z: "\<forall>i<512. entries (ram s') p i = 0" unfolding a(6) using a(3) by (simp add: entries_zero)
  have "table_is p (\<lambda>x. 0) (card (free_set FL) - 1) (s', settled h, bl)"
    unfolding table_is_def using a(2) a(4,5) empty_table [of p "entries (ram s')", OF a(3) z] free_set_finite [OF ok]
    by (intro exI [of _ FL'] exI [of _ "{p}"]) simp
  moreover have "memset (get_page_addr p) 0 (of_nat PGSIZE) (ram s') = Inr (ram s')"
    unfolding a(6) by (simp add: memset_bytes cong: if_cong)
  ultimately show ?thesis using that a(1,3) by (simp add: alloc_pgt_def)
qed

lemma kvm_map_step:
  assumes t: "table_is p M (k + cost) (s, h, bl)" and cost: "2 * (n div 512) + 4 \<le> cost"
    and hl: "settled h = h" "lock_free ml" and v: "v + n < 2 ^ 26" "va = page_at v" "sz = page_at (Suc n)"
    and M: "\<forall>x. v \<le> x \<and> x \<le> v + n \<longrightarrow> M x = 0"
      "\<forall>x. M' x = (if v \<le> x \<and> x \<le> v + n then ident perm x else M x)"
  shows "\<exists>s'. kvm_map c (get_page_addr p) va va sz perm ((s, h, bl), ml) = Inr ((s', h, bl), ml) \<and>
    table_is p M' k (s', h, bl)"
proof -
  have "M' = (\<lambda>x. if v \<le> x \<and> x \<le> v + n then ident perm x else M x)" using M(2) by blast
  moreover have "table_is p M (2 * (n div 512) + 4 + k) (s, h, bl)"
    using cost by (intro table_is_mono [OF t]) simp
  ultimately show ?thesis
    using kvm_map_ok [OF _ hl(2) v(1) M(1), of p k s h bl c perm] unfolding v(2,3) hl(1) by blast
qed

lemma kvm_init_ok:
  assumes ok: "mm_ok (s, h, bl) FL" and ml: "lock_free ml" and free: "400 \<le> card (free_set FL)"
    and e: "0x80000 < e" "e < 0x88000"
  shows "\<exists>p s'. kvm_init c (page_at e) ((s, h, bl), ml) = Inr (get_page_addr p, (s', settled h, bl), ml) \<and>
    p < ALL_PFN \<and> table_is p (kernel_entry e) 0 (s', settled h, bl)"
proof -
  let ?rw = "PTE_R OR PTE_W" and ?rx = "PTE_R OR PTE_X" and ?h = "settled h"
  define M1 where "M1 x = (if x = 0x10000 then ident ?rw x else 0)" for x
  define M2 where "M2 x = (if x = 0x10000 \<or> x = 0x10001 then ident ?rw x else 0)" for x
  define M3 where "M3 x = (if x = 0x10000 \<or> x = 0x10001 \<or> 0xc000 \<le> x \<and> x < 0x10000 then ident ?rw x else 0)" for x
  define M4 where "M4 x = (if 0x80000 \<le> x \<and> x < e then ident ?rx x else M3 x)" for x
  have "card (free_set FL) > 0" using free by simp
  from kvm_init_table [OF ok this, of c ml] obtain p s0 where
    a: "alloc_pgt c ((s, h, bl), ml) = Inr (get_page_addr p, (s0, ?h, bl), ml)"
      "memset (get_page_addr p) 0 (of_nat PGSIZE) (ram s0) = Inr (ram s0)" "p < ALL_PFN"
    and t: "table_is p (\<lambda>x. 0) (card (free_set FL) - 1) (s0, ?h, bl)" by blast
  have hl: "settled ?h = ?h" "lock_free ml" using ml by (simp_all add: settled_def)
  have t0: "table_is p (\<lambda>x. 0) (0 + 140 + 140 + 70 + 4 + 4) (s0, ?h, bl)"
    using free by (intro table_is_mono [OF t]) simp
  have "\<exists>s1. kvm_map c (get_page_addr p) UART0 UART0 (of_nat PGSIZE) ?rw ((s0, ?h, bl), ml) = Inr ((s1, ?h, bl), ml) \<and>
      table_is p M1 (0 + 140 + 140 + 70 + 4) (s1, ?h, bl)"
    by (rule kvm_map_step [OF t0 _ hl, where v = "0x10000" and n = 0]) (simp_all add: page_at_def M1_def)
  then obtain s1 where r1: "kvm_map c (get_page_addr p) UART0 UART0 (of_nat PGSIZE) ?rw ((s0, ?h, bl), ml) = Inr ((s1, ?h, bl), ml)"
    and t1: "table_is p M1 (0 + 140 + 140 + 70 + 4) (s1, ?h, bl)" by blast
  have "\<exists>s2. kvm_map c (get_page_addr p) VIRTIO0 VIRTIO0 (of_nat PGSIZE) ?rw ((s1, ?h, bl), ml) = Inr ((s2, ?h, bl), ml) \<and>
      table_is p M2 (0 + 140 + 140 + 70) (s2, ?h, bl)"
    by (rule kvm_map_step [OF t1 _ hl, where v = "0x10001" and n = 0]) (simp_all add: page_at_def M1_def M2_def)
  then obtain s2 where r2: "kvm_map c (get_page_addr p) VIRTIO0 VIRTIO0 (of_nat PGSIZE) ?rw ((s1, ?h, bl), ml) = Inr ((s2, ?h, bl), ml)"
    and t2: "table_is p M2 (0 + 140 + 140 + 70) (s2, ?h, bl)" by blast
  have "\<exists>s3. kvm_map c (get_page_addr p) PLIC PLIC 0x4000000 ?rw ((s2, ?h, bl), ml) = Inr ((s3, ?h, bl), ml) \<and>
      table_is p M3 (0 + 140 + 140) (s3, ?h, bl)"
    by (rule kvm_map_step [OF t2 _ hl, where v = "0xc000" and n = "0x3fff"]) (auto simp: page_at_def M2_def M3_def)
  then obtain s3 where r3: "kvm_map c (get_page_addr p) PLIC PLIC 0x4000000 ?rw ((s2, ?h, bl), ml) = Inr ((s3, ?h, bl), ml)"
    and t3: "table_is p M3 (0 + 140 + 140) (s3, ?h, bl)" by blast
  have sub: "page_at x - page_at y = page_at (x - y)" if "y \<le> x" for x y
    unfolding page_at_def using that by (simp add: of_nat_diff algebra_simps)
  have KB: "KERNBASE = page_at 0x80000" "PHYSTOP = page_at 0x88000" by (simp_all add: page_at_def)
  have n: "e - 0x80000 = Suc (e - 0x80001)" "0x88000 - e = Suc (0x87fff - e)" using e by linarith+
  have "page_at e - page_at 0x80000 = page_at (e - 0x80000)" "page_at 0x88000 - page_at e = page_at (0x88000 - e)"
    using e by (intro sub; simp)+
  then have sz: "page_at e - KERNBASE = page_at (Suc (e - 0x80001))" "PHYSTOP - page_at e = page_at (Suc (0x87fff - e))"
    by (simp_all only: KB n)
  have "\<exists>s4. kvm_map c (get_page_addr p) KERNBASE KERNBASE (page_at e - KERNBASE) ?rx ((s3, ?h, bl), ml) = Inr ((s4, ?h, bl), ml) \<and>
      table_is p M4 (0 + 140) (s4, ?h, bl)"
    by (rule kvm_map_step [OF t3 _ hl _ KB(1) sz(1)]) (use e in \<open>auto simp: M3_def M4_def\<close>)
  then obtain s4 where r4: "kvm_map c (get_page_addr p) KERNBASE KERNBASE (page_at e - KERNBASE) ?rx ((s3, ?h, bl), ml) = Inr ((s4, ?h, bl), ml)"
    and t4: "table_is p M4 (0 + 140) (s4, ?h, bl)" by blast
  have "\<exists>s5. kvm_map c (get_page_addr p) (page_at e) (page_at e) (PHYSTOP - page_at e) ?rw ((s4, ?h, bl), ml) = Inr ((s5, ?h, bl), ml) \<and>
      table_is p (kernel_entry e) 0 (s5, ?h, bl)"
    by (rule kvm_map_step [OF t4 _ hl _ refl sz(2)]) (use e in \<open>auto simp: M3_def M4_def kernel_entry_def\<close>)
  then obtain s5 where r5: "kvm_map c (get_page_addr p) (page_at e) (page_at e) (PHYSTOP - page_at e) ?rw ((s4, ?h, bl), ml) = Inr ((s5, ?h, bl), ml)"
    and t5: "table_is p (kernel_entry e) 0 (s5, ?h, bl)" by blast
  have "kvm_init c (page_at e) ((s, h, bl), ml) = Inr (get_page_addr p, (s5, ?h, bl), ml)"
    unfolding kvm_init_def using get_page_addr_nonzero [OF a(3)] r1 r2 r3 r4 r5 by (simp add: a(1) a(2) [simplified])
  then show ?thesis using a(3) t5 by blast
qed

subsection \<open>Walks that do not allocate\<close>

lemma walk_loop_ro:
  assumes "pt_tree (entries (ram s)) l p S"
  shows "walk_loop c va False l (get_page_addr p) (s, h, lk) =
    Inr (map_option (\<lambda>(r, i). entry_addr r i) (slot (entries (ram s)) l p va), s, h, lk)"
  using assms
proof (induction l arbitrary: p S)
  case (Suc l)
  let ?i = "px (Suc l) va"
  have ld: "load64 (ram s) (entry_addr p ?i) = entries (ram s) p ?i" by (simp add: entries_def)
  show ?case
  proof (cases "pte_valid (entries (ram s) p ?i)")
    case True
    then obtain C where "subtree (entries (ram s)) l p ?i S C" using tree_child [OF Suc.prems px_less] by blast
    from subtreeD(1,4) [OF this] True show ?thesis
      using Suc.IH by (simp add: entry_addr_px ld Let_def pte_valid_def)
  qed (simp add: entry_addr_px ld Let_def pte_valid_def)
qed (simp add: entry_addr_px)

lemma find_vma_free:
  assumes "hart_ok h" and "lock_free (mm_lock mm)"
  shows "find_vma c addr (h, mm) = Inr (vma_search addr (mmap mm), settled h, mm)"
  using spin_unlock_held [OF assms] by (simp add: find_vma_def spin_lock_free [OF assms(2)])

subsection \<open>Properties\<close>

text \<open>C9: on a table whose frames form a tree and that has no valid entry in the range, with enough free
  frames for the tables of the range, \<open>mappages\<close> succeeds and afterwards translates every page of
  the range to its frame with the given permissions; the translation of every other address below
  \<open>MAXVA\<close>, the memory outside of the tree and of the frames it took, and both locks are unchanged.\<close>

theorem mappages_maps_range:
  assumes "mm_ok (s, h, bl) FL" and "lock_free ml" and "pt_tree (entries (ram s)) 2 p S" and "S \<inter> free_set FL = {}"
    and "v + n < 2 ^ 26" and "2 * (n div 512) + 4 \<le> card (free_set FL)"
    and "\<forall>k. v \<le> k \<and> k \<le> v + n \<longrightarrow> \<not> pte_valid (leaf (entries (ram s)) 2 p (page_at k))"
  shows "\<exists>s' FL' S'. mappages c (get_page_addr p) (page_at v) pa (page_at (Suc n)) perm ((s, h, bl), ml) =
             Inr (0, (s', settled h, bl), ml) \<and>
           mm_ok (s', settled h, bl) FL' \<and> pt_tree (entries (ram s')) 2 p S' \<and> free_set FL' = free_set FL - S' \<and>
           (\<forall>w < MAXVA. leaf (entries (ram s')) 2 p w =
             (if v \<le> vpn w \<and> vpn w \<le> v + n then PA2PTE (pa + page_at (vpn w - v)) OR perm OR PTE_V
              else leaf (entries (ram s)) 2 p w)) \<and>
           (\<forall>q < ALL_PFN. \<forall>i < 512. q \<notin> S \<union> free_set FL \<longrightarrow> entries (ram s') q i = entries (ram s) q i)"
proof -
  have "(v + n) div 512 \<le> v div 512 + n div 512 + 1" by linarith
  then have "tables_needed (entries (ram s)) p v n \<le> 2 * (n div 512) + 4" by (auto simp: tables_needed_def)
  with assms(6) have need: "tables_needed (entries (ram s)) p v n \<le> card (free_set FL)" by linarith
  from mappages_ok [OF assms(1-5,7) need] obtain s' FL' S' where
    r: "mappages c (get_page_addr p) (page_at v) pa (page_at (Suc n)) perm ((s, h, bl), ml) = Inr (0, (s', settled h, bl), ml)"
      "mm_ok (s', settled h, bl) FL'" and m: "mapped p v (Suc n) pa perm s FL S s' FL' S'" by blast
  note D = mappedD [OF m]
  have "\<forall>w < MAXVA. leaf (entries (ram s')) 2 p w =
      (if v \<le> vpn w \<and> vpn w \<le> v + n then PA2PTE (pa + page_at (vpn w - v)) OR perm OR PTE_V
       else leaf (entries (ram s)) 2 p w)" using D(6) by (simp add: less_Suc_eq_le)
  moreover have "\<forall>q < ALL_PFN. \<forall>i < 512. q \<notin> S \<union> free_set FL \<longrightarrow> entries (ram s') q i = entries (ram s) q i"
    using D(5) by (simp add: agree_def)
  ultimately show ?thesis using r D(1,4) by blast
qed

text \<open>C16: \<open>kvm_init\<close> with at least 400 free frames and the kernel's text ending on a page boundary inside
  of RAM builds a table that translates, of all addresses below \<open>MAXVA\<close>, exactly the UART, the virtio
  and the PLIC registers (read, write), the kernel's text (read, execute) and the rest of RAM (read,
  write), each to itself.\<close>

theorem kvm_init_identity:
  assumes "mm_ok (s, h, bl) FL" and "lock_free ml" and "400 \<le> card (free_set FL)"
    and "0x80000 < e" and "e < 0x88000"
  shows "\<exists>p s'. kvm_init c (page_at e) ((s, h, bl), ml) = Inr (get_page_addr p, (s', settled h, bl), ml) \<and>
    (\<forall>va < MAXVA. leaf (entries (ram s')) 2 p va = kernel_entry e (vpn va))"
  using kvm_init_ok [OF assms, of c] unfolding table_is_def by auto

theorem kvm_init_identity_witness:
  "\<exists>s p s'. kvm_init 0 (page_at 0x80010) ((s, boot_hart, spin_init), spin_init) =
      Inr (get_page_addr p, (s', boot_hart, spin_init), spin_init) \<and>
    leaf (entries (ram s')) 2 p 0x80000123 = PA2PTE 0x80000000 OR PTE_R OR PTE_X OR PTE_V"
proof -
  obtain s FL where s: "mm_ok (s, boot_hart, spin_init) FL" "free_set FL = {1024 ..< 31744}" by (rule booted)
  have c: "400 \<le> card (free_set FL)" unfolding s(2) by simp
  obtain p s' where r: "kvm_init 0 (page_at 0x80010) ((s, boot_hart, spin_init), spin_init) =
      Inr (get_page_addr p, (s', settled boot_hart, spin_init), spin_init)"
    and lf: "\<forall>va < MAXVA. leaf (entries (ram s')) 2 p va = kernel_entry 0x80010 (vpn va)"
    using kvm_init_identity [OF s(1) lock_free_init c, of "0x80010" 0] by auto
  have "leaf (entries (ram s')) 2 p 0x80000123 = kernel_entry 0x80010 (vpn 0x80000123)" using lf by simp
  also have "\<dots> = PA2PTE 0x80000000 OR PTE_R OR PTE_X OR PTE_V"
    by (simp add: kernel_entry_def vpn_def ident_def page_at_def or.assoc)
  finally show ?thesis using r by auto
qed

theorem mappages_maps_range_witness:
  "\<exists>s p s'. mappages 0 (get_page_addr p) (page_at 5) 0x80400000 (page_at 3) PTE_R ((s, boot_hart, spin_init), spin_init) =
      Inr (0, (s', boot_hart, spin_init), spin_init) \<and>
    leaf (entries (ram s')) 2 p (page_at 6) = PA2PTE 0x80401000 OR PTE_R OR PTE_V"
proof -
  obtain s0 FL0 where s0: "mm_ok (s0, boot_hart, spin_init) FL0" "free_set FL0 = {1024 ..< 31744}" by (rule booted)
  have "0 < card (free_set FL0)" unfolding s0(2) by simp
  then obtain p s where "table_is p (\<lambda>x. 0) (card (free_set FL0) - 1) (s, settled boot_hart, spin_init)"
    by (rule kvm_init_table [OF s0(1)])
  then obtain FL S where s: "mm_ok (s, boot_hart, spin_init) FL" "pt_tree (entries (ram s)) 2 p S" "S \<inter> free_set FL = {}"
    and lf: "\<forall>w < MAXVA. leaf (entries (ram s)) 2 p w = 0" and c: "card (free_set FL0) - 1 \<le> card (free_set FL)"
    by (auto simp: table_is_def)
  have "2 * (2 div 512) + 4 \<le> card (free_set FL)" using c unfolding s0(2) by simp
  moreover have "\<forall>k. 5 \<le> k \<and> k \<le> 5 + 2 \<longrightarrow> \<not> pte_valid (leaf (entries (ram s)) 2 p (page_at k))"
    using lf page_at_less by (simp add: pte_valid_def)
  ultimately obtain s' where r: "mappages 0 (get_page_addr p) (page_at 5) 0x80400000 (page_at (Suc 2)) PTE_R
        ((s, boot_hart, spin_init), spin_init) = Inr (0, (s', settled boot_hart, spin_init), spin_init)"
    and l: "\<forall>w < MAXVA. leaf (entries (ram s')) 2 p w =
        (if 5 \<le> vpn w \<and> vpn w \<le> 5 + 2 then PA2PTE (0x80400000 + page_at (vpn w - 5)) OR PTE_R OR PTE_V
         else leaf (entries (ram s)) 2 p w)"
    using mappages_maps_range [OF s(1) lock_free_init s(2,3), of 5 2 0 "0x80400000" PTE_R] by auto
  have "vpn (page_at 6) = 6" "page_at 6 < MAXVA" by (simp_all add: vpn_page_at page_at_less)
  then have "leaf (entries (ram s')) 2 p (page_at 6) = PA2PTE 0x80401000 OR PTE_R OR PTE_V"
    using l by (simp add: page_at_def)
  then show ?thesis using r by auto
qed

text \<open>C36: the page fault handler panics on every address that lies in a memory area and has an entry
  in the page table, copy-on-write or not: C's \<open>~\<close> on the 0 or 1 of \<open>is_cow_page\<close> is never 0. So the
  fault of a write to a copy-on-write page is never served.\<close>

theorem page_fault_panics_on_entries:
  assumes "hart_ok h" and "lock_free (mm_lock mm)" and "pgd mm = get_page_addr p" and "pt_tree (entries (ram s)) 2 p S"
    and "addr < MAXVA" and "slot (entries (ram s)) 2 p addr \<noteq> None"
  shows "page_fault_handler c fault addr ((s, h, bl), mm) = Inl (Panic ''page_fault_handler: illegal addr'')"
proof -
  have cow: "- is_cow_page pte s - 1 \<noteq> 0" for pte by (simp add: is_cow_page_def)
  from assms(6) obtain r i where "slot (entries (ram s)) 2 p addr = Some (r, i)" by auto
  then have "walk c (pgd mm) addr False (s, settled h, bl) = Inr (Some (entry_addr r i), s, settled h, bl)"
    using assms(3,5) walk_loop_ro [OF assms(4)] by (simp add: walk_def not_le [symmetric])
  with cow show ?thesis
    by (simp add: page_fault_handler_def find_vma_free [OF assms(1,2)] split: option.split)
qed

theorem page_fault_panics_on_entries_witness:
  "\<exists>s p. page_fault_handler 0 (\<lambda>v a s. Inr s) 0x80000000
      ((s, boot_hart, spin_init),
       \<lparr>pgd = get_page_addr p, mmap = [\<lparr>vm_start = 0, vm_end = 0x90000000, vm_prot = 0, vm_pgoff = 0, vm_file = None\<rparr>],
        mm_lock = spin_init\<rparr>) = Inl (Panic ''page_fault_handler: illegal addr'') \<and>
    pte_valid (leaf (entries (ram s)) 2 p 0x80000000)"
proof -
  obtain s FL where s: "mm_ok (s, boot_hart, spin_init) FL" "free_set FL = {1024 ..< 31744}" by (rule booted)
  have c: "400 \<le> card (free_set FL)" unfolding s(2) by simp
  from kvm_init_ok [OF s(1) lock_free_init c, of "0x80010" 0] obtain p s'
    where "table_is p (kernel_entry 0x80010) 0 (s', boot_hart, spin_init)" by auto
  then obtain S where t: "pt_tree (entries (ram s')) 2 p S"
    and lf: "\<forall>w < MAXVA. leaf (entries (ram s')) 2 p w = kernel_entry 0x80010 (vpn w)" by (auto simp: table_is_def)
  have "leaf (entries (ram s')) 2 p 0x80000000 = kernel_entry 0x80010 (vpn 0x80000000)" using lf by simp
  then have v: "pte_valid (leaf (entries (ram s')) 2 p 0x80000000)"
    by (simp add: kernel_entry_def vpn_def ident_def page_at_def PA2PTE_def pte_valid_def)
  then have "slot (entries (ram s')) 2 p 0x80000000 \<noteq> None"
    by (cases "slot (entries (ram s')) 2 p 0x80000000") (simp_all add: leaf_def pte_valid_def)
  then show ?thesis using v
    by (intro exI [of _ s'] exI [of _ p] conjI page_fault_panics_on_entries [OF _ _ _ t]) simp_all
qed



end
