(* ===== verification/Hashtab.thy ===== *)
theory Hashtab
  imports Klist Slab
begin

text \<open>
  The hash tables of include/lib/hash.h and lib/hash.c and the two-list LRU of lib/lru.c, on the
  intrusive lists of \<open>Klist\<close>. A table is an array of list heads; the model keeps the map from index
  to head node, which for an array from \<open>kmalloc\<close> is given by the array's address. Keys are
  non-negative, so \<open>key % size\<close> is the remainder on naturals.

  \<open>hash_rep\<close> relates a table to the set of its nodes. The locale \<open>keyed_set\<close> is what the buffer
  cache and the file system rely on: finding by key, adding and removing.
\<close>

subsection \<open>Operations\<close>

record 'a hash_table =
  h_size :: int
  h_count :: int
  h_name :: string
  h_heads :: "nat \<Rightarrow> 'a"

definition bucket :: "'a hash_table \<Rightarrow> nat \<Rightarrow> 'a" where
  "bucket ht key = h_heads ht (key mod nat (h_size ht))"

text \<open>\<open>head_at a i\<close> is the node at index \<open>i\<close> of the array at address \<open>a\<close>; a \<open>list_head\<close> has 16 bytes.\<close>

definition hash_init ::
  "int \<Rightarrow> int \<Rightarrow> string \<Rightarrow> (u64 \<Rightarrow> nat \<Rightarrow> 'a) \<Rightarrow> slab_state \<times> 'a lheap \<Rightarrow> (int \<times> 'a hash_table \<times> slab_state \<times> 'a lheap) kres" where
  "hash_init cpuid sz name head_at sl = (case sl of (st, lh) \<Rightarrow>
     bindR (kmalloc cpuid (16 * sz) 0 st) (\<lambda>(a, st).
       let ht = \<lparr>h_size = sz, h_count = 0, h_name = name, h_heads = head_at a\<rparr>
       in if a = 0 then Inr (0, ht, st, lh)
          else Inr (1, ht, st, fold (\<lambda>i. INIT_LIST_HEAD (h_heads ht i)) [0 ..< nat sz] lh)))"

definition hash_free :: "int \<Rightarrow> u64 \<Rightarrow> slab_state \<Rightarrow> slab_state kres" where
  "hash_free cpuid heads st = kfree cpuid heads st"

definition hash_empty :: "nat \<Rightarrow> 'a hash_table \<times> 'a lheap \<Rightarrow> bool" where
  "hash_empty key s = (case s of (ht, lh) \<Rightarrow> list_empty (bucket ht key) lh)"

definition hash_add_tail :: "nat \<Rightarrow> 'a \<Rightarrow> 'a hash_table \<times> 'a lheap \<Rightarrow> 'a hash_table \<times> 'a lheap" where
  "hash_add_tail key n s = (case s of (ht, lh) \<Rightarrow>
     (ht\<lparr>h_count := h_count ht + 1\<rparr>, list_add_tail n (bucket ht key) lh))"

definition hash_add_head :: "nat \<Rightarrow> 'a \<Rightarrow> 'a hash_table \<times> 'a lheap \<Rightarrow> 'a hash_table \<times> 'a lheap" where
  "hash_add_head key n s = (case s of (ht, lh) \<Rightarrow>
     (ht\<lparr>h_count := h_count ht + 1\<rparr>, list_add_head n (bucket ht key) lh))"

text \<open>\<open>hash_find\<close>: the first node of the key's chain that \<open>hit\<close> accepts.\<close>

definition hash_find :: "('a \<Rightarrow> bool) \<Rightarrow> nat \<Rightarrow> 'a hash_table \<times> 'a lheap \<Rightarrow> 'a option kres" where
  "hash_find hit key s = (case s of (ht, lh) \<Rightarrow>
     (case list_for_each (bucket ht key) lh of None \<Rightarrow> Inl Spins | Some ns \<Rightarrow> Inr (find hit ns)))"

definition hash_del_node :: "'a \<Rightarrow> 'a hash_table \<times> 'a lheap \<Rightarrow> 'a hash_table \<times> 'a lheap" where
  "hash_del_node n s = (case s of (ht, lh) \<Rightarrow> (ht\<lparr>h_count := h_count ht - 1\<rparr>, list_del n lh))"

definition hash_del :: "('a \<Rightarrow> bool) \<Rightarrow> nat \<Rightarrow> 'a hash_table \<times> 'a lheap \<Rightarrow> ('a option \<times> 'a hash_table \<times> 'a lheap) kres" where
  "hash_del hit key s =
     bindR (hash_find hit key s) (\<lambda>r. case r of None \<Rightarrow> Inr (None, s) | Some n \<Rightarrow> Inr (Some n, hash_del_node n s))"

subsection \<open>Two-list LRU\<close>

datatype lru_node = Act_list | Ina_list | Lru_node nat

record lru2 =
  access :: "nat \<Rightarrow> u32"
  lru_links :: "lru_node lheap"

definition lru2_init :: "lru2 \<Rightarrow> lru2" where
  "lru2_init s = s\<lparr>lru_links := INIT_LIST_HEAD Ina_list (INIT_LIST_HEAD Act_list (lru_links s))\<rparr>"

definition lru2_node_init :: "nat \<Rightarrow> lru2 \<Rightarrow> lru2" where
  "lru2_node_init n s = s\<lparr>access := (access s)(n := 0), lru_links := INIT_LIST_HEAD (Lru_node n) (lru_links s)\<rparr>"

definition lru2_up :: "nat \<Rightarrow> lru2 \<Rightarrow> lru2 kres" where
  "lru2_up n s =
     (if access s n = 2 then
        Inr (s\<lparr>lru_links := list_add_tail (Lru_node n) Act_list (list_del (Lru_node n) (lru_links s))\<rparr>)
      else if access s n = 1 then
        Inr (s\<lparr>access := (access s)(n := access s n + 1),
               lru_links := list_add_tail (Lru_node n) Act_list (list_del (Lru_node n) (lru_links s))\<rparr>)
      else if access s n = 0 then
        Inr (s\<lparr>access := (access s)(n := access s n + 1),
               lru_links := list_add_tail (Lru_node n) Ina_list (lru_links s)\<rparr>)
      else Inl (Panic ''lru2_upgrade''))"

definition lru2_down :: "nat \<Rightarrow> lru2 \<Rightarrow> lru2 kres" where
  "lru2_down n s =
     (if access s n = 2 then
        Inr (s\<lparr>access := (access s)(n := access s n - 1),
               lru_links := list_add_tail (Lru_node n) Ina_list (list_del (Lru_node n) (lru_links s))\<rparr>)
      else if access s n = 1 then
        Inr (s\<lparr>access := (access s)(n := access s n - 1), lru_links := list_del (Lru_node n) (lru_links s)\<rparr>)
      else Inl (Panic ''lru2_downgrade''))"

subsection \<open>A table as a set of nodes\<close>

text \<open>\<open>key\<close> is the key a node was added under; a node sits in the chain of its key.\<close>

definition hash_rep :: "('a \<Rightarrow> nat) \<Rightarrow> 'a hash_table \<times> 'a lheap \<Rightarrow> 'a set \<Rightarrow> bool" where
  "hash_rep key s A \<longleftrightarrow> (case s of (ht, lh) \<Rightarrow>
     0 < h_size ht \<and> inj_on (h_heads ht) {..< nat (h_size ht)} \<and> h_count ht = int (card A) \<and> finite A \<and>
     (\<exists>F. list_family (h_heads ht ` {..< nat (h_size ht)}) lh F \<and>
          A = (\<Union>i < nat (h_size ht). set (F (h_heads ht i))) \<and>
          (\<forall>i < nat (h_size ht). \<forall>n \<in> set (F (h_heads ht i)). key n mod nat (h_size ht) = i)))"

definition hash_heads :: "'a hash_table \<Rightarrow> 'a set" where
  "hash_heads ht = h_heads ht ` {..< nat (h_size ht)}"

lemma bucket_in: "0 < h_size ht \<Longrightarrow> bucket ht k \<in> h_heads ht ` {..< nat (h_size ht)}"
  by (auto simp: bucket_def)

lemma hash_find_rep:
  assumes rep: "hash_rep key (ht, lh) A" and hit: "\<And>n. hit n \<Longrightarrow> n \<in> A \<Longrightarrow> key n = k"
  shows "\<exists>r. hash_find hit k (ht, lh) = Inr r \<and>
    (case r of None \<Rightarrow> \<forall>n \<in> A. \<not> hit n | Some n \<Rightarrow> n \<in> A \<and> hit n)"
proof -
  let ?n = "nat (h_size ht)"
  from rep obtain F where sz: "0 < h_size ht" and F: "list_family (h_heads ht ` {..< ?n}) lh F"
    and A: "A = (\<Union>i < ?n. set (F (h_heads ht i)))"
    and key: "\<And>i n. i < ?n \<Longrightarrow> n \<in> set (F (h_heads ht i)) \<Longrightarrow> key n mod ?n = i"
    unfolding hash_rep_def by auto
  have each: "list_for_each (bucket ht k) lh = Some (F (bucket ht k))"
    by (rule list_for_each_is_list(1) [OF list_familyD [OF F bucket_in [OF sz]]])
  have km: "k mod ?n < ?n" using sz by simp
  have inA: "set (F (bucket ht k)) \<subseteq> A" unfolding A bucket_def using km by blast
  have all: "n \<in> set (F (bucket ht k))" if "n \<in> A" "hit n" for n
  proof -
    from that(1) A obtain i where i: "i < ?n" "n \<in> set (F (h_heads ht i))" by blast
    with key [OF i] hit [OF that(2,1)] show ?thesis by (simp add: bucket_def)
  qed
  show ?thesis
  proof (cases "find hit (F (bucket ht k))")
    case None
    then have "\<forall>n \<in> A. \<not> hit n" using all by (auto simp: find_None_iff)
    with None each show ?thesis by (simp add: hash_find_def)
  next
    case (Some n)
    then have "hit n" "n \<in> set (F (bucket ht k))" by (auto simp: find_Some_iff)
    with Some inA each show ?thesis by (auto simp: hash_find_def)
  qed
qed

text \<open>The node sets of a family of chains after one chain changed.\<close>

lemma chains_upd:
  assumes "inj_on (h_heads ht) {..< N}" and "j < N"
  shows "(\<Union>i < N. set ((F(h_heads ht j := xs)) (h_heads ht i))) = set xs \<union> (\<Union>i \<in> {..< N} - {j}. set (F (h_heads ht i)))"
proof -
  have "(F(h_heads ht j := xs)) (h_heads ht i) = (if i = j then xs else F (h_heads ht i))" if "i < N" for i
    using assms that by (auto dest: inj_onD)
  then show ?thesis using assms(2) by (auto split: if_splits)
qed

lemma hash_rep_change:
  assumes rep: "0 < h_size ht" "inj_on (h_heads ht) {..< nat (h_size ht)}"
    and F: "list_family (h_heads ht ` {..< nat (h_size ht)}) lh' (F(bucket ht k := xs))"
    and key: "\<forall>i < nat (h_size ht). \<forall>n \<in> set (F (h_heads ht i)). key n mod nat (h_size ht) = i"
      "\<forall>n \<in> set xs. key n mod nat (h_size ht) = k mod nat (h_size ht)"
    and A': "A' = set xs \<union> (\<Union>i \<in> {..< nat (h_size ht)} - {k mod nat (h_size ht)}. set (F (h_heads ht i)))"
  shows "hash_rep key (ht\<lparr>h_count := int (card A')\<rparr>, lh') A'"
proof -
  let ?n = "nat (h_size ht)"
  have k: "k mod ?n < ?n" using rep(1) by simp
  define F' where "F' = F(bucket ht k := xs)"
  have "A' = (\<Union>i < ?n. set (F' (h_heads ht i)))"
    unfolding A' F'_def bucket_def chains_upd [OF rep(2) k] ..
  moreover have "finite A'" unfolding A' by simp
  moreover have "\<forall>i < ?n. \<forall>n \<in> set (F' (h_heads ht i)). key n mod ?n = i"
    using key rep(2) k unfolding F'_def by (auto simp: bucket_def dest: inj_onD split: if_splits)
  moreover have "list_family (h_heads ht ` {..< ?n}) lh' F'" unfolding F'_def by (rule F)
  ultimately show ?thesis unfolding hash_rep_def using rep by auto
qed

lemma hash_repE:
  assumes "hash_rep key (ht, lh) A"
  obtains F where "0 < h_size ht" "inj_on (h_heads ht) {..< nat (h_size ht)}" "h_count ht = int (card A)" "finite A"
    "list_family (h_heads ht ` {..< nat (h_size ht)}) lh F" "A = (\<Union>i < nat (h_size ht). set (F (h_heads ht i)))"
    "\<forall>i < nat (h_size ht). \<forall>n \<in> set (F (h_heads ht i)). key n mod nat (h_size ht) = i"
  using assms unfolding hash_rep_def by auto

lemma hash_rep_split:
  assumes "hash_rep key (ht, lh) A"
  obtains F where "A = set (F (bucket ht k)) \<union> (\<Union>i \<in> {..< nat (h_size ht)} - {k mod nat (h_size ht)}. set (F (h_heads ht i)))"
    "list_family (h_heads ht ` {..< nat (h_size ht)}) lh F" "0 < h_size ht" "inj_on (h_heads ht) {..< nat (h_size ht)}"
    "h_count ht = int (card A)" "finite A" "fam_nodes (h_heads ht ` {..< nat (h_size ht)}) F = hash_heads ht \<union> A"
    "\<forall>i < nat (h_size ht). \<forall>n \<in> set (F (h_heads ht i)). key n mod nat (h_size ht) = i"
proof (rule hash_repE [OF assms])
  fix F
  assume F: "0 < h_size ht" "inj_on (h_heads ht) {..< nat (h_size ht)}" "h_count ht = int (card A)" "finite A"
    "list_family (h_heads ht ` {..< nat (h_size ht)}) lh F" "A = (\<Union>i < nat (h_size ht). set (F (h_heads ht i)))"
    "\<forall>i < nat (h_size ht). \<forall>n \<in> set (F (h_heads ht i)). key n mod nat (h_size ht) = i"
  have "k mod nat (h_size ht) < nat (h_size ht)" using F(1) by simp
  then have "A = set (F (bucket ht k)) \<union> (\<Union>i \<in> {..< nat (h_size ht)} - {k mod nat (h_size ht)}. set (F (h_heads ht i)))"
    unfolding F(6) bucket_def by blast
  moreover have "fam_nodes (h_heads ht ` {..< nat (h_size ht)}) F = hash_heads ht \<union> A"
    unfolding F(6) fam_nodes_def hash_heads_def by auto
  ultimately show ?thesis using that F by blast
qed

lemma hash_add_rep:
  assumes rep: "hash_rep key (ht, lh) A" and n: "n \<notin> A" "n \<notin> hash_heads ht" and key: "key n = k"
  shows "hash_rep key (hash_add_head k n (ht, lh)) (insert n A)" and "hash_rep key (hash_add_tail k n (ht, lh)) (insert n A)"
proof -
  let ?H = "h_heads ht ` {..< nat (h_size ht)}"
  obtain F where A: "A = set (F (bucket ht k)) \<union> (\<Union>i \<in> {..< nat (h_size ht)} - {k mod nat (h_size ht)}. set (F (h_heads ht i)))"
    and F: "list_family ?H lh F" "0 < h_size ht" "inj_on (h_heads ht) {..< nat (h_size ht)}"
    and c: "h_count ht = int (card A)" "finite A" and nodes: "fam_nodes ?H F = hash_heads ht \<union> A"
    and kF: "\<forall>i < nat (h_size ht). \<forall>n \<in> set (F (h_heads ht i)). key n mod nat (h_size ht) = i"
    by (rule hash_rep_split [OF rep, of k])
  have fresh: "n \<notin> fam_nodes ?H F" using n nodes by blast
  note b = bucket_in [OF F(2), of k]
  have kb: "\<forall>x \<in> set (F (bucket ht k)). key x mod nat (h_size ht) = k mod nat (h_size ht)"
    using kF F(2) by (simp add: bucket_def)
  have cnt: "int (card (insert n A)) = h_count ht + 1" using c n(1) by simp
  have "hash_rep key (ht\<lparr>h_count := int (card (insert n A))\<rparr>, list_add_head n (bucket ht k) lh) (insert n A)"
    by (rule hash_rep_change [OF F(2,3) fam_add_head [OF F(1) b fresh] kF]) (use kb key A in auto)
  then show "hash_rep key (hash_add_head k n (ht, lh)) (insert n A)" by (simp add: hash_add_head_def cnt)
  have "hash_rep key (ht\<lparr>h_count := int (card (insert n A))\<rparr>, list_add_tail n (bucket ht k) lh) (insert n A)"
    by (rule hash_rep_change [OF F(2,3) fam_add_tail [OF F(1) b fresh] kF]) (use kb key A in auto)
  then show "hash_rep key (hash_add_tail k n (ht, lh)) (insert n A)" by (simp add: hash_add_tail_def cnt)
qed

lemma hash_del_rep:
  assumes rep: "hash_rep key (ht, lh) A" and n: "n \<in> A"
  shows "hash_rep key (hash_del_node n (ht, lh)) (A - {n})"
proof -
  let ?N = "nat (h_size ht)" and ?k = "key n"
  let ?H = "h_heads ht ` {..< ?N}"
  obtain F where A: "A = set (F (bucket ht ?k)) \<union> (\<Union>i \<in> {..< ?N} - {?k mod ?N}. set (F (h_heads ht i)))"
    and F: "list_family ?H lh F" "0 < h_size ht" "inj_on (h_heads ht) {..< ?N}"
    and c: "h_count ht = int (card A)" "finite A"
    and kF: "\<forall>i < ?N. \<forall>n \<in> set (F (h_heads ht i)). key n mod ?N = i"
    by (rule hash_rep_split [OF rep, of ?k])
  note b = bucket_in [OF F(2), of ?k]
  have other: "n \<notin> set (F (h_heads ht i))" if "i < ?N" "i \<noteq> ?k mod ?N" for i
    using kF [rule_format, OF that(1), of n] that(2) by auto
  then have nb: "n \<in> set (F (bucket ht ?k))" using n A by blast
  have "distinct (F (bucket ht ?k))" using list_familyD [OF F(1) b] by (simp add: is_list_def)
  then have A': "A - {n} = set (remove1 n (F (bucket ht ?k))) \<union> (\<Union>i \<in> {..< ?N} - {?k mod ?N}. set (F (h_heads ht i)))"
    unfolding A using other by auto
  have kb: "\<forall>x \<in> set (F (bucket ht ?k)). key x mod ?N = ?k mod ?N"
    using kF F(2) by (simp add: bucket_def)
  have "card A > 0" using n c(2) by (auto simp: card_gt_0_iff)
  then have cnt: "int (card (A - {n})) = h_count ht - 1" using n c by simp
  have "hash_rep key (ht\<lparr>h_count := int (card (A - {n}))\<rparr>, list_del n lh) (A - {n})"
    by (rule hash_rep_change [OF F(2,3) fam_del [OF F(1) b nb] kF])
      (use kb A' set_remove1_subset [of n "F (bucket ht ?k)"] in auto)
  then show ?thesis by (simp add: hash_del_node_def cnt)
qed

lemma hash_rep_cong:
  assumes "hash_rep key s A" and "\<And>n. n \<in> A \<Longrightarrow> key' n = key n"
  shows "hash_rep key' s A"
proof (cases s)
  case (Pair ht lh)
  show ?thesis
  proof (rule hash_repE [OF assms(1) [unfolded Pair]])
    fix F
    assume F: "0 < h_size ht" "inj_on (h_heads ht) {..< nat (h_size ht)}" "h_count ht = int (card A)" "finite A"
      "list_family (h_heads ht ` {..< nat (h_size ht)}) lh F" "A = (\<Union>i < nat (h_size ht). set (F (h_heads ht i)))"
      "\<forall>i < nat (h_size ht). \<forall>n \<in> set (F (h_heads ht i)). key n mod nat (h_size ht) = i"
    have "key' n mod nat (h_size ht) = i" if "i < nat (h_size ht)" "n \<in> set (F (h_heads ht i))" for i n
    proof -
      have "n \<in> A" unfolding F(6) using that by blast
      with assms(2) F(7) that show ?thesis by simp
    qed
    with F(1-6) show ?thesis unfolding hash_rep_def Pair by (auto intro!: exI [of _ F])
  qed
qed

lemma hash_rep_INIT:
  assumes "hash_rep key (ht, lh) A" and "n \<notin> A" and "n \<notin> hash_heads ht"
  shows "hash_rep key (ht, INIT_LIST_HEAD n lh) A"
proof (rule hash_repE [OF assms(1)])
  fix F
  assume F: "0 < h_size ht" "inj_on (h_heads ht) {..< nat (h_size ht)}" "h_count ht = int (card A)" "finite A"
    "list_family (h_heads ht ` {..< nat (h_size ht)}) lh F" "A = (\<Union>i < nat (h_size ht). set (F (h_heads ht i)))"
    "\<forall>i < nat (h_size ht). \<forall>n \<in> set (F (h_heads ht i)). key n mod nat (h_size ht) = i"
  have "n \<notin> fam_nodes (h_heads ht ` {..< nat (h_size ht)}) F"
    using assms(2,3) unfolding F(6) hash_heads_def fam_nodes_def by auto
  then have "list_family (h_heads ht ` {..< nat (h_size ht)}) (INIT_LIST_HEAD n lh) F" by (rule fam_INIT_other [OF F(5)])
  then show ?thesis unfolding hash_rep_def using F(1-4,6,7) by auto
qed

lemma hash_init_rep:
  assumes "hash_init cid sz name head_at (st, lh) = Inr (1, ht, st', lh')" and "0 < sz"
    and inj: "\<And>a. inj_on (head_at a) {..< nat sz}"
  shows "hash_rep key (ht, lh') {}"
proof -
  from assms(1) obtain a where a: "a \<noteq> 0" "ht = \<lparr>h_size = sz, h_count = 0, h_name = name, h_heads = head_at a\<rparr>"
    "lh' = fold (\<lambda>i. INIT_LIST_HEAD (head_at a i)) [0 ..< nat sz] lh"
    by (auto simp: hash_init_def Let_def split: if_splits)
  have "l_next (fold (\<lambda>i. INIT_LIST_HEAD (head_at a i)) [0 ..< n] lh) (head_at a i) = head_at a i \<and>
        l_prev (fold (\<lambda>i. INIT_LIST_HEAD (head_at a i)) [0 ..< n] lh) (head_at a i) = head_at a i" if "i < n" for n i
    using that by (induction n) (auto simp: INIT_LIST_HEAD_def less_Suc_eq)
  then have self: "is_list lh' (head_at a i) []" if "i < nat sz" for i using that a(3) by simp
  have "list_family (head_at a ` {..< nat sz}) lh' (\<lambda>_. [])"
    unfolding list_family_def using self by auto
  then show ?thesis unfolding hash_rep_def using assms(2) inj a(2) by (auto intro!: exI [of _ "\<lambda>_. []"])
qed

subsection \<open>The contract of a keyed set\<close>

locale keyed_set =
  fixes rep :: "'s \<Rightarrow> 'a set \<Rightarrow> bool"
    and key :: "'a \<Rightarrow> nat"
    and lookup :: "nat \<Rightarrow> 's \<Rightarrow> 'a option kres"
    and add :: "'a \<Rightarrow> 's \<Rightarrow> 's"
    and del :: "'a \<Rightarrow> 's \<Rightarrow> 's"
    and allowed :: "'a \<Rightarrow> 's \<Rightarrow> bool"
  assumes lookup: "rep s A \<Longrightarrow> \<exists>r. lookup k s = Inr r \<and> (case r of None \<Rightarrow> \<forall>n \<in> A. key n \<noteq> k | Some n \<Rightarrow> n \<in> A \<and> key n = k)"
    and add: "rep s A \<Longrightarrow> n \<notin> A \<Longrightarrow> allowed n s \<Longrightarrow> rep (add n s) (insert n A)"
    and del: "rep s A \<Longrightarrow> n \<in> A \<Longrightarrow> rep (del n s) (A - {n})"
begin

lemma lookup_found:
  assumes "rep s A" and "inj_on key A" and "n \<in> A"
  shows "lookup (key n) s = Inr (Some n)"
proof -
  obtain r where r: "lookup (key n) s = Inr r" "case r of None \<Rightarrow> \<forall>m \<in> A. key m \<noteq> key n | Some m \<Rightarrow> m \<in> A \<and> key m = key n"
    using lookup [OF assms(1)] by blast
  with assms(2,3) show ?thesis by (cases r) (auto dest: inj_onD)
qed

lemma lookup_missing:
  assumes "rep s A" and "k \<notin> key ` A"
  shows "lookup k s = Inr None"
proof -
  obtain r where "lookup k s = Inr r" "case r of None \<Rightarrow> \<forall>m \<in> A. key m \<noteq> k | Some m \<Rightarrow> m \<in> A \<and> key m = k"
    using lookup [OF assms(1)] by blast
  with assms(2) show ?thesis by (cases r) auto
qed

lemma add_found:
  assumes "rep s A" and "inj_on key A" and "key n \<notin> key ` A" and "allowed n s"
  shows "lookup (key n) (add n s) = Inr (Some n)"
    and "m \<in> A \<Longrightarrow> lookup (key m) (add n s) = Inr (Some m)"
proof -
  have n: "n \<notin> A" using assms(3) by blast
  note r = add [OF assms(1) n assms(4)]
  have i: "inj_on key (insert n A)" using assms(2,3) n by (simp add: inj_on_insert)
  show "lookup (key n) (add n s) = Inr (Some n)" by (rule lookup_found [OF r i]) simp
  show "lookup (key m) (add n s) = Inr (Some m)" if "m \<in> A" by (rule lookup_found [OF r i]) (use that in simp)
qed

lemma del_missing:
  assumes "rep s A" and "inj_on key A" and "n \<in> A"
  shows "lookup (key n) (del n s) = Inr None"
    and "m \<in> A \<Longrightarrow> m \<noteq> n \<Longrightarrow> lookup (key m) (del n s) = Inr (Some m)"
proof -
  note r = del [OF assms(1,3)]
  have i: "inj_on key (A - {n})" using assms(2) by (rule inj_on_subset) blast
  have "key n \<notin> key ` (A - {n})" using assms(2,3) by (auto dest: inj_onD)
  then show "lookup (key n) (del n s) = Inr None" by (rule lookup_missing [OF r])
  show "lookup (key m) (del n s) = Inr (Some m)" if "m \<in> A" "m \<noteq> n"
    by (rule lookup_found [OF r i]) (use that in blast)
qed

end

interpretation hset: keyed_set "hash_rep key" key "\<lambda>k. hash_find (\<lambda>n. key n = k) k"
  "\<lambda>n. hash_add_head (key n) n" hash_del_node "\<lambda>n s. n \<notin> hash_heads (fst s)" for key
proof (unfold_locales, goal_cases)
  case (1 s A k)
  then have "hash_rep key (fst s, snd s) A" by simp
  from hash_find_rep [OF this, of "\<lambda>n. key n = k" k] show ?case by simp
next
  case (2 s A n)
  then show ?case by (cases s) (simp add: hash_add_rep(1))
next
  case (3 s A n)
  then show ?case by (cases s) (simp add: hash_del_rep)
qed

subsection \<open>The LRU lists\<close>

text \<open>The access count of a node says which list it is on.\<close>

definition lru_inv :: "lru2 \<Rightarrow> nat list \<Rightarrow> nat list \<Rightarrow> bool" where
  "lru_inv s act ina \<longleftrightarrow>
     list_family {Act_list, Ina_list} (lru_links s)
       (\<lambda>a. if a = Act_list then map Lru_node act else if a = Ina_list then map Lru_node ina else []) \<and>
     (\<forall>n. access s n = (if n \<in> set act then 2 else if n \<in> set ina then 1 else 0))"

abbreviation lru_fam :: "nat list \<Rightarrow> nat list \<Rightarrow> lru_node \<Rightarrow> lru_node list" where
  "lru_fam act ina \<equiv>
     (\<lambda>a. if a = Act_list then map Lru_node act else if a = Ina_list then map Lru_node ina else [])"

lemma lru_fam_upd:
  "(lru_fam act ina)(Act_list := map Lru_node xs) = lru_fam xs ina"
  "(lru_fam act ina)(Ina_list := map Lru_node xs) = lru_fam act xs"
  by (auto simp: fun_eq_iff)

lemma lru_distinct:
  assumes "lru_inv s act ina"
  shows "distinct act" "distinct ina" "set act \<inter> set ina = {}"
proof -
  from assms have F: "list_family {Act_list, Ina_list} (lru_links s) (lru_fam act ina)" by (simp add: lru_inv_def)
  from list_familyD [OF F, of Act_list] list_familyD [OF F, of Ina_list]
  show "distinct act" "distinct ina" by (auto simp: is_list_def distinct_map)
  from list_family_disjoint [OF F, of Act_list Ina_list] show "set act \<inter> set ina = {}" by auto
qed

lemma lru_notin: "n \<notin> set act \<Longrightarrow> n \<notin> set ina \<Longrightarrow> Lru_node n \<notin> fam_nodes {Act_list, Ina_list} (lru_fam act ina)"
  by (auto simp: fam_nodes_def)

lemma inj_lru: "inj Lru_node"
  by (simp add: inj_def)

lemma lru_del_links:
  assumes F: "list_family {Act_list, Ina_list} h (lru_fam act ina)"
  shows "n \<in> set act \<Longrightarrow> list_family {Act_list, Ina_list} (list_del (Lru_node n) h) (lru_fam (remove1 n act) ina)"
    and "n \<in> set ina \<Longrightarrow> list_family {Act_list, Ina_list} (list_del (Lru_node n) h) (lru_fam act (remove1 n ina))"
  using fam_del [OF F, of Act_list "Lru_node n"] fam_del [OF F, of Ina_list "Lru_node n"]
  by (auto simp: remove1_map_inj [OF inj_lru] lru_fam_upd)

lemma lru_add_links:
  assumes F: "list_family {Act_list, Ina_list} h (lru_fam act ina)" and n: "n \<notin> set act" "n \<notin> set ina"
  shows "list_family {Act_list, Ina_list} (list_add_tail (Lru_node n) Act_list h) (lru_fam (act @ [n]) ina)"
    and "list_family {Act_list, Ina_list} (list_add_tail (Lru_node n) Ina_list h) (lru_fam act (ina @ [n]))"
  using fam_add_tail [OF F, of Act_list "Lru_node n"] fam_add_tail [OF F, of Ina_list "Lru_node n"] lru_notin [OF n]
    lru_fam_upd(1) [of act ina "act @ [n]"] lru_fam_upd(2) [of act ina "ina @ [n]"] by simp_all

lemma lru2_up_inv:
  assumes inv: "lru_inv s act ina"
  shows "\<exists>s'. lru2_up n s = Inr s' \<and>
    (if n \<in> set act then lru_inv s' (remove1 n act @ [n]) ina
     else if n \<in> set ina then lru_inv s' (act @ [n]) (remove1 n ina)
     else lru_inv s' act (ina @ [n]))"
proof -
  from inv have F: "list_family {Act_list, Ina_list} (lru_links s) (lru_fam act ina)"
    and ac: "\<And>n. access s n = (if n \<in> set act then 2 else if n \<in> set ina then 1 else 0)" by (simp_all add: lru_inv_def)
  note D = lru_distinct [OF inv]
  consider "n \<in> set act" "n \<notin> set ina" | "n \<notin> set act" "n \<in> set ina" | "n \<notin> set act" "n \<notin> set ina" using D(3) by blast
  then show ?thesis
  proof cases
    case 1
    then have "n \<notin> set (remove1 n act)" using D(1) by simp
    from lru_add_links(1) [OF lru_del_links(1) [OF F 1(1)] this 1(2)] show ?thesis
      using 1 D ac by (auto simp: lru2_up_def lru_inv_def)
  next
    case 2
    then have "n \<notin> set (remove1 n ina)" using D(2) by simp
    from lru_add_links(1) [OF lru_del_links(2) [OF F 2(2)] 2(1) this] show ?thesis
      using 2 D ac by (auto simp: lru2_up_def lru_inv_def)
  next
    case 3
    from lru_add_links(2) [OF F 3] show ?thesis using 3 ac by (auto simp: lru2_up_def lru_inv_def)
  qed
qed

lemma lru2_down_inv:
  assumes inv: "lru_inv s act ina"
  shows "if n \<in> set act then \<exists>s'. lru2_down n s = Inr s' \<and> lru_inv s' (remove1 n act) (ina @ [n])
     else if n \<in> set ina then \<exists>s'. lru2_down n s = Inr s' \<and> lru_inv s' act (remove1 n ina)
     else lru2_down n s = Inl (Panic ''lru2_downgrade'')"
proof -
  from inv have F: "list_family {Act_list, Ina_list} (lru_links s) (lru_fam act ina)"
    and ac: "\<And>n. access s n = (if n \<in> set act then 2 else if n \<in> set ina then 1 else 0)" by (simp_all add: lru_inv_def)
  note D = lru_distinct [OF inv]
  consider "n \<in> set act" "n \<notin> set ina" | "n \<notin> set act" "n \<in> set ina" | "n \<notin> set act" "n \<notin> set ina" using D(3) by blast
  then show ?thesis
  proof cases
    case 1
    then have "n \<notin> set (remove1 n act)" using D(1) by simp
    from lru_add_links(2) [OF lru_del_links(1) [OF F 1(1)] this 1(2)] show ?thesis
      using 1 D ac by (auto simp: lru2_down_def lru_inv_def)
  next
    case 2
    from lru_del_links(2) [OF F 2(2)] show ?thesis
      using 2 D ac by (auto simp: lru2_down_def lru_inv_def)
  next
    case 3
    then show ?thesis using ac by (simp add: lru2_down_def)
  qed
qed

end
