(* ===== verification/Blk.thy ===== *)
theory Blk
  imports Hashtab
begin

text \<open>
  The block layer: splitting a transfer into blocks (kernel/dev/blk/bio.c), requests and their queue
  (request.c), the buffer cache (buf.c), the I/O thread and the generic operations (gendisk.c), the
  write-back thread (flush.c), the device interface (blk_dev.c) and the RAM disk
  (drive/blk/mvir_blk.c).

  Buffer heads and requests are numbered in the order of their allocation (their slab caches hand out
  different objects; running out of them is not modelled); pages come from the page allocator, whose
  byte memory holds the cached blocks, the clients' buffers and the RAM disk. The lists of the cache
  are link heaps: the chains of the hash table, the two LRU lists and the list of dirty buffers.
  A sleep lock is the value of its semaphore; waiting for one that is taken is \<open>Spins\<close>, which here
  means that the step cannot happen yet. The driver's \<open>ll_rw\<close> is an argument, as it is a function
  pointer in the code.

  The lemmas here show that the blocks of a transfer cover it exactly. The cache's invariant is in
  \<open>Bcache\<close>, whole transfers and the write-back thread are in \<open>Blkio\<close>.
\<close>

abbreviation (input) DEV_READ :: u32 where "DEV_READ \<equiv> 0"
abbreviation (input) DEV_WRITE :: u32 where "DEV_WRITE \<equiv> 1"
abbreviation (input) BLK_SIZE :: nat where "BLK_SIZE \<equiv> 4096"

subsection \<open>Splitting a transfer into blocks\<close>

record bio =
  b_blockno :: u32
  b_offset :: u32
  b_len :: u32

text \<open>The list starts with the bio of the lowest block; it is built from the other end.\<close>

definition bio_alloc :: "u32 \<Rightarrow> u32 \<Rightarrow> u32 \<Rightarrow> bio list \<Rightarrow> bio list" where
  "bio_alloc blockno offset len next = \<lparr>b_blockno = blockno, b_offset = offset, b_len = len\<rparr> # next"

function bio_middle :: "u32 \<Rightarrow> u32 \<Rightarrow> bio list \<Rightarrow> u32 \<times> bio list" where
  "bio_middle k blockno bs =
     (if k > 1 then bio_middle (k - 1) (blockno - 1) (bio_alloc (blockno - 1) 0 (of_nat BLK_SIZE) bs)
      else (blockno, bs))"
  by pat_completeness auto
termination
proof (relation "measure (\<lambda>(k, _, _). unat k)", goal_cases)
  case (2 k blockno bs)
  then have "k \<noteq> 0" by auto
  with 2 show ?case by (simp add: unat_minus_1 word_less_nat_alt)
qed simp

declare bio_middle.simps [simp del]

definition bio_list_make :: "u32 \<Rightarrow> u32 \<Rightarrow> u32 \<Rightarrow> bio list kres" where
  "bio_list_make blockno offset len =
     (if len = 0 then Inr []
      else
        let blockno = blockno + offset div of_nat BLK_SIZE;
            offset = offset mod of_nat BLK_SIZE;
            count = (offset + len - 1) div of_nat BLK_SIZE + 1
        in if count = 1 then Inr (bio_alloc blockno offset len [])
           else if count > 1 then
             let blockno = blockno + count - 1;
                 bs = bio_alloc blockno 0 ((offset + len - 1) mod of_nat BLK_SIZE + 1) [];
                 (blockno, bs) = bio_middle (count - 1) blockno bs
             in Inr (bio_alloc (blockno - 1) offset (of_nat BLK_SIZE - offset) bs)
           else Inl (Panic ''bio_list_make NONE!''))"

subsection \<open>Buffers, requests and the state of a disk\<close>

abbreviation (input) BH_Dirty :: u32 where "BH_Dirty \<equiv> 1"
abbreviation (input) BH_New :: u32 where "BH_New \<equiv> 2"
abbreviation (input) BH_Fixed :: u32 where "BH_Fixed \<equiv> 8"
abbreviation (input) BH_Visited :: u32 where "BH_Visited \<equiv> 0x80000000"
abbreviation (input) BH_Active :: u32 where "BH_Active \<equiv> 0x40000000"

record buf_head =
  bh_flags :: u32
  bh_blockno :: u32
  bh_slock :: int
  bh_refcnt :: int
  bh_page :: u64

datatype cnode = Chain nat | Bh nat
datatype qnode = Active_head | Inactive_head | Lru nat
datatype dnode = Dirty_head | Dirt nat
datatype rnode = Rq_head | Rq nat

record bhash_struct =
  bh_lock :: spinlock
  buf_hash_table :: "cnode hash_table"
  chains :: "cnode lheap"
  lrus :: "qnode lheap"
  active_count :: u32
  inactive_count :: u32
  dirties :: "dnode lheap"

record request =
  rq_flags :: u32
  rq_bio :: "bio list"
  rq_slock :: int
  rq_vaddr :: u64

record request_queue =
  rq_lock :: spinlock
  rq_sem :: int
  rq_links :: "rnode lheap"

text \<open>What the two threads of a disk are about to do: the rest of the request that is being served,
  and the buffer the write-back thread took off the dirty list.\<close>

datatype io_pc = Io_wait | Io_serving nat "bio list"
datatype flush_pc = Fl_check | Fl_popped nat | Fl_written nat

record 'd gendisk =
  sl :: slab_state
  bufs :: "nat \<Rightarrow> buf_head"
  nbufs :: nat
  bhash :: bhash_struct
  rqs :: "nat \<Rightarrow> request"
  nrqs :: nat
  queue :: request_queue
  dev :: 'd
  io_at :: io_pc
  flush_at :: flush_pc

type_synonym 'd driver = "u32 \<Rightarrow> u32 \<Rightarrow> u64 \<Rightarrow> 'd \<times> mem \<Rightarrow> 'd \<times> mem"

definition mem_of :: "'d gendisk \<Rightarrow> mem" where
  "mem_of st = ram (fst (mm (sl st)))"

definition upd_mem :: "(mem \<Rightarrow> mem) \<Rightarrow> 'd gendisk \<Rightarrow> 'd gendisk" where
  "upd_mem f st = (case mm (sl st) of (s, h, l) \<Rightarrow>
     st\<lparr>sl := (sl st)\<lparr>mm := (s\<lparr>ram := f (ram s)\<rparr>, h, l)\<rparr>\<rparr>)"

definition upd_buf :: "nat \<Rightarrow> (buf_head \<Rightarrow> buf_head) \<Rightarrow> 'd gendisk \<Rightarrow> 'd gendisk" where
  "upd_buf b f st = st\<lparr>bufs := (bufs st)(b := f (bufs st b))\<rparr>"

definition upd_bhash :: "(bhash_struct \<Rightarrow> bhash_struct) \<Rightarrow> 'd gendisk \<Rightarrow> 'd gendisk" where
  "upd_bhash f st = st\<lparr>bhash := f (bhash st)\<rparr>"

definition call_driver :: "'d driver \<Rightarrow> u32 \<Rightarrow> u32 \<Rightarrow> u64 \<Rightarrow> 'd gendisk \<Rightarrow> 'd gendisk" where
  "call_driver ll_rw rw blockno page st =
     (case ll_rw rw blockno page (dev st, mem_of st) of (d, m) \<Rightarrow> upd_mem (\<lambda>_. m) (st\<lparr>dev := d\<rparr>))"

definition lock_bhash :: "int \<Rightarrow> 'd gendisk \<Rightarrow> 'd gendisk kres" where
  "lock_bhash cpuid st = (case mm (sl st) of (s, h, l) \<Rightarrow>
     bindR (spin_lock cpuid (h, bh_lock (bhash st))) (\<lambda>(h, lk).
       Inr (upd_bhash (\<lambda>b. b\<lparr>bh_lock := lk\<rparr>) (st\<lparr>sl := (sl st)\<lparr>mm := (s, h, l)\<rparr>\<rparr>))))"

definition unlock_bhash :: "int \<Rightarrow> 'd gendisk \<Rightarrow> 'd gendisk kres" where
  "unlock_bhash cpuid st = (case mm (sl st) of (s, h, l) \<Rightarrow>
     bindR (spin_unlock cpuid (h, bh_lock (bhash st))) (\<lambda>(h, lk).
       Inr (upd_bhash (\<lambda>b. b\<lparr>bh_lock := lk\<rparr>) (st\<lparr>sl := (sl st)\<lparr>mm := (s, h, l)\<rparr>\<rparr>))))"

subsection \<open>The buffer cache\<close>

definition sleep_on :: "int \<Rightarrow> int kres" where
  "sleep_on v = (if v > 0 then Inr (v - 1) else Inl Spins)"

definition buf_pin :: "nat \<Rightarrow> 'd gendisk \<Rightarrow> 'd gendisk kres" where
  "buf_pin b st = bindR (sleep_on (bh_slock (bufs st b))) (\<lambda>v. Inr (upd_buf b (\<lambda>x. x\<lparr>bh_slock := v\<rparr>) st))"

definition buf_unpin :: "nat \<Rightarrow> 'd gendisk \<Rightarrow> 'd gendisk" where
  "buf_unpin b = upd_buf b (\<lambda>x. x\<lparr>bh_slock := bh_slock x + 1\<rparr>)"

definition buf_used :: "nat \<Rightarrow> 'd gendisk \<Rightarrow> 'd gendisk" where
  "buf_used b = upd_buf b (\<lambda>x. x\<lparr>bh_flags := bh_flags x AND NOT BH_New\<rparr>)"

definition buf_is_new :: "nat \<Rightarrow> 'd gendisk \<Rightarrow> bool" where
  "buf_is_new b st \<longleftrightarrow> bh_flags (bufs st b) AND BH_New \<noteq> 0"

definition bhash_init :: "int \<Rightarrow> 'd gendisk \<Rightarrow> 'd gendisk kres" where
  "bhash_init cpuid st =
     bindR (hash_init cpuid 32 ''bcache'' (\<lambda>_. Chain) (sl st, chains (bhash st))) (\<lambda>(_, ht, s, lh).
       Inr (upd_bhash (\<lambda>b. b\<lparr>bh_lock := spin_init, buf_hash_table := ht, chains := lh,
              lrus := INIT_LIST_HEAD Inactive_head (INIT_LIST_HEAD Active_head (lrus b)),
              active_count := 0, inactive_count := 0, dirties := INIT_LIST_HEAD Dirty_head (dirties b)\<rparr>)
            (st\<lparr>sl := s\<rparr>)))"

definition bhash_lru :: "nat \<Rightarrow> 'd gendisk \<Rightarrow> 'd gendisk" where
  "bhash_lru b st =
     (if bh_flags (bufs st b) AND BH_Active = BH_Active then st
      else if bh_flags (bufs st b) AND BH_Visited = BH_Visited then
        upd_bhash (\<lambda>h. h\<lparr>lrus := list_add_head (Lru b) Active_head (list_del (Lru b) (lrus h)),
                         active_count := active_count h + 1\<rparr>)
          (upd_buf b (\<lambda>x. x\<lparr>bh_flags := bh_flags x OR BH_Active\<rparr>) st)
      else
        upd_bhash (\<lambda>h. h\<lparr>lrus := list_add_head (Lru b) Inactive_head (lrus h),
                         inactive_count := inactive_count h + 1\<rparr>)
          (upd_buf b (\<lambda>x. x\<lparr>bh_flags := bh_flags x OR BH_Visited\<rparr>) st))"

definition set_table :: "cnode hash_table \<times> cnode lheap \<Rightarrow> 'd gendisk \<Rightarrow> 'd gendisk" where
  "set_table t = upd_bhash (\<lambda>h. h\<lparr>buf_hash_table := fst t, chains := snd t\<rparr>)"

definition table_of :: "'d gendisk \<Rightarrow> cnode hash_table \<times> cnode lheap" where
  "table_of st = (buf_hash_table (bhash st), chains (bhash st))"

definition bhash_add :: "nat \<Rightarrow> 'd gendisk \<Rightarrow> 'd gendisk" where
  "bhash_add b st = set_table (hash_add_head (unat (bh_blockno (bufs st b))) (Bh b) (table_of st)) st"

definition bhash_del :: "nat \<Rightarrow> 'd gendisk \<Rightarrow> 'd gendisk" where
  "bhash_del b st = set_table (hash_del_node (Bh b) (table_of st)) st"

definition bh_key :: "(nat \<Rightarrow> buf_head) \<Rightarrow> cnode \<Rightarrow> nat" where
  "bh_key bs n = (case n of Bh b \<Rightarrow> unat (bh_blockno (bs b)) | Chain i \<Rightarrow> i)"

definition bhash_find :: "u32 \<Rightarrow> 'd gendisk \<Rightarrow> (nat option \<times> 'd gendisk) kres" where
  "bhash_find blockno st =
     bindR (hash_find (\<lambda>n. bh_key (bufs st) n = unat blockno) (unat blockno) (table_of st)) (\<lambda>r.
       case r of
         Some (Bh b) \<Rightarrow> Inr (Some b, bhash_lru b st)
       | Some (Chain i) \<Rightarrow> Inl (Fault ''list_entry'')
       | None \<Rightarrow> Inr (None, st))"

text \<open>\<open>buf_alloc\<close> sets \<open>BH_New\<close> in flags it does not initialise: the old content of the object.\<close>

definition buf_alloc :: "int \<Rightarrow> u32 \<Rightarrow> 'd gendisk \<Rightarrow> (nat \<times> 'd gendisk) kres" where
  "buf_alloc cpuid blockno st =
     (let b = nbufs st;
          st = upd_buf b (\<lambda>x. x\<lparr>bh_blockno := blockno, bh_slock := 1, bh_refcnt := 0\<rparr>) (st\<lparr>nbufs := b + 1\<rparr>);
          st = upd_bhash (\<lambda>h. h\<lparr>chains := INIT_LIST_HEAD (Bh b) (chains h), lrus := INIT_LIST_HEAD (Lru b) (lrus h),
                                dirties := INIT_LIST_HEAD (Dirt b) (dirties h)\<rparr>) st;
          st = upd_buf b (\<lambda>x. x\<lparr>bh_flags := bh_flags x OR BH_New\<rparr>) st
      in bindR (alloc_page_addr cpuid 0 (mm (sl st))) (\<lambda>(a, m).
         if a = 0 then Inl (Panic ''buf_alloc'')
         else Inr (b, upd_buf b (\<lambda>x. x\<lparr>bh_page := a\<rparr>) (st\<lparr>sl := (sl st)\<lparr>mm := m\<rparr>\<rparr>))))"

definition buf_get :: "int \<Rightarrow> u32 \<Rightarrow> 'd gendisk \<Rightarrow> (nat \<times> 'd gendisk) kres" where
  "buf_get cpuid blockno st =
     bindR (lock_bhash cpuid st) (\<lambda>st.
     bindR (bhash_find blockno st) (\<lambda>(r, st).
     bindR (case r of
              Some b \<Rightarrow> Inr (b, st)
            | None \<Rightarrow> bindR (buf_alloc cpuid blockno st) (\<lambda>(b, st). Inr (b, bhash_lru b (bhash_add b st)))) (\<lambda>(b, st).
     bindR (unlock_bhash cpuid st) (\<lambda>st.
       Inr (b, upd_buf b (\<lambda>x. x\<lparr>bh_refcnt := atomic_inc (bh_refcnt x)\<rparr>) st)))))"

text \<open>The dirty list's part of \<open>buf_release\<close>.\<close>

definition dirty_mark :: "nat \<Rightarrow> dnode lheap \<Rightarrow> dnode lheap" where
  "dirty_mark b lh =
     (let lh = (if \<not> list_empty Dirty_head lh then list_del (Dirt b) lh else lh)
      in list_add_head (Dirt b) Dirty_head lh)"

definition buf_release :: "int \<Rightarrow> nat \<Rightarrow> bool \<Rightarrow> 'd gendisk \<Rightarrow> 'd gendisk kres" where
  "buf_release cpuid b is_dirty st =
     (let st = upd_buf b (\<lambda>x. x\<lparr>bh_refcnt := atomic_dec (bh_refcnt x)\<rparr>) st;
          st = buf_used b st
      in if is_dirty then
           let st = upd_buf b (\<lambda>x. x\<lparr>bh_flags := bh_flags x OR BH_Dirty\<rparr>) st
           in bindR (lock_bhash cpuid st) (\<lambda>st.
              unlock_bhash cpuid (upd_bhash (\<lambda>h. h\<lparr>dirties := dirty_mark b (dirties h)\<rparr>) st))
         else Inr st)"

subsection \<open>Requests\<close>

definition upd_rq :: "nat \<Rightarrow> (request \<Rightarrow> request) \<Rightarrow> 'd gendisk \<Rightarrow> 'd gendisk" where
  "upd_rq r f st = st\<lparr>rqs := (rqs st)(r := f (rqs st r))\<rparr>"

definition upd_queue :: "(request_queue \<Rightarrow> request_queue) \<Rightarrow> 'd gendisk \<Rightarrow> 'd gendisk" where
  "upd_queue f st = st\<lparr>queue := f (queue st)\<rparr>"

definition lock_queue :: "int \<Rightarrow> 'd gendisk \<Rightarrow> 'd gendisk kres" where
  "lock_queue cpuid st = (case mm (sl st) of (s, h, l) \<Rightarrow>
     bindR (spin_lock cpuid (h, rq_lock (queue st))) (\<lambda>(h, lk).
       Inr (upd_queue (\<lambda>q. q\<lparr>rq_lock := lk\<rparr>) (st\<lparr>sl := (sl st)\<lparr>mm := (s, h, l)\<rparr>\<rparr>))))"

definition unlock_queue :: "int \<Rightarrow> 'd gendisk \<Rightarrow> 'd gendisk kres" where
  "unlock_queue cpuid st = (case mm (sl st) of (s, h, l) \<Rightarrow>
     bindR (spin_unlock cpuid (h, rq_lock (queue st))) (\<lambda>(h, lk).
       Inr (upd_queue (\<lambda>q. q\<lparr>rq_lock := lk\<rparr>) (st\<lparr>sl := (sl st)\<lparr>mm := (s, h, l)\<rparr>\<rparr>))))"

definition rq_queue_init :: "'d gendisk \<Rightarrow> 'd gendisk" where
  "rq_queue_init = upd_queue (\<lambda>q. \<lparr>rq_lock = spin_init, rq_sem = 0, rq_links = INIT_LIST_HEAD Rq_head (rq_links q)\<rparr>)"

definition request_alloc :: "'d gendisk \<Rightarrow> nat \<times> 'd gendisk" where
  "request_alloc st =
     (let r = nrqs st
      in (r, upd_rq r (\<lambda>_. \<lparr>rq_flags = 2, rq_bio = [], rq_slock = 0, rq_vaddr = 0\<rparr>)
               (upd_queue (\<lambda>q. q\<lparr>rq_links := INIT_LIST_HEAD (Rq r) (rq_links q)\<rparr>) (st\<lparr>nrqs := r + 1\<rparr>))))"

definition rq_append :: "int \<Rightarrow> nat \<Rightarrow> 'd gendisk \<Rightarrow> 'd gendisk kres" where
  "rq_append cpuid r st =
     bindR (lock_queue cpuid st) (\<lambda>st.
       unlock_queue cpuid (upd_queue (\<lambda>q. q\<lparr>rq_links := list_add_tail (Rq r) Rq_head (rq_links q)\<rparr>) st))"

definition make_request :: "int \<Rightarrow> u64 \<Rightarrow> u32 \<Rightarrow> u32 \<Rightarrow> u64 \<Rightarrow> u32 \<Rightarrow> 'd gendisk \<Rightarrow> (nat \<times> 'd gendisk) kres" where
  "make_request cpuid blockno offset len vaddr rw st =
     (case request_alloc st of (r, st) \<Rightarrow>
        let st = upd_rq r (\<lambda>x. x\<lparr>rq_flags := rw\<rparr>) st
        in bindR (bio_list_make (ucast blockno) offset len) (\<lambda>bs.
           let st = upd_rq r (\<lambda>x. x\<lparr>rq_bio := bs, rq_vaddr := vaddr\<rparr>) st
           in bindR (rq_append cpuid r st) (\<lambda>st. Inr (r, st))))"

definition get_next_rq :: "int \<Rightarrow> 'd gendisk \<Rightarrow> (rnode option \<times> 'd gendisk) kres" where
  "get_next_rq cpuid st =
     bindR (lock_queue cpuid st) (\<lambda>st.
     case (if \<not> list_empty Rq_head (rq_links (queue st)) then list_pop Rq_head (rq_links (queue st))
           else (None, rq_links (queue st))) of
       (n, lh) \<Rightarrow> bindR (unlock_queue cpuid (upd_queue (\<lambda>q. q\<lparr>rq_links := lh\<rparr>) st)) (\<lambda>st. Inr (n, st)))"

subsection \<open>The I/O thread\<close>

text \<open>\<open>gen_start_io\<close>: waiting for a request, serving one bio of it, and waking its owner.\<close>

definition io_start :: "int \<Rightarrow> 'd gendisk \<Rightarrow> 'd gendisk kres" where
  "io_start cpuid st =
     bindR (sleep_on (rq_sem (queue st))) (\<lambda>v.
     bindR (get_next_rq cpuid (upd_queue (\<lambda>q. q\<lparr>rq_sem := v\<rparr>) st)) (\<lambda>(n, st).
       case n of
         Some (Rq r) \<Rightarrow> Inr (st\<lparr>io_at := Io_serving r (rq_bio (rqs st r))\<rparr>)
       | _ \<Rightarrow> Inl (Fault ''rq->bio'')))"

definition io_bio :: "'d driver \<Rightarrow> int \<Rightarrow> nat \<Rightarrow> bio \<Rightarrow> 'd gendisk \<Rightarrow> 'd gendisk kres" where
  "io_bio ll_rw cpuid r b st =
     (if b_len b = 0 then Inl Spins
      else
        bindR (buf_get cpuid (b_blockno b) st) (\<lambda>(buf, st).
        bindR (buf_pin buf st) (\<lambda>st.
        let page = bh_page (bufs st buf);
            at = page + ucast (b_offset b);
            rw = rq_flags (rqs st r);
            vaddr = rq_vaddr (rqs st r)
        in bindR (if rw = DEV_READ then
                    let st = (if buf_is_new buf st then call_driver ll_rw rw (b_blockno b) page st else st);
                        st = upd_mem (memcpy vaddr at (ucast (b_len b))) st
                    in bindR (buf_release cpuid buf False st) (\<lambda>st. Inr (buf_unpin buf st))
                  else if rw = DEV_WRITE then
                    let st = (if \<not> (b_offset b = 0 \<and> b_len b = of_nat BLK_SIZE) \<and> buf_is_new buf st
                              then call_driver ll_rw DEV_READ (b_blockno b) page st else st);
                        st = upd_mem (memcpy at vaddr (ucast (b_len b))) st
                    in bindR (buf_release cpuid buf True st) (\<lambda>st. Inr (buf_unpin buf st))
                  else Inr st) (\<lambda>st.
           Inr (upd_rq r (\<lambda>x. x\<lparr>rq_vaddr := vaddr + ucast (b_len b)\<rparr>) st)))))"

definition io_end :: "nat \<Rightarrow> 'd gendisk \<Rightarrow> 'd gendisk" where
  "io_end r st = (upd_rq r (\<lambda>x. x\<lparr>rq_slock := rq_slock x + 1\<rparr>) st)\<lparr>io_at := Io_wait\<rparr>"

text \<open>One step of the thread, wherever it is, and one whole round of its loop.\<close>

definition gen_start_io :: "'d driver \<Rightarrow> int \<Rightarrow> 'd gendisk \<Rightarrow> 'd gendisk kres" where
  "gen_start_io ll_rw cpuid st =
     (case io_at st of
        Io_wait \<Rightarrow> io_start cpuid st
      | Io_serving r (b # bs) \<Rightarrow> bindR (io_bio ll_rw cpuid r b st) (\<lambda>st. Inr (st\<lparr>io_at := Io_serving r bs\<rparr>))
      | Io_serving r [] \<Rightarrow> Inr (io_end r st))"

fun io_bios :: "'d driver \<Rightarrow> int \<Rightarrow> nat \<Rightarrow> bio list \<Rightarrow> 'd gendisk \<Rightarrow> 'd gendisk kres" where
  "io_bios ll_rw cpuid r [] st = Inr st"
| "io_bios ll_rw cpuid r (b # bs) st = bindR (io_bio ll_rw cpuid r b st) (io_bios ll_rw cpuid r bs)"

definition io_round :: "'d driver \<Rightarrow> int \<Rightarrow> 'd gendisk \<Rightarrow> 'd gendisk kres" where
  "io_round ll_rw cpuid st =
     bindR (io_start cpuid st) (\<lambda>st.
       case io_at st of
         Io_serving r bs \<Rightarrow> bindR (io_bios ll_rw cpuid r bs st) (\<lambda>st. Inr (io_end r st))
       | Io_wait \<Rightarrow> Inr st)"

subsection \<open>Reading and writing\<close>

text \<open>
  \<open>gen_read\<close> and \<open>gen_write\<close>: the request is queued and the caller sleeps on it. What happens until
  it wakes up is the I/O thread's next round when the queue was empty.
\<close>

definition gen_submit :: "int \<Rightarrow> u32 \<Rightarrow> u32 \<Rightarrow> u32 \<Rightarrow> u64 \<Rightarrow> u32 \<Rightarrow> 'd gendisk \<Rightarrow> (nat \<times> 'd gendisk) kres" where
  "gen_submit cpuid blockno offset len vaddr rw st =
     bindR (make_request cpuid (ucast blockno) offset len vaddr rw st) (\<lambda>(r, st).
       Inr (r, upd_queue (\<lambda>q. q\<lparr>rq_sem := atomic_inc (rq_sem q)\<rparr>) st))"

definition gen_wait :: "nat \<Rightarrow> 'd gendisk \<Rightarrow> 'd gendisk kres" where
  "gen_wait r st = bindR (sleep_on (rq_slock (rqs st r))) (\<lambda>v. Inr (upd_rq r (\<lambda>x. x\<lparr>rq_slock := v\<rparr>) st))"

definition gen_rw :: "'d driver \<Rightarrow> int \<Rightarrow> u32 \<Rightarrow> u32 \<Rightarrow> u32 \<Rightarrow> u64 \<Rightarrow> u32 \<Rightarrow> 'd gendisk \<Rightarrow> (int \<times> 'd gendisk) kres" where
  "gen_rw ll_rw cpuid blockno offset len vaddr rw st =
     bindR (gen_submit cpuid blockno offset len vaddr rw st) (\<lambda>(r, st).
     bindR (io_round ll_rw cpuid st) (\<lambda>st.
     bindR (gen_wait r st) (\<lambda>st. Inr (0, st))))"

definition gen_read :: "'d driver \<Rightarrow> int \<Rightarrow> u32 \<Rightarrow> u32 \<Rightarrow> u32 \<Rightarrow> u64 \<Rightarrow> 'd gendisk \<Rightarrow> (int \<times> 'd gendisk) kres" where
  "gen_read ll_rw cpuid blockno offset len vaddr = gen_rw ll_rw cpuid blockno offset len vaddr DEV_READ"

definition gen_write :: "'d driver \<Rightarrow> int \<Rightarrow> u32 \<Rightarrow> u32 \<Rightarrow> u32 \<Rightarrow> u64 \<Rightarrow> 'd gendisk \<Rightarrow> (int \<times> 'd gendisk) kres" where
  "gen_write ll_rw cpuid blockno offset len vaddr = gen_rw ll_rw cpuid blockno offset len vaddr DEV_WRITE"

definition gen_disk_read :: "'d driver \<Rightarrow> int \<Rightarrow> u32 \<Rightarrow> u32 \<Rightarrow> u32 \<Rightarrow> u64 \<Rightarrow> 'd gendisk \<Rightarrow> (int \<times> 'd gendisk) kres" where
  "gen_disk_read ll_rw cpuid blockno offset len vaddr st =
     (if vaddr = 0 then Inr (- 1, st) else gen_read ll_rw cpuid blockno offset len vaddr st)"

definition gen_disk_write :: "'d driver \<Rightarrow> int \<Rightarrow> u32 \<Rightarrow> u32 \<Rightarrow> u32 \<Rightarrow> u64 \<Rightarrow> 'd gendisk \<Rightarrow> (int \<times> 'd gendisk) kres" where
  "gen_disk_write ll_rw cpuid blockno offset len vaddr st =
     (if vaddr = 0 then Inr (- 1, st) else gen_write ll_rw cpuid blockno offset len vaddr st)"

definition blk_read :: "'d driver \<Rightarrow> int \<Rightarrow> u32 \<Rightarrow> u32 \<Rightarrow> u32 \<Rightarrow> u64 \<Rightarrow> 'd gendisk \<Rightarrow> (int \<times> 'd gendisk) kres" where
  "blk_read ll_rw cpuid blockno offset len vaddr = gen_disk_read ll_rw cpuid blockno offset len vaddr"

definition blk_write :: "'d driver \<Rightarrow> int \<Rightarrow> u32 \<Rightarrow> u32 \<Rightarrow> u32 \<Rightarrow> u64 \<Rightarrow> 'd gendisk \<Rightarrow> (int \<times> 'd gendisk) kres" where
  "blk_write ll_rw cpuid blockno offset len vaddr = gen_disk_write ll_rw cpuid blockno offset len vaddr"

definition blk_read_count :: "'d driver \<Rightarrow> int \<Rightarrow> u32 \<Rightarrow> u32 \<Rightarrow> u64 \<Rightarrow> 'd gendisk \<Rightarrow> (int \<times> 'd gendisk) kres" where
  "blk_read_count ll_rw cpuid blockno n vaddr = gen_disk_read ll_rw cpuid blockno 0 (n * of_nat BLK_SIZE) vaddr"

definition blk_write_count :: "'d driver \<Rightarrow> int \<Rightarrow> u32 \<Rightarrow> u32 \<Rightarrow> u64 \<Rightarrow> 'd gendisk \<Rightarrow> (int \<times> 'd gendisk) kres" where
  "blk_write_count ll_rw cpuid blockno n vaddr = gen_disk_write ll_rw cpuid blockno 0 (n * of_nat BLK_SIZE) vaddr"

subsection \<open>The write-back thread\<close>

text \<open>
  The loop in \<open>flush_bhash\<close>: taking a buffer off the dirty list, writing it without the lock, and,
  under the lock again, clearing its mark, deleting it from the list once more and taking the next.
\<close>

definition flush_take :: "int \<Rightarrow> 'd gendisk \<Rightarrow> 'd gendisk kres" where
  "flush_take cpuid st =
     (case list_pop Dirty_head (dirties (bhash st)) of
        (None, _) \<Rightarrow> bindR (unlock_bhash cpuid st) (\<lambda>st. Inr (st\<lparr>flush_at := Fl_check\<rparr>))
      | (Some (Dirt b), lh) \<Rightarrow>
          bindR (unlock_bhash cpuid (upd_bhash (\<lambda>h. h\<lparr>dirties := lh\<rparr>) st)) (\<lambda>st.
            Inr (st\<lparr>flush_at := Fl_popped b\<rparr>))
      | (Some Dirty_head, _) \<Rightarrow> Inl (Fault ''list_entry''))"

definition flush_write :: "'d driver \<Rightarrow> nat \<Rightarrow> 'd gendisk \<Rightarrow> 'd gendisk kres" where
  "flush_write ll_rw b st =
     bindR (buf_pin b st) (\<lambda>st.
       let st = call_driver ll_rw DEV_WRITE (bh_blockno (bufs st b)) (bh_page (bufs st b)) st
       in Inr ((buf_unpin b st)\<lparr>flush_at := Fl_written b\<rparr>))"

definition flush_done :: "int \<Rightarrow> nat \<Rightarrow> 'd gendisk \<Rightarrow> 'd gendisk kres" where
  "flush_done cpuid b st =
     bindR (lock_bhash cpuid st) (\<lambda>st.
     let st = upd_buf b (\<lambda>x. x\<lparr>bh_flags := bh_flags x AND NOT BH_Dirty\<rparr>) st;
         st = upd_bhash (\<lambda>h. h\<lparr>dirties := list_del (Dirt b) (dirties h)\<rparr>) st
     in flush_take cpuid st)"

definition flush_bhash :: "'d driver \<Rightarrow> int \<Rightarrow> 'd gendisk \<Rightarrow> 'd gendisk kres" where
  "flush_bhash ll_rw cpuid st =
     (case flush_at st of
        Fl_check \<Rightarrow> bindR (lock_bhash cpuid st) (flush_take cpuid)
      | Fl_popped b \<Rightarrow> flush_write ll_rw b st
      | Fl_written b \<Rightarrow> flush_done cpuid b st)"

subsection \<open>The RAM disk\<close>

text \<open>The device's state is the address of its memory. The product \<open>b_blockno * PGSIZE\<close> has 32 bits.\<close>

definition mvirt_blk_ll_rw :: "u64 driver" where
  "mvirt_blk_ll_rw rw blockno page am = (case am of (addr, m) \<Rightarrow>
     let start = ucast (blockno * of_nat PGSIZE) in
     if rw = DEV_READ then (addr, memcpy page (addr + start) (of_nat PGSIZE) m)
     else if rw = DEV_WRITE then (addr, memcpy (addr + start) page (of_nat PGSIZE) m)
     else (addr, m))"

text \<open>The default of a driver without \<open>ll_rw\<close>.\<close>

definition gen_ll_rw :: "'d driver" where
  "gen_ll_rw rw blockno page dm = dm"

subsection \<open>A transfer's blocks cover it exactly\<close>

definition bytes_of :: "bio \<Rightarrow> nat list" where
  "bytes_of b = [unat (b_blockno b) * BLK_SIZE + unat (b_offset b) ..<
                 unat (b_blockno b) * BLK_SIZE + unat (b_offset b) + unat (b_len b)]"

lemma bio_middle_eq:
  assumes "0 < unat k"
  shows "bio_middle k bn bs =
    (bn - of_nat (unat k - 1),
     map (\<lambda>i. \<lparr>b_blockno = bn - of_nat (unat k - 1) + of_nat i, b_offset = 0, b_len = of_nat BLK_SIZE\<rparr>) [0 ..< unat k - 1] @ bs)"
  using assms
proof (induction "unat k" arbitrary: k bn bs rule: less_induct)
  case less
  show ?case
  proof (cases "k > 1")
    case True
    then have "k \<noteq> 0" "1 < unat k" by (auto simp: word_less_nat_alt)
    then have k: "unat (k - 1) = unat k - 1" "0 < unat (k - 1)" "unat (k - 1) < unat k"
      using unat_minus_1 [of k] by simp_all
    obtain j where j: "unat k - 1 = Suc j" using k(1,2) by (cases "unat k - 1") auto
    then have j': "unat (k - 1) - 1 = j" using k(1) by simp
    have "bio_middle k bn bs = bio_middle (k - 1) (bn - 1) (bio_alloc (bn - 1) 0 (of_nat BLK_SIZE) bs)"
      using True by (subst bio_middle.simps) simp
    also have "\<dots> = (bn - 1 - of_nat j,
       map (\<lambda>i. \<lparr>b_blockno = bn - 1 - of_nat j + of_nat i, b_offset = 0, b_len = of_nat BLK_SIZE\<rparr>) [0 ..< j] @
         bio_alloc (bn - 1) 0 (of_nat BLK_SIZE) bs)"
      using less.hyps [OF k(3,2)] unfolding j' .
    finally show ?thesis unfolding j by (simp add: bio_alloc_def algebra_simps)
  next
    case False
    then have "unat k = 1" using less.prems by (simp add: word_less_nat_alt)
    with False show ?thesis by (subst bio_middle.simps) simp
  qed
qed

lemma upt_append_trans: "i \<le> j \<Longrightarrow> j \<le> k \<Longrightarrow> [i ..< j] @ [j ..< k] = [i ..< k]"
  using upt_add_eq_append [of i j "k - j"] by simp

lemma concat_blocks:
  "concat (map (\<lambda>i. [(b + i) * BLK_SIZE ..< (b + i) * BLK_SIZE + BLK_SIZE]) [0 ..< n]) = [b * BLK_SIZE ..< (b + n) * BLK_SIZE]"
proof (induction n)
  case (Suc n)
  have "[b * BLK_SIZE ..< (b + Suc n) * BLK_SIZE] = [b * BLK_SIZE ..< (b + n) * BLK_SIZE] @ [(b + n) * BLK_SIZE ..< (b + n) * BLK_SIZE + BLK_SIZE]"
    by (subst upt_add_eq_append [symmetric]) (simp_all add: algebra_simps)
  with Suc show ?case by simp
qed simp

lemma in_block:
  assumes "off + n \<le> BLK_SIZE"
  shows "blk * BLK_SIZE + off \<le> p \<and> p < blk * BLK_SIZE + off + n \<longleftrightarrow>
    p div BLK_SIZE = blk \<and> off \<le> p mod BLK_SIZE \<and> p mod BLK_SIZE < off + n"
proof
  assume l: "blk * BLK_SIZE + off \<le> p \<and> p < blk * BLK_SIZE + off + n"
  then obtain i where i: "p = blk * BLK_SIZE + i" using le_Suc_ex [of "blk * BLK_SIZE" p] by auto
  with l assms show "p div BLK_SIZE = blk \<and> off \<le> p mod BLK_SIZE \<and> p mod BLK_SIZE < off + n" by auto
next
  assume r: "p div BLK_SIZE = blk \<and> off \<le> p mod BLK_SIZE \<and> p mod BLK_SIZE < off + n"
  have "p = p div BLK_SIZE * BLK_SIZE + p mod BLK_SIZE" by simp
  with r show "blk * BLK_SIZE + off \<le> p \<and> p < blk * BLK_SIZE + off + n" by linarith
qed

definition blocks_of :: "u32 \<Rightarrow> u32 \<Rightarrow> nat" where
  "blocks_of offset len = (unat offset mod BLK_SIZE + unat len - 1) div BLK_SIZE + 1"

lemma bio_list_make_covers:
  assumes len: "len \<noteq> 0" and fit: "unat offset mod BLK_SIZE + unat len \<le> 2 ^ 32"
    and top: "unat blockno * BLK_SIZE + unat offset + unat len \<le> 2 ^ 32 * BLK_SIZE"
  shows "\<exists>bs. bio_list_make blockno offset len = Inr bs \<and>
    concat (map bytes_of bs) = [unat blockno * BLK_SIZE + unat offset ..< unat blockno * BLK_SIZE + unat offset + unat len] \<and>
    (\<forall>b \<in> set bs. 0 < unat (b_len b) \<and> unat (b_offset b) + unat (b_len b) \<le> BLK_SIZE) \<and>
    length bs = blocks_of offset len"
proof -
  define o' where "o' = unat offset mod BLK_SIZE"
  define n where "n = (o' + unat len - 1) div BLK_SIZE"
  define b0 where "b0 = unat blockno + unat offset div BLK_SIZE"
  have l: "0 < unat len" using len by (simp add: unat_gt_0)
  have o': "o' < BLK_SIZE" by (simp add: o'_def)
  have sum: "unat (offset mod of_nat BLK_SIZE + len - 1) = o' + unat len - 1"
  proof -
    have "offset mod of_nat BLK_SIZE + len - 1 = of_nat (o' + unat len - 1)"
      using l by (simp add: of_nat_diff o'_def word_arith_nat_mod)
    then show ?thesis using fit l by (simp only: o'_def) (intro unat_of_nat_small, simp)
  qed
  have uo: "unat (offset mod of_nat BLK_SIZE) = o'" by (simp add: o'_def unat_mod)
  have start: "unat blockno * BLK_SIZE + unat offset = b0 * BLK_SIZE + o'"
    using div_mult_mod_eq [of "unat offset" BLK_SIZE] by (simp add: b0_def o'_def algebra_simps)
  have end_ok: "b0 * BLK_SIZE + o' + unat len \<le> 2 ^ 32 * BLK_SIZE" using top start by simp
  have tot: "o' + unat len = n * BLK_SIZE + (o' + unat len - 1) mod BLK_SIZE + 1"
    using div_mult_mod_eq [of "o' + unat len - 1" BLK_SIZE] l by (simp add: n_def)
  have bn: "b0 + n < 2 ^ 32" using end_ok tot by simp
  let ?bn = "blockno + offset div of_nat BLK_SIZE" and ?off = "offset mod of_nat BLK_SIZE"
  have ubn: "unat (?bn + of_nat i) = b0 + i" if "i \<le> n" for i
  proof -
    have "?bn + of_nat i = of_nat (b0 + i)" by (simp add: b0_def word_arith_nat_div)
    then show ?thesis using bn that by (simp only:) (intro unat_of_nat_small, simp)
  qed
  have n: "n < 2 ^ 20" unfolding n_def using fit l by (simp add: o'_def)
  have cnt: "(?off + len - 1) div of_nat BLK_SIZE + 1 = of_nat (n + 1)"
    using sum by (simp add: n_def word_arith_nat_div)
  have ucnt: "unat (of_nat (n + 1) :: u32) = n + 1" using n by (intro unat_of_nat_small) simp
  show ?thesis
  proof (cases "n = 0")
    case True
    then show ?thesis
      using True tot l len uo ubn [of 0] start
      by (simp add: bio_list_make_def cnt [simplified] bio_alloc_def bytes_of_def blocks_of_def n_def o'_def)
  next
    case False
    let ?last = "(?off + len - 1) mod of_nat BLK_SIZE + 1"
    let ?c = "of_nat (n + 1) :: u32"
    have c1: "?c \<noteq> 1" "?c > 1" using ucnt False n by (auto simp: word_less_nat_alt)
    have uc: "unat (?c - 1) = n" using n unat_of_nat_small [of n, where 'a = 32] by simp
    have ulast: "unat ?last = (o' + unat len - 1) mod BLK_SIZE + 1"
    proof -
      have "?last = of_nat ((o' + unat len - 1) mod BLK_SIZE + 1)" using sum by (simp add: word_arith_nat_mod)
      moreover have "(o' + unat len - 1) mod BLK_SIZE < BLK_SIZE" by (rule mod_less_divisor) simp
      then have "(o' + unat len - 1) mod BLK_SIZE + 1 < 2 ^ LENGTH(32)" by simp
      ultimately show ?thesis by (simp only: unat_of_nat_small)
    qed
    let ?mid = "map (\<lambda>i. \<lparr>b_blockno = ?bn + of_nat (1 + i), b_offset = 0, b_len = of_nat BLK_SIZE\<rparr>) [0 ..< n - 1]"
    let ?bs = "\<lparr>b_blockno = ?bn, b_offset = ?off, b_len = of_nat BLK_SIZE - ?off\<rparr> # ?mid @
      [\<lparr>b_blockno = ?bn + of_nat n, b_offset = 0, b_len = ?last\<rparr>]"
    have "of_nat (n - Suc 0) = (of_nat n - 1 :: u32)" using False by (simp add: of_nat_diff)
    moreover have "unat (of_nat n :: u32) = n" using n by (intro unat_of_nat_small) simp
    ultimately have mid: "bio_middle (?c - 1) (?bn + ?c - 1) (bio_alloc (?bn + ?c - 1) 0 ?last []) =
        (?bn + 1, ?mid @ [\<lparr>b_blockno = ?bn + of_nat n, b_offset = 0, b_len = ?last\<rparr>])"
      using False by (subst bio_middle_eq) (simp_all add: uc bio_alloc_def algebra_simps)
    have run: "bio_list_make blockno offset len = Inr ?bs"
      unfolding bio_list_make_def Let_def cnt using len c1 mid by (simp add: bio_alloc_def)
    have uf: "unat (of_nat BLK_SIZE - ?off) = BLK_SIZE - o'"
      using o' uo by (subst unat_sub) (simp_all add: word_le_nat_alt)
    have "concat (map bytes_of ?mid) = [(b0 + 1) * BLK_SIZE ..< (b0 + n) * BLK_SIZE]"
    proof -
      have "map bytes_of ?mid = map (\<lambda>i. [(b0 + 1 + i) * BLK_SIZE ..< (b0 + 1 + i) * BLK_SIZE + BLK_SIZE]) [0 ..< n - 1]"
        using ubn [of "1 + _"] by (auto simp: bytes_of_def)
      moreover have "b0 + 1 + (n - 1) = b0 + n" using False by simp
      ultimately show ?thesis using concat_blocks [of "b0 + 1" "n - 1"] by (simp only:)
    qed
    then have "concat (map bytes_of ?bs) = [b0 * BLK_SIZE + o' ..< (b0 + 1) * BLK_SIZE] @ [(b0 + 1) * BLK_SIZE ..< (b0 + n) * BLK_SIZE] @
        [(b0 + n) * BLK_SIZE ..< (b0 + n) * BLK_SIZE + ((o' + unat len - 1) mod BLK_SIZE + 1)]"
      using ubn [of 0] ubn [of n] uo uf ulast o' by (simp add: bytes_of_def add.commute)
    also have "\<dots> = [b0 * BLK_SIZE + o' ..< b0 * BLK_SIZE + o' + unat len]"
    proof -
      have e: "(b0 + n) * BLK_SIZE + ((o' + unat len - 1) mod BLK_SIZE + 1) = b0 * BLK_SIZE + o' + unat len"
        using tot by (simp add: algebra_simps)
      have le: "b0 * BLK_SIZE + o' \<le> (b0 + 1) * BLK_SIZE" "(b0 + 1) * BLK_SIZE \<le> (b0 + n) * BLK_SIZE"
        "(b0 + n) * BLK_SIZE \<le> b0 * BLK_SIZE + o' + unat len" using o' False e by simp_all
      show ?thesis unfolding e upt_append_trans [OF le(2,3)] upt_append_trans [OF le(1) le_trans [OF le(2,3)]] ..
    qed
    finally have "concat (map bytes_of ?bs) = [unat blockno * BLK_SIZE + unat offset ..< unat blockno * BLK_SIZE + unat offset + unat len]"
      by (simp only: start)
    moreover have "\<forall>b \<in> set ?bs. 0 < unat (b_len b) \<and> unat (b_offset b) + unat (b_len b) \<le> BLK_SIZE"
      using uo uf ulast o' mod_less_divisor [of BLK_SIZE "o' + unat len - 1"] by (auto simp: Suc_le_eq)
    moreover have "length ?bs = blocks_of offset len" using False by (simp add: blocks_of_def n_def o'_def)
    ultimately show ?thesis using run by blast
  qed
qed

text \<open>C22: The blocks \<open>bio_list_make\<close> splits a transfer into cover exactly its bytes, in order and each once;
  none of them is empty or reaches behind the end of its block, and there are as many as the range touches.\<close>

theorem transfer_blocks_cover:
  assumes "len \<noteq> 0" and "unat offset mod BLK_SIZE + unat len \<le> 2 ^ 32"
    and "unat blockno * BLK_SIZE + unat offset + unat len \<le> 2 ^ 32 * BLK_SIZE"
  shows "\<exists>bs. bio_list_make blockno offset len = Inr bs \<and>
    concat (map bytes_of bs) = [unat blockno * BLK_SIZE + unat offset ..< unat blockno * BLK_SIZE + unat offset + unat len] \<and>
    (\<forall>b \<in> set bs. 0 < unat (b_len b) \<and> unat (b_offset b) + unat (b_len b) \<le> BLK_SIZE) \<and>
    length bs = blocks_of offset len"
  by (rule bio_list_make_covers [OF assms])

theorem transfer_blocks_cover_witness:
  "\<exists>bs. bio_list_make 5 4000 200 = Inr bs \<and> length bs = 2 \<and> concat (map bytes_of bs) = [24480 ..< 24680]"
  using transfer_blocks_cover [of 200 4000 5] by (auto simp: blocks_of_def)

end
