(* ===== verification/Bcache.thy ===== *)
theory Bcache
  imports Blk
begin

text \<open>
  The buffer cache of the block layer. \<open>view\<close> is what a client sees of the device: the cached copy of
  a block, or the device's own. \<open>cache_rep\<close> is the cache's invariant: the hash table holds one buffer
  per cached block, each with a page of its own that the page allocator does not have. The locale
  \<open>block_driver\<close> is what the layer relies on from a driver's \<open>ll_rw\<close>; in it, getting a block's buffer,
  loading its page, copying from and to it and releasing it keep the invariant and the view.
\<close>

subsection \<open>The cache and what a client sees\<close>

definition lookup :: "'d gendisk \<Rightarrow> nat \<Rightarrow> nat option" where
  "lookup st blk =
     (case hash_find (\<lambda>n. bh_key (bufs st) n = blk) blk (table_of st) of Inr (Some (Bh b)) \<Rightarrow> Some b | _ \<Rightarrow> None)"

text \<open>\<open>content\<close> gives byte \<open>i\<close> of block \<open>blk\<close> on the device itself.\<close>

definition view :: "('d \<times> mem \<Rightarrow> nat \<Rightarrow> nat \<Rightarrow> u8) \<Rightarrow> 'd gendisk \<Rightarrow> nat \<Rightarrow> nat \<Rightarrow> u8" where
  "view content st blk i =
     (case lookup st blk of
        Some b \<Rightarrow> if buf_is_new b st then content (dev st, mem_of st) blk i else mem_of st (bh_page (bufs st b) + of_nat i)
      | None \<Rightarrow> content (dev st, mem_of st) blk i)"

definition frame_of :: "'d gendisk \<Rightarrow> nat \<Rightarrow> nat" where
  "frame_of st b = get_page_struct (bh_page (bufs st b))"

text \<open>The buffers \<open>A\<close> are the cache: one per block, each with a page of its own.\<close>

definition cache_rep :: "'d gendisk \<Rightarrow> (nat \<Rightarrow> nat list) \<Rightarrow> nat set \<Rightarrow> bool" where
  "cache_rep st FL A \<longleftrightarrow>
     mm_ok (mm (sl st)) FL \<and> hash_rep (bh_key (bufs st)) (table_of st) (Bh ` A) \<and>
     hash_heads (buf_hash_table (bhash st)) \<subseteq> range Chain \<and> A \<subseteq> {..< nbufs st} \<and>
     inj_on (\<lambda>b. bh_blockno (bufs st b)) A \<and> inj_on (frame_of st) A \<and>
     (\<forall>b \<in> A. bh_page (bufs st b) = get_page_addr (frame_of st b) \<and> frame_of st b < ALL_PFN \<and> frame_of st b \<notin> free_set FL)"

lemma cache_repD:
  assumes "cache_rep st FL A"
  shows "mm_ok (mm (sl st)) FL" "hash_rep (bh_key (bufs st)) (table_of st) (Bh ` A)"
    "hash_heads (buf_hash_table (bhash st)) \<subseteq> range Chain" "A \<subseteq> {..< nbufs st}"
    "inj_on (\<lambda>b. bh_blockno (bufs st b)) A" "inj_on (frame_of st) A"
    "b \<in> A \<Longrightarrow> bh_page (bufs st b) = get_page_addr (frame_of st b)" "b \<in> A \<Longrightarrow> frame_of st b < ALL_PFN"
    "b \<in> A \<Longrightarrow> frame_of st b \<notin> free_set FL"
  using assms unfolding cache_rep_def by blast+

lemma bh_key_inj:
  assumes "cache_rep st FL A"
  shows "inj_on (bh_key (bufs st)) (Bh ` A)"
  using cache_repD(5) [OF assms] by (auto simp: inj_on_def bh_key_def word_unat_eq_iff)

lemma lookup_Some:
  assumes "cache_rep st FL A"
  shows "lookup st blk = Some b \<longleftrightarrow> b \<in> A \<and> unat (bh_blockno (bufs st b)) = blk"
proof
  note R = cache_repD(2) [OF assms]
  obtain r where r: "hash_find (\<lambda>n. bh_key (bufs st) n = blk) blk (table_of st) = Inr r"
    "case r of None \<Rightarrow> \<forall>n \<in> Bh ` A. bh_key (bufs st) n \<noteq> blk | Some n \<Rightarrow> n \<in> Bh ` A \<and> bh_key (bufs st) n = blk"
    using hset.lookup [OF R] by blast
  assume "lookup st blk = Some b"
  with r show "b \<in> A \<and> unat (bh_blockno (bufs st b)) = blk"
    by (auto simp: lookup_def bh_key_def split: option.splits cnode.splits)
next
  assume b: "b \<in> A \<and> unat (bh_blockno (bufs st b)) = blk"
  then have "hash_find (\<lambda>n. bh_key (bufs st) n = bh_key (bufs st) (Bh b)) (bh_key (bufs st) (Bh b)) (table_of st) = Inr (Some (Bh b))"
    by (intro hset.lookup_found [OF cache_repD(2) [OF assms] bh_key_inj [OF assms]]) simp
  with b show "lookup st blk = Some b" by (simp add: lookup_def bh_key_def)
qed

lemma lookup_find:
  assumes "cache_rep st FL A"
  shows "bhash_find blk st = (case lookup st (unat blk) of Some b \<Rightarrow> Inr (Some b, bhash_lru b st) | None \<Rightarrow> Inr (None, st))"
proof -
  obtain r where r: "hash_find (\<lambda>n. bh_key (bufs st) n = unat blk) (unat blk) (table_of st) = Inr r"
    "case r of None \<Rightarrow> \<forall>n \<in> Bh ` A. bh_key (bufs st) n \<noteq> unat blk | Some n \<Rightarrow> n \<in> Bh ` A \<and> bh_key (bufs st) n = unat blk"
    using hset.lookup [OF cache_repD(2) [OF assms]] by blast
  then show ?thesis by (auto simp: bhash_find_def lookup_def split: option.splits)
qed

text \<open>Addresses of a page frame.\<close>

lemma frame_addr:
  assumes "p < ALL_PFN"
  shows "get_page_struct a = p \<longleftrightarrow> unat (a - get_page_addr p) < PGSIZE"
proof
  assume l: "unat (a - get_page_addr p) < PGSIZE"
  have "a = get_page_addr p + of_nat (unat (a - get_page_addr p))" by simp
  with get_page_struct_addr [OF assms l] show "get_page_struct a = p" by metis
next
  assume "get_page_struct a = p"
  then have "unat (a - KERNBASE) div PGSIZE = p"
    by (simp add: get_page_struct_def page_to_index_def drop_bit_eq_div unat_div)
  then have x: "unat (a - KERNBASE) = p * PGSIZE + unat (a - KERNBASE) mod PGSIZE"
    using div_mult_mod_eq [of "unat (a - KERNBASE)" PGSIZE] by simp
  have "a - KERNBASE = of_nat (unat (a - KERNBASE))" by simp
  then have "a - KERNBASE = of_nat (p * PGSIZE + unat (a - KERNBASE) mod PGSIZE)" using x by (simp only:)
  then have "a - get_page_addr p = of_nat (unat (a - KERNBASE) mod PGSIZE)"
    by (simp add: get_page_addr_offset algebra_simps)
  then show "unat (a - get_page_addr p) < PGSIZE" by (simp add: unat_of_nat_small)
qed

text \<open>The parts of the state that the cache and the view depend on.\<close>

lemma cache_rep_cong:
  assumes "cache_rep st FL A" and "mm_ok (mm (sl st')) FL" and "table_of st' = table_of st" and "nbufs st' = nbufs st"
    and "\<And>b. b \<in> A \<Longrightarrow> bh_blockno (bufs st' b) = bh_blockno (bufs st b) \<and> bh_page (bufs st' b) = bh_page (bufs st b)"
  shows "cache_rep st' FL A"
proof -
  note D = cache_repD [OF assms(1)]
  have "hash_rep (bh_key (bufs st')) (table_of st') (Bh ` A)"
    unfolding assms(3) by (rule hash_rep_cong [OF D(2)]) (use assms(5) in \<open>auto simp: bh_key_def\<close>)
  moreover have "buf_hash_table (bhash st') = buf_hash_table (bhash st)" using assms(3) by (simp add: table_of_def)
  moreover have "inj_on (\<lambda>b. bh_blockno (bufs st' b)) A" using D(5) assms(5) by (simp add: inj_on_def)
  moreover have fr: "frame_of st' b = frame_of st b" if "b \<in> A" for b using assms(5) [OF that] by (simp add: frame_of_def)
  moreover have "inj_on (frame_of st') A" using D(6) fr by (simp add: inj_on_def)
  ultimately show ?thesis unfolding cache_rep_def using D assms(2,4,5) by simp
qed

lemma lookup_cong:
  assumes "cache_rep st FL A" and "cache_rep st' FL' A"
    and "\<And>b. b \<in> A \<Longrightarrow> bh_blockno (bufs st' b) = bh_blockno (bufs st b)"
  shows "lookup st' blk = lookup st blk"
proof -
  have "lookup st' blk = Some b \<longleftrightarrow> lookup st blk = Some b" for b
    unfolding lookup_Some [OF assms(1)] lookup_Some [OF assms(2)] using assms(3) by auto
  then show ?thesis by (metis not_Some_eq)
qed

text \<open>Taking and giving back the cache's lock.\<close>

definition hart_of :: "'d gendisk \<Rightarrow> hart" where
  "hart_of st = fst (snd (mm (sl st)))"

definition with_lock :: "hart \<Rightarrow> spinlock \<Rightarrow> 'd gendisk \<Rightarrow> 'd gendisk" where
  "with_lock h lk st = (case mm (sl st) of (s, _, l) \<Rightarrow>
     upd_bhash (\<lambda>b. b\<lparr>bh_lock := lk\<rparr>) (st\<lparr>sl := (sl st)\<lparr>mm := (s, h, l)\<rparr>\<rparr>))"

lemma lock_bhash_free:
  "lock_free (bh_lock (bhash st)) \<Longrightarrow>
   lock_bhash c st = Inr (with_lock (push_off (hart_of st)) ((bh_lock (bhash st))\<lparr>lock := 1, lk_cpuid := c\<rparr>) st)"
  by (cases "mm (sl st)") (auto simp: lock_bhash_def with_lock_def hart_of_def spin_lock_free)

lemma unlock_bhash_held:
  assumes "hart_of st = push_off h" and "bh_lock (bhash st) = lk\<lparr>lock := 1, lk_cpuid := c\<rparr>" and "hart_ok h" and "lock_free lk"
  shows "unlock_bhash c st = Inr (with_lock (settled h) lk st)"
  using assms spin_unlock_held [OF assms(3,4)]
  by (cases "mm (sl st)") (auto simp: unlock_bhash_def with_lock_def hart_of_def)

lemma with_lock_simps [simp]:
  "bufs (with_lock h lk st) = bufs st" "nbufs (with_lock h lk st) = nbufs st" "dev (with_lock h lk st) = dev st"
  "rqs (with_lock h lk st) = rqs st" "queue (with_lock h lk st) = queue st" "io_at (with_lock h lk st) = io_at st"
  "table_of (with_lock h lk st) = table_of st" "mem_of (with_lock h lk st) = mem_of st"
  "hart_of (with_lock h lk st) = h" "bh_lock (bhash (with_lock h lk st)) = lk" "flush_at (with_lock h lk st) = flush_at st"
  "dirties (bhash (with_lock h lk st)) = dirties (bhash st)" "nrqs (with_lock h lk st) = nrqs st"
  by (cases "mm (sl st)"; simp add: with_lock_def upd_bhash_def table_of_def mem_of_def hart_of_def)+

lemma with_lock_ok: "mm_ok (mm (sl st)) FL \<Longrightarrow> hart_ok h \<Longrightarrow> mm_ok (mm (sl (with_lock h lk st))) FL"
  by (cases "mm (sl st)") (simp add: with_lock_def upd_bhash_def mm_ok_def)

lemma hart_of_ok: "mm_ok (mm (sl st)) FL \<Longrightarrow> hart_ok (hart_of st)"
  by (cases "mm (sl st)") (simp add: hart_of_def mm_ok_def)

lemma hart_ok_push_off: "hart_ok h \<Longrightarrow> hart_ok (push_off h) \<and> settled (push_off h) = push_off h"
  by (auto simp: hart_ok_def settled_def push_off_def intr_off_def Let_def)

lemma cache_rep_with_lock: "cache_rep st FL A \<Longrightarrow> hart_ok h \<Longrightarrow> cache_rep (with_lock h lk st) FL A"
  by (rule cache_rep_cong) (simp_all add: with_lock_ok cache_repD(1))

lemma view_with_lock [simp]: "view content (with_lock h lk st) = view content st"
proof -
  have "lookup (with_lock h lk st) = lookup st" "buf_is_new b (with_lock h lk st) = buf_is_new b st" for b
    by (simp_all add: lookup_def fun_eq_iff buf_is_new_def)
  then show ?thesis by (intro ext) (simp only: view_def with_lock_simps)
qed

text \<open>Bookkeeping of a buffer: its flags other than \<open>BH_New\<close>, its counts and its place on the LRU lists.\<close>

definition touched :: "nat \<Rightarrow> 'd gendisk \<Rightarrow> 'd gendisk \<Rightarrow> bool" where
  "touched b st st' \<longleftrightarrow>
     sl st' = sl st \<and> nbufs st' = nbufs st \<and> dev st' = dev st \<and> rqs st' = rqs st \<and> queue st' = queue st \<and> io_at st' = io_at st \<and>
     flush_at st' = flush_at st \<and> nrqs st' = nrqs st \<and>
     table_of st' = table_of st \<and> bh_lock (bhash st') = bh_lock (bhash st) \<and> (\<forall>c. c \<noteq> b \<longrightarrow> bufs st' c = bufs st c) \<and>
     bh_blockno (bufs st' b) = bh_blockno (bufs st b) \<and> bh_page (bufs st' b) = bh_page (bufs st b)"

lemma touched_rep:
  assumes "touched b st st'" and "cache_rep st FL A"
  shows "cache_rep st' FL A"
proof (rule cache_rep_cong [OF assms(2)])
  show "mm_ok (mm (sl st')) FL" using assms cache_repD(1) [OF assms(2)] by (simp add: touched_def)
  show "bh_blockno (bufs st' c) = bh_blockno (bufs st c) \<and> bh_page (bufs st' c) = bh_page (bufs st c)" for c
    using assms(1) by (cases "c = b") (auto simp: touched_def)
qed (use assms(1) in \<open>simp_all add: touched_def\<close>)

lemma touched_lookup: "touched b st st' \<Longrightarrow> lookup st' blk = lookup st blk"
proof -
  assume t: "touched b st st'"
  have "bh_blockno (bufs st' c) = bh_blockno (bufs st c)" for c using t by (cases "c = b") (auto simp: touched_def)
  then have "bh_key (bufs st') = bh_key (bufs st)" by (auto simp: bh_key_def fun_eq_iff split: cnode.splits)
  then show ?thesis using t by (simp add: lookup_def touched_def)
qed

lemma touched_view:
  assumes "touched b st st'" and "buf_is_new b st' \<longleftrightarrow> buf_is_new b st"
  shows "view content st' blk i = view content st blk i"
proof -
  have "buf_is_new c st' \<longleftrightarrow> buf_is_new c st" "bh_page (bufs st' c) = bh_page (bufs st c)" for c
    using assms by (cases "c = b"; auto simp: touched_def buf_is_new_def)+
  moreover have "mem_of st' = mem_of st" "dev st' = dev st" using assms(1) by (simp_all add: touched_def mem_of_def)
  ultimately show ?thesis by (simp add: view_def touched_lookup [OF assms(1)] split: option.split)
qed

lemma touched_trans: "touched b st st' \<Longrightarrow> touched b st' st'' \<Longrightarrow> touched b st st''"
  unfolding touched_def by simp

lemma or_not_new: "(w OR BH_Active) AND BH_New = w AND BH_New" "(w OR BH_Visited) AND BH_New = w AND BH_New"
    "(w OR BH_Dirty) AND BH_New = w AND BH_New" for w :: u32
  by (simp_all add: bit.conj_disj_distrib2)

lemma touched_lru: "touched b st (bhash_lru b st)" "buf_is_new c (bhash_lru b st) \<longleftrightarrow> buf_is_new c st"
    "bh_slock (bufs (bhash_lru b st) c) = bh_slock (bufs st c)" "dirties (bhash (bhash_lru b st)) = dirties (bhash st)"
  by (simp_all add: touched_def bhash_lru_def upd_bhash_def upd_buf_def table_of_def buf_is_new_def or_not_new)

lemma touched_buf:
  assumes "\<And>x. bh_blockno (f x) = bh_blockno x \<and> bh_page (f x) = bh_page x"
  shows "touched b st (upd_buf b f st)"
  using assms by (simp add: touched_def upd_buf_def table_of_def)

text \<open>A new buffer: it has a zeroed page of its own, is marked new, and is not in the table yet.\<close>

lemma buf_alloc_ok:
  assumes rep: "cache_rep st FL A" and free: "free_set FL \<noteq> {}"
  obtains st' FL' p where "buf_alloc c blk st = Inr (nbufs st, st')" and "p \<in> free_set FL" and "p < ALL_PFN"
    and "free_set FL' = free_set FL - {p}" and "cache_rep st' FL' A"
    and "bh_page (bufs st' (nbufs st)) = get_page_addr p" and "bh_blockno (bufs st' (nbufs st)) = blk"
    and "bh_slock (bufs st' (nbufs st)) = 1" and "buf_is_new (nbufs st) st'"
    and "\<forall>b. b \<noteq> nbufs st \<longrightarrow> bufs st' b = bufs st b" and "nbufs st' = Suc (nbufs st)"
    and "mem_of st' = (\<lambda>a. if get_page_struct a = p then 0 else mem_of st a)"
    and "hart_of st' = settled (hart_of st)" and "bh_lock (bhash st') = bh_lock (bhash st)" and "dev st' = dev st"
    and "rqs st' = rqs st" and "queue st' = queue st" and "io_at st' = io_at st" and "flush_at st' = flush_at st" and "nrqs st' = nrqs st"
proof -
  note D = cache_repD [OF rep]
  define b where "b = nbufs st"
  obtain s h l where m: "mm (sl st) = (s, h, l)" by (cases "mm (sl st)")
  from alloc_page_addr_cases [OF D(1) [unfolded m], of c 0] free obtain p s' FL' where
    a: "alloc_page_addr c 0 (s, h, l) = Inr (get_page_addr p, s', settled h, l)"
      "mm_ok (s', settled h, l) FL'" "p < ALL_PFN" "p \<in> free_set FL" "free_set FL' = free_set FL - {p}"
      "ram s' = (\<lambda>a. if unat (a - get_page_addr p) < PGSIZE then 0 else ram s a)" by blast
  define st' where "st' = (case buf_alloc c blk st of Inr (_, st') \<Rightarrow> st')"
  have run: "buf_alloc c blk st = Inr (b, st')"
    using a(1) get_page_addr_nonzero [OF a(3)] m
    by (simp add: st'_def buf_alloc_def Let_def upd_buf_def upd_bhash_def b_def)
  have st': "st' = st\<lparr>nbufs := b + 1, sl := (sl st)\<lparr>mm := (s', settled h, l)\<rparr>,
      bufs := (bufs st)(b := (bufs st b)\<lparr>bh_blockno := blk, bh_slock := 1, bh_refcnt := 0,
        bh_flags := bh_flags (bufs st b) OR BH_New, bh_page := get_page_addr p\<rparr>),
      bhash := (bhash st)\<lparr>chains := INIT_LIST_HEAD (Bh b) (chains (bhash st)), lrus := INIT_LIST_HEAD (Lru b) (lrus (bhash st)),
        dirties := INIT_LIST_HEAD (Dirt b) (dirties (bhash st))\<rparr>\<rparr>"
    using a(1) get_page_addr_nonzero [OF a(3)] m
    by (simp add: st'_def buf_alloc_def Let_def upd_buf_def upd_bhash_def b_def)
  have bA: "b \<notin> A" using D(4) by (auto simp: b_def)
  have mem: "mem_of st' = (\<lambda>x. if get_page_struct x = p then 0 else mem_of st x)"
    by (simp add: st' mem_of_def m a(6) frame_addr [OF a(3)] cong: if_cong)
  have bh: "Bh b \<notin> Bh ` A" "Bh b \<notin> hash_heads (buf_hash_table (bhash st))" using bA D(3) by auto
  have "hash_rep (bh_key (bufs st)) (table_of st') (Bh ` A)"
    using hash_rep_INIT [OF D(2) [unfolded table_of_def] bh] by (simp add: st' table_of_def)
  then have rep': "hash_rep (bh_key (bufs st')) (table_of st') (Bh ` A)"
    by (rule hash_rep_cong) (use bA in \<open>auto simp: st' bh_key_def\<close>)
  have same: "bufs st' x = bufs st x" if "x \<noteq> b" for x using that by (simp add: st')
  have sameA: "bufs st' x = bufs st x" if "x \<in> A" for x using same [of x] that bA by (cases "x = b") simp_all
  then have fr: "frame_of st' x = frame_of st x" if "x \<in> A" for x using that by (simp add: frame_of_def)
  have "cache_rep st' FL' A" unfolding cache_rep_def
  proof (intro conjI ballI)
    show "mm_ok (mm (sl st')) FL'" using a(2) by (simp add: st')
    show "inj_on (\<lambda>x. bh_blockno (bufs st' x)) A" using D(5) same bA by (metis (no_types, lifting) inj_on_cong)
    show "inj_on (frame_of st') A" using D(6) fr by (simp add: inj_on_def)
    show "A \<subseteq> {..< nbufs st'}" using D(4) by (auto simp: st' b_def)
    show "hash_heads (buf_hash_table (bhash st')) \<subseteq> range Chain" using D(3) by (simp add: st')
    fix x assume x: "x \<in> A"
    show "bh_page (bufs st' x) = get_page_addr (frame_of st' x)" using D(7) [OF x] fr [OF x] sameA [OF x] by simp
    show "frame_of st' x < ALL_PFN" using D(8) [OF x] fr [OF x] by simp
    show "frame_of st' x \<notin> free_set FL'" using D(9) [OF x] fr [OF x] a(5) by simp
  qed (rule rep')
  moreover have "buf_is_new b st'" by (simp add: buf_is_new_def st' bit.conj_disj_distrib2)
  ultimately show ?thesis
    using that [of st' p FL'] run a(3-5) mem m by (simp add: st' b_def hart_of_def)
qed

text \<open>
  The frames the cache works with: its pages and the free frames it may still take. Device contents do
  not depend on them.
\<close>

definition frames :: "'d gendisk \<Rightarrow> (nat \<Rightarrow> nat list) \<Rightarrow> nat set \<Rightarrow> nat set" where
  "frames st FL A = free_set FL \<union> frame_of st ` A"

definition indep :: "('d \<times> mem \<Rightarrow> nat \<Rightarrow> nat \<Rightarrow> u8) \<Rightarrow> nat \<Rightarrow> 'd \<Rightarrow> nat set \<Rightarrow> bool" where
  "indep content N d K \<longleftrightarrow> (\<forall>m m'. (\<forall>a. get_page_struct a \<notin> K \<longrightarrow> m' a = m a) \<longrightarrow>
     (\<forall>blk < N. \<forall>i < BLK_SIZE. content (d, m') blk i = content (d, m) blk i))"

definition same_view :: "('d \<times> mem \<Rightarrow> nat \<Rightarrow> nat \<Rightarrow> u8) \<Rightarrow> nat \<Rightarrow> 'd gendisk \<Rightarrow> 'd gendisk \<Rightarrow> bool" where
  "same_view content N st st' \<longleftrightarrow> (\<forall>blk < N. \<forall>i < BLK_SIZE. view content st' blk i = view content st blk i)"

definition kept :: "'d gendisk \<Rightarrow> 'd gendisk \<Rightarrow> bool" where
  "kept st st' \<longleftrightarrow> rqs st' = rqs st \<and> queue st' = queue st \<and> io_at st' = io_at st \<and> flush_at st' = flush_at st \<and>
     nrqs st' = nrqs st \<and> bh_lock (bhash st') = bh_lock (bhash st)"

lemma page_byte:
  assumes "cache_rep st FL A" and "b \<in> A" and "i < BLK_SIZE"
  shows "get_page_struct (bh_page (bufs st b) + of_nat i) = frame_of st b"
  using get_page_struct_addr [OF cache_repD(8) [OF assms(1,2)]] assms(3) cache_repD(7) [OF assms(1,2)] by simp

lemma bhash_add_ok:
  assumes rep: "cache_rep st FL A" and b: "b \<notin> A" "b < nbufs st" and blk: "\<forall>x \<in> A. bh_blockno (bufs st x) \<noteq> bh_blockno (bufs st b)"
    and pg: "bh_page (bufs st b) = get_page_addr p" "p < ALL_PFN" "p \<notin> free_set FL" "p \<notin> frame_of st ` A"
  shows "cache_rep (bhash_add b st) FL (insert b A)"
proof -
  note D = cache_repD [OF rep]
  have p: "frame_of st b = p" using get_page_struct_addr [OF pg(2), of 0] pg(1) by (simp add: frame_of_def)
  let ?t = "hash_add_head (bh_key (bufs st) (Bh b)) (Bh b) (table_of st)"
  have h: "Bh b \<notin> hash_heads (fst (table_of st))" using D(3) by (auto simp: table_of_def)
  have "hash_rep (bh_key (bufs st)) ?t (insert (Bh b) (Bh ` A))" by (rule hset.add [OF D(2) _ h]) (use b in auto)
  then have "hash_rep (bh_key (bufs (bhash_add b st))) (table_of (bhash_add b st)) (Bh ` insert b A)"
    by (simp add: bhash_add_def set_table_def upd_bhash_def table_of_def bh_key_def)
  moreover have "frame_of (bhash_add b st) = frame_of st"
    by (simp add: fun_eq_iff frame_of_def bhash_add_def set_table_def upd_bhash_def)
  moreover have "hash_heads (buf_hash_table (bhash (bhash_add b st))) = hash_heads (buf_hash_table (bhash st))"
    by (simp add: bhash_add_def set_table_def upd_bhash_def hash_add_head_def table_of_def hash_heads_def)
  moreover have "inj_on (frame_of st) (insert b A)" using D(6) pg(4) p b(1) by (auto simp: inj_on_insert)
  moreover have "inj_on (\<lambda>x. bh_blockno (bufs st x)) (insert b A)" using D(5) blk by (auto simp: inj_on_insert)
  ultimately show ?thesis unfolding cache_rep_def using D b pg p
    by (simp add: bhash_add_def set_table_def upd_bhash_def)
qed

lemma view_grow:
  assumes rep: "cache_rep st FL A" "cache_rep st' FL' (insert b A)" and b: "b \<notin> A" "buf_is_new b st'"
    and bufs: "\<forall>x \<in> A. bufs st' x = bufs st x" and d: "dev st' = dev st"
    and mem: "\<forall>a. get_page_struct a \<notin> free_set FL \<longrightarrow> mem_of st' a = mem_of st a"
    and ind: "indep content N (dev st) (frames st FL A)"
  shows "same_view content N st st'"
  unfolding same_view_def
proof (intro allI impI)
  fix blk i assume bi: "blk < N" "i < BLK_SIZE"
  have c: "content (dev st', mem_of st') blk i = content (dev st, mem_of st) blk i"
    using ind mem bi unfolding indep_def frames_def d by blast
  show "view content st' blk i = view content st blk i"
  proof (cases "lookup st blk")
    case (Some x)
    then have x: "x \<in> A" "unat (bh_blockno (bufs st x)) = blk" using lookup_Some [OF rep(1)] by auto
    then have l: "lookup st' blk = Some x" using lookup_Some [OF rep(2)] bufs by auto
    have "mem_of st' (bh_page (bufs st x) + of_nat i) = mem_of st (bh_page (bufs st x) + of_nat i)"
      using mem page_byte [OF rep(1) x(1) bi(2)] cache_repD(9) [OF rep(1) x(1)] by simp
    then show ?thesis using Some l bufs x(1) c by (simp add: view_def buf_is_new_def)
  next
    case None
    have "lookup st' blk = None \<or> lookup st' blk = Some b"
    proof (cases "lookup st' blk")
      case (Some x)
      then have "x = b \<or> x \<in> A \<and> unat (bh_blockno (bufs st x)) = blk" using lookup_Some [OF rep(2)] bufs by auto
      then show ?thesis using Some None lookup_Some [OF rep(1), of blk] by auto
    qed simp
    then show ?thesis using None c b(2) by (auto simp: view_def)
  qed
qed

lemma touched_kept: "touched b st st' \<Longrightarrow> kept st st'"
  by (simp add: touched_def kept_def)

lemma kept_trans: "kept st st' \<Longrightarrow> kept st' st'' \<Longrightarrow> kept st st''"
  by (simp add: kept_def)

lemma same_view_trans: "same_view content N st st' \<Longrightarrow> same_view content N st' st'' \<Longrightarrow> same_view content N st st''"
  by (simp add: same_view_def)

lemma touched_same_view: "touched b st st' \<Longrightarrow> buf_is_new b st' = buf_is_new b st \<Longrightarrow> same_view content N st st'"
  by (simp add: same_view_def touched_view)

lemma touched_frames: "touched b st st' \<Longrightarrow> frames st' FL A = frames st FL A"
proof -
  assume t: "touched b st st'"
  have "frame_of st' x = frame_of st x" for x using t by (cases "x = b") (simp_all add: touched_def frame_of_def)
  then show ?thesis by (simp add: frames_def)
qed

lemma touched_mem: "touched b st st' \<Longrightarrow> mem_of st' = mem_of st \<and> hart_of st' = hart_of st \<and> dev st' = dev st"
  by (simp add: touched_def mem_of_def hart_of_def)

text \<open>The part of \<open>buf_get\<close> under the lock.\<close>

definition find_or_alloc :: "int \<Rightarrow> u32 \<Rightarrow> 'd gendisk \<Rightarrow> (nat \<times> 'd gendisk) kres" where
  "find_or_alloc c blk st =
     bindR (bhash_find blk st) (\<lambda>(r, st).
       case r of Some b \<Rightarrow> Inr (b, st)
       | None \<Rightarrow> bindR (buf_alloc c blk st) (\<lambda>(b, st). Inr (b, bhash_lru b (bhash_add b st))))"

lemma find_or_alloc_ok:
  assumes rep: "cache_rep st FL A" and hs: "settled (hart_of st) = hart_of st"
    and free: "lookup st (unat blk) = None \<Longrightarrow> free_set FL \<noteq> {}"
    and ind: "indep content N (dev st) (frames st FL A)" and sl: "\<forall>b \<in> A. bh_slock (bufs st b) = 1"
  obtains b st' FL' A' where "find_or_alloc c blk st = Inr (b, st')" and "cache_rep st' FL' A'" and "b \<in> A'" and "bh_blockno (bufs st' b) = blk"
    and "frames st' FL' A' = frames st FL A" and "card (free_set FL) \<le> card (free_set FL') + 1"
    and "same_view content N st st'" and "\<forall>b \<in> A'. bh_slock (bufs st' b) = 1" and "kept st st'" and "dev st' = dev st"
    and "\<forall>a. get_page_struct a \<notin> frames st FL A \<longrightarrow> mem_of st' a = mem_of st a" and "hart_of st' = hart_of st"
proof (cases "lookup st (unat blk)")
  case (Some b)
  then have b: "b \<in> A" "bh_blockno (bufs st b) = blk" using lookup_Some [OF rep] by (auto simp: word_unat_eq_iff)
  let ?st' = "bhash_lru b st"
  note t = touched_lru(1) [of b st]
  show ?thesis
  proof (rule that [of b ?st' FL A])
    show "find_or_alloc c blk st = Inr (b, ?st')" using Some by (simp add: find_or_alloc_def lookup_find [OF rep])
    show "same_view content N st ?st'" by (rule touched_same_view [OF t]) (rule touched_lru(2))
    show "bh_blockno (bufs ?st' b) = blk" using t b(2) by (simp add: touched_def)
    show "\<forall>b' \<in> A. bh_slock (bufs ?st' b') = 1" using sl by (simp add: touched_lru(3))
  qed (use touched_rep [OF t rep] b(1) touched_frames [OF t] touched_kept [OF t] touched_mem [OF t] in simp_all)
next
  case None
  let ?b = "nbufs st"
  obtain st1 FL' p where a: "buf_alloc c blk st = Inr (?b, st1)" "p \<in> free_set FL" "p < ALL_PFN"
    "free_set FL' = free_set FL - {p}" "cache_rep st1 FL' A" "bh_page (bufs st1 ?b) = get_page_addr p"
    "bh_blockno (bufs st1 ?b) = blk" "bh_slock (bufs st1 ?b) = 1" "buf_is_new ?b st1"
    "\<forall>b. b \<noteq> ?b \<longrightarrow> bufs st1 b = bufs st b" "nbufs st1 = Suc ?b"
    "mem_of st1 = (\<lambda>a. if get_page_struct a = p then 0 else mem_of st a)"
    "hart_of st1 = settled (hart_of st)" "bh_lock (bhash st1) = bh_lock (bhash st)" "dev st1 = dev st"
    "rqs st1 = rqs st" "queue st1 = queue st" "io_at st1 = io_at st" "flush_at st1 = flush_at st" "nrqs st1 = nrqs st"
    by (rule buf_alloc_ok [OF rep free [OF None], of c blk])
  have bA: "?b \<notin> A" using cache_repD(4) [OF rep] by auto
  have sameA: "\<forall>x \<in> A. bufs st1 x = bufs st x" using a(10) bA by metis
  have fr1: "frame_of st1 x = frame_of st x" if "x \<in> A" for x using sameA that by (simp add: frame_of_def)
  have pA: "p \<notin> frame_of st1 ` A" using cache_repD(9) [OF rep] a(2) fr1 by auto
  have "bh_blockno (bufs st x) \<noteq> blk" if "x \<in> A" for x using None lookup_Some [OF rep, of "unat blk" x] that by auto
  then have "\<forall>x \<in> A. bh_blockno (bufs st1 x) \<noteq> bh_blockno (bufs st1 ?b)" using sameA a(7) by simp
  then have rep2: "cache_rep (bhash_add ?b st1) FL' (insert ?b A)"
    by (intro bhash_add_ok [OF a(5) bA _ _ a(6,3) _ pA]) (use a(4,11) in auto)
  define st2 where "st2 = bhash_add ?b st1"
  have s2: "bufs st2 = bufs st1" "mem_of st2 = mem_of st1" "dev st2 = dev st1" "hart_of st2 = hart_of st1" "kept st st2"
    using a(14,16-20) by (simp_all add: st2_def bhash_add_def set_table_def upd_bhash_def mem_of_def hart_of_def kept_def)
  note t = touched_lru(1) [of ?b st2]
  have new: "buf_is_new ?b st2" using a(9) s2 by (simp add: buf_is_new_def)
  have v: "same_view content N st st2"
    by (rule view_grow [OF rep rep2 [folded st2_def] bA new])
      (use sameA s2 a(2,12,15) ind in auto)
  have pf: "get_page_struct (get_page_addr p) = p" using get_page_struct_addr [OF a(3), of 0] by simp
  have "frame_of st2 ` insert ?b A = insert p (frame_of st ` A)"
    using fr1 s2(1) a(6) pf by (auto simp: frame_of_def)
  then have fr: "frames st2 FL' (insert ?b A) = frames st FL A" unfolding frames_def a(4) using a(2) by auto
  have "finite (free_set FL)"
    using free_set_finite [of "fst (mm (sl st))" "fst (snd (mm (sl st)))" "snd (snd (mm (sl st)))" FL] cache_repD(1) [OF rep] by simp
  then have "card (free_set FL) = Suc (card (free_set FL'))" unfolding a(4) by (rule card.remove [OF _ a(2)])
  then have cd: "card (free_set FL) \<le> card (free_set FL') + 1" by simp
  show ?thesis
  proof (rule that [of ?b "bhash_lru ?b st2" FL' "insert ?b A"])
    show "find_or_alloc c blk st = Inr (?b, bhash_lru ?b st2)"
      using None a(1) by (simp add: find_or_alloc_def lookup_find [OF rep] st2_def)
    show "same_view content N st (bhash_lru ?b st2)"
      by (rule same_view_trans [OF v touched_same_view [OF t]]) (rule touched_lru(2))
    show "cache_rep (bhash_lru ?b st2) FL' (insert ?b A)" using touched_rep [OF t] rep2 by (simp add: st2_def)
    show "bh_blockno (bufs (bhash_lru ?b st2) ?b) = blk" using t a(7) s2(1) by (simp add: touched_def)
    show "frames (bhash_lru ?b st2) FL' (insert ?b A) = frames st FL A" using touched_frames [OF t] fr by simp
    show "kept st (bhash_lru ?b st2)" by (rule kept_trans [OF s2(5) touched_kept [OF t]])
    show "\<forall>b \<in> insert ?b A. bh_slock (bufs (bhash_lru ?b st2) b) = 1" using s2(1) a(8) sameA sl by (simp add: touched_lru(3))
    show "\<forall>x. get_page_struct x \<notin> frames st FL A \<longrightarrow> mem_of (bhash_lru ?b st2) x = mem_of st x"
      using touched_mem [OF t] s2(2) a(2,12) by (auto simp: frames_def)
  qed (use cd touched_mem [OF t] s2 a(13,15) hs in simp_all)
qed

lemma buf_get_ok:
  assumes rep: "cache_rep st FL A" and lk: "lock_free (bh_lock (bhash st))" and free: "lookup st (unat blk) = None \<Longrightarrow> free_set FL \<noteq> {}"
    and ind: "indep content N (dev st) (frames st FL A)" and sl: "\<forall>b \<in> A. bh_slock (bufs st b) = 1"
  obtains b st' FL' A' where "buf_get c blk st = Inr (b, st')" and "cache_rep st' FL' A'" and "b \<in> A'" and "bh_blockno (bufs st' b) = blk"
    and "frames st' FL' A' = frames st FL A" and "card (free_set FL) \<le> card (free_set FL') + 1"
    and "same_view content N st st'" and "\<forall>b \<in> A'. bh_slock (bufs st' b) = 1" and "kept st st'" and "dev st' = dev st"
    and "\<forall>a. get_page_struct a \<notin> frames st FL A \<longrightarrow> mem_of st' a = mem_of st a"
proof -
  note D = cache_repD [OF rep]
  define h where "h = hart_of st"
  define st0 where "st0 = with_lock (push_off h) ((bh_lock (bhash st))\<lparr>lock := 1, lk_cpuid := c\<rparr>) st"
  have h: "hart_ok h" using hart_of_ok [OF D(1)] by (simp add: h_def)
  note ph = hart_ok_push_off [OF h]
  have lock: "lock_bhash c st = Inr st0" using lock_bhash_free [OF lk] by (simp add: st0_def h_def)
  have rep0: "cache_rep st0 FL A" unfolding st0_def using cache_rep_with_lock [OF rep] ph by blast
  have look: "lookup st0 = lookup st" by (simp add: st0_def lookup_def fun_eq_iff)
  have fr0: "frames st0 FL' A' = frames st FL' A'" for FL' A' by (simp add: frames_def frame_of_def st0_def)
  obtain b st1 FL' A' where r: "find_or_alloc c blk st0 = Inr (b, st1)" "cache_rep st1 FL' A'" "b \<in> A'" "bh_blockno (bufs st1 b) = blk"
    "frames st1 FL' A' = frames st0 FL A" "card (free_set FL) \<le> card (free_set FL') + 1"
    "same_view content N st0 st1" "\<forall>b \<in> A'. bh_slock (bufs st1 b) = 1" "kept st0 st1" "dev st1 = dev st0"
    "\<forall>a. get_page_struct a \<notin> frames st0 FL A \<longrightarrow> mem_of st1 a = mem_of st0 a" "hart_of st1 = hart_of st0"
    by (rule find_or_alloc_ok [OF rep0, of blk content N c]) (use free look ind fr0 sl ph in \<open>simp_all add: st0_def\<close>)
  define st2 where "st2 = with_lock (settled h) (bh_lock (bhash st)) st1"
  define st3 where "st3 = upd_buf b (\<lambda>x. x\<lparr>bh_refcnt := atomic_inc (bh_refcnt x)\<rparr>) st2"
  have un: "unlock_bhash c st1 = Inr st2" unfolding st2_def
    by (rule unlock_bhash_held [OF _ _ h lk]) (use r(9,12) in \<open>simp_all add: st0_def kept_def\<close>)
  have t: "touched b st2 st3" unfolding st3_def by (rule touched_buf) simp
  have rep2: "cache_rep st2 FL' A'" unfolding st2_def by (rule cache_rep_with_lock [OF r(2)]) (use h in simp)
  have b3: "bh_slock (bufs st3 x) = bh_slock (bufs st1 x)" "buf_is_new x st3 = buf_is_new x st2" for x
    by (simp_all add: st3_def st2_def upd_buf_def buf_is_new_def)
  show ?thesis
  proof (rule that [of b st3 FL' A'])
    show "buf_get c blk st = Inr (b, st3)"
      using lock r(1) un unfolding buf_get_def find_or_alloc_def by (auto simp: st3_def)
    have "same_view content N st st2" using r(7) by (simp add: same_view_def st0_def st2_def)
    then show "same_view content N st st3" by (rule same_view_trans [OF _ touched_same_view [OF t b3(2)]])
    show "frames st3 FL' A' = frames st FL A" using touched_frames [OF t, of FL' A'] r(5) fr0 by (simp add: frames_def frame_of_def st2_def)
    have "kept st st2" using r(9) by (simp add: kept_def st2_def st0_def)
    then show "kept st st3" by (rule kept_trans [OF _ touched_kept [OF t]])
    show "\<forall>x. get_page_struct x \<notin> frames st FL A \<longrightarrow> mem_of st3 x = mem_of st x"
      using r(11) touched_mem [OF t] fr0 by (simp add: st2_def st0_def)
    show "dev st3 = dev st" using touched_mem [OF t] r(10) by (simp add: st2_def st0_def)
    show "bh_blockno (bufs st3 b) = blk" using t r(4) by (simp add: touched_def st2_def)
  qed (use touched_rep [OF t rep2] r(3,6,8) b3(1) in simp_all)
qed

subsection \<open>The contract of a driver\<close>

definition apart :: "('d \<Rightarrow> u64 set) \<Rightarrow> 'd gendisk \<Rightarrow> nat set \<Rightarrow> bool" where
  "apart own st K \<longleftrightarrow> (\<forall>a \<in> own (dev st). get_page_struct a \<notin> K)"

text \<open>
  What the block layer relies on: a read fills the page with the block and changes nothing else, a
  write stores the page as the block, and the contents only depend on the memory the device owns.
\<close>

locale block_driver =
  fixes ll_rw :: "'d driver"
    and content :: "'d \<times> mem \<Rightarrow> nat \<Rightarrow> nat \<Rightarrow> u8"
    and own :: "'d \<Rightarrow> u64 set"
    and N :: nat
  assumes read_dev: "unat blk < N \<Longrightarrow> \<forall>i < BLK_SIZE. page + of_nat i \<notin> own d \<Longrightarrow> fst (ll_rw DEV_READ blk page (d, m)) = d"
    and read_mem: "unat blk < N \<Longrightarrow> \<forall>i < BLK_SIZE. page + of_nat i \<notin> own d \<Longrightarrow>
      snd (ll_rw DEV_READ blk page (d, m)) a = (if unat (a - page) < BLK_SIZE then content (d, m) (unat blk) (unat (a - page)) else m a)"
    and write_own: "unat blk < N \<Longrightarrow> \<forall>i < BLK_SIZE. page + of_nat i \<notin> own d \<Longrightarrow>
      own (fst (ll_rw DEV_WRITE blk page (d, m))) = own d"
    and write_mem: "unat blk < N \<Longrightarrow> \<forall>i < BLK_SIZE. page + of_nat i \<notin> own d \<Longrightarrow> a \<notin> own d \<Longrightarrow>
      snd (ll_rw DEV_WRITE blk page (d, m)) a = m a"
    and write_content: "unat blk < N \<Longrightarrow> \<forall>i < BLK_SIZE. page + of_nat i \<notin> own d \<Longrightarrow> b < N \<Longrightarrow> i < BLK_SIZE \<Longrightarrow>
      content (ll_rw DEV_WRITE blk page (d, m)) b i = (if b = unat blk then m (page + of_nat i) else content (d, m) b i)"
    and small: "N \<le> 2 ^ 32"
    and local: "\<forall>a \<in> own d. m' a = m a \<Longrightarrow> b < N \<Longrightarrow> i < BLK_SIZE \<Longrightarrow> content (d, m') b i = content (d, m) b i"
begin

lemma apart_indep: "apart own st K \<Longrightarrow> indep content N (dev st) K"
  unfolding apart_def indep_def using local by blast

end

lemma upd_mem_simps [simp]:
  "bufs (upd_mem f st) = bufs st" "nbufs (upd_mem f st) = nbufs st" "dev (upd_mem f st) = dev st" "rqs (upd_mem f st) = rqs st"
  "queue (upd_mem f st) = queue st" "bhash (upd_mem f st) = bhash st" "io_at (upd_mem f st) = io_at st"
  "flush_at (upd_mem f st) = flush_at st" "nrqs (upd_mem f st) = nrqs st" "mem_of (upd_mem f st) = f (mem_of st)"
  "hart_of (upd_mem f st) = hart_of st"
  by (cases "mm (sl st)"; simp add: upd_mem_def mem_of_def hart_of_def)+

lemma upd_mem_mm_ok: "mm_ok (mm (sl (upd_mem f st))) FL \<longleftrightarrow> mm_ok (mm (sl st)) FL"
  by (cases "mm (sl st)") (simp add: upd_mem_def mm_ok_def buddy_inv_def)

lemma cache_rep_upd_mem: "cache_rep st FL A \<Longrightarrow> cache_rep (upd_mem f st) FL A"
  by (rule cache_rep_cong) (simp_all add: upd_mem_mm_ok cache_repD(1) table_of_def)

lemma cache_rep_upd_dev: "cache_rep st FL A \<Longrightarrow> cache_rep (st\<lparr>dev := d\<rparr>) FL A"
  by (rule cache_rep_cong) (simp_all add: cache_repD(1) table_of_def)

lemma frames_cong: "(\<And>b. bh_page (bufs st' b) = bh_page (bufs st b)) \<Longrightarrow> frames st' FL A = frames st FL A"
  by (simp add: frames_def frame_of_def)

lemma other_page:
  assumes rep: "cache_rep st FL A" and x: "x \<in> A" "b \<in> A" "x \<noteq> b" and i: "i < BLK_SIZE"
  shows "get_page_struct (bh_page (bufs st x) + of_nat i) \<noteq> frame_of st b"
  using page_byte [OF rep x(1) i] cache_repD(6) [OF rep] x by (auto dest: inj_onD)

text \<open>How the view depends on memory: cached blocks are bytes of their own page.\<close>

lemma view_cached:
  assumes "cache_rep st FL A" and "b \<in> A"
  shows "view content st (unat (bh_blockno (bufs st b))) i =
    (if buf_is_new b st then content (dev st, mem_of st) (unat (bh_blockno (bufs st b))) i else mem_of st (bh_page (bufs st b) + of_nat i))"
proof -
  have "lookup st (unat (bh_blockno (bufs st b))) = Some b" using lookup_Some [OF assms(1)] assms(2) by simp
  then show ?thesis by (simp add: view_def)
qed

lemma view_eqI:
  assumes rep: "cache_rep st FL A" "cache_rep st' FL' A"
    and blk: "\<And>x. x \<in> A \<Longrightarrow> bh_blockno (bufs st' x) = bh_blockno (bufs st x)"
    and c: "content (dev st', mem_of st') blk i = content (dev st, mem_of st) blk i"
    and page: "\<And>x. x \<in> A \<Longrightarrow> unat (bh_blockno (bufs st x)) = blk \<Longrightarrow>
      view content st' blk i = view content st blk i"
  shows "view content st' blk i = view content st blk i"
proof (cases "lookup st blk")
  case None
  then have "lookup st' blk = None" using lookup_cong [OF rep(1,2) blk] by simp
  with None c show ?thesis by (simp add: view_def)
next
  case (Some x)
  then show ?thesis using page lookup_Some [OF rep(1)] by auto
qed

text \<open>\<open>loaded b\<close>: the page of buffer \<open>b\<close> holds what the view says of its block.\<close>

definition loaded :: "('d \<times> mem \<Rightarrow> nat \<Rightarrow> nat \<Rightarrow> u8) \<Rightarrow> 'd gendisk \<Rightarrow> nat \<Rightarrow> bool" where
  "loaded content st b \<longleftrightarrow>
     (\<forall>i < BLK_SIZE. mem_of st (bh_page (bufs st b) + of_nat i) = view content st (unat (bh_blockno (bufs st b))) i)"

lemma not_new_loaded: "cache_rep st FL A \<Longrightarrow> b \<in> A \<Longrightarrow> \<not> buf_is_new b st \<Longrightarrow> loaded content st b"
  by (simp add: loaded_def view_cached)

context block_driver
begin

lemma driver_read_ok:
  assumes rep: "cache_rep st FL A" and b: "b \<in> A" "buf_is_new b st" and ap: "apart own st (frames st FL A)"
    and blk: "unat (bh_blockno (bufs st b)) < N"
  defines "st' \<equiv> call_driver ll_rw DEV_READ (bh_blockno (bufs st b)) (bh_page (bufs st b)) st"
  shows "cache_rep st' FL A" and "same_view content N st st'" and "loaded content st' b" and "dev st' = dev st" and "bufs st' = bufs st"
    and "kept st st'" and "\<forall>a. get_page_struct a \<noteq> frame_of st b \<longrightarrow> mem_of st' a = mem_of st a" and "bhash st' = bhash st"
proof -
  let ?p = "bh_page (bufs st b)" and ?k = "unat (bh_blockno (bufs st b))"
  have bK: "frame_of st b \<in> frames st FL A" using b(1) by (simp add: frames_def)
  have out: "\<forall>i < BLK_SIZE. ?p + of_nat i \<notin> own (dev st)"
    using page_byte [OF rep b(1)] ap bK unfolding apart_def by metis
  let ?r = "ll_rw DEV_READ (bh_blockno (bufs st b)) ?p (dev st, mem_of st)"
  have d: "fst ?r = dev st" by (rule read_dev [OF blk out])
  have st': "st' = upd_mem (\<lambda>_. snd ?r) st" using d by (simp add: st'_def call_driver_def split_beta)
  show rep': "cache_rep st' FL A" unfolding st' by (rule cache_rep_upd_mem [OF rep])
  show "dev st' = dev st" "bufs st' = bufs st" "kept st st'" "bhash st' = bhash st" by (simp_all add: st' kept_def)
  have fr: "get_page_struct a = frame_of st b \<longleftrightarrow> unat (a - ?p) < BLK_SIZE" for a
    using frame_addr [OF cache_repD(8) [OF rep b(1)]] cache_repD(7) [OF rep b(1)] by simp
  show mem: "\<forall>a. get_page_struct a \<noteq> frame_of st b \<longrightarrow> mem_of st' a = mem_of st a"
    using read_mem [OF blk out, of "mem_of st"] fr by (simp add: st')
  have cont: "content (dev st', mem_of st') k i = content (dev st, mem_of st) k i" if "k < N" "i < BLK_SIZE" for k i
  proof -
    have "\<forall>a \<in> own (dev st). mem_of st' a = mem_of st a" using mem ap bK unfolding apart_def by metis
    from local [OF this that] show ?thesis by (simp add: st')
  qed
  have new': "buf_is_new x st' = buf_is_new x st" for x by (simp add: buf_is_new_def st')
  show view: "same_view content N st st'"
    unfolding same_view_def
  proof (intro allI impI)
    fix k i assume ki: "k < N" "i < BLK_SIZE"
    show "view content st' k i = view content st k i"
    proof (rule view_eqI [where content = content, OF rep rep' _ cont [OF ki]])
      fix x assume x: "x \<in> A" "unat (bh_blockno (bufs st x)) = k"
      have "mem_of st' (bh_page (bufs st x) + of_nat i) = mem_of st (bh_page (bufs st x) + of_nat i)" if "x \<noteq> b"
        using mem other_page [OF rep x(1) b(1) that ki(2)] by simp
      then show "view content st' k i = view content st k i"
        using view_cached [OF rep x(1), of content i] view_cached [OF rep' x(1), of content i] x(2) new' cont [OF ki] b(2)
        by (cases "x = b") (simp_all add: st')
    qed (simp add: st')
  qed
  have "mem_of st' (?p + of_nat i) = content (dev st, mem_of st) ?k i" if "i < BLK_SIZE" for i
    using read_mem [OF blk out, of "mem_of st" "?p + of_nat i"] that by (simp add: st' unat_of_nat_small)
  then show "loaded content st' b"
    using view_cached [OF rep' b(1), of content] b(2) new' cont blk by (simp add: loaded_def st')
qed

text \<open>Memory that neither the cache nor the device uses does not matter.\<close>

lemma mem_change_ok:
  assumes rep: "cache_rep st FL A" and out: "\<And>a. get_page_struct a \<in> frames st FL A \<or> a \<in> own (dev st) \<Longrightarrow> f (mem_of st) a = mem_of st a"
  shows "same_view content N st (upd_mem f st)"
  unfolding same_view_def
proof (intro allI impI)
  fix k i assume ki: "k < N" "i < BLK_SIZE"
  let ?st' = "upd_mem f st"
  note rep' = cache_rep_upd_mem [OF rep, of f]
  have cont: "content (dev ?st', mem_of ?st') k i = content (dev st, mem_of st) k i"
    using local [of "dev st" "f (mem_of st)" "mem_of st", OF _ ki] out by simp
  show "view content ?st' k i = view content st k i"
  proof (rule view_eqI [where content = content, OF rep rep' _ cont])
    fix x assume x: "x \<in> A" "unat (bh_blockno (bufs st x)) = k"
    have "f (mem_of st) (bh_page (bufs st x) + of_nat i) = mem_of st (bh_page (bufs st x) + of_nat i)"
      using page_byte [OF rep x(1) ki(2)] x(1) by (intro out) (simp add: frames_def)
    then show "view content ?st' k i = view content st k i"
      using view_cached [OF rep x(1), of content i] view_cached [OF rep' x(1), of content i] x(2) cont
      by (simp add: buf_is_new_def)
  qed simp
qed

end

definition client :: "('d \<Rightarrow> u64 set) \<Rightarrow> 'd gendisk \<Rightarrow> nat set \<Rightarrow> u64 \<Rightarrow> nat \<Rightarrow> bool" where
  "client own st K vaddr n \<longleftrightarrow> (\<forall>j < n. get_page_struct (vaddr + of_nat j) \<notin> K \<and> vaddr + of_nat j \<notin> own (dev st))"

lemma client_out:
  assumes "client own st K vaddr n" and "get_page_struct a \<in> K \<or> a \<in> own (dev st)"
  shows "\<not> unat (a - vaddr) < n"
proof
  assume l: "unat (a - vaddr) < n"
  have "a = vaddr + of_nat (unat (a - vaddr))" by simp
  with assms l show False unfolding client_def by metis
qed

text \<open>A client's range never starts inside of a cached page, nor the other way round.\<close>

lemma client_apart:
  assumes rep: "cache_rep st FL A" and b: "b \<in> A" and cl: "client own st (frames st FL A) vaddr n"
    and len: "0 < n" "off + n \<le> BLK_SIZE"
  shows "n \<le> unat (vaddr - (bh_page (bufs st b) + of_nat off))" and "n \<le> unat (bh_page (bufs st b) + of_nat off - vaddr)"
proof -
  let ?at = "bh_page (bufs st b) + of_nat off"
  have bK: "frame_of st b \<in> frames st FL A" using b by (simp add: frames_def)
  show "n \<le> unat (vaddr - ?at)"
  proof (rule ccontr)
    assume "\<not> ?thesis"
    then have x: "off + unat (vaddr - ?at) < BLK_SIZE" using len by simp
    have "vaddr = bh_page (bufs st b) + of_nat (off + unat (vaddr - ?at))" by (simp add: algebra_simps)
    then have "get_page_struct vaddr = frame_of st b" using page_byte [OF rep b x] by simp
    then show False using client_out [OF cl, of vaddr] bK len(1) by simp
  qed
  have "get_page_struct ?at = frame_of st b" using page_byte [OF rep b, of off] len by simp
  then show "n \<le> unat (?at - vaddr)" using client_out [OF cl, of ?at] bK by simp
qed

context block_driver
begin

lemma copy_out_ok:
  assumes rep: "cache_rep st FL A" and b: "b \<in> A" "loaded content st b" "unat (bh_blockno (bufs st b)) < N"
    and len: "0 < n" "off + n \<le> BLK_SIZE" and cl: "client own st (frames st FL A) vaddr n"
  defines "st' \<equiv> upd_mem (memcpy vaddr (bh_page (bufs st b) + of_nat off) (of_nat n)) st"
  shows "cache_rep st' FL A" and "same_view content N st st'" and "loaded content st' b"
    and "mem_of st' a = (if unat (a - vaddr) < n then view content st (unat (bh_blockno (bufs st b))) (off + unat (a - vaddr)) else mem_of st a)"
proof -
  let ?p = "bh_page (bufs st b)"
  have un: "unat (of_nat n :: u64) = n" using len by (intro unat_of_nat_small) simp
  have mem: "mem_of st' a = (if unat (a - vaddr) < n then mem_of st (?p + of_nat off + (a - vaddr)) else mem_of st a)" for a
    using client_apart(1) [OF rep b(1) cl len] by (simp add: st'_def memcpy_bytes un)
  have byte: "mem_of st (?p + of_nat off + (a - vaddr)) = view content st (unat (bh_blockno (bufs st b))) (off + unat (a - vaddr))"
    if "unat (a - vaddr) < n" for a
  proof -
    have e: "?p + of_nat off + (a - vaddr) = ?p + of_nat (off + unat (a - vaddr))" by (simp add: add.assoc)
    have "off + unat (a - vaddr) < BLK_SIZE" using that len(2) by linarith
    then show ?thesis unfolding e using b(2) unfolding loaded_def by blast
  qed
  show "mem_of st' a = (if unat (a - vaddr) < n then view content st (unat (bh_blockno (bufs st b))) (off + unat (a - vaddr)) else mem_of st a)"
    using mem byte by simp
  have out: "mem_of st' a = mem_of st a" if "get_page_struct a \<in> frames st FL A \<or> a \<in> own (dev st)" for a
    using client_out [OF cl that] mem by simp
  show "cache_rep st' FL A" unfolding st'_def by (rule cache_rep_upd_mem [OF rep])
  show view: "same_view content N st st'" unfolding st'_def by (rule mem_change_ok [OF rep]) (use out in \<open>simp add: st'_def\<close>)
  show "loaded content st' b" unfolding loaded_def
  proof (intro allI impI)
    fix i :: nat assume i: "i < BLK_SIZE"
    have "mem_of st' (?p + of_nat i) = mem_of st (?p + of_nat i)"
      using page_byte [OF rep b(1) i] b(1) by (intro out) (simp add: frames_def)
    then show "mem_of st' (bh_page (bufs st' b) + of_nat i) = view content st' (unat (bh_blockno (bufs st' b))) i"
      using b(2,3) i view by (simp add: loaded_def st'_def same_view_def)
  qed
qed

text \<open>
  A transfer into the page, followed by clearing \<open>BH_New\<close>: whether the page was loaded before or is
  covered completely, the view changes exactly in the bytes that were copied.
\<close>

lemma copy_in_ok:
  assumes rep: "cache_rep st FL A" and b: "b \<in> A" "unat (bh_blockno (bufs st b)) < N"
    and full: "loaded content st b \<or> off = 0 \<and> n = BLK_SIZE" and ap: "apart own st (frames st FL A)"
    and len: "0 < n" "off + n \<le> BLK_SIZE" and cl: "client own st (frames st FL A) vaddr n"
    and st': "st' = upd_mem (memcpy (bh_page (bufs st b) + of_nat off) vaddr (of_nat n)) st"
    and st'': "touched b st' st''" "\<not> buf_is_new b st''"
  shows "cache_rep st'' FL A"
    and "k < N \<Longrightarrow> i < BLK_SIZE \<Longrightarrow> view content st'' k i =
      (if k = unat (bh_blockno (bufs st b)) \<and> off \<le> i \<and> i < off + n then mem_of st (vaddr + of_nat (i - off)) else view content st k i)"
    and "get_page_struct a \<notin> frames st FL A \<Longrightarrow> mem_of st'' a = mem_of st a"
proof -
  let ?p = "bh_page (bufs st b)"
  have un: "unat (of_nat n :: u64) = n" using len by (intro unat_of_nat_small) simp
  have mem': "mem_of st' a = (if unat (a - (?p + of_nat off)) < n then mem_of st (vaddr + (a - (?p + of_nat off))) else mem_of st a)" for a
    using client_apart(2) [OF rep b(1) cl len] by (simp add: st' memcpy_bytes un)
  then have mem: "mem_of st'' a = (if unat (a - (?p + of_nat off)) < n then mem_of st (vaddr + (a - (?p + of_nat off))) else mem_of st a)" for a
    using touched_mem [OF st''(1)] by simp
  have inside: "get_page_struct a = frame_of st b" if l: "unat (a - (?p + of_nat off)) < n" for a
  proof -
    have "a = ?p + of_nat (off + unat (a - (?p + of_nat off)))" by (simp add: algebra_simps)
    moreover have "off + unat (a - (?p + of_nat off)) < BLK_SIZE" using l len(2) by linarith
    ultimately show ?thesis using page_byte [OF rep b(1)] by metis
  qed
  have bK: "frame_of st b \<in> frames st FL A" using b(1) by (simp add: frames_def)
  show "mem_of st'' a = mem_of st a" if "get_page_struct a \<notin> frames st FL A" using inside [of a] bK that mem by auto
  show rep'': "cache_rep st'' FL A" by (rule touched_rep [OF st''(1)]) (use cache_rep_upd_mem [OF rep] st' in simp)
  have bufs: "bh_page (bufs st'' x) = bh_page (bufs st x)" "bh_blockno (bufs st'' x) = bh_blockno (bufs st x)" for x
    using st''(1) by (cases "x = b"; auto simp: touched_def st')+
  have new: "buf_is_new x st'' = buf_is_new x st" if "x \<noteq> b" for x using st''(1) that by (simp add: touched_def st' buf_is_new_def)
  have d: "dev st'' = dev st" using touched_mem [OF st''(1)] st' by simp
  assume ki: "k < N" "i < BLK_SIZE"
  have cont: "content (dev st'', mem_of st'') k i = content (dev st, mem_of st) k i"
  proof -
    have "\<forall>a \<in> own (dev st). mem_of st'' a = mem_of st a" using ap inside bK mem unfolding apart_def by metis
    from local [OF this ki] d show ?thesis by simp
  qed
  have off: "?p + of_nat i - (?p + of_nat off) = of_nat (i - off)" if "off \<le> i" using that by (simp add: of_nat_diff)
  have below: "n \<le> unat (?p + of_nat i - (?p + of_nat off))" if "i < off"
  proof -
    let ?j = "unat (?p + of_nat i - (?p + of_nat off))"
    have "of_nat i = (of_nat (off + ?j) :: u64)" by (simp add: algebra_simps)
    then have "unat (of_nat i :: u64) = unat (of_nat (off + ?j) :: u64)" by (simp only:)
    moreover have "unat (of_nat i :: u64) = i" using ki(2) by (intro unat_of_nat_small) simp
    moreover have "unat (of_nat (off + ?j) :: u64) = off + ?j" if "?j < n" using that len(2) by (intro unat_of_nat_small) simp
    ultimately show ?thesis using that by linarith
  qed
  have pg: "mem_of st'' (?p + of_nat i) = (if off \<le> i \<and> i < off + n then mem_of st (vaddr + of_nat (i - off)) else mem_of st (?p + of_nat i))"
  proof (cases "off \<le> i")
    case True
    have "unat (of_nat (i - off) :: u64) = i - off" using ki(2) by (intro unat_of_nat_small) simp
    with True show ?thesis unfolding mem [of "?p + of_nat i"] off [OF True] by (auto simp only: split: if_splits)
  next
    case False
    then show ?thesis using mem [of "?p + of_nat i"] below by simp
  qed
  show "view content st'' k i =
      (if k = unat (bh_blockno (bufs st b)) \<and> off \<le> i \<and> i < off + n then mem_of st (vaddr + of_nat (i - off)) else view content st k i)"
  proof (cases "k = unat (bh_blockno (bufs st b))")
    case True
    have "view content st'' k i = mem_of st'' (?p + of_nat i)"
      using view_cached [OF rep'' b(1), of content i] st''(2) bufs True by simp
    moreover have "mem_of st (?p + of_nat i) = view content st k i" if "\<not> (off \<le> i \<and> i < off + n)"
      using full that ki(2) True by (auto simp: loaded_def)
    ultimately show ?thesis using pg True by simp
  next
    case False
    have "view content st'' k i = view content st k i"
    proof (rule view_eqI [where content = content, OF rep rep'' _ cont])
      fix x assume x: "x \<in> A" "unat (bh_blockno (bufs st x)) = k"
      have xb: "x \<noteq> b" using x(2) False by auto
      have "mem_of st'' (bh_page (bufs st x) + of_nat i) = mem_of st (bh_page (bufs st x) + of_nat i)"
        using inside [of "bh_page (bufs st x) + of_nat i"] other_page [OF rep x(1) b(1) xb ki(2)] mem by auto
      then show "view content st'' k i = view content st k i"
        using view_cached [OF rep x(1), of content i] view_cached [OF rep'' x(1), of content i] x(2) cont bufs new [OF xb] by simp
    qed (simp add: bufs)
    with False show ?thesis by simp
  qed
qed

end

subsection \<open>Serving one bio\<close>

lemma and_not_new: "(w AND - 3) AND BH_New = 0" "((w AND - 3) OR BH_Dirty) AND BH_New = 0" for w :: u32
proof -
  have "(- 3) AND BH_New = (0 :: u32)" by simp
  then show "(w AND - 3) AND BH_New = 0" by (simp only: and.assoc and_zero_eq)
  then show "((w AND - 3) OR BH_Dirty) AND BH_New = 0" by (simp only: or_not_new)
qed

lemma buf_release_ok:
  assumes "mm_ok (mm (sl st)) FL" and "lock_free (bh_lock (bhash st))"
  obtains X h where "buf_release c b d st = Inr (with_lock h (bh_lock (bhash st)) X)" and "hart_ok h"
    and "touched b st X" and "\<not> buf_is_new b X" and "\<forall>x. bh_slock (bufs X x) = bh_slock (bufs st x)"
    and "dirties (bhash X) = (if d then dirty_mark b (dirties (bhash st)) else dirties (bhash st))"
proof -
  have h: "hart_ok (hart_of st)" by (rule hart_of_ok [OF assms(1)])
  define Y where "Y = buf_used b (upd_buf b (\<lambda>x. x\<lparr>bh_refcnt := atomic_dec (bh_refcnt x)\<rparr>) st)"
  show ?thesis
  proof (cases d)
    case False
    have w: "with_lock (hart_of st) (bh_lock (bhash st)) Y = Y"
      by (cases "mm (sl st)") (simp add: with_lock_def Y_def buf_used_def upd_buf_def upd_bhash_def hart_of_def)
    show ?thesis
      by (rule that [of "hart_of st" Y, OF _ h])
        (use False w in \<open>simp_all add: buf_release_def Let_def Y_def touched_def buf_used_def upd_buf_def table_of_def buf_is_new_def and_not_new\<close>)
  next
    case True
    define Z where "Z = upd_buf b (\<lambda>x. x\<lparr>bh_flags := bh_flags x OR BH_Dirty\<rparr>) Y"
    define X where "X = upd_bhash (\<lambda>h. h\<lparr>dirties := dirty_mark b (dirties h)\<rparr>) Z"
    have Z: "bh_lock (bhash Z) = bh_lock (bhash st)" "hart_of Z = hart_of st"
      by (simp_all add: Z_def Y_def buf_used_def upd_buf_def hart_of_def)
    define W where "W = upd_bhash (\<lambda>h. h\<lparr>dirties := dirty_mark b (dirties h)\<rparr>)
      (with_lock (push_off (hart_of st)) ((bh_lock (bhash st))\<lparr>lock := 1, lk_cpuid := c\<rparr>) Z)"
    have hW: "hart_of W = push_off (hart_of st)" "bh_lock (bhash W) = (bh_lock (bhash st))\<lparr>lock := 1, lk_cpuid := c\<rparr>"
      by (cases "mm (sl Z)"; simp add: W_def with_lock_def upd_bhash_def hart_of_def)+
    have "with_lock (settled (hart_of st)) (bh_lock (bhash st)) W = with_lock (settled (hart_of st)) (bh_lock (bhash st)) X"
      by (cases "mm (sl Z)") (simp add: W_def X_def with_lock_def upd_bhash_def)
    then have run: "buf_release c b d st = Inr (with_lock (settled (hart_of st)) (bh_lock (bhash st)) X)"
      using True lock_bhash_free [of Z c] assms(2) Z unlock_bhash_held [OF hW h assms(2)]
      by (simp add: buf_release_def Let_def Y_def [symmetric] Z_def [symmetric] W_def)
    have hs: "hart_ok (settled (hart_of st))" using h by simp
    show ?thesis
      by (rule that [of "settled (hart_of st)" X, OF run hs])
        (use True in \<open>simp_all add: X_def Z_def Y_def touched_def buf_used_def upd_buf_def upd_bhash_def table_of_def buf_is_new_def and_not_new\<close>)
  qed
qed

text \<open>The block layer at rest: nothing pinned, the lock free, at least \<open>k\<close> frames free.\<close>

definition disk_ok :: "('d \<Rightarrow> u64 set) \<Rightarrow> 'd gendisk \<Rightarrow> nat set \<Rightarrow> nat \<Rightarrow> bool" where
  "disk_ok own st K k \<longleftrightarrow> (\<exists>FL A. cache_rep st FL A \<and> frames st FL A = K \<and> k \<le> card (free_set FL) \<and>
     (\<forall>b \<in> A. bh_slock (bufs st b) = 1) \<and> lock_free (bh_lock (bhash st)) \<and> apart own st K)"

text \<open>What serving bytes of a request leaves alone: the other requests, the queue, the device.\<close>

definition advanced :: "nat \<Rightarrow> nat \<Rightarrow> 'd gendisk \<Rightarrow> 'd gendisk \<Rightarrow> bool" where
  "advanced r n st st' \<longleftrightarrow> rqs st' = (rqs st)(r := (rqs st r)\<lparr>rq_vaddr := rq_vaddr (rqs st r) + of_nat n\<rparr>) \<and>
     queue st' = queue st \<and> io_at st' = io_at st \<and> flush_at st' = flush_at st \<and> nrqs st' = nrqs st \<and> dev st' = dev st"

lemma pin_touched: "touched b st (upd_buf b (\<lambda>x. x\<lparr>bh_slock := v\<rparr>) st)"
  by (rule touched_buf) simp

context block_driver
begin

text \<open>The buffer of a block, pinned, with the block in its page.\<close>

lemma buffer_ready:
  assumes ok: "disk_ok own st K (Suc k)" and blk: "unat blk < N"
  obtains b st' FL A where "bindR (buf_get c blk st) (\<lambda>(b, st). bindR (buf_pin b st) (\<lambda>st. Inr (b, st))) = Inr (b, st')"
    and "cache_rep st' FL A" and "frames st' FL A = K" and "k \<le> card (free_set FL)" and "b \<in> A"
    and "bh_slock (bufs st' b) = 0" and "\<forall>x \<in> A. x \<noteq> b \<longrightarrow> bh_slock (bufs st' x) = 1" and "bh_blockno (bufs st' b) = blk"
    and "lock_free (bh_lock (bhash st'))" and "apart own st' K" and "same_view content N st st'" and "kept st st'" and "dev st' = dev st"
    and "\<forall>a. get_page_struct a \<notin> K \<longrightarrow> mem_of st' a = mem_of st a"
proof -
  from ok obtain FL A where rep: "cache_rep st FL A" and K: "frames st FL A = K" and k: "Suc k \<le> card (free_set FL)"
    and sl: "\<forall>b \<in> A. bh_slock (bufs st b) = 1" and lk: "lock_free (bh_lock (bhash st))" and ap: "apart own st K"
    unfolding disk_ok_def by blast
  have "free_set FL \<noteq> {}" using k by auto
  then obtain b st1 FL' A' where r: "buf_get c blk st = Inr (b, st1)" "cache_rep st1 FL' A'" "b \<in> A'" "bh_blockno (bufs st1 b) = blk"
    "frames st1 FL' A' = frames st FL A" "card (free_set FL) \<le> card (free_set FL') + 1"
    "same_view content N st st1" "\<forall>b \<in> A'. bh_slock (bufs st1 b) = 1" "kept st st1" "dev st1 = dev st"
    "\<forall>a. get_page_struct a \<notin> frames st FL A \<longrightarrow> mem_of st1 a = mem_of st a"
    by (rule buf_get_ok [OF rep lk _ apart_indep [OF ap [folded K]] sl, of blk c])
  let ?st' = "upd_buf b (\<lambda>x. x\<lparr>bh_slock := 0\<rparr>) st1"
  note t = pin_touched [of b st1 0]
  have nw: "buf_is_new b ?st' = buf_is_new b st1" by (simp add: buf_is_new_def upd_buf_def)
  show ?thesis
  proof (rule that [of b ?st' FL' A'])
    show "bindR (buf_get c blk st) (\<lambda>(b, st). bindR (buf_pin b st) (\<lambda>st. Inr (b, st))) = Inr (b, ?st')"
      using r(1,3,8) by (simp add: buf_pin_def sleep_on_def)
    show "same_view content N st ?st'" by (rule same_view_trans [OF r(7) touched_same_view [OF t nw]])
    show "kept st ?st'" by (rule kept_trans [OF r(9) touched_kept [OF t]])
    show "lock_free (bh_lock (bhash ?st'))" using lk r(9) by (simp add: kept_def upd_buf_def)
    show "apart own ?st' K" using ap touched_mem [OF t] r(10) by (simp add: apart_def)
  qed (use touched_rep [OF t r(2)] touched_frames [OF t] touched_mem [OF t] r K k in \<open>simp_all add: upd_buf_def\<close>)
qed

end

lemma frames_with_lock [simp]: "frames (with_lock h lk st) FL A = frames st FL A"
  by (rule frames_cong) simp

lemma release_unpin_ok:
  assumes rep: "cache_rep st FL A" and lk: "lock_free (bh_lock (bhash st))" and b: "b \<in> A" "bh_slock (bufs st b) = 0"
    and sl: "\<forall>x \<in> A. x \<noteq> b \<longrightarrow> bh_slock (bufs st x) = 1" and ap: "apart own st (frames st FL A)"
  obtains X h where "bindR (buf_release c b d st) (\<lambda>st. Inr (buf_unpin b st)) = Inr (with_lock h (bh_lock (bhash st)) X)"
    and "touched b st X" and "\<not> buf_is_new b X"
    and "k \<le> card (free_set FL) \<Longrightarrow> disk_ok own (with_lock h (bh_lock (bhash st)) X) (frames st FL A) k"
    and "dirties (bhash X) = (if d then dirty_mark b (dirties (bhash st)) else dirties (bhash st))"
proof -
  obtain Y h where r: "buf_release c b d st = Inr (with_lock h (bh_lock (bhash st)) Y)" "hart_ok h" "touched b st Y"
    "\<not> buf_is_new b Y" "\<forall>x. bh_slock (bufs Y x) = bh_slock (bufs st x)"
    "dirties (bhash Y) = (if d then dirty_mark b (dirties (bhash st)) else dirties (bhash st))"
    by (rule buf_release_ok [OF cache_repD(1) [OF rep] lk])
  define X where "X = buf_unpin b Y"
  have "touched b Y X" unfolding X_def buf_unpin_def by (rule touched_buf) simp
  then have t: "touched b st X" by (rule touched_trans [OF r(3)])
  have com: "buf_unpin b (with_lock h (bh_lock (bhash st)) Y) = with_lock h (bh_lock (bhash st)) X"
    by (cases "mm (sl Y)") (simp add: X_def buf_unpin_def upd_buf_def with_lock_def upd_bhash_def)
  have slX: "\<forall>x \<in> A. bh_slock (bufs X x) = 1" using sl b r(5) by (simp add: X_def buf_unpin_def upd_buf_def)
  show ?thesis
  proof (rule that [of h X])
    show "bindR (buf_release c b d st) (\<lambda>st. Inr (buf_unpin b st)) = Inr (with_lock h (bh_lock (bhash st)) X)"
      using r(1) com by simp
    show "\<not> buf_is_new b X" using r(4) by (simp add: X_def buf_unpin_def upd_buf_def buf_is_new_def)
    show "disk_ok own (with_lock h (bh_lock (bhash st)) X) (frames st FL A) k" if "k \<le> card (free_set FL)"
      unfolding disk_ok_def
      using cache_rep_with_lock [OF touched_rep [OF t rep] r(2)] touched_frames [OF t] that slX lk ap touched_mem [OF t]
      by (intro exI [of _ FL] exI [of _ A]) (simp add: apart_def)
    show "dirties (bhash X) = (if d then dirty_mark b (dirties (bhash st)) else dirties (bhash st))"
      using r(6) by (simp add: X_def buf_unpin_def upd_buf_def)
  qed (rule t)
qed

context block_driver
begin

lemma page_loaded:
  assumes rep: "cache_rep st FL A" and b: "b \<in> A" and ap: "apart own st (frames st FL A)"
    and blk: "unat (bh_blockno (bufs st b)) < N"
  defines "st' \<equiv> (if buf_is_new b st then call_driver ll_rw DEV_READ (bh_blockno (bufs st b)) (bh_page (bufs st b)) st else st)"
  shows "cache_rep st' FL A" and "same_view content N st st'" and "loaded content st' b" and "dev st' = dev st" and "bufs st' = bufs st"
    and "kept st st'" and "\<forall>a. get_page_struct a \<noteq> frame_of st b \<longrightarrow> mem_of st' a = mem_of st a" and "bhash st' = bhash st"
proof -
  have "cache_rep st' FL A \<and> same_view content N st st' \<and> loaded content st' b \<and> dev st' = dev st \<and> bufs st' = bufs st \<and>
    kept st st' \<and> (\<forall>a. get_page_struct a \<noteq> frame_of st b \<longrightarrow> mem_of st' a = mem_of st a) \<and> bhash st' = bhash st"
  proof (cases "buf_is_new b st")
    case True
    from driver_read_ok [OF rep b this ap blk] True show ?thesis by (simp add: st'_def)
  next
    case False
    with not_new_loaded [OF rep b this] rep show ?thesis by (simp add: st'_def kept_def same_view_def)
  qed
  then show "cache_rep st' FL A" and "same_view content N st st'" and "loaded content st' b" and "dev st' = dev st" and "bufs st' = bufs st"
    and "kept st st'" and "\<forall>a. get_page_struct a \<noteq> frame_of st b \<longrightarrow> mem_of st' a = mem_of st a" and "bhash st' = bhash st" by blast+
qed

end

end
