(* ===== verification/Blkio.thy ===== *)
theory Blkio
  imports Bcache
begin

text \<open>
  Transfers through the block layer: the I/O thread moves exactly the bytes of a request between the
  client's memory and the view of the device, for each bio, for all bios of a request and for whole
  calls of \<open>gen_disk_read\<close> and \<open>gen_disk_write\<close>; the write-back thread does not change the view. The
  RAM disk satisfies the contract of a driver.
\<close>

text \<open>The disk as one sequence of bytes, and a transfer between it and the memory outside the pages \<open>K\<close>.\<close>

definition disk :: "('d \<times> mem \<Rightarrow> nat \<Rightarrow> nat \<Rightarrow> u8) \<Rightarrow> 'd gendisk \<Rightarrow> nat \<Rightarrow> u8" where
  "disk content st p = view content st (p div BLK_SIZE) (p mod BLK_SIZE)"

definition moved :: "('d \<times> mem \<Rightarrow> nat \<Rightarrow> nat \<Rightarrow> u8) \<Rightarrow> nat \<Rightarrow> nat set \<Rightarrow> u32 \<Rightarrow> nat \<Rightarrow> nat \<Rightarrow> u64 \<Rightarrow> 'd gendisk \<Rightarrow> 'd gendisk \<Rightarrow> bool" where
  "moved content N K rw start n vaddr st st' \<longleftrightarrow>
     (\<forall>a. get_page_struct a \<notin> K \<longrightarrow> mem_of st' a =
        (if rw = DEV_READ \<and> unat (a - vaddr) < n then disk content st (start + unat (a - vaddr)) else mem_of st a)) \<and>
     (\<forall>p < N * BLK_SIZE. disk content st' p =
        (if rw = DEV_WRITE \<and> start \<le> p \<and> p < start + n then mem_of st (vaddr + of_nat (p - start)) else disk content st p))"

lemma used_same_view:
  assumes rep: "cache_rep st FL A" and b: "b \<in> A" "loaded content st b" and t: "touched b st X" "\<not> buf_is_new b X"
  shows "same_view content N st X"
  unfolding same_view_def
proof (intro allI impI)
  fix blk i assume i: "i < BLK_SIZE"
  note rep' = touched_rep [OF t(1) rep] and m = touched_mem [OF t(1)]
  show "view content X blk i = view content st blk i"
  proof (rule view_eqI [OF rep rep'])
    show "bh_blockno (bufs X x) = bh_blockno (bufs st x)" for x using t(1) by (cases "x = b") (simp_all add: touched_def)
    show "content (dev X, mem_of X) blk i = content (dev st, mem_of st) blk i" using m by simp
  next
    fix x assume x: "x \<in> A" "unat (bh_blockno (bufs st x)) = blk"
    show "view content X blk i = view content st blk i"
    proof (cases "x = b")
      case True
      have e: "bh_blockno (bufs X b) = bh_blockno (bufs st b)" "bh_page (bufs X b) = bh_page (bufs st b)"
        using t(1) by (simp_all add: touched_def)
      from view_cached [OF rep' b(1), where content = content and i = i] e t(2) True x(2) m
      have "view content X blk i = mem_of st (bh_page (bufs st b) + of_nat i)" by simp
      with b(2) i True x(2) show ?thesis by (simp add: loaded_def)
    next
      case False
      then have e: "bufs X x = bufs st x" using t(1) by (simp add: touched_def)
      then show ?thesis
        using view_cached [OF rep' x(1), where content = content and i = i]
          view_cached [OF rep x(1), where content = content and i = i] x(2) m by (simp add: buf_is_new_def)
    qed
  qed
qed

lemma disk_pos: "i < BLK_SIZE \<Longrightarrow> disk content st (blk * BLK_SIZE + i) = view content st blk i"
  by (simp add: disk_def)

lemma same_view_disk: "same_view content N st st' \<Longrightarrow> p < N * BLK_SIZE \<Longrightarrow> disk content st' p = disk content st p"
  by (simp add: same_view_def disk_def less_mult_imp_div_less)

lemma disk_with_lock [simp]: "disk content (with_lock h lk st) = disk content st"
  by (rule ext) (simp add: disk_def)

lemma moved_trans:
  assumes m1: "moved content N K rw start n va st st1" and m2: "moved content N K rw (start + n) m (va + of_nat n) st1 st2"
    and fit: "start + n + m \<le> N * BLK_SIZE" and nm: "n + m < 2 ^ 64" and rw: "rw = DEV_READ \<or> rw = DEV_WRITE"
    and out: "\<forall>j < n + m. get_page_struct (va + of_nat j) \<notin> K"
  shows "moved content N K rw start (n + m) va st st2"
  unfolding moved_def
proof (intro conjI allI impI)
  fix a assume a: "get_page_struct a \<notin> K"
  let ?d = "unat (a - va)" and ?e = "unat (a - (va + of_nat n))"
  have un: "unat (of_nat n :: u64) = n" using nm by (intro unat_of_nat_small) simp
  have e1: "?e = ?d - n" if "n \<le> ?d"
  proof -
    have "of_nat n \<le> a - va" using that un by (simp add: word_le_nat_alt)
    then have "unat (a - va - of_nat n) = ?d - n" using un by (simp add: unat_sub)
    then show ?thesis by (simp add: algebra_simps)
  qed
  have e2: "m \<le> ?e" if "?d < n"
  proof -
    have "?e = unat (a - va - of_nat n)" by (simp add: algebra_simps)
    also have "\<dots> = 2 ^ 64 + ?d - n"
      using that un nm by (simp add: unat_sub_if')
    finally show ?thesis using nm by linarith
  qed
  show "mem_of st2 a = (if rw = DEV_READ \<and> ?d < n + m then disk content st (start + ?d) else mem_of st a)"
  proof (cases "rw = DEV_READ")
    case True
    show ?thesis
    proof (cases "?d < n")
      case True
      then show ?thesis using m1 m2 a e2 by (simp add: moved_def)
    next
      case False
      then have "?e = ?d - n" "?d - n < m \<longleftrightarrow> ?d < n + m" using e1 by auto
      with False \<open>rw = DEV_READ\<close> show ?thesis using m1 m2 a fit by (simp add: moved_def)
    qed
  next
    case False
    then show ?thesis using m1 m2 a by (simp add: moved_def)
  qed
next
  fix p assume p: "p < N * BLK_SIZE"
  show "disk content st2 p = (if rw = DEV_WRITE \<and> start \<le> p \<and> p < start + (n + m) then mem_of st (va + of_nat (p - start)) else disk content st p)"
  proof (cases "rw = DEV_WRITE \<and> start + n \<le> p \<and> p < start + n + m")
    case True
    then have "va + of_nat n + of_nat (p - (start + n)) = va + of_nat (p - start)"
      by (simp add: algebra_simps flip: of_nat_add)
    moreover have "get_page_struct (va + of_nat (p - start)) \<notin> K" using out True by (intro mp [OF spec [OF out]]) linarith
    moreover have "\<forall>a. get_page_struct a \<notin> K \<longrightarrow> mem_of st1 a = mem_of st a" using m1 True by (simp add: moved_def)
    ultimately have "mem_of st1 (va + of_nat n + of_nat (p - (start + n))) = mem_of st (va + of_nat (p - start))" by metis
    then show ?thesis using m2 p True by (simp add: moved_def)
  next
    case False
    then show ?thesis using m1 m2 p by (auto simp: moved_def)
  qed
qed

lemma moved_pre:
  assumes sv: "same_view content N st st1" and mem: "\<forall>a. get_page_struct a \<notin> K \<longrightarrow> mem_of st1 a = mem_of st a"
    and fit: "start + n \<le> N * BLK_SIZE" and out: "\<forall>j < n. get_page_struct (va + of_nat j) \<notin> K"
    and m: "moved content N K rw start n va st1 st'"
  shows "moved content N K rw start n va st st'"
  unfolding moved_def
proof (intro conjI allI impI)
  fix a assume a: "get_page_struct a \<notin> K"
  have "disk content st1 (start + unat (a - va)) = disk content st (start + unat (a - va))" if "unat (a - va) < n"
    using same_view_disk [OF sv, of "start + unat (a - va)"] that fit by simp
  with m mem a show "mem_of st' a = (if rw = DEV_READ \<and> unat (a - va) < n then disk content st (start + unat (a - va)) else mem_of st a)"
    unfolding moved_def by simp
next
  fix p assume p: "p < N * BLK_SIZE"
  have "mem_of st1 (va + of_nat (p - start)) = mem_of st (va + of_nat (p - start))" if "start \<le> p" "p < start + n"
  proof -
    have "p - start < n" using that by linarith
    with out mem show ?thesis by blast
  qed
  with m p same_view_disk [OF sv p]
  show "disk content st' p = (if rw = DEV_WRITE \<and> start \<le> p \<and> p < start + n then mem_of st (va + of_nat (p - start)) else disk content st p)"
    unfolding moved_def by (auto simp only: if_True if_False simp_thms split: if_splits)
qed

lemma upd_rq_simps [simp]:
  "bufs (upd_rq r f st) = bufs st" "dev (upd_rq r f st) = dev st" "bhash (upd_rq r f st) = bhash st" "sl (upd_rq r f st) = sl st"
  "nbufs (upd_rq r f st) = nbufs st" "queue (upd_rq r f st) = queue st" "io_at (upd_rq r f st) = io_at st"
  "flush_at (upd_rq r f st) = flush_at st" "nrqs (upd_rq r f st) = nrqs st"
  by (simp_all add: upd_rq_def)

lemma disk_rest:
  assumes "bufs st' = bufs st" "dev st' = dev st" "bhash st' = bhash st" "sl st' = sl st" "nbufs st' = nbufs st"
  shows "disk_ok own st' K k = disk_ok own st K k" and "disk content st' = disk content st" and "mem_of st' = mem_of st"
proof -
  have t: "table_of st' = table_of st" and m: "mem_of st' = mem_of st" using assms by (simp_all add: table_of_def mem_of_def)
  have l: "lookup st' = lookup st" by (rule ext) (simp add: lookup_def t assms)
  have n: "buf_is_new b st' = buf_is_new b st" for b by (simp add: buf_is_new_def assms)
  show "disk content st' = disk content st"
    unfolding disk_def [abs_def] view_def l n m assms(1,2) ..
  show "mem_of st' = mem_of st" by (rule m)
  have "cache_rep st' FL A = cache_rep st FL A" for FL A by (simp add: cache_rep_def frame_of_def [abs_def] t assms)
  moreover have "frames st' FL A = frames st FL A" for FL A by (rule frames_cong) (simp add: assms)
  ultimately show "disk_ok own st' K k = disk_ok own st K k" by (simp add: disk_ok_def apart_def assms)
qed

text \<open>The state while the I/O thread has the buffer \<open>x\<close> of a block.\<close>

definition pinned :: "('d \<Rightarrow> u64 set) \<Rightarrow> 'd gendisk \<Rightarrow> nat \<Rightarrow> u32 \<Rightarrow> nat set \<Rightarrow> nat \<Rightarrow> bool" where
  "pinned own st x blk K k \<longleftrightarrow> (\<exists>FL A. cache_rep st FL A \<and> frames st FL A = K \<and> k \<le> card (free_set FL) \<and> x \<in> A \<and>
     bh_slock (bufs st x) = 0 \<and> (\<forall>y \<in> A. y \<noteq> x \<longrightarrow> bh_slock (bufs st y) = 1) \<and> bh_blockno (bufs st x) = blk \<and>
     lock_free (bh_lock (bhash st)) \<and> apart own st K)"

lemma client_drop:
  assumes "client own st K va n" and "i \<le> n" and "dev st' = dev st"
  shows "client own st' K (va + of_nat i) (n - i)"
proof -
  have e: "va + of_nat i + of_nat j = va + of_nat (i + j)" for j by simp
  show ?thesis unfolding client_def e assms(3)
  proof (intro allI impI)
    fix j assume "j < n - i"
    then have "i + j < n" using assms(2) by linarith
    with assms(1) show "get_page_struct (va + of_nat (i + j)) \<notin> K \<and> va + of_nat (i + j) \<notin> own (dev st)"
      unfolding client_def by blast
  qed
qed

lemma advanced_trans: "advanced r n st st1 \<Longrightarrow> advanced r m st1 st2 \<Longrightarrow> advanced r (n + m) st st2"
  by (simp add: advanced_def add.assoc)

context block_driver
begin

lemma bio_read_ok:
  fixes c :: int
  assumes pin: "pinned own st x blk K k" and blk: "unat blk < N" and len: "0 < n" "off + n \<le> BLK_SIZE" and cl: "client own st K va n"
  defines "g \<equiv> bindR (buf_release c x False (upd_mem (memcpy va (bh_page (bufs st x) + of_nat off) (of_nat n))
                 (if buf_is_new x st then call_driver ll_rw DEV_READ (bh_blockno (bufs st x)) (bh_page (bufs st x)) st else st)))
               (\<lambda>st. Inr (buf_unpin x st))"
  obtains st' where "g = Inr st'" and "disk_ok own st' K k" and "kept st st'" and "dev st' = dev st"
    and "moved content N K DEV_READ (unat blk * BLK_SIZE + off) n va st st'"
proof -
  obtain FL A where rep: "cache_rep st FL A" and K: "frames st FL A = K" and k: "k \<le> card (free_set FL)" and x: "x \<in> A"
    and sx: "bh_slock (bufs st x) = 0" and sy: "\<forall>y \<in> A. y \<noteq> x \<longrightarrow> bh_slock (bufs st y) = 1" and bx: "bh_blockno (bufs st x) = blk"
    and lk: "lock_free (bh_lock (bhash st))" and ap: "apart own st K"
    using pin unfolding pinned_def by blast
  define st2 where "st2 = (if buf_is_new x st then call_driver ll_rw DEV_READ (bh_blockno (bufs st x)) (bh_page (bufs st x)) st else st)"
  note pl = page_loaded [OF rep x ap [folded K], unfolded bx, OF blk, folded bx, folded st2_def]
  have K2: "frames st2 FL A = K" unfolding K [symmetric] by (rule frames_cong) (simp add: pl)
  have cl2: "client own st2 (frames st2 FL A) va n" using cl pl(4) by (simp add: client_def K2)
  have bx2: "unat (bh_blockno (bufs st2 x)) < N" using blk bx pl(5) by simp
  define st3 where "st3 = upd_mem (memcpy va (bh_page (bufs st x) + of_nat off) (of_nat n)) st2"
  note co = copy_out_ok [OF pl(1) x pl(3) bx2 len cl2, unfolded pl(5), folded st3_def]
  have s3: "bufs st3 = bufs st" "bhash st3 = bhash st" "dev st3 = dev st" using pl by (simp_all add: st3_def)
  have K3: "frames st3 FL A = K" unfolding K [symmetric] by (rule frames_cong) (simp add: s3)
  have ap3: "apart own st3 (frames st3 FL A)" using ap s3(3) by (simp add: apart_def K3)
  obtain X h where X: "bindR (buf_release c x False st3) (\<lambda>st. Inr (buf_unpin x st)) = Inr (with_lock h (bh_lock (bhash st3)) X)"
    "touched x st3 X" "\<not> buf_is_new x X"
    "k \<le> card (free_set FL) \<Longrightarrow> disk_ok own (with_lock h (bh_lock (bhash st3)) X) (frames st3 FL A) k"
    by (rule release_unpin_ok [OF co(1) _ x _ _ ap3, of c False k]) (use lk sx sy s3 in simp_all)
  let ?st' = "with_lock h (bh_lock (bhash st3)) X"
  have svX: "same_view content N st X"
    by (rule same_view_trans [OF pl(2) same_view_trans [OF co(2) used_same_view [OF co(1) x co(3) X(2,3)]]])
  have mX: "mem_of ?st' a = (if unat (a - va) < n then view content st2 (unat blk) (off + unat (a - va)) else mem_of st2 a)" for a
    using touched_mem [OF X(2)] co(4) bx by simp
  show ?thesis
  proof (rule that [of ?st'])
    show "g = Inr ?st'" using X(1) by (simp only: g_def st3_def st2_def)
    show "disk_ok own ?st' K k" using X(4) [OF k] K3 by simp
    show "dev ?st' = dev st" using touched_mem [OF X(2)] s3 by simp
    have "kept st st3" using pl(6) by (simp add: st3_def kept_def)
    then show "kept st ?st'" using touched_kept [OF X(2)] by (simp add: kept_def s3)
    show "moved content N K DEV_READ (unat blk * BLK_SIZE + off) n va st ?st'"
      unfolding moved_def
    proof (intro conjI allI impI)
      fix a assume a: "get_page_struct a \<notin> K"
      then have "get_page_struct a \<noteq> frame_of st x" using K x by (auto simp: frames_def)
      then have 1: "mem_of st2 a = mem_of st a" using pl(7) by simp
      have 2: "disk content st (unat blk * BLK_SIZE + off + unat (a - va)) = view content st2 (unat blk) (off + unat (a - va))"
        if "unat (a - va) < n"
        using disk_pos [of "off + unat (a - va)" content st "unat blk"] pl(2) that len blk by (simp add: same_view_def add.assoc)
      show "mem_of ?st' a = (if DEV_READ = DEV_READ \<and> unat (a - va) < n then disk content st (unat blk * BLK_SIZE + off + unat (a - va)) else mem_of st a)"
        unfolding mX using 1 2 by simp
    next
      fix p assume "p < N * BLK_SIZE"
      from same_view_disk [OF svX this]
      show "disk content ?st' p = (if DEV_READ = DEV_WRITE \<and> unat blk * BLK_SIZE + off \<le> p \<and> p < unat blk * BLK_SIZE + off + n
          then mem_of st (va + of_nat (p - (unat blk * BLK_SIZE + off))) else disk content st p)" by simp
    qed
  qed
qed

lemma bio_write_ok:
  fixes c :: int
  assumes pin: "pinned own st x blk K k" and blk: "unat blk < N" and len: "0 < n" "off + n \<le> BLK_SIZE" and cl: "client own st K va n"
    and full: "full \<longleftrightarrow> off = 0 \<and> n = BLK_SIZE"
  defines "g \<equiv> bindR (buf_release c x True (upd_mem (memcpy (bh_page (bufs st x) + of_nat off) va (of_nat n))
                 (if \<not> full \<and> buf_is_new x st then call_driver ll_rw DEV_READ (bh_blockno (bufs st x)) (bh_page (bufs st x)) st else st)))
               (\<lambda>st. Inr (buf_unpin x st))"
  obtains st' where "g = Inr st'" and "disk_ok own st' K k" and "kept st st'" and "dev st' = dev st"
    and "moved content N K DEV_WRITE (unat blk * BLK_SIZE + off) n va st st'"
proof -
  obtain FL A where rep: "cache_rep st FL A" and K: "frames st FL A = K" and k: "k \<le> card (free_set FL)" and x: "x \<in> A"
    and sx: "bh_slock (bufs st x) = 0" and sy: "\<forall>y \<in> A. y \<noteq> x \<longrightarrow> bh_slock (bufs st y) = 1" and bx: "bh_blockno (bufs st x) = blk"
    and lk: "lock_free (bh_lock (bhash st))" and ap: "apart own st K"
    using pin unfolding pinned_def by blast
  define st2 where "st2 = (if \<not> full \<and> buf_is_new x st then call_driver ll_rw DEV_READ (bh_blockno (bufs st x)) (bh_page (bufs st x)) st else st)"
  have pl: "cache_rep st2 FL A" "same_view content N st st2" "loaded content st2 x \<or> full" "dev st2 = dev st" "bufs st2 = bufs st"
    "kept st st2" "\<forall>a. get_page_struct a \<noteq> frame_of st x \<longrightarrow> mem_of st2 a = mem_of st a" "bhash st2 = bhash st"
    using page_loaded [OF rep x ap [folded K], unfolded bx, OF blk, folded bx] rep
    by (cases full; simp add: st2_def same_view_def kept_def)+
  have K2: "frames st2 FL A = K" unfolding K [symmetric] by (rule frames_cong) (simp add: pl)
  have cl2: "client own st2 (frames st2 FL A) va n" using cl pl(4) by (simp add: client_def K2)
  have ap2: "apart own st2 (frames st2 FL A)" using ap pl(4) by (simp add: apart_def K2)
  have bx2: "unat (bh_blockno (bufs st2 x)) < N" using blk bx pl(5) by simp
  define st3 where "st3 = upd_mem (memcpy (bh_page (bufs st x) + of_nat off) va (of_nat n)) st2"
  have s3: "bufs st3 = bufs st" "bhash st3 = bhash st" "dev st3 = dev st" using pl by (simp_all add: st3_def)
  have st3': "st3 = upd_mem (memcpy (bh_page (bufs st2 x) + of_nat off) va (of_nat n)) st2" by (simp add: st3_def pl(5))
  have K3: "frames st3 FL A = K" unfolding K [symmetric] by (rule frames_cong) (simp add: s3)
  have ap3: "apart own st3 (frames st3 FL A)" using ap s3(3) by (simp add: apart_def K3)
  have rep3: "cache_rep st3 FL A" unfolding st3_def by (rule cache_rep_upd_mem [OF pl(1)])
  obtain X h where X: "bindR (buf_release c x True st3) (\<lambda>st. Inr (buf_unpin x st)) = Inr (with_lock h (bh_lock (bhash st3)) X)"
    "touched x st3 X" "\<not> buf_is_new x X"
    "k \<le> card (free_set FL) \<Longrightarrow> disk_ok own (with_lock h (bh_lock (bhash st3)) X) (frames st3 FL A) k"
    by (rule release_unpin_ok [OF rep3 _ x _ _ ap3, of c True k]) (use lk sx sy s3 in simp_all)
  let ?st' = "with_lock h (bh_lock (bhash st3)) X"
  have ld: "loaded content st2 x \<or> off = 0 \<and> n = BLK_SIZE" using pl(3) full by blast
  note ci = copy_in_ok [OF pl(1) x bx2 ld ap2 len cl2 st3' X(2,3), unfolded pl(5) bx K2]
  have in2: "mem_of st2 (va + of_nat j) = mem_of st (va + of_nat j)" if "j < n" for j
  proof -
    have "get_page_struct (va + of_nat j) \<noteq> frame_of st x" using cl that K x by (auto simp: client_def frames_def)
    with pl(7) show ?thesis by simp
  qed
  show ?thesis
  proof (rule that [of ?st'])
    show "g = Inr ?st'" using X(1) by (simp only: g_def st3_def st2_def)
    show "disk_ok own ?st' K k" using X(4) [OF k] K3 by simp
    show "dev ?st' = dev st" using touched_mem [OF X(2)] s3 by simp
    have "kept st st3" using pl(6) by (simp add: st3_def kept_def)
    then show "kept st ?st'" using touched_kept [OF X(2)] by (simp add: kept_def s3)
    show "moved content N K DEV_WRITE (unat blk * BLK_SIZE + off) n va st ?st'"
      unfolding moved_def
    proof (intro conjI allI impI)
      fix a assume a: "get_page_struct a \<notin> K"
      then have "get_page_struct a \<noteq> frame_of st x" using K x by (auto simp: frames_def)
      then have "mem_of st2 a = mem_of st a" using pl(7) by simp
      with ci(3) [OF a]
      show "mem_of ?st' a = (if DEV_WRITE = DEV_READ \<and> unat (a - va) < n then disk content st (unat blk * BLK_SIZE + off + unat (a - va)) else mem_of st a)"
        by simp
    next
      fix p assume p: "p < N * BLK_SIZE"
      let ?b = "p div BLK_SIZE" and ?i = "p mod BLK_SIZE"
      have b: "?b < N" using p by (simp add: less_mult_imp_div_less)
      have "disk content ?st' p = (if ?b = unat blk \<and> off \<le> ?i \<and> ?i < off + n then mem_of st2 (va + of_nat (?i - off)) else view content st2 ?b ?i)"
        using ci(2) [OF b, of ?i] by (simp add: disk_def)
      also have "\<dots> = (if ?b = unat blk \<and> off \<le> ?i \<and> ?i < off + n then mem_of st (va + of_nat (?i - off)) else disk content st p)"
      proof (rule if_cong [OF refl])
        assume "?b = unat blk \<and> off \<le> ?i \<and> ?i < off + n"
        then have "?i - off < n" by linarith
        then show "mem_of st2 (va + of_nat (?i - off)) = mem_of st (va + of_nat (?i - off))" by (rule in2)
      next
        show "view content st2 ?b ?i = disk content st p" using pl(2) b by (simp add: same_view_def disk_def)
      qed
      also have "\<dots> = (if DEV_WRITE = DEV_WRITE \<and> unat blk * BLK_SIZE + off \<le> p \<and> p < unat blk * BLK_SIZE + off + n
          then mem_of st (va + of_nat (p - (unat blk * BLK_SIZE + off))) else disk content st p)"
      proof (cases "?b = unat blk \<and> off \<le> ?i \<and> ?i < off + n")
        case True
        have "p = ?b * BLK_SIZE + ?i" by simp
        then have e: "?i - off = p - (unat blk * BLK_SIZE + off)" using True by linarith
        have "unat blk * BLK_SIZE + off \<le> p" "p < unat blk * BLK_SIZE + off + n" using True in_block [OF len(2), of "unat blk" p] by blast+
        then show ?thesis unfolding e using True by (simp only: simp_thms if_True)
      next
        case False
        then have "\<not> (unat blk * BLK_SIZE + off \<le> p \<and> p < unat blk * BLK_SIZE + off + n)"
          using in_block [OF len(2), of "unat blk" p] by blast
        with False show ?thesis by (simp only: simp_thms if_False)
      qed
      finally show "disk content ?st' p = (if DEV_WRITE = DEV_WRITE \<and> unat blk * BLK_SIZE + off \<le> p \<and> p < unat blk * BLK_SIZE + off + n
          then mem_of st (va + of_nat (p - (unat blk * BLK_SIZE + off))) else disk content st p)" .
    qed
  qed
qed

end

context block_driver
begin

lemma io_bio_ok:
  assumes ok: "disk_ok own st K (Suc k)" and len: "0 < unat (b_len b)" "unat (b_offset b) + unat (b_len b) \<le> BLK_SIZE"
    and blk: "unat (b_blockno b) < N" and cl: "client own st K (rq_vaddr (rqs st r)) (unat (b_len b))"
    and rw: "rw = rq_flags (rqs st r)" "rw = DEV_READ \<or> rw = DEV_WRITE"
  obtains st' where "io_bio ll_rw c r b st = Inr st'" and "disk_ok own st' K k" and "advanced r (unat (b_len b)) st st'"
    and "moved content N K rw (unat (b_blockno b) * BLK_SIZE + unat (b_offset b)) (unat (b_len b)) (rq_vaddr (rqs st r)) st st'"
proof -
  let ?n = "unat (b_len b)" and ?o = "unat (b_offset b)" and ?va = "rq_vaddr (rqs st r)" and ?blk = "unat (b_blockno b)"
  have uc: "ucast (b_len b) = (of_nat ?n :: u64)" "ucast (b_offset b) = (of_nat ?o :: u64)"
    by simp_all
  obtain x st1 FL A where r: "bindR (buf_get c (b_blockno b) st) (\<lambda>(b, st). bindR (buf_pin b st) (\<lambda>st. Inr (b, st))) = Inr (x, st1)"
    and rep: "cache_rep st1 FL A" and K: "frames st1 FL A = K" and k: "k \<le> card (free_set FL)" and x: "x \<in> A"
    and sx: "bh_slock (bufs st1 x) = 0" and sy: "\<forall>y \<in> A. y \<noteq> x \<longrightarrow> bh_slock (bufs st1 y) = 1" and bx: "bh_blockno (bufs st1 x) = b_blockno b"
    and lk: "lock_free (bh_lock (bhash st1))" and ap: "apart own st1 K" and sv: "same_view content N st st1" and kp: "kept st st1"
    and d: "dev st1 = dev st" and mem1: "\<forall>a. get_page_struct a \<notin> K \<longrightarrow> mem_of st1 a = mem_of st a"
    by (rule buffer_ready [OF ok blk, of c])
  have io: "io_bio ll_rw c r b st = bindR g (\<lambda>st. Inr (upd_rq r (\<lambda>y. y\<lparr>rq_vaddr := ?va + of_nat ?n\<rparr>) st))"
    if "g = (if rw = DEV_READ then
               bindR (buf_release c x False (upd_mem (memcpy ?va (bh_page (bufs st1 x) + of_nat ?o) (of_nat ?n))
                 (if buf_is_new x st1 then call_driver ll_rw DEV_READ (bh_blockno (bufs st1 x)) (bh_page (bufs st1 x)) st1 else st1)))
               (\<lambda>st. Inr (buf_unpin x st))
             else
               bindR (buf_release c x True (upd_mem (memcpy (bh_page (bufs st1 x) + of_nat ?o) ?va (of_nat ?n))
                 (if \<not> (b_offset b = 0 \<and> b_len b = of_nat BLK_SIZE) \<and> buf_is_new x st1
                  then call_driver ll_rw DEV_READ (bh_blockno (bufs st1 x)) (bh_page (bufs st1 x)) st1 else st1)))
               (\<lambda>st. Inr (buf_unpin x st)))" for g
  proof -
    have rq: "rqs st1 r = rqs st r" using kp by (simp add: kept_def)
    have l0: "b_len b \<noteq> 0" using len(1) by auto
    obtain s0 where s0: "buf_get c (b_blockno b) st = Inr (x, s0)" "buf_pin x s0 = Inr st1"
      using r by (auto simp only: bindR_eq_Inr split: prod.splits)
    have f: "rq_flags (rqs st r) = rw" using rw(1) by simp
    from rw(2) show ?thesis
    proof
      assume w: "rw = DEV_READ"
      show ?thesis unfolding that io_bio_def s0 bindR_simps prod.case if_not_P [OF l0] Let_def rq f uc bx w
        by (simp only: simp_thms if_True)
    next
      assume w: "rw = DEV_WRITE"
      show ?thesis unfolding that io_bio_def s0 bindR_simps prod.case if_not_P [OF l0] Let_def rq f uc bx w
        by (simp only: one_neq_zero simp_thms if_True if_False)
    qed
  qed
  have pin: "pinned own st1 x (b_blockno b) K k" unfolding pinned_def using rep K k x sx sy bx lk ap by blast
  have cl1: "client own st1 K ?va ?n" using cl d by (simp add: client_def)
  have fit: "?blk * BLK_SIZE + ?o + ?n \<le> N * BLK_SIZE"
    using mult_le_mono1 [of "Suc ?blk" N BLK_SIZE] blk len(2) by simp
  have full: "b_offset b = 0 \<and> b_len b = of_nat BLK_SIZE \<longleftrightarrow> ?o = 0 \<and> ?n = BLK_SIZE"
    by (simp add: word_unat_eq_iff)
  have "\<exists>st'. io_bio ll_rw c r b st = Inr (upd_rq r (\<lambda>y. y\<lparr>rq_vaddr := ?va + of_nat ?n\<rparr>) st') \<and> disk_ok own st' K k \<and> kept st1 st' \<and>
    dev st' = dev st1 \<and> moved content N K rw (?blk * BLK_SIZE + ?o) ?n ?va st1 st'"
    using rw(2)
  proof
    assume w: "rw = DEV_READ"
    from bio_read_ok [OF pin blk len cl1, of c] obtain st' where
      "bindR (buf_release c x False (upd_mem (memcpy ?va (bh_page (bufs st1 x) + of_nat ?o) (of_nat ?n))
                 (if buf_is_new x st1 then call_driver ll_rw DEV_READ (bh_blockno (bufs st1 x)) (bh_page (bufs st1 x)) st1 else st1)))
               (\<lambda>st. Inr (buf_unpin x st)) = Inr st'"
      "disk_ok own st' K k" "kept st1 st'" "dev st' = dev st1" "moved content N K DEV_READ (?blk * BLK_SIZE + ?o) ?n ?va st1 st'" .
    then show ?thesis unfolding io [OF refl] w by (intro exI [of _ st']) (simp only: simp_thms if_True bindR_simps)
  next
    assume w: "rw = DEV_WRITE"
    from bio_write_ok [OF pin blk len cl1 full, of c] obtain st' where
      "bindR (buf_release c x True (upd_mem (memcpy (bh_page (bufs st1 x) + of_nat ?o) ?va (of_nat ?n))
                 (if \<not> (b_offset b = 0 \<and> b_len b = of_nat BLK_SIZE) \<and> buf_is_new x st1
                  then call_driver ll_rw DEV_READ (bh_blockno (bufs st1 x)) (bh_page (bufs st1 x)) st1 else st1)))
               (\<lambda>st. Inr (buf_unpin x st)) = Inr st'"
      "disk_ok own st' K k" "kept st1 st'" "dev st' = dev st1" "moved content N K DEV_WRITE (?blk * BLK_SIZE + ?o) ?n ?va st1 st'" .
    then show ?thesis unfolding io [OF refl] w by (intro exI [of _ st']) (simp only: one_neq_zero simp_thms if_True if_False bindR_simps)
  qed
  then obtain st' where st': "io_bio ll_rw c r b st = Inr (upd_rq r (\<lambda>y. y\<lparr>rq_vaddr := ?va + of_nat ?n\<rparr>) st')" "disk_ok own st' K k"
    "kept st1 st'" "dev st' = dev st1" "moved content N K rw (?blk * BLK_SIZE + ?o) ?n ?va st1 st'" by blast
  have mv: "moved content N K rw (?blk * BLK_SIZE + ?o) ?n ?va st st'"
    by (rule moved_pre [OF sv mem1 fit _ st'(5)]) (use cl in \<open>simp add: client_def\<close>)
  let ?u = "upd_rq r (\<lambda>y. y\<lparr>rq_vaddr := ?va + of_nat ?n\<rparr>) st'"
  have rest: "disk_ok own ?u K k = disk_ok own st' K k" "disk content ?u = disk content st'" "mem_of ?u = mem_of st'"
    by (rule disk_rest; simp)+
  show ?thesis
  proof (rule that [OF st'(1)])
    show "disk_ok own ?u K k" using rest(1) st'(2) by simp
    show "advanced r ?n st ?u" using st'(3,4) kp d by (simp add: advanced_def kept_def upd_rq_def)
    show "moved content N K rw (?blk * BLK_SIZE + ?o) ?n ?va st ?u" using mv unfolding moved_def rest .
  qed
qed

lemma io_bios_ok:
  assumes ok: "disk_ok own st K (length bs + k)" and cov: "concat (map bytes_of bs) = [start ..< start + n]" and fit: "start + n \<le> N * BLK_SIZE"
    and each: "\<forall>b \<in> set bs. 0 < unat (b_len b) \<and> unat (b_offset b) + unat (b_len b) \<le> BLK_SIZE"
    and n: "n < 2 ^ 64" and cl: "client own st K (rq_vaddr (rqs st r)) n"
    and rw: "rw = rq_flags (rqs st r)" "rw = DEV_READ \<or> rw = DEV_WRITE"
  shows "\<exists>st'. io_bios ll_rw c r bs st = Inr st' \<and> disk_ok own st' K k \<and> advanced r n st st' \<and>
    moved content N K rw start n (rq_vaddr (rqs st r)) st st'"
  using ok cov fit each n cl rw
proof (induction bs arbitrary: st start n)
  case Nil
  from Nil.prems(2) have "length [start ..< start + n] = 0" by simp
  then have "n = 0" by simp
  with Nil.prems(1) show ?case by (auto simp: advanced_def moved_def)
next
  case (Cons b bs)
  let ?n = "unat (b_len b)" and ?s = "unat (b_blockno b) * BLK_SIZE + unat (b_offset b)" and ?va = "rq_vaddr (rqs st r)"
  have len: "0 < ?n" "unat (b_offset b) + ?n \<le> BLK_SIZE" using Cons.prems(4) by simp_all
  have cov: "[?s ..< ?s + ?n] @ concat (map bytes_of bs) = [start ..< start + n]" using Cons.prems(2) by (simp add: bytes_of_def [of b])
  have "length ([?s ..< ?s + ?n] @ concat (map bytes_of bs)) = n" unfolding cov by simp
  then have nn: "?n \<le> n" by simp
  have split: "[start ..< start + n] = [start ..< start + ?n] @ [start + ?n ..< start + n]" using nn by (simp add: upt_append_trans)
  have parts: "[?s ..< ?s + ?n] = [start ..< start + ?n]" "concat (map bytes_of bs) = [start + ?n ..< start + n]"
    using cov unfolding split by (simp_all add: append_eq_append_conv)
  have s: "?s = start" using parts(1) len(1) by (simp add: upt_eq_Cons_conv upt_rec)
  have blk: "unat (b_blockno b) < N"
  proof -
    have "unat (b_blockno b) * BLK_SIZE < N * BLK_SIZE" using s nn len(1) Cons.prems(3) by linarith
    then show ?thesis by simp
  qed
  have cl1: "client own st K ?va ?n" using Cons.prems(6) nn by (simp add: client_def)
  have ok1: "disk_ok own st K (Suc (length bs + k))" using Cons.prems(1) by simp
  obtain st1 where st1: "io_bio ll_rw c r b st = Inr st1" "disk_ok own st1 K (length bs + k)" "advanced r ?n st st1"
    "moved content N K rw ?s ?n ?va st st1"
    by (rule io_bio_ok [OF ok1 len blk cl1 Cons.prems(7,8)])
  have rq1: "rq_vaddr (rqs st1 r) = ?va + of_nat ?n" "rq_flags (rqs st1 r) = rq_flags (rqs st r)" "dev st1 = dev st"
    using st1(3) by (simp_all add: advanced_def)
  have nm: "n = ?n + (n - ?n)" using nn by simp
  have cl2: "client own st1 K (rq_vaddr (rqs st1 r)) (n - ?n)"
    unfolding rq1(1) by (rule client_drop [OF Cons.prems(6) nn rq1(3)])
  have "\<exists>st'. io_bios ll_rw c r bs st1 = Inr st' \<and> disk_ok own st' K k \<and> advanced r (n - ?n) st1 st' \<and>
      moved content N K rw (start + ?n) (n - ?n) (rq_vaddr (rqs st1 r)) st1 st'"
    by (rule Cons.IH [OF st1(2) _ _ _ _ cl2]) (use parts(2) nn Cons.prems rq1 in simp_all)
  then obtain st' where st': "io_bios ll_rw c r bs st1 = Inr st'" "disk_ok own st' K k" "advanced r (n - ?n) st1 st'"
      "moved content N K rw (start + ?n) (n - ?n) (?va + of_nat ?n) st1 st'" unfolding rq1 by blast
  have "moved content N K rw start (?n + (n - ?n)) ?va st st'"
    by (rule moved_trans [OF st1(4) [unfolded s] st'(4)]) (use Cons.prems nm [symmetric] in \<open>simp_all add: client_def\<close>)
  moreover have "advanced r (?n + (n - ?n)) st st'" by (rule advanced_trans [OF st1(3) st'(3)])
  ultimately show ?case using st1(1) st'(1,2) nm by auto
qed

end

subsection \<open>Whole calls\<close>

text \<open>The request queue is empty and the I/O thread waits.\<close>

definition idle :: "'d gendisk \<Rightarrow> bool" where
  "idle st \<longleftrightarrow> is_list (rq_links (queue st)) Rq_head [] \<and> lock_free (rq_lock (queue st)) \<and> rq_sem (queue st) = 0 \<and> io_at st = Io_wait"

definition with_hart :: "hart \<Rightarrow> 'd gendisk \<Rightarrow> 'd gendisk" where
  "with_hart h st = with_lock h (bh_lock (bhash st)) st"

lemma with_hart_eq: "with_hart h st = (case mm (sl st) of (s, _, l) \<Rightarrow> st\<lparr>sl := (sl st)\<lparr>mm := (s, h, l)\<rparr>\<rparr>)"
  by (simp add: with_hart_def with_lock_def upd_bhash_def split: prod.splits)

lemma queue_lock_free:
  "lock_free (rq_lock (queue st)) \<Longrightarrow>
   lock_queue c st = Inr (upd_queue (\<lambda>q. q\<lparr>rq_lock := (rq_lock q)\<lparr>lock := 1, lk_cpuid := c\<rparr>\<rparr>) (with_hart (push_off (hart_of st)) st))"
  using spin_lock_free [of "rq_lock (queue st)" c "hart_of st"]
  by (cases "mm (sl st)") (simp add: lock_queue_def with_hart_eq hart_of_def upd_queue_def)

lemma queue_unlock_held:
  assumes "hart_ok h" and "lock_free l" and "\<And>q. rq_lock (f q) = rq_lock q" and "rq_lock (queue st) = l"
  shows "unlock_queue c (upd_queue f (upd_queue (\<lambda>q. q\<lparr>rq_lock := (rq_lock q)\<lparr>lock := 1, lk_cpuid := c\<rparr>\<rparr>) (with_hart (push_off h) st))) =
    Inr (upd_queue (\<lambda>q. (f (q\<lparr>rq_lock := l\<lparr>lock := 1, lk_cpuid := c\<rparr>\<rparr>))\<lparr>rq_lock := l\<rparr>) (with_hart (settled h) st))"
proof -
  obtain s h0 m where mm: "mm (sl st) = (s, h0, m)" by (metis prod_cases3)
  have q: "(queue st)\<lparr>rq_lock := l\<lparr>lock := 1, lk_cpuid := c\<rparr>\<rparr> = (queue st)\<lparr>rq_lock := (rq_lock (queue st))\<lparr>lock := 1, lk_cpuid := c\<rparr>\<rparr>"
    using assms(4) by simp
  show ?thesis
    using spin_unlock_held [OF assms(1,2), of c] assms(3,4) mm
    by (simp add: unlock_queue_def with_hart_eq upd_queue_def q [symmetric])
qed

lemma rq_append_free:
  assumes "hart_ok (hart_of st)" and "lock_free (rq_lock (queue st))"
  shows "rq_append c r st =
    Inr (upd_queue (\<lambda>q. q\<lparr>rq_links := list_add_tail (Rq r) Rq_head (rq_links q)\<rparr>) (with_hart (settled (hart_of st)) st))"
  using queue_unlock_held [OF assms, of "\<lambda>q. q\<lparr>rq_links := list_add_tail (Rq r) Rq_head (rq_links q)\<rparr>" st c]
  by (simp add: rq_append_def queue_lock_free [OF assms(2)] upd_queue_def with_hart_def)

lemma get_next_rq_one:
  assumes "hart_ok (hart_of st)" and "lock_free (rq_lock (queue st))" and "is_list (rq_links (queue st)) Rq_head [Rq r]"
  shows "get_next_rq c st =
    Inr (Some (Rq r), upd_queue (\<lambda>q. q\<lparr>rq_links := list_del (Rq r) (rq_links q)\<rparr>) (with_hart (settled (hart_of st)) st))"
proof -
  have e: "\<not> list_empty Rq_head (rq_links (queue st))" using is_list_empty [OF assms(3)] by simp
  have p: "list_pop Rq_head (rq_links (queue st)) = (Some (Rq r), list_del (Rq r) (rq_links (queue st)))"
    using e is_list_next [OF assms(3)] by (simp add: list_pop_def)
  show ?thesis
    using queue_unlock_held [OF assms(1,2), of "\<lambda>q. q\<lparr>rq_links := list_del (Rq r) (rq_links q)\<rparr>" st c] e p
    by (simp add: get_next_rq_def queue_lock_free [OF assms(2)] upd_queue_def with_hart_def)
qed

lemma with_hart_simps [simp]:
  "bufs (with_hart h st) = bufs st" "dev (with_hart h st) = dev st" "nbufs (with_hart h st) = nbufs st" "rqs (with_hart h st) = rqs st"
  "queue (with_hart h st) = queue st" "io_at (with_hart h st) = io_at st" "nrqs (with_hart h st) = nrqs st"
  "flush_at (with_hart h st) = flush_at st" "hart_of (with_hart h st) = h" "mem_of (with_hart h st) = mem_of st"
  "disk content (with_hart h st) = disk content st"
  by (simp_all add: with_hart_def)

lemma disk_ok_with_hart:
  assumes "disk_ok own st K k" and "hart_ok h"
  shows "disk_ok own (with_hart h st) K k"
  using assms cache_rep_with_lock [of st _ _ h "bh_lock (bhash st)"] unfolding disk_ok_def with_hart_def
  by (fastforce simp: apart_def)

lemma disk_ok_hart: "disk_ok own st K k \<Longrightarrow> hart_ok (hart_of st)"
  by (auto simp: disk_ok_def dest: cache_repD(1) hart_of_ok)

lemma upd_queue_simps [simp]:
  "bufs (upd_queue f st) = bufs st" "dev (upd_queue f st) = dev st" "bhash (upd_queue f st) = bhash st" "sl (upd_queue f st) = sl st"
  "nbufs (upd_queue f st) = nbufs st" "rqs (upd_queue f st) = rqs st" "io_at (upd_queue f st) = io_at st"
  "flush_at (upd_queue f st) = flush_at st" "nrqs (upd_queue f st) = nrqs st" "queue (upd_queue f st) = f (queue st)"
  "hart_of (upd_queue f st) = hart_of st"
  by (simp_all add: upd_queue_def hart_of_def)

lemma hart_of_upd_rq [simp]: "hart_of (upd_rq r f st) = hart_of st"
  by (simp add: hart_of_def)

text \<open>A request for the blocks \<open>bs\<close> in the queue of an idle disk, and the I/O thread taking it.\<close>

lemma gen_submit_idle:
  assumes idle: "idle st" and h: "hart_ok (hart_of st)" and bs: "bio_list_make blockno offset len = Inr bs"
  obtains st1 where "gen_submit c blockno offset len va rw st = Inr (nrqs st, st1)"
    and "rqs st1 = (rqs st)(nrqs st := \<lparr>rq_flags = rw, rq_bio = bs, rq_slock = 0, rq_vaddr = va\<rparr>)"
    and "is_list (rq_links (queue st1)) Rq_head [Rq (nrqs st)]" and "rq_lock (queue st1) = rq_lock (queue st)" and "rq_sem (queue st1) = 1"
    and "io_at st1 = Io_wait" and "bufs st1 = bufs st" and "dev st1 = dev st" and "bhash st1 = bhash (with_hart (settled (hart_of st)) st)"
    and "sl st1 = sl (with_hart (settled (hart_of st)) st)" and "nbufs st1 = nbufs st" and "nrqs st1 = Suc (nrqs st)" and "flush_at st1 = flush_at st"
proof -
  let ?r = "nrqs st" and ?h = "settled (hart_of st)"
  define s0 where "s0 = upd_rq ?r (\<lambda>x. x\<lparr>rq_bio := bs, rq_vaddr := va\<rparr>) (upd_rq ?r (\<lambda>x. x\<lparr>rq_flags := rw\<rparr>) (snd (request_alloc st)))"
  define st1 where "st1 = upd_queue (\<lambda>q. q\<lparr>rq_sem := atomic_inc (rq_sem q)\<rparr>)
    (upd_queue (\<lambda>q. q\<lparr>rq_links := list_add_tail (Rq ?r) Rq_head (rq_links q)\<rparr>) (with_hart ?h s0))"
  have s0: "queue s0 = (queue st)\<lparr>rq_links := INIT_LIST_HEAD (Rq ?r) (rq_links (queue st))\<rparr>" "sl s0 = sl st" "bhash s0 = bhash st"
    "bufs s0 = bufs st" "dev s0 = dev st" "nbufs s0 = nbufs st" "io_at s0 = io_at st" "flush_at s0 = flush_at st" "nrqs s0 = Suc ?r"
    "rqs s0 = (rqs st)(?r := \<lparr>rq_flags = rw, rq_bio = bs, rq_slock = 0, rq_vaddr = va\<rparr>)"
    by (simp_all add: s0_def request_alloc_def upd_rq_def upd_queue_def Let_def)
  have hs: "hart_of s0 = hart_of st" by (simp add: hart_of_def s0)
  have lk: "lock_free (rq_lock (queue s0))" using idle by (simp add: s0 idle_def)
  have ap: "rq_append c ?r s0 = Inr (upd_queue (\<lambda>q. q\<lparr>rq_links := list_add_tail (Rq ?r) Rq_head (rq_links q)\<rparr>) (with_hart ?h s0))"
    using rq_append_free [of s0 c ?r] h lk hs by simp
  have f: "fst (request_alloc st) = ?r" by (simp add: request_alloc_def Let_def)
  have uu: "ucast (ucast blockno :: u64) = blockno" by (rule bit_word_eqI) (simp add: bit_simps)
  have "make_request c (ucast blockno) offset len va rw st = bindR (rq_append c ?r s0) (\<lambda>st. Inr (?r, st))"
    using f bs uu by (cases "request_alloc st") (simp add: make_request_def s0_def)
  then have run: "gen_submit c blockno offset len va rw st = Inr (?r, st1)" by (simp add: gen_submit_def ap st1_def)
  have l: "is_list (INIT_LIST_HEAD (Rq ?r) (rq_links (queue st))) Rq_head []"
    using idle by (simp add: idle_def INIT_LIST_HEAD_def set_next_def set_prev_def)
  show ?thesis
  proof (rule that [OF run])
    show "is_list (rq_links (queue st1)) Rq_head [Rq ?r]" using is_list_add_tail [OF l, of "Rq ?r"] by (simp add: st1_def s0)
    show "rq_sem (queue st1) = 1" using idle by (simp add: st1_def s0 idle_def atomic_inc_id)
    show "bhash st1 = bhash (with_hart ?h st)" "sl st1 = sl (with_hart ?h st)"
      by (cases "mm (sl st)", simp add: st1_def s0 with_hart_eq)+
  qed (use idle in \<open>simp_all add: st1_def s0 idle_def\<close>)
qed

lemma io_start_one:
  assumes "hart_ok (hart_of st)" and "lock_free (rq_lock (queue st))" and "is_list (rq_links (queue st)) Rq_head [Rq r]" and "rq_sem (queue st) = 1"
  shows "io_start c st = Inr ((upd_queue (\<lambda>q. q\<lparr>rq_links := list_del (Rq r) (rq_links q), rq_sem := 0\<rparr>)
    (with_hart (settled (hart_of st)) st))\<lparr>io_at := Io_serving r (rq_bio (rqs st r))\<rparr>)"
proof -
  have "get_next_rq c (upd_queue (\<lambda>q. q\<lparr>rq_sem := 0\<rparr>) st) =
    Inr (Some (Rq r), upd_queue (\<lambda>q. q\<lparr>rq_links := list_del (Rq r) (rq_links q)\<rparr>)
      (with_hart (settled (hart_of st)) (upd_queue (\<lambda>q. q\<lparr>rq_sem := 0\<rparr>) st)))"
    using get_next_rq_one [of "upd_queue (\<lambda>q. q\<lparr>rq_sem := 0\<rparr>) st" r c] assms by simp
  then show ?thesis
    using assms(4) by (cases "mm (sl st)") (simp add: io_start_def sleep_on_def with_hart_eq upd_queue_def)
qed

context block_driver
begin

lemma request_taken:
  assumes ok: "disk_ok own st K (length bs + k)" and idle: "idle st" and bs: "bio_list_make blockno offset len = Inr bs"
  obtains st1 st2 where "gen_submit c blockno offset len va rw st = Inr (nrqs st, st1)" and "io_at st1 = Io_wait" and "io_start c st1 = Inr st2"
    and "disk_ok own st2 K (length bs + k)" and "io_at st2 = Io_serving (nrqs st) bs" and "dev st2 = dev st"
    and "rqs st2 (nrqs st) = \<lparr>rq_flags = rw, rq_bio = bs, rq_slock = 0, rq_vaddr = va\<rparr>"
    and "disk content st2 = disk content st" and "mem_of st2 = mem_of st"
    and "is_list (rq_links (queue st2)) Rq_head []" and "lock_free (rq_lock (queue st2))" and "rq_sem (queue st2) = 0"
proof -
  let ?r = "nrqs st"
  note h = disk_ok_hart [OF ok]
  obtain st1 where st1: "gen_submit c blockno offset len va rw st = Inr (?r, st1)"
    "rqs st1 = (rqs st)(?r := \<lparr>rq_flags = rw, rq_bio = bs, rq_slock = 0, rq_vaddr = va\<rparr>)"
    "is_list (rq_links (queue st1)) Rq_head [Rq ?r]" "rq_lock (queue st1) = rq_lock (queue st)" "rq_sem (queue st1) = 1"
    "io_at st1 = Io_wait" "bufs st1 = bufs st" "dev st1 = dev st" "bhash st1 = bhash (with_hart (settled (hart_of st)) st)"
    "sl st1 = sl (with_hart (settled (hart_of st)) st)" "nbufs st1 = nbufs st"
    by (rule gen_submit_idle [OF idle h bs])
  have rest1: "disk_ok own st1 K j = disk_ok own (with_hart (settled (hart_of st)) st) K j"
    "disk content st1 = disk content (with_hart (settled (hart_of st)) st)" "mem_of st1 = mem_of (with_hart (settled (hart_of st)) st)" for j
    by (rule disk_rest; simp add: st1)+
  have ok1: "disk_ok own st1 K (length bs + k)" unfolding rest1 by (rule disk_ok_with_hart [OF ok]) (simp add: h)
  note h1 = disk_ok_hart [OF ok1]
  have lk: "lock_free (rq_lock (queue st1))" using idle by (simp add: st1 idle_def)
  define st2 where "st2 = (upd_queue (\<lambda>q. q\<lparr>rq_links := list_del (Rq ?r) (rq_links q), rq_sem := 0\<rparr>)
    (with_hart (settled (hart_of st1)) st1))\<lparr>io_at := Io_serving ?r bs\<rparr>"
  have io: "io_start c st1 = Inr st2" using io_start_one [OF h1 lk st1(3,5), of c] by (simp add: st2_def st1(2))
  have rest2: "disk_ok own st2 K j = disk_ok own (with_hart (settled (hart_of st1)) st1) K j"
    "disk content st2 = disk content (with_hart (settled (hart_of st1)) st1)" "mem_of st2 = mem_of (with_hart (settled (hart_of st1)) st1)" for j
    by (rule disk_rest; simp add: st2_def)+
  show ?thesis
  proof (rule that [OF st1(1,6) io])
    show "disk_ok own st2 K (length bs + k)" unfolding rest2 by (rule disk_ok_with_hart [OF ok1]) (simp add: h1)
    show "is_list (rq_links (queue st2)) Rq_head []" using list_pop_Cons(2) [OF st1(3)] by (simp add: st2_def)
    show "disk content st2 = disk content st" "mem_of st2 = mem_of st" by (simp_all add: rest2 rest1)
  qed (use lk in \<open>simp_all add: st2_def st1\<close>)
qed

lemma gen_rw_ok:
  assumes ok: "disk_ok own st K (blocks_of offset len + k)" and idle: "idle st" and rw: "rw = DEV_READ \<or> rw = DEV_WRITE"
    and len: "len \<noteq> 0" "unat offset mod BLK_SIZE + unat len \<le> 2 ^ 32"
    and fit: "unat blockno * BLK_SIZE + unat offset + unat len \<le> N * BLK_SIZE" and cl: "client own st K va (unat len)"
  shows "\<exists>st'. gen_rw ll_rw c blockno offset len va rw st = Inr (0, st') \<and> disk_ok own st' K k \<and> idle st' \<and> dev st' = dev st \<and>
    moved content N K rw (unat blockno * BLK_SIZE + unat offset) (unat len) va st st'"
proof -
  let ?r = "nrqs st" and ?s = "unat blockno * BLK_SIZE + unat offset" and ?n = "unat len"
  have top: "?s + ?n \<le> 2 ^ 32 * BLK_SIZE" using fit small mult_le_mono1 [of N "2 ^ 32" BLK_SIZE] by linarith
  obtain bs where bs: "bio_list_make blockno offset len = Inr bs" and cov: "concat (map bytes_of bs) = [?s ..< ?s + ?n]"
    and each: "\<forall>b \<in> set bs. 0 < unat (b_len b) \<and> unat (b_offset b) + unat (b_len b) \<le> BLK_SIZE" and lb: "length bs = blocks_of offset len"
    using bio_list_make_covers [OF len top] by blast
  obtain st1 st2 where sub: "gen_submit c blockno offset len va rw st = Inr (?r, st1)" and io: "io_start c st1 = Inr st2"
    and ok2: "disk_ok own st2 K (length bs + k)" and at2: "io_at st2 = Io_serving ?r bs" and dv: "dev st2 = dev st"
    and rqr: "rqs st2 ?r = \<lparr>rq_flags = rw, rq_bio = bs, rq_slock = 0, rq_vaddr = va\<rparr>"
    and eq: "disk content st2 = disk content st" "mem_of st2 = mem_of st"
    and q2: "is_list (rq_links (queue st2)) Rq_head []" "lock_free (rq_lock (queue st2))" "rq_sem (queue st2) = 0"
    by (rule request_taken [OF ok [folded lb] idle bs])
  have "\<exists>st3. io_bios ll_rw c ?r bs st2 = Inr st3 \<and> disk_ok own st3 K k \<and> advanced ?r ?n st2 st3 \<and>
    moved content N K rw ?s ?n (rq_vaddr (rqs st2 ?r)) st2 st3"
    by (rule io_bios_ok [OF ok2 cov fit each _ _ _ rw]) (use cl rqr unat_lt2p [of len] in \<open>simp_all add: client_def dv\<close>)
  then obtain st3 where st3: "io_bios ll_rw c ?r bs st2 = Inr st3" "disk_ok own st3 K k" "advanced ?r ?n st2 st3" "moved content N K rw ?s ?n va st2 st3"
    using rqr by auto
  define st4 where "st4 = upd_rq ?r (\<lambda>x. x\<lparr>rq_slock := 0\<rparr>) (io_end ?r st3)"
  have sk: "rq_slock (rqs (io_end ?r st3) ?r) = 1" using st3(3) rqr by (simp add: io_end_def advanced_def upd_rq_def)
  have run: "gen_rw ll_rw c blockno offset len va rw st = Inr (0, st4)"
    by (simp add: gen_rw_def sub io_round_def io at2 st3(1) gen_wait_def sleep_on_def sk st4_def)
  have rest4: "disk_ok own st4 K k = disk_ok own st3 K k" "disk content st4 = disk content st3" "mem_of st4 = mem_of st3"
    by (rule disk_rest; simp add: st4_def io_end_def)+
  have q4: "queue st4 = queue st2" using st3(3) by (simp add: st4_def io_end_def advanced_def)
  have "idle st4" unfolding idle_def q4 using q2 by (simp add: st4_def io_end_def)
  moreover have "dev st4 = dev st" using st3(3) dv by (simp add: st4_def io_end_def advanced_def)
  moreover have "moved content N K rw ?s ?n va st st4" using st3(4) unfolding moved_def rest4 eq .
  ultimately show ?thesis using run rest4(1) st3(2) by blast
qed

end

subsection \<open>The I/O thread gets through a request\<close>

fun io_steps :: "'d driver \<Rightarrow> int \<Rightarrow> nat \<Rightarrow> 'd gendisk \<Rightarrow> 'd gendisk kres" where
  "io_steps ll_rw c 0 st = Inr st"
| "io_steps ll_rw c (Suc n) st = bindR (gen_start_io ll_rw c st) (io_steps ll_rw c n)"

context block_driver
begin

lemma io_steps_serve:
  assumes "disk_ok own st K (length bs + k)" and "io_at st = Io_serving r bs" and "sum_list (map (\<lambda>b. unat (b_len b)) bs) \<le> n"
    and "\<forall>b \<in> set bs. 0 < unat (b_len b) \<and> unat (b_offset b) + unat (b_len b) \<le> BLK_SIZE \<and> unat (b_blockno b) < N"
    and "client own st K (rq_vaddr (rqs st r)) n" and "rq_flags (rqs st r) = DEV_READ \<or> rq_flags (rqs st r) = DEV_WRITE"
  shows "\<exists>st'. io_steps ll_rw c (length bs + 1) st = Inr st' \<and> disk_ok own st' K k \<and> io_at st' = Io_wait \<and>
    rq_slock (rqs st' r) = rq_slock (rqs st r) + 1 \<and> queue st' = queue st"
  using assms
proof (induction bs arbitrary: st n)
  case Nil
  have "disk_ok own (io_end r st) K k = disk_ok own st K k" by (rule disk_rest; simp add: io_end_def)
  with Nil show ?case by (simp add: gen_start_io_def) (simp add: io_end_def upd_rq_def)
next
  case (Cons b bs)
  let ?n = "unat (b_len b)"
  have ok: "disk_ok own st K (Suc (length bs + k))" using Cons.prems(1) by simp
  have len: "0 < ?n" "unat (b_offset b) + ?n \<le> BLK_SIZE" "unat (b_blockno b) < N" using Cons.prems(4) by simp_all
  have nn: "?n \<le> n" using Cons.prems(3) by simp
  have cl: "client own st K (rq_vaddr (rqs st r)) ?n" using Cons.prems(5) nn by (simp add: client_def)
  obtain st1 where st1: "io_bio ll_rw c r b st = Inr st1" "disk_ok own st1 K (length bs + k)" "advanced r ?n st st1"
    by (rule io_bio_ok [OF ok len cl refl Cons.prems(6)])
  define st2 where "st2 = st1\<lparr>io_at := Io_serving r bs\<rparr>"
  have step: "gen_start_io ll_rw c st = Inr st2" using Cons.prems(2) st1(1) by (simp add: gen_start_io_def st2_def)
  have "disk_ok own st2 K (length bs + k) = disk_ok own st1 K (length bs + k)" by (rule disk_rest; simp add: st2_def)
  with st1(2) have ok2: "disk_ok own st2 K (length bs + k)" by simp
  have rq: "rq_vaddr (rqs st2 r) = rq_vaddr (rqs st r) + of_nat ?n" "rq_flags (rqs st2 r) = rq_flags (rqs st r)" "dev st2 = dev st"
    "rq_slock (rqs st2 r) = rq_slock (rqs st r)" "queue st2 = queue st" "io_at st2 = Io_serving r bs"
    using st1(3) by (simp_all add: advanced_def st2_def)
  have cl2: "client own st2 K (rq_vaddr (rqs st2 r)) (n - ?n)" unfolding rq(1) by (rule client_drop [OF Cons.prems(5) nn rq(3)])
  have "\<exists>st'. io_steps ll_rw c (length bs + 1) st2 = Inr st' \<and> disk_ok own st' K k \<and> io_at st' = Io_wait \<and>
    rq_slock (rqs st' r) = rq_slock (rqs st2 r) + 1 \<and> queue st' = queue st2"
    by (rule Cons.IH [OF ok2 rq(6) _ _ cl2]) (use Cons.prems nn rq in simp_all)
  with step rq show ?case by simp
qed

lemma request_served:
  assumes ok: "disk_ok own st K (blocks_of offset len + k)" and idle: "idle st" and rw: "rw = DEV_READ \<or> rw = DEV_WRITE"
    and len: "len \<noteq> 0" "unat offset mod BLK_SIZE + unat len \<le> 2 ^ 32"
    and fit: "unat blockno * BLK_SIZE + unat offset + unat len \<le> N * BLK_SIZE" and cl: "client own st K va (unat len)"
  shows "\<exists>r st1 st2 st3. gen_submit c blockno offset len va rw st = Inr (r, st1) \<and>
    io_steps ll_rw c (blocks_of offset len + 2) st1 = Inr st2 \<and> gen_wait r st2 = Inr st3 \<and> idle st3"
proof -
  let ?r = "nrqs st" and ?s = "unat blockno * BLK_SIZE + unat offset" and ?n = "unat len"
  have top: "?s + ?n \<le> 2 ^ 32 * BLK_SIZE" using fit small mult_le_mono1 [of N "2 ^ 32" BLK_SIZE] by linarith
  obtain bs where bs: "bio_list_make blockno offset len = Inr bs" and cov: "concat (map bytes_of bs) = [?s ..< ?s + ?n]"
    and each: "\<forall>b \<in> set bs. 0 < unat (b_len b) \<and> unat (b_offset b) + unat (b_len b) \<le> BLK_SIZE" and lb: "length bs = blocks_of offset len"
    using bio_list_make_covers [OF len top] by blast
  obtain st1 st2 where sub: "gen_submit c blockno offset len va rw st = Inr (?r, st1)" "io_at st1 = Io_wait" and io: "io_start c st1 = Inr st2"
    and ok2: "disk_ok own st2 K (length bs + k)" and at2: "io_at st2 = Io_serving ?r bs" and dv: "dev st2 = dev st"
    and rqr: "rqs st2 ?r = \<lparr>rq_flags = rw, rq_bio = bs, rq_slock = 0, rq_vaddr = va\<rparr>"
    and q2: "is_list (rq_links (queue st2)) Rq_head []" "lock_free (rq_lock (queue st2))" "rq_sem (queue st2) = 0"
    by (rule request_taken [OF ok [folded lb] idle bs])
  have "sum_list (map (\<lambda>b. unat (b_len b)) bs) = length (concat (map bytes_of bs))" by (simp add: length_concat comp_def bytes_of_def)
  then have total: "sum_list (map (\<lambda>b. unat (b_len b)) bs) \<le> ?n" unfolding cov by simp
  have "unat (b_blockno b) < N" if b: "b \<in> set bs" for b
  proof -
    have "unat (b_blockno b) * BLK_SIZE + unat (b_offset b) \<in> set (bytes_of b)" using each b by (auto simp: bytes_of_def)
    then have "unat (b_blockno b) * BLK_SIZE + unat (b_offset b) \<in> set (concat (map bytes_of bs))" using b by auto
    then have "unat (b_blockno b) * BLK_SIZE < N * BLK_SIZE" unfolding cov using fit by auto
    then show ?thesis by simp
  qed
  then have "\<exists>st3. io_steps ll_rw c (length bs + 1) st2 = Inr st3 \<and> disk_ok own st3 K k \<and> io_at st3 = Io_wait \<and>
      rq_slock (rqs st3 ?r) = rq_slock (rqs st2 ?r) + 1 \<and> queue st3 = queue st2"
    by (intro io_steps_serve [OF ok2 at2 total]) (use each cl rw rqr in \<open>simp_all add: client_def dv\<close>)
  then obtain st3 where st3: "io_steps ll_rw c (length bs + 1) st2 = Inr st3" "io_at st3 = Io_wait" "rq_slock (rqs st3 ?r) = 1" "queue st3 = queue st2"
    using rqr by auto
  have "io_steps ll_rw c (blocks_of offset len + 2) st1 = Inr st3"
    using st3(1) io sub(2) by (simp add: lb gen_start_io_def)
  moreover have "gen_wait ?r st3 = Inr (upd_rq ?r (\<lambda>x. x\<lparr>rq_slock := 0\<rparr>) st3)" using st3(3) by (simp add: gen_wait_def sleep_on_def)
  moreover have "idle (upd_rq ?r (\<lambda>x. x\<lparr>rq_slock := 0\<rparr>) st3)" using q2 st3(2,4) by (simp add: idle_def)
  ultimately show ?thesis using sub(1) by blast
qed

end

subsection \<open>Writing back\<close>

text \<open>Writing a buffer back does not change what clients see, and then the device itself has the block.\<close>

lemma call_driver_eq:
  "call_driver ll_rw rw blk page st = upd_mem (\<lambda>_. snd (ll_rw rw blk page (dev st, mem_of st))) (st\<lparr>dev := fst (ll_rw rw blk page (dev st, mem_of st))\<rparr>)"
  by (simp add: call_driver_def split: prod.splits)

context block_driver
begin

lemma driver_write_ok:
  assumes rep: "cache_rep st FL A" and b: "b \<in> A" "\<not> buf_is_new b st" and ap: "apart own st (frames st FL A)"
    and blk: "unat (bh_blockno (bufs st b)) < N"
  defines "st' \<equiv> call_driver ll_rw DEV_WRITE (bh_blockno (bufs st b)) (bh_page (bufs st b)) st"
  shows "cache_rep st' FL A" and "same_view content N st st'" and "bufs st' = bufs st" and "bhash st' = bhash st" and "own (dev st') = own (dev st)"
    and "\<forall>i < BLK_SIZE. content (dev st', mem_of st') (unat (bh_blockno (bufs st b))) i = view content st (unat (bh_blockno (bufs st b))) i"
    and "\<forall>a. a \<notin> own (dev st) \<longrightarrow> mem_of st' a = mem_of st a"
proof -
  let ?blk = "bh_blockno (bufs st b)" and ?page = "bh_page (bufs st b)"
  let ?w = "ll_rw DEV_WRITE ?blk ?page (dev st, mem_of st)"
  have inK: "get_page_struct (bh_page (bufs st x) + of_nat i) \<in> frames st FL A" if "x \<in> A" "i < BLK_SIZE" for x i
    using page_byte [OF rep that] that(1) by (simp add: frames_def)
  have out: "bh_page (bufs st x) + of_nat i \<notin> own (dev st)" if "x \<in> A" "i < BLK_SIZE" for x i
    using inK [OF that] ap unfolding apart_def by blast
  have page: "\<forall>i < BLK_SIZE. ?page + of_nat i \<notin> own (dev st)" using out [OF b(1)] by blast
  have dv: "dev st' = fst ?w" and m: "mem_of st' = snd ?w" by (simp_all add: st'_def call_driver_eq)
  show bs: "bufs st' = bufs st" and bh: "bhash st' = bhash st" by (simp_all add: st'_def call_driver_eq)
  show rep': "cache_rep st' FL A" unfolding st'_def call_driver_eq by (rule cache_rep_upd_mem [OF cache_rep_upd_dev [OF rep]])
  show "own (dev st') = own (dev st)" unfolding dv by (rule write_own [OF blk page])
  show mo: "\<forall>a. a \<notin> own (dev st) \<longrightarrow> mem_of st' a = mem_of st a" unfolding m using write_mem [OF blk page] by blast
  have ct: "content (dev st', mem_of st') k i = (if k = unat ?blk then mem_of st (?page + of_nat i) else content (dev st, mem_of st) k i)"
    if "k < N" "i < BLK_SIZE" for k i
    unfolding dv m prod.collapse by (rule write_content [OF blk page that])
  note vb = view_cached [OF rep b(1), where content = content]
  show "\<forall>i < BLK_SIZE. content (dev st', mem_of st') (unat ?blk) i = view content st (unat ?blk) i"
    using ct [OF blk] vb b(2) by simp
  have new: "buf_is_new x st' = buf_is_new x st" for x by (simp add: buf_is_new_def bs)
  show "same_view content N st st'" unfolding same_view_def
  proof (intro allI impI)
    fix k i assume k: "k < N" and i: "i < BLK_SIZE"
    have lk: "lookup st' k = lookup st k" by (rule lookup_cong [OF rep rep']) (simp add: bs)
    show "view content st' k i = view content st k i"
    proof (cases "lookup st k")
      case None
      then have "k \<noteq> unat ?blk" using lookup_Some [OF rep, of k b] b(1) by auto
      with None lk ct [OF k i] show ?thesis by (simp add: view_def)
    next
      case (Some x)
      then have x: "x \<in> A" "unat (bh_blockno (bufs st x)) = k" using lookup_Some [OF rep] by auto
      show ?thesis
      proof (cases "buf_is_new x st")
        case True
        have "k \<noteq> unat ?blk"
        proof
          assume "k = unat ?blk"
          then have "lookup st k = Some b" using lookup_Some [OF rep] b(1) by simp
          with Some True b(2) show False by simp
        qed
        with Some True lk ct [OF k i] show ?thesis by (simp add: view_def new)
      next
        case False
        have "mem_of st' (bh_page (bufs st x) + of_nat i) = mem_of st (bh_page (bufs st x) + of_nat i)"
          using mo out [OF x(1) i] by blast
        with Some False lk show ?thesis by (simp add: view_def new bs)
      qed
    qed
  qed
qed

lemma flush_write_ok:
  assumes ok: "disk_ok own st K k" and b: "lookup st blk = Some b" "\<not> buf_is_new b st" "blk < N"
  shows "\<exists>st'. flush_write ll_rw b st = Inr st' \<and> disk_ok own st' K k \<and> (\<forall>p < N * BLK_SIZE. disk content st' p = disk content st p) \<and>
    (\<forall>i < BLK_SIZE. content (dev st', mem_of st') blk i = disk content st (blk * BLK_SIZE + i)) \<and>
    (\<forall>a. a \<notin> own (dev st) \<longrightarrow> mem_of st' a = mem_of st a) \<and> dirties (bhash st') = dirties (bhash st)"
proof -
  obtain FL A where rep: "cache_rep st FL A" and K: "frames st FL A = K" and k: "k \<le> card (free_set FL)"
    and sl: "\<forall>b \<in> A. bh_slock (bufs st b) = 1" and lk: "lock_free (bh_lock (bhash st))" and ap: "apart own st K"
    using ok unfolding disk_ok_def by blast
  have bA: "b \<in> A" and bb: "unat (bh_blockno (bufs st b)) = blk" using b(1) lookup_Some [OF rep] by auto
  define st1 where "st1 = upd_buf b (\<lambda>x. x\<lparr>bh_slock := 0\<rparr>) st"
  have t1: "touched b st st1" unfolding st1_def by (rule pin_touched)
  have n1: "buf_is_new b st1 = buf_is_new b st" by (simp add: st1_def buf_is_new_def upd_buf_def)
  have pin: "buf_pin b st = Inr st1" using sl bA by (simp add: buf_pin_def sleep_on_def st1_def)
  note rep1 = touched_rep [OF t1 rep] and m1 = touched_mem [OF t1]
  have b1: "bh_blockno (bufs st1 b) = bh_blockno (bufs st b)" "bh_page (bufs st1 b) = bh_page (bufs st b)" using t1 by (simp_all add: touched_def)
  have ap1: "apart own st1 (frames st1 FL A)" using ap m1 touched_frames [OF t1] K by (simp add: apart_def)
  define st2 where "st2 = call_driver ll_rw DEV_WRITE (bh_blockno (bufs st1 b)) (bh_page (bufs st1 b)) st1"
  have nn: "\<not> buf_is_new b st1" and bl: "unat (bh_blockno (bufs st1 b)) < N" using n1 b(2,3) b1(1) bb by simp_all
  note w = driver_write_ok [OF rep1 bA nn ap1 bl, folded st2_def]
  define st3 where "st3 = (buf_unpin b st2)\<lparr>flush_at := Fl_written b\<rparr>"
  define st3' where "st3' = buf_unpin b st2"
  have t3: "touched b st2 st3'" unfolding st3'_def buf_unpin_def by (rule touched_buf) simp
  have n3: "buf_is_new b st3' = buf_is_new b st2" by (simp add: st3'_def buf_is_new_def buf_unpin_def upd_buf_def)
  note m3 = touched_mem [OF t3]
  have rest: "disk_ok own st3 K k = disk_ok own st3' K k" "disk content st3 = disk content st3'" "mem_of st3 = mem_of st3'"
    by (rule disk_rest; simp add: st3_def st3'_def)+
  have fr: "frames st3' FL A = K"
    unfolding touched_frames [OF t3] K [symmetric] by (rule frames_cong) (simp add: w(3) st1_def upd_buf_def)
  have run: "flush_write ll_rw b st = Inr st3" by (simp add: flush_write_def pin Let_def st2_def st3_def)
  have sl3: "\<forall>x \<in> A. bh_slock (bufs st3' x) = 1"
    using sl by (simp add: st3'_def buf_unpin_def upd_buf_def w(3) st1_def)
  have ok3: "disk_ok own st3' K k" unfolding disk_ok_def
  proof (intro exI conjI)
    show "cache_rep st3' FL A" by (rule touched_rep [OF t3 w(1)])
    show "lock_free (bh_lock (bhash st3'))" using t3 lk w(4) by (simp add: touched_def st1_def upd_buf_def)
    show "apart own st3' K" using ap m3 w(5) m1 by (simp add: apart_def)
  qed (use fr k sl3 in simp_all)
  have sv: "same_view content N st st3'"
    by (rule same_view_trans [OF touched_same_view [OF t1 n1] same_view_trans [OF w(2) touched_same_view [OF t3 n3]]])
  have v1: "view content st1 blk i = view content st blk i" for i by (rule touched_view [OF t1 n1])
  have "\<forall>i < BLK_SIZE. content (dev st3, mem_of st3) blk i = disk content st (blk * BLK_SIZE + i)"
    using w(6) m3 b1 bb v1 by (simp add: rest(3) disk_pos) (simp add: st3_def st3'_def [symmetric])
  moreover have "\<forall>a. a \<notin> own (dev st) \<longrightarrow> mem_of st3 a = mem_of st a" using w(7) m3 m1 by (simp add: rest(3))
  moreover have "dirties (bhash st3) = dirties (bhash st)" using w(4) by (simp add: st3_def buf_unpin_def upd_buf_def st1_def)
  moreover have "\<forall>p < N * BLK_SIZE. disk content st3 p = disk content st p" using same_view_disk [OF sv] by (simp add: rest(2))
  ultimately show ?thesis using run ok3 rest(1) by blast
qed

end

subsection \<open>The RAM disk satisfies the contract\<close>

text \<open>The 1024 blocks of the RAM disk lie behind one another in the memory at its address.\<close>

definition ram_content :: "u64 \<times> mem \<Rightarrow> nat \<Rightarrow> nat \<Rightarrow> u8" where
  "ram_content dm blk i = snd dm (fst dm + of_nat (blk * BLK_SIZE + i))"

definition ram_own :: "u64 \<Rightarrow> u64 set" where
  "ram_own d = {a. unat (a - d) < 1024 * BLK_SIZE}"

lemma ram_at: "j < 1024 * BLK_SIZE \<Longrightarrow> d + of_nat j \<in> ram_own d"
  by (simp add: ram_own_def unat_of_nat_small)

lemma ram_copy:
  fixes blk :: u32
  assumes blk: "unat blk < 1024" and out: "\<forall>i < BLK_SIZE. page + of_nat i \<notin> ram_own d"
  shows "ucast (blk * of_nat PGSIZE) = (of_nat (unat blk * BLK_SIZE) :: u64)"
    and "BLK_SIZE \<le> unat (page - (d + of_nat (unat blk * BLK_SIZE)))" and "BLK_SIZE \<le> unat (d + of_nat (unat blk * BLK_SIZE) - page)"
proof -
  let ?s = "of_nat (unat blk * BLK_SIZE) :: u64"
  have u: "unat (blk * of_nat PGSIZE) = unat blk * BLK_SIZE" using blk by (subst unat_mult_lem [THEN iffD1]) simp_all
  have "ucast x = (of_nat (unat x) :: u64)" for x :: u32 by simp
  then show "ucast (blk * of_nat PGSIZE) = ?s" by (simp only: u)
  show "BLK_SIZE \<le> unat (page - (d + ?s))"
  proof (rule ccontr)
    assume n: "\<not> BLK_SIZE \<le> unat (page - (d + ?s))"
    define k where "k = unat (page - (d + ?s))"
    have "page = d + of_nat (unat blk * BLK_SIZE + k)" by (simp add: k_def)
    moreover have "unat blk * BLK_SIZE + k < 1024 * BLK_SIZE" using blk n unfolding k_def [symmetric] by linarith
    ultimately have "page \<in> ram_own d" using ram_at by metis
    moreover have "page + of_nat 0 \<notin> ram_own d" using out by (rule allE [of _ 0]) simp
    ultimately show False by simp
  qed
  show "BLK_SIZE \<le> unat (d + ?s - page)"
  proof (rule ccontr)
    assume n: "\<not> BLK_SIZE \<le> unat (d + ?s - page)"
    define k where "k = unat (d + ?s - page)"
    have "page + of_nat k = d + ?s" by (simp add: k_def)
    moreover have "d + ?s \<in> ram_own d" using blk by (intro ram_at) simp
    moreover have "page + of_nat k \<notin> ram_own d" using out n unfolding k_def [symmetric] by (meson not_le)
    ultimately show False by simp
  qed
qed

lemma ram_block:
  fixes blk :: u32
  assumes "unat blk < 1024" and "unat (a - (d + of_nat (unat blk * BLK_SIZE))) < BLK_SIZE"
  shows "a \<in> ram_own d"
proof -
  define k where "k = unat (a - (d + of_nat (unat blk * BLK_SIZE)))"
  have "a = d + of_nat (unat blk * BLK_SIZE + k)" by (simp add: k_def)
  moreover have "unat blk * BLK_SIZE + k < 1024 * BLK_SIZE" using assms unfolding k_def [symmetric] by linarith
  ultimately show ?thesis using ram_at by metis
qed

lemma ram_offset:
  fixes blk :: u32 and d :: u64
  assumes "unat blk < 1024" and "b < 1024" and "i < BLK_SIZE"
  shows "unat (d + of_nat (b * BLK_SIZE + i) - (d + of_nat (unat blk * BLK_SIZE))) < BLK_SIZE \<longleftrightarrow> b = unat blk"
    and "b = unat blk \<Longrightarrow> d + of_nat (b * BLK_SIZE + i) - (d + of_nat (unat blk * BLK_SIZE)) = of_nat i"
proof -
  show "d + of_nat (b * BLK_SIZE + i) - (d + of_nat (unat blk * BLK_SIZE)) = of_nat i" if "b = unat blk"
    by (simp add: that)
  have e: "d + of_nat (b * BLK_SIZE + i) - (d + of_nat (unat blk * BLK_SIZE)) = (of_nat (b * BLK_SIZE + i) - of_nat (unat blk * BLK_SIZE) :: u64)"
    by (simp add: algebra_simps)
  have u: "unat (of_nat (b * BLK_SIZE + i) :: u64) = b * BLK_SIZE + i" "unat (of_nat (unat blk * BLK_SIZE) :: u64) = unat blk * BLK_SIZE"
    using assms by (intro unat_of_nat_small, simp)+
  show "unat (d + of_nat (b * BLK_SIZE + i) - (d + of_nat (unat blk * BLK_SIZE))) < BLK_SIZE \<longleftrightarrow> b = unat blk"
  proof (cases "unat blk \<le> b")
    case True
    then have le: "unat blk * BLK_SIZE \<le> b * BLK_SIZE" by simp
    then have "unat (of_nat (b * BLK_SIZE + i) - of_nat (unat blk * BLK_SIZE) :: u64) = b * BLK_SIZE + i - unat blk * BLK_SIZE"
      using u by (subst unat_sub) (simp_all only: word_le_nat_alt)
    then show ?thesis unfolding e using True assms(3) le by auto
  next
    case False
    then have lt: "b * BLK_SIZE + i < unat blk * BLK_SIZE" using assms(3) by linarith
    then have "unat (of_nat (b * BLK_SIZE + i) - of_nat (unat blk * BLK_SIZE) :: u64) = 2 ^ 64 + (b * BLK_SIZE + i) - unat blk * BLK_SIZE"
      unfolding unat_sub_if' u by simp
    then show ?thesis unfolding e using False assms(1) lt by simp
  qed
qed

lemma ram_read:
  assumes "unat blk < 1024" and "\<forall>i < BLK_SIZE. page + of_nat i \<notin> ram_own d"
  shows "mvirt_blk_ll_rw DEV_READ blk page (d, m) =
    (d, \<lambda>a. if unat (a - page) < BLK_SIZE then m (d + of_nat (unat blk * BLK_SIZE) + (a - page)) else m a)"
  using ram_copy [OF assms] by (simp only: mvirt_blk_ll_rw_def prod.case Let_def simp_thms if_True) (simp add: memcpy_bytes cong: if_cong)

lemma ram_write:
  assumes "unat blk < 1024" and "\<forall>i < BLK_SIZE. page + of_nat i \<notin> ram_own d"
  shows "mvirt_blk_ll_rw DEV_WRITE blk page (d, m) =
    (d, \<lambda>a. if unat (a - (d + of_nat (unat blk * BLK_SIZE))) < BLK_SIZE then m (page + (a - (d + of_nat (unat blk * BLK_SIZE)))) else m a)"
  using ram_copy [OF assms] by (simp only: mvirt_blk_ll_rw_def prod.case Let_def one_neq_zero simp_thms if_True if_False) (simp add: memcpy_bytes cong: if_cong)

interpretation mvd: block_driver mvirt_blk_ll_rw ram_content ram_own 1024
proof unfold_locales
  fix blk :: u32 and page d :: u64 and m :: mem and a :: u64
  assume c: "unat blk < 1024" "\<forall>i < BLK_SIZE. page + of_nat i \<notin> ram_own d"
  note r = ram_read [OF c, of m] and w = ram_write [OF c, of m]
  show "fst (mvirt_blk_ll_rw DEV_READ blk page (d, m)) = d" by (simp only: r fst_conv)
  show "snd (mvirt_blk_ll_rw DEV_READ blk page (d, m)) a =
      (if unat (a - page) < BLK_SIZE then ram_content (d, m) (unat blk) (unat (a - page)) else m a)"
    by (simp add: r ram_content_def add.assoc)
  show "ram_own (fst (mvirt_blk_ll_rw DEV_WRITE blk page (d, m))) = ram_own d" by (simp only: w fst_conv)
  show "snd (mvirt_blk_ll_rw DEV_WRITE blk page (d, m)) a = m a" if "a \<notin> ram_own d"
    using that ram_block [OF c(1), of a d] by (auto simp: w)
  show "ram_content (mvirt_blk_ll_rw DEV_WRITE blk page (d, m)) b i = (if b = unat blk then m (page + of_nat i) else ram_content (d, m) b i)"
    if "b < 1024" "i < BLK_SIZE" for b i
    using ram_offset [OF c(1) that, of d] by (simp only: w ram_content_def fst_conv snd_conv) simp
next
  show "ram_content (d, m') b i = ram_content (d, m) b i" if "\<forall>a \<in> ram_own d. m' a = m a" "b < 1024" "i < BLK_SIZE" for d m m' b i
    using that ram_at [of "b * BLK_SIZE + i" d] by (simp add: ram_content_def)
qed simp

text \<open>A disk with nothing cached, right after the memory has been set up: the RAM disk in the first frames.\<close>

definition empty_bhash :: bhash_struct where
  "empty_bhash = \<lparr>bh_lock = spin_init, buf_hash_table = \<lparr>h_size = 32, h_count = 0, h_name = ''bcache'', h_heads = Chain\<rparr>,
     chains = \<lparr>l_prev = id, l_next = id\<rparr>, lrus = \<lparr>l_prev = id, l_next = id\<rparr>, active_count = 0, inactive_count = 0,
     dirties = \<lparr>l_prev = id, l_next = id\<rparr>\<rparr>"

definition fresh_disk :: "buddy \<Rightarrow> u64 gendisk" where
  "fresh_disk m = \<lparr>sl = \<lparr>mm = m, slabs = (\<lambda>_. undefined), caches = (\<lambda>_. undefined), slinks = \<lparr>l_prev = id, l_next = id\<rparr>\<rparr>,
     bufs = (\<lambda>_. \<lparr>bh_flags = 0, bh_blockno = 0, bh_slock = 1, bh_refcnt = 0, bh_page = 0\<rparr>), nbufs = 0, bhash = empty_bhash,
     rqs = (\<lambda>_. \<lparr>rq_flags = 2, rq_bio = [], rq_slock = 0, rq_vaddr = 0\<rparr>), nrqs = 0,
     queue = \<lparr>rq_lock = spin_init, rq_sem = 0, rq_links = \<lparr>l_prev = id, l_next = id\<rparr>\<rparr>,
     dev = get_page_addr 0, io_at = Io_wait, flush_at = Fl_check\<rparr>"

lemma fresh_cache: "mm_ok m FL \<Longrightarrow> cache_rep (fresh_disk m) FL {}"
  by (auto simp: cache_rep_def fresh_disk_def empty_bhash_def table_of_def hash_rep_def hash_heads_def inj_on_def list_family_def fam_nodes_def
      intro!: exI [of _ "\<lambda>_. []"])

lemma ram_struct:
  assumes "a \<in> ram_own (get_page_addr 0)"
  shows "get_page_struct a < 1024"
proof -
  have "unat (a - KERNBASE) < 1024 * BLK_SIZE" using assms by (simp add: ram_own_def get_page_addr_offset)
  moreover have "get_page_struct a = unat (a - KERNBASE) div BLK_SIZE"
    unfolding get_page_struct_def page_to_index_def unat_drop_bit_eq by (simp only: drop_bit_eq_div) simp
  ultimately show ?thesis by (simp only: less_mult_imp_div_less)
qed

lemma fresh_disk_ok:
  obtains m where "disk_ok ram_own (fresh_disk m) {1024 ..< 31744} 30720" and "idle (fresh_disk m)"
proof -
  obtain s FL where s: "mm_ok (s, boot_hart, spin_init) FL" "free_set FL = {1024 ..< 31744}" by (rule booted)
  let ?st = "fresh_disk (s, boot_hart, spin_init)"
  have "frames ?st FL {} = {1024 ..< 31744}" using s(2) by (simp add: frames_def)
  moreover have "apart ram_own ?st {1024 ..< 31744}" using ram_struct by (fastforce simp: apart_def fresh_disk_def)
  ultimately have "disk_ok ram_own ?st {1024 ..< 31744} 30720" unfolding disk_ok_def
    using fresh_cache [OF s(1)] s(2) by (intro exI [of _ FL] exI [of _ "{}"]) (simp add: fresh_disk_def empty_bhash_def)
  moreover have "idle ?st" by (simp add: idle_def fresh_disk_def)
  ultimately show ?thesis by (rule that)
qed

lemma fresh_client:
  assumes "p < ALL_PFN" and "31744 \<le> p" and "n \<le> PGSIZE"
  shows "client ram_own (fresh_disk m) {1024 ..< 31744} (get_page_addr p) n"
  unfolding client_def
proof (intro allI impI)
  fix j assume "j < n"
  then have "get_page_struct (get_page_addr p + of_nat j) = p" using assms frame_addr [OF assms(1), of "get_page_addr p + of_nat j"]
    by (simp add: unat_of_nat_small)
  then show "get_page_struct (get_page_addr p + of_nat j) \<notin> {1024 ..< 31744} \<and> get_page_addr p + of_nat j \<notin> ram_own (dev (fresh_disk m))"
    using assms(2) ram_struct [of "get_page_addr p + of_nat j"] by (auto simp: fresh_disk_def)
qed

subsection \<open>Properties\<close>

text \<open>C4: Reading back what was written: on the RAM disk, \<open>blk_write\<close> of \<open>len\<close> bytes followed by \<open>blk_read\<close> of
  the same bytes, at any offset and across any number of blocks, both return 0 and put the written bytes
  into the reader's buffer; nothing else a client sees changes, neither on the disk nor in memory. It holds
  with a free page for each block, an idle queue, and buffers outside the allocator's pages and the disk.\<close>

theorem disk_write_read_roundtrip:
  assumes "disk_ok ram_own st K (blocks_of offset len + (blocks_of offset len + k))" and "idle st"
    and "len \<noteq> 0" and "unat offset mod BLK_SIZE + unat len \<le> 2 ^ 32"
    and "unat blockno * BLK_SIZE + unat offset + unat len \<le> 1024 * BLK_SIZE"
    and "client ram_own st K src (unat len)" and "client ram_own st K dst (unat len)" and "src \<noteq> 0" and "dst \<noteq> 0"
  defines "start \<equiv> unat blockno * BLK_SIZE + unat offset"
  shows "\<exists>st1 st2. blk_write mvirt_blk_ll_rw c blockno offset len src st = Inr (0, st1) \<and>
    blk_read mvirt_blk_ll_rw c blockno offset len dst st1 = Inr (0, st2) \<and> disk_ok ram_own st2 K k \<and> idle st2 \<and>
    (\<forall>a. get_page_struct a \<notin> K \<longrightarrow>
       mem_of st2 a = (if unat (a - dst) < unat len then mem_of st (src + (a - dst)) else mem_of st a)) \<and>
    (\<forall>p < 1024 * BLK_SIZE. disk ram_content st2 p =
       (if start \<le> p \<and> p < start + unat len then mem_of st (src + of_nat (p - start)) else disk ram_content st p))"
proof -
  obtain st1 where st1: "gen_rw mvirt_blk_ll_rw c blockno offset len src DEV_WRITE st = Inr (0, st1)"
    "disk_ok ram_own st1 K (blocks_of offset len + k)" "idle st1" "dev st1 = dev st" "moved ram_content 1024 K DEV_WRITE start (unat len) src st st1"
    using mvd.gen_rw_ok [OF assms(1,2) disjI2 [OF refl] assms(3,4,5,6), of c] unfolding start_def by auto
  have cl: "client ram_own st1 K dst (unat len)" using assms(7) st1(4) by (simp add: client_def)
  obtain st2 where st2: "gen_rw mvirt_blk_ll_rw c blockno offset len dst DEV_READ st1 = Inr (0, st2)"
    "disk_ok ram_own st2 K k" "idle st2" "moved ram_content 1024 K DEV_READ start (unat len) dst st1 st2"
    using mvd.gen_rw_ok [OF st1(2,3) disjI1 [OF refl] assms(3,4,5) cl, of c] unfolding start_def by auto
  have d1: "disk ram_content st1 p = (if start \<le> p \<and> p < start + unat len then mem_of st (src + of_nat (p - start)) else disk ram_content st p)"
    if "p < 1024 * BLK_SIZE" for p
    using st1(5) that unfolding moved_def by (simp only: simp_thms)
  have "mem_of st2 a = (if unat (a - dst) < unat len then mem_of st (src + (a - dst)) else mem_of st a)" if a: "get_page_struct a \<notin> K" for a
  proof -
    have "disk ram_content st1 (start + unat (a - dst)) = mem_of st (src + (a - dst))" if "unat (a - dst) < unat len"
      using d1 [of "start + unat (a - dst)"] that assms(5) unfolding start_def [symmetric] by simp
    then show ?thesis using st2(4) st1(5) a by (simp add: moved_def)
  qed
  moreover have "disk ram_content st2 p = disk ram_content st1 p" if "p < 1024 * BLK_SIZE" for p
    using st2(4) that by (simp add: moved_def)
  ultimately show ?thesis
    using st1(1) st2(1,2,3) d1 assms(8,9)
    by (intro exI [of _ st1] exI [of _ st2]) (simp add: blk_write_def blk_read_def gen_disk_write_def gen_disk_read_def gen_write_def gen_read_def)
qed

theorem disk_write_read_roundtrip_witness:
  "\<exists>m st1 st2. disk_ok ram_own (fresh_disk m) {1024 ..< 31744} 30720 \<and>
    blk_write mvirt_blk_ll_rw 0 5 4000 200 (get_page_addr 31744) (fresh_disk m) = Inr (0, st1) \<and>
    blk_read mvirt_blk_ll_rw 0 5 4000 200 (get_page_addr 31745) st1 = Inr (0, st2) \<and>
    mem_of st2 (get_page_addr 31745 + 150) = mem_of (fresh_disk m) (get_page_addr 31744 + 150)"
proof -
  obtain m where m: "disk_ok ram_own (fresh_disk m) {1024 ..< 31744} 30720" "idle (fresh_disk m)" by (rule fresh_disk_ok)
  have b: "blocks_of 4000 200 = 2" by (simp add: blocks_of_def)
  have ok: "disk_ok ram_own (fresh_disk m) {1024 ..< 31744} (blocks_of 4000 200 + (blocks_of 4000 200 + 30716))"
    using m(1) by (simp add: b)
  have cl: "client ram_own (fresh_disk m) {1024 ..< 31744} (get_page_addr 31744) (unat (200 :: u32))"
    "client ram_own (fresh_disk m) {1024 ..< 31744} (get_page_addr 31745) (unat (200 :: u32))" by (rule fresh_client; simp)+
  have nz: "get_page_addr 31744 \<noteq> 0" "get_page_addr 31745 \<noteq> 0" by (simp_all add: get_page_addr_offset)
  obtain st1 st2 where r: "blk_write mvirt_blk_ll_rw 0 5 4000 200 (get_page_addr 31744) (fresh_disk m) = Inr (0, st1)"
    "blk_read mvirt_blk_ll_rw 0 5 4000 200 (get_page_addr 31745) st1 = Inr (0, st2)"
    and mem: "\<forall>a. get_page_struct a \<notin> {1024 ..< 31744} \<longrightarrow> mem_of st2 a = (if unat (a - get_page_addr 31745) < unat (200 :: u32)
      then mem_of (fresh_disk m) (get_page_addr 31744 + (a - get_page_addr 31745)) else mem_of (fresh_disk m) a)"
    using disk_write_read_roundtrip [OF ok m(2) _ _ _ cl nz, of 5 0] by auto
  have "get_page_struct (get_page_addr 31745 + of_nat 150) = 31745" by (rule get_page_struct_addr) simp_all
  then have "mem_of st2 (get_page_addr 31745 + 150) = mem_of (fresh_disk m) (get_page_addr 31744 + 150)" using mem by simp
  with m(1) r show ?thesis by blast
qed

text \<open>C21: Writing a dirty buffer back does not change what a client sees of the disk: the write-back thread's
  write of the cached copy of a block returns, every byte of the disk's view is as before, the RAM disk
  itself now has the block, and memory outside the disk is not touched.\<close>

theorem flush_write_keeps_view:
  assumes "disk_ok ram_own st K k" and "lookup st blk = Some b" and "\<not> buf_is_new b st" and "blk < 1024"
  shows "\<exists>st'. flush_write mvirt_blk_ll_rw b st = Inr st' \<and> disk_ok ram_own st' K k \<and>
    (\<forall>p < 1024 * BLK_SIZE. disk ram_content st' p = disk ram_content st p) \<and>
    (\<forall>i < BLK_SIZE. ram_content (dev st', mem_of st') blk i = disk ram_content st (blk * BLK_SIZE + i)) \<and>
    (\<forall>a. a \<notin> ram_own (dev st) \<longrightarrow> mem_of st' a = mem_of st a)"
  using mvd.flush_write_ok [OF assms] by blast

text \<open>A disk with block 0 in its cache.\<close>

definition cached_disk :: "buddy \<Rightarrow> u64 gendisk" where
  "cached_disk m = (let st = fresh_disk m in bhash_add 0 (st\<lparr>nbufs := 1,
     bufs := (bufs st)(0 := \<lparr>bh_flags = 1, bh_blockno = 0, bh_slock = 1, bh_refcnt = 0, bh_page = get_page_addr 32000\<rparr>)\<rparr>))"

lemma cached_disk_ok:
  obtains m where "disk_ok ram_own (cached_disk m) (insert 32000 {1024 ..< 31744}) 30720" and "lookup (cached_disk m) 0 = Some 0"
    and "\<not> buf_is_new 0 (cached_disk m)"
proof -
  obtain s FL where s: "mm_ok (s, boot_hart, spin_init) FL" "free_set FL = {1024 ..< 31744}" by (rule booted)
  let ?m = "(s, boot_hart, spin_init)"
  define st where "st = (fresh_disk ?m)\<lparr>nbufs := 1,
     bufs := (bufs (fresh_disk ?m))(0 := \<lparr>bh_flags = 1, bh_blockno = 0, bh_slock = 1, bh_refcnt = 0, bh_page = get_page_addr 32000\<rparr>)\<rparr>"
  have rep0: "cache_rep st FL {}"
    using fresh_cache [OF s(1)] by (auto simp: cache_rep_def st_def table_of_def hash_rep_def)
  have fr: "frame_of st 0 = 32000" using get_page_struct_addr [of 32000 0] by (simp add: frame_of_def st_def)
  have rep: "cache_rep (cached_disk ?m) FL (insert 0 {})"
    using bhash_add_ok [OF rep0, of 0 32000] s(2) by (simp add: cached_disk_def Let_def st_def)
  have same: "bufs (cached_disk ?m) = bufs st" "dev (cached_disk ?m) = dev st" "bh_lock (bhash (cached_disk ?m)) = spin_init"
    by (simp_all add: cached_disk_def st_def bhash_add_def set_table_def upd_bhash_def fresh_disk_def empty_bhash_def)
  have b0: "bufs st 0 = \<lparr>bh_flags = 1, bh_blockno = 0, bh_slock = 1, bh_refcnt = 0, bh_page = get_page_addr 32000\<rparr>"
    "dev st = get_page_addr 0" by (simp_all add: st_def fresh_disk_def)
  have frs: "frames (cached_disk ?m) FL {0} = insert 32000 {1024 ..< 31744}" using s(2) fr by (simp add: frames_def frame_of_def same)
  have "apart ram_own (cached_disk ?m) (insert 32000 {1024 ..< 31744})" using ram_struct by (fastforce simp: apart_def same b0)
  then have "disk_ok ram_own (cached_disk ?m) (insert 32000 {1024 ..< 31744}) 30720" unfolding disk_ok_def
    using rep frs s(2) by (intro exI [of _ FL] exI [of _ "{0}"]) (simp add: same b0)
  moreover have "lookup (cached_disk ?m) 0 = Some 0" using lookup_Some [OF rep] by (simp add: same b0)
  moreover have "\<not> buf_is_new 0 (cached_disk ?m)" by (simp add: buf_is_new_def same b0)
  ultimately show ?thesis by (rule that)
qed

theorem flush_write_keeps_view_witness:
  "\<exists>m st'. lookup (cached_disk m) 0 = Some 0 \<and> flush_write mvirt_blk_ll_rw 0 (cached_disk m) = Inr st' \<and>
     ram_content (dev st', mem_of st') 0 7 = disk ram_content (cached_disk m) 7"
proof -
  obtain m where m: "disk_ok ram_own (cached_disk m) (insert 32000 {1024 ..< 31744}) 30720" "lookup (cached_disk m) 0 = Some 0"
    "\<not> buf_is_new 0 (cached_disk m)" by (rule cached_disk_ok)
  obtain st' where r: "flush_write mvirt_blk_ll_rw 0 (cached_disk m) = Inr st'"
    and c: "\<forall>i < BLK_SIZE. ram_content (dev st', mem_of st') 0 i = disk ram_content (cached_disk m) (0 * BLK_SIZE + i)"
    using flush_write_keeps_view [OF m] by auto
  from c have "ram_content (dev st', mem_of st') 0 7 = disk ram_content (cached_disk m) 7" by simp
  with r m(2) show ?thesis by blast
qed

text \<open>C13: A request is served in as many steps of the I/O thread as it has blocks, one more to take it and one
  more to wake its owner: from an idle disk, submitting a request and letting \<open>gen_start_io\<close> make that many
  steps, the owner's semaphore is up, so that its wait returns, and the thread waits again.\<close>

theorem request_is_served:
  assumes "disk_ok ram_own st K (blocks_of offset len + k)" and "idle st" and "rw = DEV_READ \<or> rw = DEV_WRITE"
    and "len \<noteq> 0" and "unat offset mod BLK_SIZE + unat len \<le> 2 ^ 32"
    and "unat blockno * BLK_SIZE + unat offset + unat len \<le> 1024 * BLK_SIZE" and "client ram_own st K va (unat len)"
  shows "\<exists>r st1 st2 st3. gen_submit c blockno offset len va rw st = Inr (r, st1) \<and>
    io_steps mvirt_blk_ll_rw c (blocks_of offset len + 2) st1 = Inr st2 \<and> gen_wait r st2 = Inr st3 \<and> idle st3"
  by (rule mvd.request_served [OF assms])

theorem request_is_served_witness:
  "\<exists>m r st1 st2 st3. gen_submit 0 5 4000 200 (get_page_addr 31744) DEV_WRITE (fresh_disk m) = Inr (r, st1) \<and>
    io_steps mvirt_blk_ll_rw 0 4 st1 = Inr st2 \<and> gen_wait r st2 = Inr st3 \<and> idle st3"
proof -
  obtain m where m: "disk_ok ram_own (fresh_disk m) {1024 ..< 31744} 30720" "idle (fresh_disk m)" by (rule fresh_disk_ok)
  have b: "blocks_of 4000 200 = 2" by (simp add: blocks_of_def)
  have ok: "disk_ok ram_own (fresh_disk m) {1024 ..< 31744} (blocks_of 4000 200 + 30718)" using m(1) by (simp add: b)
  have cl: "client ram_own (fresh_disk m) {1024 ..< 31744} (get_page_addr 31744) (unat (200 :: u32))" by (rule fresh_client; simp)
  have e: "blocks_of 4000 200 + 2 = 4" by (simp add: b)
  have "\<exists>r st1 st2 st3. gen_submit 0 5 4000 200 (get_page_addr 31744) DEV_WRITE (fresh_disk m) = Inr (r, st1) \<and>
    io_steps mvirt_blk_ll_rw 0 (blocks_of 4000 200 + 2) st1 = Inr st2 \<and> gen_wait r st2 = Inr st3 \<and> idle st3"
    by (rule request_is_served [OF ok m(2) disjI2 [OF refl] _ _ _ cl]) simp_all
  then show ?thesis unfolding e by blast
qed



end
