(* ===== verification/Efsdir.thy ===== *)
theory Efsdir
  imports Easyfs
begin

text \<open>
  The directories of easyfs: fs/easyfs/dentry.c, the thread \<open>efs_sync\<close> of super.c and fs.c.

  A name on disk is a field of 16 bytes; a name or path that is passed in is the list of its
  characters, without the terminating 0. Copying a name of exactly 15 characters writes one byte
  behind the field, into the dentry's inode pointer: that is a \<open>Fault\<close> where the pointer is not NULL.
  The copy of the path that \<open>efs_d_named\<close> cuts into names is local to it and not part of the state.
  What is printed is not modelled.
\<close>

subsection \<open>Names\<close>

definition field_str :: "u8 list \<Rightarrow> u8 list" where
  "field_str bs = takeWhile (\<lambda>c. c \<noteq> 0) bs"

text \<open>\<open>strncpy\<close> into a field of 16 bytes; the flag says that it wrote behind the field.\<close>

definition copy_name :: "u8 list \<Rightarrow> u8 list \<Rightarrow> bool \<times> u8 list" where
  "copy_name name field =
     (if length name < DIR_MAXLEN then (length name = 15, take DIR_MAXLEN (name @ [0, 0] @ drop (length name + 2) field))
      else (False, take DIR_MAXLEN name))"

definition str_hash :: "u8 list \<Rightarrow> nat" where
  "str_hash s = unat (fold (\<lambda>c hash. (push_bit 5 hash + hash) + ucast c) s (5381 :: u64) AND 0x7FFFFFFF)"

definition efs_d_namecmp :: "u8 list \<Rightarrow> u8 list \<Rightarrow> int" where
  "efs_d_namecmp s t = cmp_bytes DIR_MAXLEN s t"

subsection \<open>Dentries\<close>

definition upd_dentry :: "nat \<Rightarrow> (easy_dentry \<Rightarrow> easy_dentry) \<Rightarrow> efs \<Rightarrow> efs" where
  "upd_dentry d f st = st\<lparr>dentries := (dentries st)(d := f (dentries st d))\<rparr>"

definition sleep_d :: "nat \<Rightarrow> efs \<Rightarrow> efs kres" where
  "sleep_d d st = bindR (sleep_on (d_slock (dentries st d))) (\<lambda>v. Inr (upd_dentry d (\<lambda>x. x\<lparr>d_slock := v\<rparr>) st))"

definition wake_d :: "nat \<Rightarrow> efs \<Rightarrow> efs" where
  "wake_d d = upd_dentry d (\<lambda>x. x\<lparr>d_slock := d_slock x + 1\<rparr>)"

definition efs_d_sdirty :: "nat \<Rightarrow> efs \<Rightarrow> efs" where
  "efs_d_sdirty d st =
     upd_links (\<lambda>lh. if list_empty (D_dirtyn d) lh then list_add_head (D_dirtyn d) S_ddirty lh else lh)
       (upd_dentry d (\<lambda>x. x\<lparr>d_flags := d_flags x OR D_DIRTY\<rparr>) st)"

definition efs_d_cdirty :: "nat \<Rightarrow> efs \<Rightarrow> efs" where
  "efs_d_cdirty d st =
     upd_links (list_del_init (D_dirtyn d)) (upd_dentry d (\<lambda>x. x\<lparr>d_flags := d_flags x AND NOT D_DIRTY\<rparr>) st)"

text \<open>Hashing a name without a terminating 0 reads behind the field.\<close>

definition efs_d_addsb :: "nat \<Rightarrow> efs \<Rightarrow> efs kres" where
  "efs_d_addsb d st =
     (let nm = d_name (d_dd (dentries st d)) in
      if 0 \<notin> set nm then Inl (Fault ''strhash'')
      else case hash_add_head (str_hash (field_str nm)) (D_hnode d) (s_dhash st, links_e st) of (ht, lh) \<Rightarrow>
        Inr (st\<lparr>s_dhash := ht, links_e := list_add_head (D_list d) S_dlist lh\<rparr>))"

definition efs_d_alloc :: "efs \<Rightarrow> nat \<times> efs" where
  "efs_d_alloc st =
     (let d = ndentries st
      in (d, upd_links (\<lambda>lh. INIT_LIST_HEAD (D_dirtyn d) (INIT_LIST_HEAD (D_list d) (INIT_LIST_HEAD (D_hnode d)
                 (INIT_LIST_HEAD (D_sibling d) (INIT_LIST_HEAD (D_child d) lh)))))
               (upd_dentry d (\<lambda>x. x\<lparr>d_inode := None, d_parent := None, d_slock := 1, d_flags := 0, d_refcnt := 0\<rparr>)
                 (st\<lparr>ndentries := d + 1\<rparr>))))"

definition efs_d_conn :: "nat \<Rightarrow> nat \<Rightarrow> efs \<Rightarrow> efs" where
  "efs_d_conn d pd st = upd_links (list_add_tail (D_sibling d) (D_child pd)) (upd_dentry d (\<lambda>x. x\<lparr>d_parent := Some pd\<rparr>) st)"

text \<open>
  Reading a record of a directory file into a dentry: \<open>efs_i_read\<close> with the dentry's own \<open>d_dd\<close> as
  the buffer. The loop is the one of \<open>efs_i_read\<close>; a part that is not read keeps its bytes.
\<close>

function read_struct_loop :: "nat \<Rightarrow> u32 \<Rightarrow> u32 \<Rightarrow> u32 \<Rightarrow> u8 list \<Rightarrow> efs \<Rightarrow> (u8 list \<times> efs) kres" where
  "read_struct_loop i len tot offset bs st =
     (if tot < len then
        bindR (efs_i_bmap i (uint (offset div of_nat BLK_SIZE)) False st) (\<lambda>(bno, st).
          if bno = 0 then Inr (bs, st)
          else let m = part len tot offset
               in read_struct_loop i len (tot + m) (offset + m)
                    (take (unat tot) bs @ read_disk bno (offset mod of_nat BLK_SIZE) (unat m) st @ drop (unat tot + unat m) bs) st)
      else Inr (bs, st))"
  by pat_completeness auto
termination
  by (relation "measure (\<lambda>(_, len, tot, _). unat (len - tot))") (auto simp: part_step)

declare read_struct_loop.simps [simp del]

definition read_struct :: "nat \<Rightarrow> u32 \<Rightarrow> u8 list \<Rightarrow> efs \<Rightarrow> (u8 list \<times> efs) kres" where
  "read_struct i offset bs st =
     (let sz = i_size (i_di (inodes st i)); len = of_nat (length bs) in
      if offset > sz \<or> offset + len < offset then Inr (bs, st)
      else
        let len = (if offset + len > sz then sz - offset else len)
        in bindR (sleep_i i st) (\<lambda>st.
           bindR (read_struct_loop i len 0 offset bs st) (\<lambda>(bs, st). Inr (bs, wake_i i st))))"

definition fill_one :: "nat \<Rightarrow> nat \<Rightarrow> nat \<Rightarrow> efs \<Rightarrow> efs kres" where
  "fill_one pd pi k st =
     (case efs_d_alloc st of (d, st) \<Rightarrow>
        bindR (read_struct pi (of_nat (k * SIZEOF_DIRENT)) (enc_dirent (d_dd (dentries st d))) st) (\<lambda>(bs, st).
        let st = efs_d_conn d pd (upd_dentry d (\<lambda>x. x\<lparr>d_dd := dec_dirent bs\<rparr>) st)
        in bindR (spin_on S_lock st) (\<lambda>st.
           bindR (efs_d_addsb d st) (spin_off S_lock))))"

fun fill_all :: "nat \<Rightarrow> nat \<Rightarrow> nat list \<Rightarrow> efs \<Rightarrow> efs kres" where
  "fill_all pd pi [] st = Inr st"
| "fill_all pd pi (k # ks) st = bindR (fill_one pd pi k st) (fill_all pd pi ks)"

definition efs_d_fill :: "nat \<Rightarrow> efs \<Rightarrow> efs kres" where
  "efs_d_fill pd st =
     bindR (efs_i_get (uint (d_ino (d_dd (dentries st pd)))) st) (\<lambda>(pi, st).
     let st = upd_dentry pd (\<lambda>x. x\<lparr>d_inode := Some pi\<rparr>) st;
         n = unat (i_size (i_di (inodes st pi))) div SIZEOF_DIRENT
     in bindR (fill_all pd pi [0 ..< n] st) (efs_i_put pi))"

text \<open>The children of a directory, as the macro visits them.\<close>

definition children :: "nat \<Rightarrow> efs \<Rightarrow> nat list kres" where
  "children pd st =
     (case list_for_each (D_child pd) (links_e st) of
        None \<Rightarrow> Inl Spins
      | Some ns \<Rightarrow> Inr (List.map (\<lambda>n. case n of D_sibling d \<Rightarrow> d | _ \<Rightarrow> 0) ns))"

text \<open>Writing a structure to a file: \<open>efs_i_write\<close> with a structure as the buffer.\<close>

function write_struct_loop :: "nat \<Rightarrow> u32 \<Rightarrow> u32 \<Rightarrow> u32 \<Rightarrow> u8 list \<Rightarrow> efs \<Rightarrow> (u32 \<times> u32 \<times> efs) kres" where
  "write_struct_loop i len tot offset bs st =
     (if tot < len then
        bindR (efs_i_bmap i (uint (offset div of_nat BLK_SIZE)) True st) (\<lambda>(bno, st).
          if bno = 0 then Inr (tot, offset, st)
          else let m = part len tot offset
               in write_struct_loop i len (tot + m) (offset + m) bs
                    (write_disk bno (offset mod of_nat BLK_SIZE) (take (unat m) (drop (unat tot) bs)) st))
      else Inr (tot, offset, st))"
  by pat_completeness auto
termination
  by (relation "measure (\<lambda>(_, len, tot, _). unat (len - tot))") (auto simp: part_step)

declare write_struct_loop.simps [simp del]

definition write_struct :: "nat \<Rightarrow> u32 \<Rightarrow> u8 list \<Rightarrow> efs \<Rightarrow> efs kres" where
  "write_struct i offset bs st =
     (let len = of_nat (length bs) in
      if offset > i_size (i_di (inodes st i)) \<or> offset + len < offset then Inr st
      else if unat (offset + len) > MAXFILE * BLK_SIZE then Inr st
      else
        bindR (sleep_i i st) (\<lambda>st.
        bindR (write_struct_loop i len 0 offset bs st) (\<lambda>(tot, offset, st).
        bindR (dirty_locked i (\<lambda>d. if offset > i_size d then d\<lparr>i_size := offset\<rparr> else d) st) (\<lambda>st.
          Inr (wake_i i st)))))"

fun update_all :: "nat \<Rightarrow> u32 \<Rightarrow> nat list \<Rightarrow> efs \<Rightarrow> efs kres" where
  "update_all i offset [] st = Inr st"
| "update_all i offset (d # ds) st =
     bindR (write_struct i offset (enc_dirent (d_dd (dentries st d))) st) (update_all i (offset + of_nat SIZEOF_DIRENT) ds)"

text \<open>The inode of a dentry, looked up once and remembered; \<open>get_put\<close> drops the reference again.\<close>

definition d_get :: "nat \<Rightarrow> efs \<Rightarrow> (nat \<times> efs) kres" where
  "d_get d st =
     (case d_inode (dentries st d) of
        Some i \<Rightarrow> Inr (i, efs_i_dup i st)
      | None \<Rightarrow>
          bindR (efs_i_get (uint (d_ino (d_dd (dentries st d)))) st) (\<lambda>(i, st).
            Inr (i, upd_dentry d (\<lambda>x. x\<lparr>d_inode := Some i\<rparr>) st)))"

definition get_put :: "nat \<Rightarrow> efs \<Rightarrow> (nat \<times> efs) kres" where
  "get_put d st =
     (case d_inode (dentries st d) of
        Some i \<Rightarrow> Inr (i, st)
      | None \<Rightarrow>
          bindR (efs_i_get (uint (d_ino (d_dd (dentries st d)))) st) (\<lambda>(i, st).
          bindR (efs_i_put i (upd_dentry d (\<lambda>x. x\<lparr>d_inode := Some i\<rparr>) st)) (\<lambda>st. Inr (i, st))))"

definition efs_d_update :: "nat \<Rightarrow> efs \<Rightarrow> efs kres" where
  "efs_d_update pd st =
     bindR (get_put pd st) (\<lambda>(i, st).
     bindR (children pd st) (\<lambda>ds. update_all i 0 ds st))"

definition fill_once :: "nat \<Rightarrow> efs \<Rightarrow> efs kres" where
  "fill_once pd st =
     (if d_flags (dentries st pd) AND D_CHILD = 0 then
        bindR (efs_d_fill pd st) (\<lambda>st. Inr (upd_dentry pd (\<lambda>x. x\<lparr>d_flags := d_flags x OR D_CHILD\<rparr>) st))
      else Inr st)"

definition efs_d_name_check :: "nat \<Rightarrow> u8 list \<Rightarrow> efs \<Rightarrow> (nat option \<times> efs) kres" where
  "efs_d_name_check pd name st =
     bindR (fill_once pd st) (\<lambda>st.
     bindR (children pd st) (\<lambda>ds.
       Inr (find (\<lambda>d. efs_d_namecmp (field_str (d_name (d_dd (dentries st d)))) name = 0) ds, st)))"

definition efs_d_namex :: "nat \<Rightarrow> u8 list \<Rightarrow> efs \<Rightarrow> (nat option \<times> efs) kres" where
  "efs_d_namex pd name = efs_d_name_check pd name"

subsection \<open>Paths\<close>

text \<open>Looking up one name of a path under the directory's sleep lock.\<close>

definition step_into :: "nat \<Rightarrow> u8 list \<Rightarrow> efs \<Rightarrow> (nat option \<times> efs) kres" where
  "step_into d name st =
     bindR (sleep_d d st) (\<lambda>st.
     bindR (efs_d_namex d name st) (\<lambda>(r, st). Inr (r, wake_d d st)))"

text \<open>The loop of \<open>efs_d_named\<close>: the rest of the path and the name collected so far.\<close>

fun walk_path :: "nat \<Rightarrow> u8 list \<Rightarrow> u8 list \<Rightarrow> efs \<Rightarrow> (nat option \<times> efs) kres" where
  "walk_path d name [] st = (if name = [] then Inr (Some d, st) else step_into d name st)"
| "walk_path d name (c # cs) st =
     (if c = 47 then
        bindR (step_into d name st) (\<lambda>(r, st). case r of None \<Rightarrow> Inr (None, st) | Some d \<Rightarrow> walk_path d [] cs st)
      else walk_path d (name @ [c]) cs st)"

definition efs_d_named :: "u8 list \<Rightarrow> efs \<Rightarrow> (nat option \<times> efs) kres" where
  "efs_d_named path st =
     bindR (spin_on S_lock st) (\<lambda>st.
     bindR (hash_find (\<lambda>n. case n of D_hnode d \<Rightarrow> efs_d_namecmp (field_str (d_name (d_dd (dentries st d)))) path = 0 | _ \<Rightarrow> False)
              (str_hash path) (s_dhash st, links_e st)) (\<lambda>r.
     bindR (spin_off S_lock st) (\<lambda>st.
       case r of
         Some (D_hnode d) \<Rightarrow> Inr (Some d, st)
       | Some _ \<Rightarrow> Inl (Fault ''list_entry'')
       | None \<Rightarrow>
           (case take 256 path of
              c # cs \<Rightarrow> if c = 47 then walk_path 0 [] cs st else Inl (Fault ''efs_d_named: d'')
            | [] \<Rightarrow> Inl (Fault ''efs_d_named: d'')))))"

definition efs_d_namei :: "u8 list \<Rightarrow> efs \<Rightarrow> (nat option \<times> efs) kres" where
  "efs_d_namei path st =
     bindR (efs_d_named path st) (\<lambda>(r, st).
       case r of
         None \<Rightarrow> Inr (None, st)
       | Some d \<Rightarrow> bindR (d_get d st) (\<lambda>(i, st). Inr (Some i, st)))"

definition efs_d_lookup :: "nat \<Rightarrow> efs \<Rightarrow> efs kres" where
  "efs_d_lookup pd st =
     bindR (sleep_d pd st) (\<lambda>st.
     bindR (fill_once pd st) (\<lambda>st.
     bindR (children pd st) (\<lambda>_. Inr (wake_d pd st))))"

subsection \<open>Creating, removing and renaming\<close>

definition efs_d_creat :: "nat option \<Rightarrow> u8 list \<Rightarrow> u32 \<Rightarrow> efs \<Rightarrow> (nat option \<times> efs) kres" where
  "efs_d_creat dir name type st =
     (case dir of
        None \<Rightarrow> Inr (None, st)
      | Some pd \<Rightarrow>
          if d_type (d_dd (dentries st pd)) \<noteq> F_DIR then Inr (None, st)
          else
            bindR (sleep_d pd st) (\<lambda>st.
            bindR (efs_d_name_check pd name st) (\<lambda>(r, st).
              case r of
                Some _ \<Rightarrow> Inr (None, wake_d pd st)
              | None \<Rightarrow>
                  bindR (efs_i_new st) (\<lambda>(i, st).
                  case efs_d_alloc st of (d, st) \<Rightarrow>
                    let st = upd_dentry d (\<lambda>x. x\<lparr>d_dd := \<lparr>d_ino = i_no (i_di (inodes st i)), d_type = type,
                                                   d_name = snd (copy_name name (d_name (d_dd x)))\<rparr>\<rparr>) st
                    in bindR (efs_i_type i type st) (\<lambda>st.
                       let st = efs_d_conn d pd st
                       in bindR (spin_on S_lock st) (\<lambda>st.
                          bindR (spin_on (D_lock pd) st) (\<lambda>st.
                          case d_inode (dentries st pd) of
                            None \<Rightarrow> Inl (Fault ''pd->d_inode'')
                          | Some pi \<Rightarrow>
                              let st = efs_d_sdirty pd (upd_di pi (\<lambda>x. x\<lparr>i_size := i_size x + of_nat SIZEOF_DIRENT\<rparr>) st)
                              in bindR (spin_off (D_lock pd) st) (\<lambda>st.
                                 bindR (spin_off S_lock st) (\<lambda>st. Inr (Some d, wake_d pd st)))))))))
          )"

definition efs_d_unlink :: "nat option \<Rightarrow> efs \<Rightarrow> efs kres" where
  "efs_d_unlink dentry st =
     (case dentry of
        None \<Rightarrow> Inr st
      | Some d \<Rightarrow>
          bindR (if d_type (d_dd (dentries st d)) = F_DIR then
                   bindR (fill_once d st) (\<lambda>st. Inr (\<not> list_empty (D_child d) (links_e st), st))
                 else Inr (False, st)) (\<lambda>(full, st).
            if full \<or> d_ino (d_dd (dentries st d)) = 1 then Inr st
            else
              bindR (d_get d st) (\<lambda>(i, st).
              bindR (efs_i_put i st) (\<lambda>st.
              bindR (efs_i_unlink (Some i) st) (\<lambda>(r, st).
                if r = 0 then
                  let st = upd_links (list_del (D_sibling d)) st
                  in bindR (spin_on S_lock st) (\<lambda>st.
                     bindR (spin_on (D_lock d) st) (\<lambda>st.
                     case d_parent (dentries st d) of
                       None \<Rightarrow> Inl (Fault ''d->d_parent'')
                     | Some p \<Rightarrow>
                         (case d_inode (dentries st p) of
                            None \<Rightarrow> Inl (Fault ''d->d_parent->d_inode'')
                          | Some pi \<Rightarrow>
                              let st = efs_d_sdirty p (upd_di pi (\<lambda>x. x\<lparr>i_size := i_size x - of_nat SIZEOF_DIRENT\<rparr>) st)
                              in bindR (spin_off (D_lock d) st) (spin_off S_lock))))
                else Inr st)))))"

definition efs_d_rename :: "nat \<Rightarrow> u8 list \<Rightarrow> efs \<Rightarrow> efs kres" where
  "efs_d_rename d name st =
     (case d_parent (dentries st d) of
        None \<Rightarrow> Inl (Fault ''d->d_parent'')
      | Some p \<Rightarrow>
          bindR (efs_d_name_check p name st) (\<lambda>(r, st).
            case r of
              Some _ \<Rightarrow> Inr st
            | None \<Rightarrow>
                bindR (d_get d st) (\<lambda>(i, st).
                bindR (spin_on (D_lock d) st) (\<lambda>st.
                case copy_name name (d_name (d_dd (dentries st d))) of (over, nm) \<Rightarrow>
                  if over then Inl (Fault ''d->d_inode'')
                  else
                    let st = upd_dentry d (\<lambda>x. x\<lparr>d_dd := (d_dd x)\<lparr>d_name := nm\<rparr>\<rparr>) st
                    in bindR (spin_off (D_lock d) st) (efs_i_put i)))))"

subsection \<open>File contents through dentries\<close>

definition efs_d_read :: "nat option \<Rightarrow> u32 \<Rightarrow> u32 \<Rightarrow> u64 \<Rightarrow> efs \<Rightarrow> (int \<times> efs) kres" where
  "efs_d_read dentry offset len vaddr st =
     (case dentry of
        None \<Rightarrow> Inr (- 1, st)
      | Some d \<Rightarrow>
          bindR (sleep_d d st) (\<lambda>st.
          bindR (get_put d st) (\<lambda>(i, st).
          bindR (efs_i_read i offset len vaddr (efs_i_dup i st)) (\<lambda>(res, st).
          bindR (efs_i_put i st) (\<lambda>st. Inr (res, wake_d d st))))))"

definition efs_d_read_name :: "u8 list \<Rightarrow> u32 \<Rightarrow> u32 \<Rightarrow> u64 \<Rightarrow> efs \<Rightarrow> (int \<times> efs) kres" where
  "efs_d_read_name path offset len vaddr st =
     bindR (efs_d_named path st) (\<lambda>(r, st).
       case r of None \<Rightarrow> Inr (- 1, st) | Some d \<Rightarrow> efs_d_read (Some d) offset len vaddr st)"

definition efs_d_write :: "nat option \<Rightarrow> u32 \<Rightarrow> u32 \<Rightarrow> u64 \<Rightarrow> efs \<Rightarrow> (int \<times> efs) kres" where
  "efs_d_write dentry offset len vaddr st =
     (case dentry of
        None \<Rightarrow> Inr (- 1, st)
      | Some d \<Rightarrow>
          if d_type (d_dd (dentries st d)) = F_DIR then Inr (- 1, st)
          else
            bindR (sleep_d d st) (\<lambda>st.
            bindR (get_put d st) (\<lambda>(i, st).
            bindR (efs_i_write i offset len vaddr (efs_i_dup i st)) (\<lambda>(res, st).
            bindR (efs_i_put i st) (\<lambda>st. Inr (res, wake_d d st))))))"

definition efs_d_write_name :: "u8 list \<Rightarrow> u32 \<Rightarrow> u32 \<Rightarrow> u64 \<Rightarrow> efs \<Rightarrow> (int \<times> efs) kres" where
  "efs_d_write_name path offset len vaddr st =
     bindR (efs_d_named path st) (\<lambda>(r, st).
       case r of None \<Rightarrow> Inr (- 1, st) | Some d \<Rightarrow> efs_d_write (Some d) offset len vaddr st)"

definition efs_d_fsize :: "nat \<Rightarrow> efs \<Rightarrow> (int \<times> efs) kres" where
  "efs_d_fsize d st =
     bindR (d_get d st) (\<lambda>(i, st).
     let fsize = efs_i_size i st in bindR (efs_i_put i st) (\<lambda>st. Inr (fsize, st)))"

definition root_name :: "u8 list" where
  "root_name = 47 # replicate 15 0"

definition efs_d_root_init :: "efs \<Rightarrow> efs kres" where
  "efs_d_root_init st =
     (let st = upd_dentry 0 (\<lambda>x. x\<lparr>d_dd := \<lparr>d_ino = 1, d_type = F_DIR, d_name = root_name\<rparr>, d_inode := None, d_parent := None,
                                    d_slock := 1, d_flags := 0\<rparr>) st;
          st = upd_links (\<lambda>lh. INIT_LIST_HEAD (D_dirtyn 0) (INIT_LIST_HEAD (D_list 0) (INIT_LIST_HEAD (D_hnode 0)
                 (INIT_LIST_HEAD (D_sibling 0) (INIT_LIST_HEAD (D_child 0) lh))))) st
      in bindR (efs_d_fill 0 st) (\<lambda>st. efs_d_addsb 0 (upd_dentry 0 (\<lambda>x. x\<lparr>d_flags := d_flags x OR D_CHILD\<rparr>) st)))"

definition efs_mount :: "efs \<Rightarrow> (int \<times> efs) kres" where
  "efs_mount st =
     bindR (efs_sb_init st) (\<lambda>st.
     bindR (efs_i_root_init st) (\<lambda>st.
     bindR (efs_d_root_init st) (\<lambda>st. Inr (0, st))))"

definition efs_unmount :: "efs \<Rightarrow> int \<times> efs" where
  "efs_unmount st = (0, st)"

subsection \<open>The synchronising thread\<close>

definition write_words :: "int \<Rightarrow> int \<Rightarrow> u64 list \<Rightarrow> efs \<Rightarrow> efs kres" where
  "write_words start n ws st =
     (if n < 0 \<or> nat n * 512 > length ws then Inl (Fault ''bitmap page'')
      else Inr (write_disk (word_of_int start) 0 (concat (List.map enc64 (take (nat n * 512) ws))) st))"

text \<open>A round of \<open>efs_sync\<close>: the super block and its bitmaps, then the dirty inodes and directories.\<close>

definition sync_super :: "efs \<Rightarrow> efs kres" where
  "sync_super st =
     (if s_flags st AND S_DIRTY \<noteq> 0 then
        bindR (spin_off S_lock st) (\<lambda>st.
        bindR (write_words (inode_map_start (s_ds st)) (inode_area_start (s_ds st) - inode_map_start (s_ds st)) (bitmap.map (imap st))
                 (write_disk 1 0 (enc_super (s_ds st)) st)) (\<lambda>st.
        bindR (write_words (block_map_start (s_ds st)) (block_area_start (s_ds st) - block_map_start (s_ds st)) (bitmap.map (bmap st)) st) (\<lambda>st.
        bindR (spin_on S_lock st) (\<lambda>st. Inr (st\<lparr>s_flags := s_flags st AND NOT S_DIRTY\<rparr>)))))
      else Inr st)"

definition sync_inode :: "nat \<Rightarrow> efs \<Rightarrow> efs kres" where
  "sync_inode i st =
     bindR (spin_off S_lock st) (\<lambda>st.
     bindR (sleep_i i st) (\<lambda>st.
     bindR (efs_i_update i st) (\<lambda>st.
     bindR (spin_on S_lock (wake_i i st)) (\<lambda>st.
     bindR (spin_on (I_lock i) st) (\<lambda>st. spin_off (I_lock i) (efs_i_cdirty i st))))))"

definition sync_dentry :: "nat \<Rightarrow> efs \<Rightarrow> efs kres" where
  "sync_dentry d st =
     bindR (spin_off S_lock st) (\<lambda>st.
     bindR (sleep_d d st) (\<lambda>st.
     bindR (efs_d_update d st) (\<lambda>st.
     bindR (spin_on S_lock (wake_d d st)) (\<lambda>st.
     bindR (spin_on (D_lock d) st) (\<lambda>st. spin_off (D_lock d) (efs_d_cdirty d st))))))"

text \<open>The loops run until their list is empty; each turn of one may put members on it again.\<close>

partial_function (option) sync_inodes :: "efs \<Rightarrow> efs kres option" where
  "sync_inodes st =
     (case list_pop S_idirty (links_e st) of
        (None, _) \<Rightarrow> Some (Inr st)
      | (Some n, lh) \<Rightarrow>
          (case bindR (case n of I_dirty i \<Rightarrow> Inr i | _ \<Rightarrow> Inl (Fault ''list_entry'')) (\<lambda>i. sync_inode i (st\<lparr>links_e := lh\<rparr>)) of
             Inl e \<Rightarrow> Some (Inl e) | Inr st \<Rightarrow> sync_inodes st))"

partial_function (option) sync_dentries :: "efs \<Rightarrow> efs kres option" where
  "sync_dentries st =
     (case list_pop S_ddirty (links_e st) of
        (None, _) \<Rightarrow> Some (Inr st)
      | (Some n, lh) \<Rightarrow>
          (case bindR (case n of D_dirtyn d \<Rightarrow> Inr d | _ \<Rightarrow> Inl (Fault ''list_entry'')) (\<lambda>d. sync_dentry d (st\<lparr>links_e := lh\<rparr>)) of
             Inl e \<Rightarrow> Some (Inl e) | Inr st \<Rightarrow> sync_dentries st))"

definition efs_sync :: "efs \<Rightarrow> efs kres option" where
  "efs_sync st =
     (case bindR (spin_on S_lock st) sync_super of
        Inl e \<Rightarrow> Some (Inl e)
      | Inr st \<Rightarrow> Option.bind (sync_inodes st) (\<lambda>r. case r of
            Inl e \<Rightarrow> Some (Inl e)
          | Inr st \<Rightarrow> Option.bind (sync_dentries st) (\<lambda>r. Some (bindR r (spin_off S_lock)))))"

end
