(* ===== verification/Efsio.thy ===== *)
theory Efsio
  imports Efsdir
begin

text \<open>
  The contents of files. \<open>slots_of\<close> are all block addresses of an inode, from memory or, where the
  indirect block has not been read, from the disk; \<open>efs_ok\<close> says that no block belongs to two slots,
  that all of them are allocated, and that free blocks are zero on disk. Looking up and allocating
  blocks and writing to files keep it; a write changes exactly the bytes of its range and of no other
  file, and reading gives the bytes back.
\<close>

subsection \<open>The map of blocks\<close>

text \<open>Block 0 counts as taken, whether its bit is set or not: as a block number 0 means that there is none.\<close>

definition taken :: "bitmap \<Rightarrow> nat set" where
  "taken = busy 1"

definition map_ok :: "bitmap \<Rightarrow> bool" where
  "map_ok bmp \<longleftrightarrow> (\<exists>e. zone_wf 1 e bmp)"

interpretation blocks: id_source map_ok taken "\<lambda>bmp. nat (size_b bmp)" bitmap_alloc bitmap_free 1
  using zone.ids_below [of 1] zone.alloc_fresh [of 1] zone.free_id [of 1]
  unfolding map_ok_def taken_def by unfold_locales blast+

lemma taken_0 [simp]: "0 \<in> taken bmp"
  by (simp add: taken_def busy_def)

lemma bitmap_is_free_taken:
  assumes "map_ok bmp" and "int n < size_b bmp" and "n \<noteq> 0"
  shows "bitmap_is_free (int n) bmp = Inr (if n \<in> taken bmp then 0 else 1)"
proof -
  obtain e where "zone_wf 1 e bmp" using assms(1) by (auto simp: map_ok_def)
  from bitmap_is_free_busy [OF this assms(2)] assms(3) show ?thesis by (simp add: taken_def)
qed

subsection \<open>Slots\<close>

definition zero_table :: "u32 list" where
  "zero_table = replicate NINDIRECT 0"

lemma zero_table [simp]: "length zero_table = NINDIRECT" "l < NINDIRECT \<Longrightarrow> zero_table ! l = 0"
  unfolding zero_table_def by (rule length_replicate, rule nth_replicate)

definition indir_of :: "efs \<Rightarrow> nat \<Rightarrow> u32 list" where
  "indir_of st i =
     (case i_indir (inodes st i) of
        Some blk \<Rightarrow> blk
      | None \<Rightarrow> if i_addrs (i_di (inodes st i)) ! NDIRECT = 0 then zero_table
                else dec32s NINDIRECT (read_disk (i_addrs (i_di (inodes st i)) ! NDIRECT) 0 BLK_SIZE st))"

definition slots_of :: "efs \<Rightarrow> nat \<Rightarrow> u32 list" where
  "slots_of st i = i_addrs (i_di (inodes st i)) @ indir_of st i"

definition slot :: "nat \<Rightarrow> nat" where
  "slot l = (if l < NDIRECT then l else l + 1)"

definition inode_wf :: "easy_m_inode \<Rightarrow> bool" where
  "inode_wf x \<longleftrightarrow> length (i_addrs (i_di x)) = NDIRECT + 1 \<and>
     (\<forall>blk. i_indir x = Some blk \<longrightarrow> length blk = NINDIRECT \<and> i_addrs (i_di x) ! NDIRECT \<noteq> 0)"

definition slots_ok :: "efs \<Rightarrow> nat set \<Rightarrow> bool" where
  "slots_ok st S \<longleftrightarrow>
     (\<forall>i \<in> S. \<forall>j \<in> S. \<forall>k < MAXFILE + 1. \<forall>l < MAXFILE + 1.
        slots_of st i ! k \<noteq> 0 \<longrightarrow> slots_of st i ! k = slots_of st j ! l \<longrightarrow> i = j \<and> k = l) \<and>
     (\<forall>i \<in> S. \<forall>k < MAXFILE + 1. slots_of st i ! k \<noteq> 0 \<longrightarrow> unat (slots_of st i ! k) \<in> taken (bmap st))"

definition clean :: "efs \<Rightarrow> bool" where
  "clean st \<longleftrightarrow> (\<forall>b. b < nat (size_b (bmap st)) \<longrightarrow> b \<notin> taken (bmap st) \<longrightarrow> (\<forall>k < BLK_SIZE. dsk st (b * BLK_SIZE + k) = 0))"

definition efs_ok :: "efs \<Rightarrow> nat set \<Rightarrow> bool" where
  "efs_ok st S \<longleftrightarrow> map_ok (bmap st) \<and> nat (size_b (bmap st)) < 2 ^ 31 \<and> held st = {} \<and>
     (\<forall>i \<in> S. inode_wf (inodes st i)) \<and> slots_ok st S \<and> clean st"

definition nfree :: "efs \<Rightarrow> nat" where
  "nfree st = nat (size_b (bmap st)) - card (taken (bmap st))"

lemma efs_okD:
  assumes "efs_ok st S"
  shows "map_ok (bmap st)" "0 \<in> taken (bmap st)" "nat (size_b (bmap st)) < 2 ^ 31" "held st = {}"
    "i \<in> S \<Longrightarrow> inode_wf (inodes st i)" "slots_ok st S" "clean st"
  using assms by (auto simp: efs_ok_def)

lemma length_dec32s [simp]: "length (dec32s n bs) = n"
  by (simp add: dec32s_def)

lemma nth_dec32s: "i < n \<Longrightarrow> dec32s n bs ! i = dec32 (take 4 (drop (4 * i) bs))"
  by (simp add: dec32s_def)

lemma length_read_disk [simp]: "length (read_disk b off n st) = n"
  by (simp add: read_disk_def)

lemma nth_read_disk: "i < n \<Longrightarrow> read_disk b off n st ! i = dsk st (disk_pos b off + i)"
  by (simp add: read_disk_def)

lemma read_disk_cong: "dsk st' = dsk st \<Longrightarrow> read_disk b off n st' = read_disk b off n st"
  by (simp add: read_disk_def)

lemma slots_cong: "inodes st' j = inodes st j \<Longrightarrow> dsk st' = dsk st \<Longrightarrow> slots_of st' j = slots_of st j"
  by (simp only: slots_of_def indir_of_def read_disk_cong [of st' st])

lemma length_slots_of: "inode_wf (inodes st i) \<Longrightarrow> length (slots_of st i) = MAXFILE + 1"
  by (auto simp: slots_of_def indir_of_def inode_wf_def split: option.splits)

lemma slots_direct: "inode_wf (inodes st i) \<Longrightarrow> k \<le> NDIRECT \<Longrightarrow> slots_of st i ! k = i_addrs (i_di (inodes st i)) ! k"
  by (simp add: slots_of_def inode_wf_def nth_append)

lemma slots_indirect: "inode_wf (inodes st i) \<Longrightarrow> slots_of st i ! (NDIRECT + 1 + l) = indir_of st i ! l"
  by (simp add: slots_of_def inode_wf_def nth_append)

lemma slot_less: "l < MAXFILE \<Longrightarrow> slot l < MAXFILE + 1"
  by (simp add: slot_def)

lemma slot_eq: "slot k = slot l \<longleftrightarrow> k = l"
  by (auto simp: slot_def split: if_splits)

lemma slot_not_table: "slot l \<noteq> NDIRECT"
  by (simp add: slot_def)

lemma dec32_zero:
  assumes "\<And>k. k < 4 \<Longrightarrow> bs ! k = 0"
  shows "dec32 bs = 0"
  using assms [of 0] assms [of 1] assms [of 2] assms [of 3] by (simp add: dec32_def)

lemma clean_table:
  assumes "\<forall>k < BLK_SIZE. dsk st (unat b * BLK_SIZE + k) = 0"
  shows "dec32s NINDIRECT (read_disk b 0 BLK_SIZE st) = zero_table"
proof (rule nth_equalityI)
  fix l assume "l < length (dec32s NINDIRECT (read_disk b 0 BLK_SIZE st))"
  then have l: "l < NINDIRECT" by simp
  have "take 4 (drop (4 * l) (read_disk b 0 BLK_SIZE st)) ! k = 0" if "k < 4" for k
    using assms l that by (simp add: nth_read_disk disk_pos_def)
  then have "dec32 (take 4 (drop (4 * l) (read_disk b 0 BLK_SIZE st))) = 0" by (rule dec32_zero)
  with l show "dec32s NINDIRECT (read_disk b 0 BLK_SIZE st) ! l = zero_table ! l"
    by (simp only: nth_dec32s zero_table)
qed simp

subsection \<open>Taking a block\<close>

lemma nfree_used:
  assumes "map_ok (bmap st)"
  shows "taken (bmap st) = {..< nat (size_b (bmap st))} \<longleftrightarrow> nfree st = 0"
proof -
  have sub: "taken (bmap st) \<subseteq> {..< nat (size_b (bmap st))}" using blocks.ids_below [OF assms] .
  have le: "card (taken (bmap st)) \<le> nat (size_b (bmap st))" using card_mono [OF finite_lessThan sub] by simp
  have "taken (bmap st) = {..< nat (size_b (bmap st))} \<longleftrightarrow> card (taken (bmap st)) = nat (size_b (bmap st))"
    using card_subset_eq [OF finite_lessThan sub] by (metis card_lessThan)
  moreover have "nfree st = 0 \<longleftrightarrow> card (taken (bmap st)) = nat (size_b (bmap st))" unfolding nfree_def using le by linarith
  ultimately show ?thesis by (simp only:)
qed

lemma bmap_alloc_locked_ok:
  assumes ok: "map_ok (bmap st)" "0 \<in> taken (bmap st)" "nat (size_b (bmap st)) < 2 ^ 31" "held st = {}" and free: "0 < nfree st"
  obtains b m ds fl where "bmap_alloc_locked st = Inr (b, st\<lparr>bmap := m, s_ds := ds, s_flags := fl\<rparr>)"
    and "b \<noteq> 0" and "unat b \<notin> taken (bmap st)" and "unat b < nat (size_b (bmap st))" and "taken m = insert (unat b) (taken (bmap st))"
    and "map_ok m" and "nat (size_b m) = nat (size_b (bmap st))"
proof -
  have "taken (bmap st) \<noteq> {..< nat (size_b (bmap st))}" using nfree_used [OF ok(1)] free by simp
  from blocks.alloc_fresh [OF ok(1) this] obtain n m where m: "bitmap_alloc (bmap st) = Inr (int n, m)" "n < nat (size_b (bmap st))"
    "n \<notin> taken (bmap st)" "taken m = insert n (taken (bmap st))" "nat (size_b m) = nat (size_b (bmap st))" "map_ok m" by blast
  have un: "unat (word_of_int (int n) :: u32) = n" using m(2) ok(3) unat_of_nat_small [of n, where 'a = 32] by simp
  have nz: "(word_of_int (int n) :: u32) \<noteq> 0"
  proof
    assume "(word_of_int (int n) :: u32) = 0"
    then have "n = 0" using un by (metis unat_0)
    with m(3) ok(2) show False by simp
  qed
  have h: "st\<lparr>held := {}\<rparr> = st" using ok(4) by simp
  have "bmap_alloc_locked st = Inr (word_of_int (int n), st\<lparr>bmap := m, s_ds := (s_ds st)\<lparr>block_free := block_free (s_ds st) - 1\<rparr>, s_flags := s_flags st OR S_DIRTY\<rparr>)"
    using ok(4) m(1) by (simp add: bmap_alloc_locked_def spin_on_def spin_off_def efs_bmap_alloc_def del: of_int_of_nat_eq)
  from that [OF this nz] un m show ?thesis by simp
qed

lemma efs_ok_add:
  assumes ok: "efs_ok st S" and i: "i \<in> S" and k: "k < MAXFILE + 1"
    and b: "b \<noteq> 0" "unat b \<notin> taken (bmap st)" "taken (bmap st') = insert (unat b) (taken (bmap st))" "map_ok (bmap st')"
      "nat (size_b (bmap st')) = nat (size_b (bmap st))"
    and st': "held st' = {}" "dsk st' = dsk st" "\<forall>j \<in> S. inode_wf (inodes st' j)" "slots_of st' i = (slots_of st i)[k := b]"
      "\<forall>j \<in> S. j \<noteq> i \<longrightarrow> slots_of st' j = slots_of st j"
  shows "efs_ok st' S"
proof -
  have sl: "slots_of st' j ! l = (if j = i \<and> l = k then b else slots_of st j ! l)" if "j \<in> S" "l < MAXFILE + 1" for j l
    using st'(4,5) that length_slots_of [OF efs_okD(5) [OF ok i]] by (cases "j = i") (auto simp: nth_list_update)
  have old: "unat (slots_of st j ! l) \<in> taken (bmap st)" if "j \<in> S" "l < MAXFILE + 1" "slots_of st j ! l \<noteq> 0" for j l
    using efs_okD(6) [OF ok] that unfolding slots_ok_def by blast
  have inj: "j = j' \<and> l = l'"
    if "j \<in> S" "j' \<in> S" "l < MAXFILE + 1" "l' < MAXFILE + 1" "slots_of st j ! l \<noteq> 0" "slots_of st j ! l = slots_of st j' ! l'" for j j' l l'
    using efs_okD(6) [OF ok] that unfolding slots_ok_def by blast
  have "slots_ok st' S" unfolding slots_ok_def
  proof (intro conjI ballI allI impI)
    fix j j' l l'
    assume a: "j \<in> S" "j' \<in> S" "l < MAXFILE + 1" "l' < MAXFILE + 1" "slots_of st' j ! l \<noteq> 0" "slots_of st' j ! l = slots_of st' j' ! l'"
    have "j = j' \<and> l = l'"
    proof (cases "(j = i \<and> l = k) \<or> (j' = i \<and> l' = k)")
      case True
      have nb: "slots_of st j0 ! l0 \<noteq> b" if "j0 \<in> S" "l0 < MAXFILE + 1" for j0 l0
        using old [OF that] b(1,2) by auto
      show ?thesis using True a sl [OF a(1,3)] sl [OF a(2,4)] nb [OF a(1,3)] nb [OF a(2,4)]
        by (auto split: if_splits)
    next
      case False
      then have "slots_of st' j ! l = slots_of st j ! l" "slots_of st' j' ! l' = slots_of st j' ! l'"
        using sl [OF a(1,3)] sl [OF a(2,4)] by auto
      with a(5,6) have "slots_of st j ! l \<noteq> 0" "slots_of st j ! l = slots_of st j' ! l'" by argo+
      then show ?thesis by (rule inj [OF a(1-4)])
    qed
    then show "j = j'" "l = l'" by simp_all
  next
    fix j l assume a: "j \<in> S" "l < MAXFILE + 1" "slots_of st' j ! l \<noteq> 0"
    then show "unat (slots_of st' j ! l) \<in> taken (bmap st')" using sl [OF a(1,2)] old [OF a(1,2)] b(3) by (auto split: if_splits)
  qed
  moreover have "clean st'" using efs_okD(7) [OF ok] b(3,5) st'(2) by (simp add: clean_def)
  ultimately show ?thesis using ok b st' by (simp add: efs_ok_def)
qed

lemma nfree_add:
  assumes "taken (bmap st') = insert (unat b) (taken (bmap st))" and "nat (size_b (bmap st')) = nat (size_b (bmap st))"
  shows "nfree st \<le> nfree st' + 1"
proof -
  have "card (taken (bmap st')) \<le> Suc (card (taken (bmap st)))" unfolding assms(1) by (rule card_insert_le_m1) simp_all
  then show ?thesis by (simp add: nfree_def assms(2))
qed

text \<open>What finding a block may change: addresses that were 0, and whether an indirect block is in memory.\<close>

definition blank :: "efs \<Rightarrow> u32 \<Rightarrow> bool" where
  "blank st b \<longleftrightarrow> (\<forall>j < BLK_SIZE. dsk st (unat b * BLK_SIZE + j) = 0)"

definition bmapped :: "nat \<Rightarrow> efs \<Rightarrow> efs \<Rightarrow> bool" where
  "bmapped i st st' \<longleftrightarrow> dsk st' = dsk st \<and> umem st' = umem st \<and> links_e st' = links_e st \<and> dentries st' = dentries st \<and>
     (\<forall>j. j \<noteq> i \<longrightarrow> inodes st' j = inodes st j) \<and> i_size (i_di (inodes st' i)) = i_size (i_di (inodes st i)) \<and>
     i_slock (inodes st' i) = i_slock (inodes st i) \<and> i_no (i_di (inodes st' i)) = i_no (i_di (inodes st i)) \<and>
     i_refcnt (inodes st' i) = i_refcnt (inodes st i) \<and>
     (\<forall>k < MAXFILE + 1. slots_of st i ! k \<noteq> 0 \<longrightarrow> slots_of st' i ! k = slots_of st i ! k) \<and>
     (\<forall>k < MAXFILE + 1. slots_of st i ! k = 0 \<longrightarrow> slots_of st' i ! k = 0 \<or> blank st (slots_of st' i ! k))"

lemma bmapped_other: "bmapped i st st' \<Longrightarrow> j \<noteq> i \<Longrightarrow> slots_of st' j = slots_of st j"
  unfolding bmapped_def by (intro slots_cong) blast+

lemma bmapped_refl: "bmapped i st st"
  by (simp add: bmapped_def)

lemma bmapped_trans: "bmapped i st st1 \<Longrightarrow> bmapped i st1 st2 \<Longrightarrow> bmapped i st st2"
  unfolding bmapped_def by (intro conjI; simp add: blank_def) metis

text \<open>Changes of an inode that keep what \<open>bmapped\<close> keeps.\<close>

definition addr_change :: "easy_m_inode \<Rightarrow> easy_m_inode \<Rightarrow> bool" where
  "addr_change x y \<longleftrightarrow> inode_wf y \<and> i_size (i_di y) = i_size (i_di x) \<and> i_slock y = i_slock x \<and> i_no (i_di y) = i_no (i_di x) \<and> i_refcnt y = i_refcnt x"

lemma upd_inode_simps [simp]:
  "inodes (upd_inode i f st) = (inodes st)(i := f (inodes st i))" "dsk (upd_inode i f st) = dsk st" "umem (upd_inode i f st) = umem st"
  "bmap (upd_inode i f st) = bmap st" "held (upd_inode i f st) = held st" "links_e (upd_inode i f st) = links_e st"
  "dentries (upd_inode i f st) = dentries st" "s_ds (upd_inode i f st) = s_ds st" "s_flags (upd_inode i f st) = s_flags st"
  by (simp_all add: upd_inode_def)

lemma efs_ok_cong:
  assumes "bmap st' = bmap st" "held st' = held st" "dsk st' = dsk st" "\<forall>j \<in> S. inode_wf (inodes st' j)" "\<forall>j \<in> S. slots_of st' j = slots_of st j"
    and "efs_ok st S"
  shows "efs_ok st' S"
  using assms by (simp add: efs_ok_def clean_def slots_ok_def)

lemma alloc_slot:
  assumes ok: "efs_ok st S" and i: "i \<in> S" and free: "0 < nfree st" and k: "k < MAXFILE + 1" and z: "slots_of st i ! k = 0"
  obtains b st1 where "bmap_alloc_locked st = Inr (b, st1)" and "b \<noteq> 0" and "inodes st1 = inodes st" and "dsk st1 = dsk st"
    and "\<forall>j < BLK_SIZE. dsk st (unat b * BLK_SIZE + j) = 0"
    and "\<forall>f. addr_change (inodes st i) (f (inodes st i)) \<longrightarrow> slots_of (upd_inode i f st1) i = (slots_of st i)[k := b] \<longrightarrow>
      efs_ok (upd_inode i f st1) S \<and> bmapped i st (upd_inode i f st1) \<and> nfree st \<le> nfree (upd_inode i f st1) + 1"
proof -
  obtain b m ds fl where b: "bmap_alloc_locked st = Inr (b, st\<lparr>bmap := m, s_ds := ds, s_flags := fl\<rparr>)" "b \<noteq> 0" "unat b \<notin> taken (bmap st)"
    "unat b < nat (size_b (bmap st))" "taken m = insert (unat b) (taken (bmap st))" "map_ok m" "nat (size_b m) = nat (size_b (bmap st))"
    by (rule bmap_alloc_locked_ok [OF efs_okD(1-4) [OF ok] free])
  let ?st1 = "st\<lparr>bmap := m, s_ds := ds, s_flags := fl\<rparr>"
  have cl: "\<forall>j < BLK_SIZE. dsk st (unat b * BLK_SIZE + j) = 0" using efs_okD(7) [OF ok] b(3,4) unfolding clean_def by blast
  show ?thesis
  proof (rule that [OF b(1,2) _ _ cl], simp, simp, intro allI impI)
    fix f assume f: "addr_change (inodes st i) (f (inodes st i))" and sl: "slots_of (upd_inode i f ?st1) i = (slots_of st i)[k := b]"
    let ?st' = "upd_inode i f ?st1"
    have other: "slots_of ?st' j = slots_of st j" if "j \<noteq> i" for j using that by (intro slots_cong) simp_all
    have e: "efs_ok ?st' S"
    proof (rule efs_ok_add [OF ok i k b(2,3)])
      show "\<forall>j \<in> S. inode_wf (inodes ?st' j)" using f efs_okD(5) [OF ok] by (simp add: addr_change_def)
    qed (use b efs_okD(4) [OF ok] sl other in simp_all)
    have s1: "slots_of ?st' i ! l = slots_of st i ! l" if "l < MAXFILE + 1" "slots_of st i ! l \<noteq> 0" for l
      using sl z that by (cases "l = k") (simp_all only: nth_list_update_neq)
    have s2: "slots_of ?st' i ! l = 0 \<or> blank st (slots_of ?st' i ! l)" if "l < MAXFILE + 1" "slots_of st i ! l = 0" for l
      using sl that cl length_slots_of [OF efs_okD(5) [OF ok i]] by (cases "l = k") (simp_all add: blank_def)
    have "bmapped i st ?st'" using f s1 s2 by (simp add: bmapped_def addr_change_def)
    moreover have "nfree st \<le> nfree ?st' + 1" by (rule nfree_add [of _ b]) (simp_all add: b)
    ultimately show "efs_ok ?st' S \<and> bmapped i st ?st' \<and> nfree st \<le> nfree ?st' + 1" using e by blast
  qed
qed

subsection \<open>Finding the block of a file position\<close>

lemma indir_of_cong:
  assumes "i_indir (inodes st' i) = i_indir (inodes st i)" and "i_addrs (i_di (inodes st' i)) ! NDIRECT = i_addrs (i_di (inodes st i)) ! NDIRECT"
    and "dsk st' = dsk st"
  shows "indir_of st' i = indir_of st i"
  unfolding indir_of_def assms(1,2) read_disk_cong [OF assms(3)] ..

lemma set_direct:
  fixes b :: u32
  assumes wf: "inode_wf (inodes st i)" and k: "k < NDIRECT" and st1: "inodes st1 = inodes st" "dsk st1 = dsk st"
  defines "f \<equiv> \<lambda>x. x\<lparr>i_di := (i_di x)\<lparr>i_addrs := (i_addrs (i_di x))[k := b]\<rparr>\<rparr>"
  shows "slots_of (upd_inode i f st1) i = (slots_of st i)[k := b]" and "addr_change (inodes st i) (f (inodes st i))"
proof -
  have n: "(i_addrs (i_di (inodes st i)))[k := b] ! NDIRECT = i_addrs (i_di (inodes st i)) ! NDIRECT" using k by simp
  have "indir_of (upd_inode i f st1) i = indir_of st i"
    by (rule indir_of_cong) (use n in \<open>simp_all add: f_def st1\<close>)
  then show "slots_of (upd_inode i f st1) i = (slots_of st i)[k := b]"
    using wf k by (simp add: slots_of_def f_def st1 inode_wf_def list_update_append)
  show "addr_change (inodes st i) (f (inodes st i))" using wf n by (simp add: addr_change_def inode_wf_def f_def)
qed

lemma set_table:
  assumes wf: "inode_wf (inodes st i)" and z: "i_addrs (i_di (inodes st i)) ! NDIRECT = 0" and st1: "inodes st1 = inodes st" "dsk st1 = dsk st"
    and b: "b \<noteq> 0" "\<forall>j < BLK_SIZE. dsk st (unat b * BLK_SIZE + j) = 0"
  defines "f \<equiv> \<lambda>x. x\<lparr>i_di := (i_di x)\<lparr>i_addrs := (i_addrs (i_di x))[NDIRECT := b]\<rparr>\<rparr>"
  shows "slots_of (upd_inode i f st1) i = (slots_of st i)[NDIRECT := b]" and "addr_change (inodes st i) (f (inodes st i))"
proof -
  have none: "i_indir (inodes st i) = None" using wf z by (auto simp: inode_wf_def)
  have len: "length (i_addrs (i_di (inodes st i))) = NDIRECT + 1" using wf by (simp add: inode_wf_def)
  have "dec32s NINDIRECT (read_disk b 0 BLK_SIZE (upd_inode i f st1)) = zero_table"
    by (rule clean_table) (use b(2) in \<open>simp add: st1\<close>)
  then have "indir_of (upd_inode i f st1) i = zero_table" using none len b(1) by (simp add: indir_of_def st1 f_def)
  moreover have "indir_of st i = zero_table" using none z by (simp add: indir_of_def)
  ultimately show "slots_of (upd_inode i f st1) i = (slots_of st i)[NDIRECT := b]"
    using len by (simp add: slots_of_def f_def st1 list_update_append)
  show "addr_change (inodes st i) (f (inodes st i))" using wf none by (simp add: addr_change_def inode_wf_def f_def)
qed

lemma set_indirect:
  fixes b :: u32 and l :: nat
  assumes wf: "inode_wf (inodes st i)" and blk: "i_indir (inodes st i) = Some blk" and st1: "inodes st1 = inodes st" "dsk st1 = dsk st"
  defines "f \<equiv> \<lambda>x. x\<lparr>i_indir := Some (blk[l := b])\<rparr>"
  shows "slots_of (upd_inode i f st1) i = (slots_of st i)[NDIRECT + 1 + l := b]" and "addr_change (inodes st i) (f (inodes st i))"
  using wf blk by (simp_all add: slots_of_def indir_of_def f_def st1 list_update_append addr_change_def inode_wf_def)

text \<open>Reading the table into memory changes no slot.\<close>

definition load_table :: "nat \<Rightarrow> u32 \<Rightarrow> efs \<Rightarrow> efs" where
  "load_table i bno st = (if i_indir (inodes st i) = None
     then upd_inode i (\<lambda>x. x\<lparr>i_indir := Some (dec32s NINDIRECT (read_disk bno 0 BLK_SIZE st))\<rparr>) st else st)"

lemma load_table_ok:
  assumes ok: "efs_ok st S" and i: "i \<in> S" and bno: "bno = i_addrs (i_di (inodes st i)) ! NDIRECT" "bno \<noteq> 0"
  shows "efs_ok (load_table i bno st) S" and "bmapped i st (load_table i bno st)" and "nfree (load_table i bno st) = nfree st"
    and "slots_of (load_table i bno st) i = slots_of st i" and "i_indir (inodes (load_table i bno st) i) = Some (indir_of st i)"
proof -
  note wf = efs_okD(5) [OF ok i]
  show nf: "nfree (load_table i bno st) = nfree st" by (simp add: load_table_def nfree_def)
  show ind: "i_indir (inodes (load_table i bno st) i) = Some (indir_of st i)"
    using bno by (cases "i_indir (inodes st i)") (simp_all add: load_table_def indir_of_def)
  have ad: "i_di (inodes (load_table i bno st) i) = i_di (inodes st i)" by (simp add: load_table_def)
  show sl: "slots_of (load_table i bno st) i = slots_of st i"
    unfolding slots_of_def ad using ind by (simp add: indir_of_def [of "load_table i bno st"])
  have oth: "inodes (load_table i bno st) j = inodes st j" if "j \<noteq> i" for j using that by (simp add: load_table_def)
  have d: "dsk (load_table i bno st) = dsk st" by (simp add: load_table_def)
  have wf': "inode_wf (inodes (load_table i bno st) i)" using wf bno by (simp add: load_table_def inode_wf_def)
  show "efs_ok (load_table i bno st) S"
  proof (rule efs_ok_cong [OF _ _ d _ _ ok])
    show "\<forall>j \<in> S. inode_wf (inodes (load_table i bno st) j)" using wf' oth efs_okD(5) [OF ok] by metis
    show "\<forall>j \<in> S. slots_of (load_table i bno st) j = slots_of st j" using sl slots_cong [OF oth d] by metis
  qed (simp_all add: load_table_def)
  show "bmapped i st (load_table i bno st)" unfolding bmapped_def using sl by (simp add: load_table_def)
qed

lemma efs_i_bmap_direct:
  "l < NDIRECT \<Longrightarrow> efs_i_bmap i (int l) alloc st =
     (let bno = i_addrs (i_di (inodes st i)) ! l
      in if bno = 0 then
           if \<not> alloc then Inr (0, st)
           else bindR (bmap_alloc_locked st) (\<lambda>(bno, st).
             Inr (bno, upd_inode i (\<lambda>x. x\<lparr>i_di := (i_di x)\<lparr>i_addrs := (i_addrs (i_di x))[l := bno]\<rparr>\<rparr>) st))
         else Inr (bno, st))"
  unfolding efs_i_bmap_def upd_di_def by (simp add: nat_int Let_def)

definition table_entry :: "nat \<Rightarrow> nat \<Rightarrow> bool \<Rightarrow> u32 \<Rightarrow> efs \<Rightarrow> (u32 \<times> efs) kres" where
  "table_entry i l alloc bno st =
     (let st = load_table i bno st; blk = the (i_indir (inodes st i))
      in if blk ! l = 0 then
           if \<not> alloc then Inr (0, st)
           else bindR (bmap_alloc_locked st) (\<lambda>(b, st). Inr (b, upd_inode i (\<lambda>x. x\<lparr>i_indir := Some (blk[l := b])\<rparr>) st))
         else Inr (blk ! l, st))"

lemma efs_i_bmap_indirect:
  assumes "l < NINDIRECT"
  shows "efs_i_bmap i (int (NDIRECT + l)) alloc st =
     (let bno = i_addrs (i_di (inodes st i)) ! NDIRECT
      in if bno = 0 \<and> \<not> alloc then Inr (0, st)
         else bindR (if bno = 0 then bindR (bmap_alloc_locked st) (\<lambda>(bno, st).
                       Inr (bno, upd_inode i (\<lambda>x. x\<lparr>i_di := (i_di x)\<lparr>i_addrs := (i_addrs (i_di x))[NDIRECT := bno]\<rparr>\<rparr>) st))
                     else Inr (bno, st)) (\<lambda>(bno, st). table_entry i l alloc bno st))"
proof -
  have "nat (int (NDIRECT + l) - int NDIRECT) = l" "\<not> int (NDIRECT + l) < 0" "\<not> int (NDIRECT + l) < int NDIRECT" by simp_all
  with assms show ?thesis
    unfolding efs_i_bmap_def table_entry_def load_table_def upd_di_def by (simp only: if_True if_False Let_def)
qed

lemma table_entry_alloc:
  assumes ok: "efs_ok st S" and i: "i \<in> S" and bno: "bno = i_addrs (i_di (inodes st i)) ! NDIRECT" "bno \<noteq> 0"
    and l: "l < NINDIRECT" and free: "0 < nfree st"
  obtains b st' where "table_entry i l True bno st = Inr (b, st')" and "b \<noteq> 0" and "efs_ok st' S" and "bmapped i st st'"
    and "slots_of st' i ! (NDIRECT + 1 + l) = b" and "nfree st \<le> nfree st' + 1"
proof -
  let ?t = "load_table i bno st"
  note lt = load_table_ok [OF ok i bno]
  note wf = efs_okD(5) [OF lt(1) i]
  have e: "indir_of st i ! l = slots_of ?t i ! (NDIRECT + 1 + l)"
    unfolding lt(4) by (rule slots_indirect [OF efs_okD(5) [OF ok i], symmetric])
  show ?thesis
  proof (cases "indir_of st i ! l = 0")
    case False
    then have "table_entry i l True bno st = Inr (indir_of st i ! l, ?t)" by (simp add: table_entry_def lt(5))
    from that [OF this False lt(1,2)] show ?thesis using e lt(3) by simp
  next
    case True
    have k: "NDIRECT + 1 + l < MAXFILE + 1" using l by simp
    have f: "0 < nfree ?t" using free lt(3) by simp
    have zs: "slots_of ?t i ! (NDIRECT + 1 + l) = 0" using True e by (simp only:)
    obtain b st1 where b: "bmap_alloc_locked ?t = Inr (b, st1)" "b \<noteq> 0" "inodes st1 = inodes ?t" "dsk st1 = dsk ?t"
        "\<forall>j < BLK_SIZE. dsk ?t (unat b * BLK_SIZE + j) = 0"
      and upd: "\<forall>f. addr_change (inodes ?t i) (f (inodes ?t i)) \<longrightarrow> slots_of (upd_inode i f st1) i = (slots_of ?t i)[NDIRECT + 1 + l := b] \<longrightarrow>
        efs_ok (upd_inode i f st1) S \<and> bmapped i ?t (upd_inode i f st1) \<and> nfree ?t \<le> nfree (upd_inode i f st1) + 1"
      by (rule alloc_slot [OF lt(1) i f k zs])
    let ?f = "\<lambda>x. x\<lparr>i_indir := Some ((indir_of st i)[l := b])\<rparr>"
    note si = set_indirect [OF wf lt(5) b(3,4), of l b]
    have run: "table_entry i l True bno st = Inr (b, upd_inode i ?f st1)" using True b(1) by (simp add: table_entry_def lt(5))
    have u: "efs_ok (upd_inode i ?f st1) S" "bmapped i ?t (upd_inode i ?f st1)" "nfree ?t \<le> nfree (upd_inode i ?f st1) + 1"
      using upd [rule_format, OF si(2,1)] by blast+
    show ?thesis
    proof (rule that [OF run b(2) u(1) bmapped_trans [OF lt(2) u(2)]])
      show "slots_of (upd_inode i ?f st1) i ! (NDIRECT + 1 + l) = b"
        unfolding si(1) using length_slots_of [OF wf] k by (intro nth_list_update_eq) simp
    qed (use u(3) lt(3) in simp)
  qed
qed

lemma efs_i_bmap_alloc:
  assumes ok: "efs_ok st S" and i: "i \<in> S" and l: "l < MAXFILE" and free: "2 \<le> nfree st"
  obtains b st' where "efs_i_bmap i (int l) True st = Inr (b, st')" and "b \<noteq> 0" and "efs_ok st' S" and "bmapped i st st'"
    and "slots_of st' i ! slot l = b" and "nfree st \<le> nfree st' + 2"
proof (cases "l < NDIRECT")
  case True
  note wf = efs_okD(5) [OF ok i]
  have sl: "slot l = l" "l < MAXFILE + 1" "slots_of st i ! l = i_addrs (i_di (inodes st i)) ! l"
    using True l slots_direct [OF wf, of l] by (simp_all add: slot_def)
  show ?thesis
  proof (cases "i_addrs (i_di (inodes st i)) ! l = 0")
    case False
    then have "efs_i_bmap i (int l) True st = Inr (i_addrs (i_di (inodes st i)) ! l, st)" by (simp add: efs_i_bmap_direct [OF True] Let_def)
    from that [OF this False ok bmapped_refl] sl show ?thesis by simp
  next
    case z: True
    have f: "0 < nfree st" using free by simp
    have zs: "slots_of st i ! l = 0" using z sl(3) by simp
    obtain b st1 where b: "bmap_alloc_locked st = Inr (b, st1)" "b \<noteq> 0" "inodes st1 = inodes st" "dsk st1 = dsk st"
        "\<forall>j < BLK_SIZE. dsk st (unat b * BLK_SIZE + j) = 0"
      and upd: "\<forall>f. addr_change (inodes st i) (f (inodes st i)) \<longrightarrow> slots_of (upd_inode i f st1) i = (slots_of st i)[l := b] \<longrightarrow>
        efs_ok (upd_inode i f st1) S \<and> bmapped i st (upd_inode i f st1) \<and> nfree st \<le> nfree (upd_inode i f st1) + 1"
      by (rule alloc_slot [OF ok i f sl(2) zs])
    note sd = set_direct [OF wf True b(3,4), of b]
    note u = upd [rule_format, OF sd(2,1)]
    show ?thesis
    proof (rule that [OF _ b(2)])
      show "efs_i_bmap i (int l) True st = Inr (b, upd_inode i (\<lambda>x. x\<lparr>i_di := (i_di x)\<lparr>i_addrs := (i_addrs (i_di x))[l := b]\<rparr>\<rparr>) st1)"
        using z b(1) by (simp add: efs_i_bmap_direct [OF True] Let_def)
    qed (use u sd(1) sl length_slots_of [OF wf] in \<open>simp_all only: nth_list_update_eq\<close>, linarith)
  qed
next
  case False
  define m where "m = l - NDIRECT"
  have lm: "l = NDIRECT + m" and m: "m < NINDIRECT" using False l by (simp_all add: m_def)
  have sl: "slot l = NDIRECT + 1 + m" using lm by (simp add: slot_def)
  note wf = efs_okD(5) [OF ok i]
  let ?bno = "i_addrs (i_di (inodes st i)) ! NDIRECT"
  show ?thesis
  proof (cases "?bno = 0")
    case z: False
    have f: "0 < nfree st" using free by simp
    obtain b st' where r: "table_entry i m True ?bno st = Inr (b, st')" "b \<noteq> 0" "efs_ok st' S" "bmapped i st st'"
      "slots_of st' i ! (NDIRECT + 1 + m) = b" "nfree st \<le> nfree st' + 1"
      by (rule table_entry_alloc [OF ok i refl z m f])
    have run: "efs_i_bmap i (int l) True st = Inr (b, st')"
      unfolding lm efs_i_bmap_indirect [OF m] using z r(1) by (simp add: Let_def)
    show ?thesis by (rule that [OF run r(2,3,4)]) (use r sl in simp_all)
  next
    case z: True
    have zs: "slots_of st i ! NDIRECT = 0" using slots_direct [OF wf, of NDIRECT] z by simp
    have f: "0 < nfree st" using free by simp
    have kn: "NDIRECT < MAXFILE + 1" by simp
    obtain t st1 where b: "bmap_alloc_locked st = Inr (t, st1)" "t \<noteq> 0" "inodes st1 = inodes st" "dsk st1 = dsk st"
        "\<forall>j < BLK_SIZE. dsk st (unat t * BLK_SIZE + j) = 0"
      and upd: "\<forall>f. addr_change (inodes st i) (f (inodes st i)) \<longrightarrow> slots_of (upd_inode i f st1) i = (slots_of st i)[NDIRECT := t] \<longrightarrow>
        efs_ok (upd_inode i f st1) S \<and> bmapped i st (upd_inode i f st1) \<and> nfree st \<le> nfree (upd_inode i f st1) + 1"
      by (rule alloc_slot [OF ok i f kn zs])
    note s2 = set_table [OF wf z b(3,4,2,5)]
    define st2 where "st2 = upd_inode i (\<lambda>x. x\<lparr>i_di := (i_di x)\<lparr>i_addrs := (i_addrs (i_di x))[NDIRECT := t]\<rparr>\<rparr>) st1"
    have u: "efs_ok st2 S" "bmapped i st st2" "nfree st \<le> nfree st2 + 1" using upd [rule_format, OF s2(2,1)] unfolding st2_def by blast+
    have t2: "t = i_addrs (i_di (inodes st2 i)) ! NDIRECT" using wf by (simp add: st2_def b(3) inode_wf_def)
    have f2: "0 < nfree st2" using free u(3) by simp
    obtain b' st' where r: "table_entry i m True t st2 = Inr (b', st')" "b' \<noteq> 0" "efs_ok st' S" "bmapped i st2 st'"
      "slots_of st' i ! (NDIRECT + 1 + m) = b'" "nfree st2 \<le> nfree st' + 1"
      by (rule table_entry_alloc [OF u(1) i t2 b(2) m f2])
    have run: "efs_i_bmap i (int l) True st = Inr (b', st')"
      unfolding lm efs_i_bmap_indirect [OF m] using z b(1) r(1) by (simp add: Let_def st2_def)
    show ?thesis by (rule that [OF run r(2,3) bmapped_trans [OF u(2) r(4)]]) (use r u sl in simp_all)
  qed
qed

lemma efs_i_bmap_lookup:
  assumes ok: "efs_ok st S" and i: "i \<in> S" and l: "l < MAXFILE"
  shows "\<exists>st'. efs_i_bmap i (int l) False st = Inr (slots_of st i ! slot l, st') \<and> efs_ok st' S \<and> bmapped i st st' \<and>
    slots_of st' i = slots_of st i"
proof (cases "l < NDIRECT")
  case True
  then have "efs_i_bmap i (int l) False st = Inr (slots_of st i ! slot l, st)"
    using slots_direct [OF efs_okD(5) [OF ok i], of l] by (simp add: efs_i_bmap_direct slot_def Let_def)
  then show ?thesis using ok bmapped_refl by blast
next
  case False
  define m where "m = l - NDIRECT"
  have lm: "l = NDIRECT + m" and m: "m < NINDIRECT" using False l by (simp_all add: m_def)
  let ?bno = "i_addrs (i_di (inodes st i)) ! NDIRECT"
  note wf = efs_okD(5) [OF ok i]
  have sl: "slots_of st i ! slot l = indir_of st i ! m" using slots_indirect [OF wf, of m] lm by (simp add: slot_def)
  show ?thesis
  proof (cases "?bno = 0")
    case True
    then have "i_indir (inodes st i) = None" using wf by (auto simp: inode_wf_def)
    then have "slots_of st i ! slot l = 0" using True m sl by (simp add: indir_of_def)
    moreover have "efs_i_bmap i (int l) False st = Inr (0, st)" unfolding lm efs_i_bmap_indirect [OF m] using True by simp
    ultimately show ?thesis using ok bmapped_refl by metis
  next
    case z: False
    note lt = load_table_ok [OF ok i refl z]
    have "efs_i_bmap i (int l) False st = Inr (indir_of st i ! m, load_table i ?bno st)"
      unfolding lm efs_i_bmap_indirect [OF m] using z by (simp add: Let_def table_entry_def lt(5))
    then show ?thesis using sl lt(1,2,4) by metis
  qed
qed

subsection \<open>File contents\<close>

text \<open>Byte \<open>p\<close> of the file of inode \<open>i\<close>; positions without a block read as 0.\<close>

definition fbyte :: "efs \<Rightarrow> nat \<Rightarrow> nat \<Rightarrow> u8" where
  "fbyte st i p = (let b = slots_of st i ! slot (p div BLK_SIZE)
     in if b = 0 then 0 else dsk st (unat b * BLK_SIZE + p mod BLK_SIZE))"

abbreviation (input) FILE_MAX :: nat where "FILE_MAX \<equiv> MAXFILE * BLK_SIZE"

lemma file_block: "p < FILE_MAX \<Longrightarrow> p div BLK_SIZE < MAXFILE"
  by (rule less_mult_imp_div_less)

lemma bmapped_fbyte:
  assumes "bmapped i st st'" and "p < FILE_MAX"
  shows "fbyte st' j p = fbyte st j p"
proof (cases "j = i")
  case True
  define k where "k = slot (p div BLK_SIZE)"
  have k: "k < MAXFILE + 1" unfolding k_def by (rule slot_less [OF file_block [OF assms(2)]])
  have d: "dsk st' = dsk st" using assms(1) by (simp add: bmapped_def)
  have "slots_of st' i ! k = slots_of st i ! k \<or> slots_of st i ! k = 0 \<and> blank st (slots_of st' i ! k)"
    using assms(1) k unfolding bmapped_def by metis
  then show ?thesis unfolding fbyte_def Let_def True k_def [symmetric] d by (auto simp: blank_def)
next
  case False
  have d: "dsk st' = dsk st" using assms(1) by (simp add: bmapped_def)
  show ?thesis unfolding fbyte_def bmapped_other [OF assms(1) False] d ..
qed

lemma block_range:
  fixes b c :: nat
  assumes "off + n \<le> BLK_SIZE" and "j < BLK_SIZE"
  shows "b * BLK_SIZE + off \<le> c * BLK_SIZE + j \<and> c * BLK_SIZE + j < b * BLK_SIZE + off + n \<longleftrightarrow> c = b \<and> off \<le> j \<and> j < off + n"
  using in_block [OF assms(1), of b "c * BLK_SIZE + j"] assms(2) by simp

lemma dsk_store_buf:
  assumes "unat off + unat m \<le> BLK_SIZE" and "j < BLK_SIZE" and "va \<noteq> 0"
  shows "dsk (store_buf b off m va st) (c * BLK_SIZE + j) =
    (if c = unat b \<and> unat off \<le> j \<and> j < unat off + unat m then umem st (va + of_nat (j - unat off)) else dsk st (c * BLK_SIZE + j))"
proof -
  have "c * BLK_SIZE + j - (unat b * BLK_SIZE + unat off) = j - unat off" if "c = unat b" using that by simp
  then show ?thesis
    using block_range [OF assms(1,2), of "unat b" c] assms(3) by (simp add: store_buf_def disk_pos_def Let_def)
qed

lemma store_buf_simps [simp]:
  "inodes (store_buf b off m va st) = inodes st" "umem (store_buf b off m va st) = umem st" "bmap (store_buf b off m va st) = bmap st"
  "held (store_buf b off m va st) = held st" "links_e (store_buf b off m va st) = links_e st"
  "dentries (store_buf b off m va st) = dentries st" "nfree (store_buf b off m va st) = nfree st"
  by (simp_all add: store_buf_def nfree_def Let_def)

text \<open>Writing to a data block changes no table of block addresses.\<close>

lemma store_buf_slots:
  assumes ok: "efs_ok st S" and i: "i \<in> S" and j: "j \<in> S" and l: "l < MAXFILE" and b: "b = slots_of st i ! slot l" "b \<noteq> 0"
    and len: "unat off + unat m \<le> BLK_SIZE" and va: "va \<noteq> 0"
  shows "slots_of (store_buf b off m va st) j = slots_of st j"
proof -
  let ?st' = "store_buf b off m va st" and ?t = "i_addrs (i_di (inodes st j)) ! NDIRECT"
  have "read_disk ?t 0 BLK_SIZE ?st' = read_disk ?t 0 BLK_SIZE st" if t: "?t \<noteq> 0"
  proof -
    have tj: "slots_of st j ! NDIRECT = ?t" by (rule slots_direct [OF efs_okD(5) [OF ok j]]) simp
    have "?t \<noteq> b"
    proof
      assume "?t = b"
      then have "slots_of st j ! NDIRECT = slots_of st i ! slot l" "slots_of st j ! NDIRECT \<noteq> 0" using tj b t by simp_all
      moreover have "NDIRECT < MAXFILE + 1" by simp
      ultimately have "NDIRECT = slot l"
        using efs_okD(6) [OF ok] i j slot_less [OF l] unfolding slots_ok_def by blast
      then show False using slot_not_table [of l] by simp
    qed
    then have "unat ?t \<noteq> unat b" by (simp add: word_unat_eq_iff)
    then show ?thesis using dsk_store_buf [OF len _ va] by (simp add: read_disk_def disk_pos_def)
  qed
  then show ?thesis by (simp add: slots_of_def indir_of_def split: option.splits)
qed

lemma store_buf_ok:
  assumes ok: "efs_ok st S" and i: "i \<in> S" and l: "l < MAXFILE" and b: "b = slots_of st i ! slot l" "b \<noteq> 0"
    and len: "unat off + unat m \<le> BLK_SIZE" and va: "va \<noteq> 0"
  defines "st' \<equiv> store_buf b off m va st"
  shows "efs_ok st' S"
    and "p < FILE_MAX \<Longrightarrow> fbyte st' i p = (if l * BLK_SIZE + unat off \<le> p \<and> p < l * BLK_SIZE + unat off + unat m
      then umem st (va + of_nat (p - (l * BLK_SIZE + unat off))) else fbyte st i p)"
    and "j \<in> S \<Longrightarrow> j \<noteq> i \<Longrightarrow> p < FILE_MAX \<Longrightarrow> fbyte st' j p = fbyte st j p"
    and "j \<in> S \<Longrightarrow> slots_of st' j = slots_of st j"
proof -
  show sl: "slots_of st' j = slots_of st j" if "j \<in> S" for j
    unfolding st'_def by (rule store_buf_slots [OF ok i that l b len va])
  note d = dsk_store_buf [OF len _ va, of _ b st, folded st'_def]
  have used: "unat b \<in> taken (bmap st)" using efs_okD(6) [OF ok] i b slot_less [OF l] unfolding slots_ok_def by blast
  show "efs_ok st' S"
  proof -
    have "clean st'" unfolding clean_def
    proof (intro allI impI)
      fix c k assume c: "c < nat (size_b (bmap st'))" "c \<notin> taken (bmap st')" "k < BLK_SIZE"
      then have "c \<noteq> unat b" using used by (auto simp: st'_def)
      then have "dsk st' (c * BLK_SIZE + k) = dsk st (c * BLK_SIZE + k)" using d [OF c(3)] by simp
      also have "\<dots> = 0" using efs_okD(7) [OF ok] c unfolding clean_def by (simp add: st'_def)
      finally show "dsk st' (c * BLK_SIZE + k) = 0" .
    qed
    moreover have "slots_ok st' S" using efs_okD(6) [OF ok] sl by (simp add: slots_ok_def st'_def)
    ultimately show ?thesis using ok by (simp add: efs_ok_def st'_def)
  qed
  have same: "slots_of st j ! slot k = b \<longleftrightarrow> j = i \<and> k = l" if "j \<in> S" "k < MAXFILE" for j k
  proof
    assume e: "slots_of st j ! slot k = b"
    then have "slots_of st j ! slot k \<noteq> 0" "slots_of st j ! slot k = slots_of st i ! slot l" using b by simp_all
    then have "j = i \<and> slot k = slot l"
      using efs_okD(6) [OF ok] that(1) i slot_less [OF l] slot_less [OF that(2)] unfolding slots_ok_def by blast
    then show "j = i \<and> k = l" by (simp add: slot_eq)
  qed (use b in simp)
  have fb: "fbyte st' j p = (if j = i \<and> p div BLK_SIZE = l \<and> unat off \<le> p mod BLK_SIZE \<and> p mod BLK_SIZE < unat off + unat m
      then umem st (va + of_nat (p mod BLK_SIZE - unat off)) else fbyte st j p)" if "j \<in> S" "p < FILE_MAX" for j p
  proof -
    let ?c = "slots_of st j ! slot (p div BLK_SIZE)"
    let ?Q = "j = i \<and> p div BLK_SIZE = l \<and> unat off \<le> p mod BLK_SIZE \<and> p mod BLK_SIZE < unat off + unat m"
    have c: "unat ?c = unat b \<longleftrightarrow> j = i \<and> p div BLK_SIZE = l"
      using same [OF that(1) file_block [OF that(2)]] by (simp add: word_unat_eq_iff)
    have "p mod BLK_SIZE < BLK_SIZE" by simp
    note dp = d [OF this, of "unat ?c", unfolded c]
    show ?thesis
    proof (cases ?Q)
      case True
      then have "?c \<noteq> 0" using b by simp
      then have "fbyte st' j p = dsk st' (unat ?c * BLK_SIZE + p mod BLK_SIZE)" unfolding fbyte_def sl [OF that(1)] Let_def by (rule if_not_P)
      also have "\<dots> = umem st (va + of_nat (p mod BLK_SIZE - unat off))" unfolding dp by (rule if_P) (use True in blast)
      finally show ?thesis using True by (simp only: simp_thms if_True)
    next
      case False
      then have "dsk st' (unat ?c * BLK_SIZE + p mod BLK_SIZE) = dsk st (unat ?c * BLK_SIZE + p mod BLK_SIZE)"
        unfolding dp by (intro if_not_P) blast
      then show ?thesis unfolding fbyte_def sl [OF that(1)] Let_def if_not_P [OF False] by (simp only:)
    qed
  qed
  show "fbyte st' j p = fbyte st j p" if "j \<in> S" "j \<noteq> i" "p < FILE_MAX" using fb [OF that(1,3)] that(2) by simp
  show "fbyte st' i p = (if l * BLK_SIZE + unat off \<le> p \<and> p < l * BLK_SIZE + unat off + unat m
      then umem st (va + of_nat (p - (l * BLK_SIZE + unat off))) else fbyte st i p)" if p: "p < FILE_MAX"
  proof -
    have "p = p div BLK_SIZE * BLK_SIZE + p mod BLK_SIZE" by simp
    then have "p - (l * BLK_SIZE + unat off) = p mod BLK_SIZE - unat off" if "p div BLK_SIZE = l" using that by linarith
    then show ?thesis unfolding fb [OF i p] in_block [OF len] by (intro if_cong) auto
  qed
qed

subsection \<open>Writing to a file\<close>

lemma unat_part: "unat (part len tot offset) = min (unat (len - tot)) (BLK_SIZE - unat offset mod BLK_SIZE)"
proof -
  have u: "unat (offset mod of_nat BLK_SIZE) = unat offset mod BLK_SIZE" by (simp add: unat_mod)
  then have "offset mod of_nat BLK_SIZE \<le> (of_nat BLK_SIZE :: u32)" by (simp add: word_le_nat_alt)
  then have "unat (of_nat BLK_SIZE - offset mod of_nat BLK_SIZE) = BLK_SIZE - unat offset mod BLK_SIZE" using u by (simp add: unat_sub)
  then show ?thesis by (simp add: part_def min_def word_le_nat_alt)
qed

text \<open>The turns of a transfer's loop.\<close>

definition turns :: "nat \<Rightarrow> nat \<Rightarrow> nat" where
  "turns pos n = (if n = 0 then 0 else (pos mod BLK_SIZE + n - 1) div BLK_SIZE + 1)"

lemma turns_step:
  assumes "0 < n" and m: "m = min n (BLK_SIZE - pos mod BLK_SIZE)"
  shows "turns pos n = Suc (turns (pos + m) (n - m))"
proof (cases "n \<le> BLK_SIZE - pos mod BLK_SIZE")
  case True
  moreover have "pos mod BLK_SIZE < BLK_SIZE" by simp
  ultimately have "pos mod BLK_SIZE + n - 1 < BLK_SIZE" using assms(1) by linarith
  with True assms show ?thesis by (simp add: turns_def)
next
  case False
  have r: "pos mod BLK_SIZE < BLK_SIZE" by simp
  have m: "m = BLK_SIZE - pos mod BLK_SIZE" using m False by simp
  have "pos + m = (pos div BLK_SIZE + 1) * BLK_SIZE" using m r div_mult_mod_eq [of pos BLK_SIZE] unfolding add_mult_distrib by linarith
  then have z: "(pos + m) mod BLK_SIZE = 0" by (metis mod_mult_self2_is_0)
  have "pos mod BLK_SIZE + n - 1 = (n - m - 1) + BLK_SIZE" using False m r by linarith
  then have "(pos mod BLK_SIZE + n - 1) div BLK_SIZE = (n - m - 1) div BLK_SIZE + 1" by simp
  moreover have "n - m \<noteq> 0" "n \<noteq> 0" using False m by simp_all
  ultimately show ?thesis unfolding turns_def using z by (simp only: if_False add_0)
qed

definition written :: "nat set \<Rightarrow> nat \<Rightarrow> nat \<Rightarrow> nat \<Rightarrow> u64 \<Rightarrow> efs \<Rightarrow> efs \<Rightarrow> bool" where
  "written S i pos n va st st' \<longleftrightarrow> umem st' = umem st \<and> links_e st' = links_e st \<and> dentries st' = dentries st \<and>
     (\<forall>j. j \<noteq> i \<longrightarrow> inodes st' j = inodes st j) \<and> i_size (i_di (inodes st' i)) = i_size (i_di (inodes st i)) \<and>
     i_slock (inodes st' i) = i_slock (inodes st i) \<and>
     (\<forall>p < FILE_MAX. fbyte st' i p = (if pos \<le> p \<and> p < pos + n then umem st (va + of_nat (p - pos)) else fbyte st i p)) \<and>
     (\<forall>j \<in> S. j \<noteq> i \<longrightarrow> (\<forall>p < FILE_MAX. fbyte st' j p = fbyte st j p)) \<and>
     (\<forall>p. pos \<le> p \<and> p < pos + n \<longrightarrow> slots_of st' i ! slot (p div BLK_SIZE) \<noteq> 0) \<and>
     (\<forall>k < MAXFILE + 1. slots_of st i ! k \<noteq> 0 \<longrightarrow> slots_of st' i ! k = slots_of st i ! k)"

lemma written_trans:
  assumes w1: "written S i pos m va st st1" and w2: "written S i (pos + m) n (va + of_nat m) st1 st2" and fit: "pos + m + n \<le> FILE_MAX"
  shows "written S i pos (m + n) va st st2"
proof -
  have um: "umem st1 = umem st" using w1 by (simp add: written_def)
  have f1: "fbyte st1 i p = (if pos \<le> p \<and> p < pos + m then umem st (va + of_nat (p - pos)) else fbyte st i p)" if "p < FILE_MAX" for p
    using w1 that unfolding written_def by blast
  have f2: "fbyte st2 i p = (if pos + m \<le> p \<and> p < pos + m + n then umem st (va + of_nat m + of_nat (p - (pos + m))) else fbyte st1 i p)"
    if "p < FILE_MAX" for p
    using w2 that unfolding written_def um by blast
  have "fbyte st2 i p = (if pos \<le> p \<and> p < pos + (m + n) then umem st (va + of_nat (p - pos)) else fbyte st i p)" if "p < FILE_MAX" for p
  proof (cases "pos + m \<le> p \<and> p < pos + m + n")
    case True
    then have "va + of_nat m + of_nat (p - (pos + m)) = va + of_nat (p - pos)" by (simp add: algebra_simps flip: of_nat_add)
    with f2 [OF that] True show ?thesis by (simp only: simp_thms if_True) simp
  next
    case False
    then have "pos \<le> p \<and> p < pos + m \<longleftrightarrow> pos \<le> p \<and> p < pos + (m + n)" by linarith
    with f2 [OF that] f1 [OF that] if_not_P [OF False] show ?thesis by (simp only:)
  qed
  moreover have "slots_of st2 i ! slot (p div BLK_SIZE) \<noteq> 0" if p: "pos \<le> p \<and> p < pos + (m + n)" for p
  proof (cases "p < pos + m")
    case True
    have "p < FILE_MAX" using p fit by linarith
    then have "slot (p div BLK_SIZE) < MAXFILE + 1" by (rule slot_less [OF file_block])
    moreover have "slots_of st1 i ! slot (p div BLK_SIZE) \<noteq> 0" using w1 p True unfolding written_def by blast
    ultimately show ?thesis using w2 unfolding written_def by metis
  next
    case False
    then have "pos + m \<le> p \<and> p < pos + m + n" using p by linarith
    then show ?thesis using w2 unfolding written_def by blast
  qed
  moreover have "\<forall>k < MAXFILE + 1. slots_of st i ! k \<noteq> 0 \<longrightarrow> slots_of st2 i ! k = slots_of st i ! k"
    using w1 w2 unfolding written_def by metis
  ultimately show ?thesis using w1 w2 unfolding written_def by simp
qed

lemma written_none: "written S i pos 0 va st st"
  by (auto simp: written_def)

lemma written_bmapped:
  assumes "bmapped i st st1" and "written S i pos n va st1 st2"
  shows "written S i pos n va st st2"
proof -
  note fb = bmapped_fbyte [OF assms(1)]
  have um: "umem st1 = umem st" using assms(1) by (simp add: bmapped_def)
  have "\<forall>k < MAXFILE + 1. slots_of st i ! k \<noteq> 0 \<longrightarrow> slots_of st2 i ! k = slots_of st i ! k"
    using assms unfolding written_def bmapped_def by metis
  then show ?thesis using assms fb unfolding written_def um bmapped_def by simp
qed

text \<open>One turn of a transfer's loop.\<close>

lemma turn_facts:
  assumes lt: "tot < len" and fit: "unat offset + unat (len - tot) \<le> FILE_MAX" and m: "m = part len tot offset"
  shows "0 < unat m" "unat m \<le> unat (len - tot)" "unat offset mod BLK_SIZE + unat m \<le> BLK_SIZE"
    "unat m = min (unat (len - tot)) (BLK_SIZE - unat offset mod BLK_SIZE)"
    "unat (len - (tot + m)) = unat (len - tot) - unat m" "unat (len - (tot + m)) < unat (len - tot)"
    "unat (offset + m) = unat offset + unat m" "tot + m \<le> len" "unat offset div BLK_SIZE < MAXFILE"
    "uint (offset div of_nat BLK_SIZE) = int (unat offset div BLK_SIZE)" "unat (offset mod of_nat BLK_SIZE) = unat offset mod BLK_SIZE"
proof -
  have n0: "0 < unat (len - tot)" using lt by (simp add: unat_gt_0)
  show um: "unat m = min (unat (len - tot)) (BLK_SIZE - unat offset mod BLK_SIZE)" unfolding m by (rule unat_part)
  show mn: "unat m \<le> unat (len - tot)" and "unat offset mod BLK_SIZE + unat m \<le> BLK_SIZE" using um by auto
  show m0: "0 < unat m" using part_pos [OF lt, of offset] by (simp add: m unat_gt_0)
  have "m \<le> len - tot" using mn by (simp add: word_le_nat_alt)
  then have "unat (len - tot - m) = unat (len - tot) - unat m" by (rule unat_sub)
  then show rest: "unat (len - (tot + m)) = unat (len - tot) - unat m" by (simp add: algebra_simps)
  show "unat (len - (tot + m)) < unat (len - tot)" using rest n0 m0 by simp
  show "unat (offset + m) = unat offset + unat m" using fit mn by (intro unat_plus_small) simp
  have "unat (len - tot) = unat len - unat tot" using lt by (intro unat_sub) simp
  then have "unat tot + unat m \<le> unat len" using mn lt by (simp add: word_less_nat_alt)
  then show "tot + m \<le> len" using unat_lt2p [of len] by (simp add: word_le_nat_alt unat_plus_small)
  show "unat offset div BLK_SIZE < MAXFILE" using fit n0 by (intro file_block) linarith
  show "uint (offset div of_nat BLK_SIZE) = int (unat offset div BLK_SIZE)" by (simp add: uint_div zdiv_int)
  show "unat (offset mod of_nat BLK_SIZE) = unat offset mod BLK_SIZE" by (simp add: unat_mod)
qed

lemma buffer_rest:
  fixes va :: u64
  assumes "\<forall>j < n. va + of_nat j \<noteq> 0" and "0 < n"
  shows "va \<noteq> 0" and "\<forall>j < n - m. va + of_nat m + of_nat j \<noteq> 0"
proof -
  show "va \<noteq> 0" using spec [OF assms(1), of 0] assms(2) by simp
  show "\<forall>j < n - m. va + of_nat m + of_nat j \<noteq> 0"
  proof (intro allI impI)
    fix j assume "j < n - m"
    then have "m + j < n" by linarith
    then have "va + of_nat (m + j) \<noteq> 0" using assms(1) by blast
    then show "va + of_nat m + of_nat j \<noteq> 0" by (simp add: add.assoc)
  qed
qed

lemma efs_i_write_loop_ok:
  assumes "efs_ok st S" and i: "i \<in> S" and "tot \<le> len" and "unat offset + unat (len - tot) \<le> FILE_MAX"
    and "2 * turns (unat offset) (unat (len - tot)) \<le> nfree st" and "\<forall>j < unat (len - tot). va + of_nat j \<noteq> 0"
  shows "\<exists>st'. efs_i_write_loop i len tot offset va st = Inr (len, offset + (len - tot), st') \<and> efs_ok st' S \<and>
    written S i (unat offset) (unat (len - tot)) va st st'"
  using assms(1,3-)
proof (induction "unat (len - tot)" arbitrary: tot offset va st rule: less_induct)
  case less
  let ?n = "unat (len - tot)" and ?o = "unat offset"
  show ?case
  proof (cases "tot < len")
    case False
    then have "tot = len" using less.prems(2) by simp
    with less.prems(1) show ?thesis by (subst efs_i_write_loop.simps) (simp add: written_none)
  next
    case True
    define m where "m = part len tot offset"
    note tf = turn_facts [OF True less.prems(3) m_def]
    have n0: "0 < ?n" using tf(1,2) by linarith
    have tn: "turns ?o ?n = Suc (turns (?o + unat m) (?n - unat m))" by (rule turns_step [OF n0 tf(4)])
    define l where "l = ?o div BLK_SIZE"
    note l = tf(9) [folded l_def] and lb = tf(10) [folded l_def] and off = tf(11) and mn = tf(2,3) and rest = tf(5) and uo = tf(7)
    have ol: "?o = l * BLK_SIZE + ?o mod BLK_SIZE" unfolding l_def by simp
    have fr: "2 \<le> nfree st" using less.prems(4) tn by simp
    obtain b st1 where st1: "efs_i_bmap i (int l) True st = Inr (b, st1)" "b \<noteq> 0" "efs_ok st1 S" "bmapped i st st1"
      "slots_of st1 i ! slot l = b" "nfree st \<le> nfree st1 + 2"
      by (rule efs_i_bmap_alloc [OF less.prems(1) i l fr])
    note va = buffer_rest [OF less.prems(5) n0]
    define st2 where "st2 = store_buf b (offset mod of_nat BLK_SIZE) m va st1"
    have fits: "unat (offset mod of_nat BLK_SIZE) + unat m \<le> BLK_SIZE" using mn(2) off by simp
    note sb = store_buf_ok [OF st1(3) i l st1(5) [symmetric] st1(2) fits va(1), folded st2_def, unfolded off ol [symmetric]]
    have w1: "written S i ?o (unat m) va st1 st2"
    proof -
      have "slots_of st2 i ! slot (p div BLK_SIZE) \<noteq> 0" if "?o \<le> p \<and> p < ?o + unat m" for p
      proof -
        have "p div BLK_SIZE = l" using that in_block [OF mn(2), of l p] unfolding ol [symmetric] by blast
        then show ?thesis using sb(4) [OF i] st1(2,5) by simp
      qed
      then show ?thesis unfolding written_def using sb i by (simp add: st2_def)
    qed
    have um2: "umem st2 = umem st" using st1(4) by (simp add: st2_def bmapped_def)
    have uc: "ucast m = (of_nat (unat m) :: u64)" by simp
    have "\<exists>st'. efs_i_write_loop i len (tot + m) (offset + m) (va + of_nat (unat m)) st2 = Inr (len, offset + m + (len - (tot + m)), st') \<and>
      efs_ok st' S \<and> written S i (unat (offset + m)) (unat (len - (tot + m))) (va + of_nat (unat m)) st2 st'"
    proof (rule less.hyps [OF tf(6) sb(1) tf(8)])
      show "unat (offset + m) + unat (len - (tot + m)) \<le> FILE_MAX" unfolding uo rest using less.prems(3) mn(1) by simp
      show "2 * turns (unat (offset + m)) (unat (len - (tot + m))) \<le> nfree st2"
        unfolding uo rest using less.prems(4) tn st1(6) by (simp add: st2_def)
      show "\<forall>j < unat (len - (tot + m)). va + of_nat (unat m) + of_nat j \<noteq> 0" unfolding rest by (rule va(2))
    qed
    then obtain st' where st': "efs_i_write_loop i len (tot + m) (offset + m) (va + of_nat (unat m)) st2 = Inr (len, offset + m + (len - (tot + m)), st')"
      "efs_ok st' S" "written S i (?o + unat m) (?n - unat m) (va + of_nat (unat m)) st2 st'" unfolding uo rest by blast
    have run: "efs_i_write_loop i len tot offset va st = Inr (len, offset + (len - tot), st')"
      unfolding efs_i_write_loop.simps [of i len tot] if_P [OF True] lb st1(1) bindR_simps prod.case if_not_P [OF st1(2)] Let_def
        m_def [symmetric] uc st2_def [symmetric] st'(1) by (simp add: algebra_simps)
    have "written S i ?o (unat m + (?n - unat m)) va st1 st'"
      by (rule written_trans [OF w1 st'(3)]) (use less.prems(3) mn(1) in simp)
    then have "written S i ?o ?n va st st'" using written_bmapped [OF st1(4)] mn(1) by simp
    with run st'(2) show ?thesis by blast
  qed
qed

subsection \<open>Reading a file\<close>

definition loaded_file :: "nat set \<Rightarrow> nat \<Rightarrow> nat \<Rightarrow> nat \<Rightarrow> u64 \<Rightarrow> efs \<Rightarrow> efs \<Rightarrow> bool" where
  "loaded_file S i pos n va st st' \<longleftrightarrow> dsk st' = dsk st \<and> links_e st' = links_e st \<and> dentries st' = dentries st \<and> efs_ok st' S \<and>
     (\<forall>j. slots_of st' j = slots_of st j) \<and> (\<forall>j. j \<noteq> i \<longrightarrow> inodes st' j = inodes st j) \<and>
     i_size (i_di (inodes st' i)) = i_size (i_di (inodes st i)) \<and> i_slock (inodes st' i) = i_slock (inodes st i) \<and>
     (\<forall>a. umem st' a = (if unat (a - va) < n then fbyte st i (pos + unat (a - va)) else umem st a))"

lemma loaded_fbyte: "loaded_file S i pos n va st st' \<Longrightarrow> fbyte st' j p = fbyte st j p"
  by (simp add: loaded_file_def fbyte_def Let_def)

lemma unat_shift:
  fixes a va :: u64
  assumes "m + n < 2 ^ 64"
  shows "m \<le> unat (a - va) \<Longrightarrow> unat (a - (va + of_nat m)) = unat (a - va) - m"
    and "unat (a - va) < m \<Longrightarrow> n \<le> unat (a - (va + of_nat m))"
proof -
  have um: "unat (of_nat m :: u64) = m" using assms by (intro unat_of_nat_small) simp
  have e: "a - (va + of_nat m) = (a - va) - of_nat m" by (simp add: algebra_simps)
  show "unat (a - (va + of_nat m)) = unat (a - va) - m" if "m \<le> unat (a - va)"
    unfolding e using that um by (subst unat_sub) (simp_all add: word_le_nat_alt)
  show "n \<le> unat (a - (va + of_nat m))" if "unat (a - va) < m"
  proof -
    have "unat (a - va - of_nat m) = 2 ^ 64 + unat (a - va) - m" using that um assms by (simp add: unat_sub_if')
    then show ?thesis unfolding e using assms by linarith
  qed
qed

lemma loaded_trans:
  assumes l1: "loaded_file S i pos m va st st1" and l2: "loaded_file S i (pos + m) n (va + of_nat m) st1 st2" and nm: "m + n < 2 ^ 64"
  shows "loaded_file S i pos (m + n) va st st2"
proof -
  have "umem st2 a = (if unat (a - va) < m + n then fbyte st i (pos + unat (a - va)) else umem st a)" for a
  proof -
    let ?d = "unat (a - va)" and ?e = "unat (a - (va + of_nat m))"
    have u1: "umem st1 a = (if ?d < m then fbyte st i (pos + ?d) else umem st a)" using l1 by (simp add: loaded_file_def)
    have u2: "umem st2 a = (if ?e < n then fbyte st i (pos + m + ?e) else umem st1 a)"
      using l2 loaded_fbyte [OF l1] by (simp add: loaded_file_def)
    show ?thesis
    proof (cases "?d < m")
      case True
      then show ?thesis using u1 u2 unat_shift(2) [OF nm True] by simp
    next
      case False
      then have e: "?e = ?d - m" using unat_shift(1) [OF nm, of a va] by simp
      then have "?e < n \<longleftrightarrow> ?d < m + n" "pos + m + ?e = pos + ?d" using False by linarith+
      then show ?thesis using u1 u2 False by (simp only: if_False)
    qed
  qed
  then show ?thesis using l1 l2 unfolding loaded_file_def by simp
qed

lemma load_buf_simps [simp]:
  "inodes (load_buf b off m va st) = inodes st" "dsk (load_buf b off m va st) = dsk st" "bmap (load_buf b off m va st) = bmap st"
  "held (load_buf b off m va st) = held st" "links_e (load_buf b off m va st) = links_e st"
  "dentries (load_buf b off m va st) = dentries st"
  by (simp_all add: load_buf_def)

lemma efs_i_read_loop_ok:
  assumes "efs_ok st S" and i: "i \<in> S" and "tot \<le> len" and "unat offset + unat (len - tot) \<le> FILE_MAX"
    and "\<forall>p. unat offset \<le> p \<and> p < unat offset + unat (len - tot) \<longrightarrow> slots_of st i ! slot (p div BLK_SIZE) \<noteq> 0"
    and "\<forall>j < unat (len - tot). va + of_nat j \<noteq> 0"
  shows "\<exists>st'. efs_i_read_loop i len tot offset va st = Inr (len, st') \<and> loaded_file S i (unat offset) (unat (len - tot)) va st st'"
  using assms(1,3-)
proof (induction "unat (len - tot)" arbitrary: tot offset va st rule: less_induct)
  case less
  let ?n = "unat (len - tot)" and ?o = "unat offset"
  show ?case
  proof (cases "tot < len")
    case False
    then have "tot = len" using less.prems(2) by simp
    with less.prems(1) show ?thesis by (subst efs_i_read_loop.simps) (simp add: loaded_file_def)
  next
    case True
    define m where "m = part len tot offset"
    note tf = turn_facts [OF True less.prems(3) m_def]
    have n0: "0 < ?n" using tf(1,2) by linarith
    define l where "l = ?o div BLK_SIZE"
    note l = tf(9) [folded l_def] and lb = tf(10) [folded l_def] and off = tf(11) and mn = tf(2,3) and rest = tf(5) and uo = tf(7)
    have ol: "?o = l * BLK_SIZE + ?o mod BLK_SIZE" unfolding l_def by simp
    let ?b = "slots_of st i ! slot l"
    have b: "?b \<noteq> 0" using spec [OF less.prems(4), of ?o] n0 by (simp add: l_def)
    obtain st1 where st1: "efs_i_bmap i (int l) False st = Inr (?b, st1)" "efs_ok st1 S" "bmapped i st st1" "slots_of st1 i = slots_of st i"
      using efs_i_bmap_lookup [OF less.prems(1) i l] by blast
    have sl1: "slots_of st1 j = slots_of st j" for j using st1(4) bmapped_other [OF st1(3), of j] by (cases "j = i") simp_all
    note va2 = buffer_rest [OF less.prems(5) n0] and va = buffer_rest(1) [OF less.prems(5) n0]
    define st2 where "st2 = load_buf ?b (offset mod of_nat BLK_SIZE) m va st1"
    have sl2: "slots_of st2 j = slots_of st1 j" for j by (rule slots_cong) (simp_all add: st2_def)
    have ok2: "efs_ok st2 S" by (rule efs_ok_cong [OF _ _ _ _ _ st1(2)]) (use sl2 efs_okD(5) [OF st1(2)] in \<open>simp_all add: st2_def\<close>)
    have d1: "dsk st1 = dsk st" "umem st1 = umem st" using st1(3) by (simp_all add: bmapped_def)
    have l1: "loaded_file S i ?o (unat m) va st st2"
    proof -
      have "umem st2 a = (if unat (a - va) < unat m then fbyte st i (?o + unat (a - va)) else umem st a)" for a
      proof (cases "unat (a - va) < unat m")
        case True
        then have lt: "?o mod BLK_SIZE + unat (a - va) < BLK_SIZE" using mn(2) by linarith
        have pos: "?o + unat (a - va) = l * BLK_SIZE + (?o mod BLK_SIZE + unat (a - va))" using ol by linarith
        have q: "(?o + unat (a - va)) div BLK_SIZE = l" "(?o + unat (a - va)) mod BLK_SIZE = ?o mod BLK_SIZE + unat (a - va)"
          unfolding pos using lt by simp_all
        have "umem st2 a = dsk st (unat ?b * BLK_SIZE + ?o mod BLK_SIZE + unat (a - va))"
          using True va by (simp add: st2_def load_buf_def disk_pos_def off [simplified] d1)
        also have "\<dots> = fbyte st i (?o + unat (a - va))" unfolding fbyte_def q Let_def if_not_P [OF b] by (simp only: add.assoc)
        finally show ?thesis using True by simp
      qed (use va in \<open>simp add: st2_def load_buf_def d1\<close>)
      then show ?thesis using st1(3) ok2 sl1 sl2 d1 unfolding loaded_file_def by (simp add: st2_def bmapped_def)
    qed
    have uc: "ucast m = (of_nat (unat m) :: u64)" by simp
    have "\<exists>st'. efs_i_read_loop i len (tot + m) (offset + m) (va + of_nat (unat m)) st2 = Inr (len, st') \<and>
      loaded_file S i (unat (offset + m)) (unat (len - (tot + m))) (va + of_nat (unat m)) st2 st'"
    proof (rule less.hyps [OF tf(6) ok2 tf(8)])
      show "unat (offset + m) + unat (len - (tot + m)) \<le> FILE_MAX" unfolding uo rest using less.prems(3) mn(1) by simp
      show "\<forall>p. unat (offset + m) \<le> p \<and> p < unat (offset + m) + unat (len - (tot + m)) \<longrightarrow> slots_of st2 i ! slot (p div BLK_SIZE) \<noteq> 0"
        unfolding uo rest sl2 sl1 using less.prems(4) mn(1) by simp
      show "\<forall>j < unat (len - (tot + m)). va + of_nat (unat m) + of_nat j \<noteq> 0" unfolding rest by (rule va2(2))
    qed
    then obtain st' where st': "efs_i_read_loop i len (tot + m) (offset + m) (va + of_nat (unat m)) st2 = Inr (len, st')"
      "loaded_file S i (?o + unat m) (?n - unat m) (va + of_nat (unat m)) st2 st'" unfolding uo rest by blast
    have run: "efs_i_read_loop i len tot offset va st = Inr (len, st')"
      unfolding efs_i_read_loop.simps [of i len tot] if_P [OF True] lb st1(1) bindR_simps prod.case if_not_P [OF b] Let_def
        m_def [symmetric] uc st2_def [symmetric] st'(1) ..
    have "loaded_file S i ?o (unat m + (?n - unat m)) va st st'"
      by (rule loaded_trans [OF l1 st'(2)]) (use mn(1) unat_lt2p [of "len - tot"] in simp)
    then show ?thesis using run mn(1) by simp
  qed
qed

subsection \<open>The operations\<close>

text \<open>What the operations do to an inode besides its blocks: the sleep lock, the size, the flags.\<close>

definition same_blocks :: "efs \<Rightarrow> efs \<Rightarrow> bool" where
  "same_blocks st st' \<longleftrightarrow> bmap st' = bmap st \<and> held st' = held st \<and> dsk st' = dsk st \<and> umem st' = umem st \<and>
     (\<forall>j. i_indir (inodes st' j) = i_indir (inodes st j) \<and> i_addrs (i_di (inodes st' j)) = i_addrs (i_di (inodes st j)))"

lemma same_blocksD:
  assumes "same_blocks st st'"
  shows "slots_of st' j = slots_of st j" "fbyte st' j p = fbyte st j p" "efs_ok st' S = efs_ok st S" "nfree st' = nfree st"
    "umem st' = umem st"
proof -
  show sl: "slots_of st' j = slots_of st j" for j
    using assms indir_of_cong [of st' j st] unfolding same_blocks_def slots_of_def by simp
  show "fbyte st' j p = fbyte st j p" using assms sl unfolding same_blocks_def fbyte_def Let_def by simp
  show "efs_ok st' S = efs_ok st S"
    using assms sl unfolding same_blocks_def efs_ok_def clean_def slots_ok_def inode_wf_def by simp
  show "nfree st' = nfree st" "umem st' = umem st" using assms by (simp_all add: same_blocks_def nfree_def)
qed

lemma sleep_i_ok:
  assumes "i_slock (inodes st i) = 1"
  obtains st' where "sleep_i i st = Inr st'" and "same_blocks st st'" and "i_slock (inodes st' i) = 0"
    and "i_di (inodes st' i) = i_di (inodes st i)" and "\<forall>j. j \<noteq> i \<longrightarrow> inodes st' j = inodes st j"
  by (rule that [of "upd_inode i (\<lambda>x. x\<lparr>i_slock := 0\<rparr>) st"])
    (use assms in \<open>simp_all add: sleep_i_def sleep_on_def upd_inode_def same_blocks_def\<close>)

definition finish_write :: "nat \<Rightarrow> u32 \<Rightarrow> efs \<Rightarrow> efs" where
  "finish_write i offset st =
     (let st = (if offset > i_size (i_di (inodes st i)) then upd_di i (\<lambda>d. d\<lparr>i_size := offset\<rparr>) st else st)
      in wake_i i (efs_i_sdirty i st))"

lemma finish_write_locks:
  assumes "held st = {}"
  shows "bindR (spin_on S_lock st) (\<lambda>st. bindR (spin_on (I_lock i) st) (\<lambda>st.
      let st = (if offset > i_size (i_di (inodes st i)) then upd_di i (\<lambda>d. d\<lparr>i_size := offset\<rparr>) st else st)
      in bindR (spin_off (I_lock i) (efs_i_sdirty i st)) (\<lambda>st. bindR (spin_off S_lock st) (\<lambda>st. Inr (r, wake_i i st))))) =
    Inr (r, finish_write i offset st)"
proof -
  have s: "st\<lparr>held := {}\<rparr> = st" using assms by simp
  show ?thesis
    using assms arg_cong [OF s, of inodes] arg_cong [OF s, of links_e]
    by (simp add: spin_on_def spin_off_def Let_def finish_write_def efs_i_sdirty_def upd_links_def upd_di_def upd_inode_def wake_i_def)
qed

lemma finish_write_ok:
  "same_blocks st (finish_write i offset st)"
  "i_size (i_di (inodes (finish_write i offset st) i)) = max (i_size (i_di (inodes st i))) offset"
  "i_slock (inodes (finish_write i offset st) i) = i_slock (inodes st i) + 1"
  "j \<noteq> i \<Longrightarrow> inodes (finish_write i offset st) j = inodes st j"
  by (simp_all add: finish_write_def same_blocks_def efs_i_sdirty_def upd_links_def upd_di_def upd_inode_def wake_i_def Let_def max_def less_imp_le)

definition file_written :: "nat set \<Rightarrow> nat \<Rightarrow> u32 \<Rightarrow> u32 \<Rightarrow> u64 \<Rightarrow> efs \<Rightarrow> efs \<Rightarrow> bool" where
  "file_written S i offset len va st st' \<longleftrightarrow> efs_ok st' S \<and> umem st' = umem st \<and> i_slock (inodes st' i) = 1 \<and>
     i_size (i_di (inodes st' i)) = max (i_size (i_di (inodes st i))) (offset + len) \<and>
     (\<forall>p < FILE_MAX. fbyte st' i p =
        (if unat offset \<le> p \<and> p < unat offset + unat len then umem st (va + of_nat (p - unat offset)) else fbyte st i p)) \<and>
     (\<forall>j \<in> S - {i}. inodes st' j = inodes st j \<and> (\<forall>p < FILE_MAX. fbyte st' j p = fbyte st j p)) \<and>
     (\<forall>p. unat offset \<le> p \<and> p < unat offset + unat len \<longrightarrow> slots_of st' i ! slot (p div BLK_SIZE) \<noteq> 0) \<and>
     (\<forall>k < MAXFILE + 1. slots_of st i ! k \<noteq> 0 \<longrightarrow> slots_of st' i ! k = slots_of st i ! k)"

lemma sint_block: "unat (b :: u32) < 2 ^ 31 \<Longrightarrow> sint b = int (unat b)"
proof -
  assume "unat b < 2 ^ 31"
  then have "int (unat b) < 2 ^ 31" by (simp only: of_nat_less_numeral_power_cancel_iff)
  then have "uint b < 2 ^ 31" by (simp only: uint_nat)
  then have "sint b = uint b" unfolding sint_uint by (intro signed_take_bit_int_eq_self order_trans [OF _ uint_ge_0]) simp_all
  then show ?thesis by (simp only: uint_nat)
qed

lemma no_wrap32:
  fixes offset len :: u32
  assumes "unat offset + unat len \<le> FILE_MAX"
  shows "unat (offset + len) = unat offset + unat len" "\<not> offset + len < offset" "sint len = int (unat len)"
proof -
  show u: "unat (offset + len) = unat offset + unat len" using assms by (intro unat_plus_small) simp
  then show "\<not> offset + len < offset" by (simp add: word_less_nat_alt)
  have "unat len < 2 ^ 31" using assms by simp
  then show "sint len = int (unat len)" by (rule sint_block)
qed

lemma efs_i_write_ok:
  assumes ok: "efs_ok st S" and i: "i \<in> S" and sl: "i_slock (inodes st i) = 1" and off: "offset \<le> i_size (i_di (inodes st i))"
    and fit: "unat offset + unat len \<le> FILE_MAX" and free: "2 * turns (unat offset) (unat len) \<le> nfree st"
    and buf: "\<forall>j < unat len. va + of_nat j \<noteq> 0"
  shows "\<exists>st'. efs_i_write i offset len va st = Inr (int (unat len), st') \<and> file_written S i offset len va st st'"
proof -
  note nw = no_wrap32 [OF fit]
  obtain st1 where st1: "sleep_i i st = Inr st1" "same_blocks st st1" "i_slock (inodes st1 i) = 0"
    "i_di (inodes st1 i) = i_di (inodes st i)" "\<forall>j. j \<noteq> i \<longrightarrow> inodes st1 j = inodes st j" by (rule sleep_i_ok [OF sl])
  note sb1 = same_blocksD [OF st1(2)]
  have "\<exists>st2. efs_i_write_loop i len 0 offset va st1 = Inr (len, offset + (len - 0), st2) \<and> efs_ok st2 S \<and>
      written S i (unat offset) (unat (len - 0)) va st1 st2"
    by (rule efs_i_write_loop_ok) (use ok i fit free buf in \<open>simp_all add: sb1\<close>)
  then obtain st2 where st2: "efs_i_write_loop i len 0 offset va st1 = Inr (len, offset + len, st2)" "efs_ok st2 S"
    "written S i (unat offset) (unat len) va st1 st2" by auto
  note fw = finish_write_ok [where i = i and offset = "offset + len" and st = st2]
  note sb2 = same_blocksD [OF fw(1)]
  have c: "\<not> (offset > i_size (i_di (inodes st i)) \<or> offset + len < offset)" "\<not> unat (offset + len) > MAXFILE * BLK_SIZE"
    using off nw fit by (simp_all add: not_less)
  have "efs_i_write i offset len va st = Inr (sint len, finish_write i (offset + len) st2)"
    unfolding efs_i_write_def if_not_P [OF c(1)] if_not_P [OF c(2)] st1(1) bindR_simps st2(1) prod.case
    by (rule finish_write_locks [OF efs_okD(4) [OF st2(2)]])
  moreover have "file_written S i offset len va st (finish_write i (offset + len) st2)"
    using st2(2,3) st1 fw unfolding file_written_def sb2 written_def sb1 by simp
  ultimately show ?thesis using nw(3) by metis
qed

lemma efs_i_read_ok:
  assumes ok: "efs_ok st S" and i: "i \<in> S" and sl: "i_slock (inodes st i) = 1" and sz: "unat offset + unat len \<le> unat (i_size (i_di (inodes st i)))"
    and fit: "unat offset + unat len \<le> FILE_MAX"
    and blk: "\<forall>p. unat offset \<le> p \<and> p < unat offset + unat len \<longrightarrow> slots_of st i ! slot (p div BLK_SIZE) \<noteq> 0"
    and buf: "\<forall>j < unat len. va + of_nat j \<noteq> 0"
  shows "\<exists>st'. efs_i_read i offset len va st = Inr (int (unat len), st') \<and> efs_ok st' S \<and> dsk st' = dsk st \<and> i_slock (inodes st' i) = 1 \<and>
    (\<forall>a. umem st' a = (if unat (a - va) < unat len then fbyte st i (unat offset + unat (a - va)) else umem st a))"
proof -
  note nw = no_wrap32 [OF fit]
  obtain st1 where st1: "sleep_i i st = Inr st1" "same_blocks st st1" "i_slock (inodes st1 i) = 0"
    "i_di (inodes st1 i) = i_di (inodes st i)" "\<forall>j. j \<noteq> i \<longrightarrow> inodes st1 j = inodes st j" by (rule sleep_i_ok [OF sl])
  note sb1 = same_blocksD [OF st1(2)]
  have "\<exists>st2. efs_i_read_loop i len 0 offset va st1 = Inr (len, st2) \<and> loaded_file S i (unat offset) (unat (len - 0)) va st1 st2"
    by (rule efs_i_read_loop_ok) (use ok i fit blk buf in \<open>simp_all add: sb1\<close>)
  then obtain st2 where st2: "efs_i_read_loop i len 0 offset va st1 = Inr (len, st2)" "loaded_file S i (unat offset) (unat len) va st1 st2"
    by auto
  have "offset \<le> i_size (i_di (inodes st i))" "offset + len \<le> i_size (i_di (inodes st i))" using sz nw(1) by (simp_all add: word_le_nat_alt)
  then have c: "\<not> (offset > i_size (i_di (inodes st i)) \<or> offset + len < offset)" "\<not> offset + len > i_size (i_di (inodes st i))"
    using nw(2) by (simp_all add: not_less)
  have run: "efs_i_read i offset len va st = Inr (int (unat len), wake_i i st2)"
    unfolding efs_i_read_def Let_def if_not_P [OF c(1)] if_not_P [OF c(2)] st1(1) bindR_simps st2(1) prod.case nw(3) ..
  have w: "same_blocks st2 (wake_i i st2)" by (simp add: same_blocks_def wake_i_def upd_inode_def)
  have "efs_ok (wake_i i st2) S" "i_slock (inodes (wake_i i st2) i) = 1" "dsk (wake_i i st2) = dsk st"
    using same_blocksD [OF w] st1(2,3) st2(2) by (simp_all add: loaded_file_def wake_i_def upd_inode_def same_blocks_def)
  moreover have "umem (wake_i i st2) a = (if unat (a - va) < unat len then fbyte st i (unat offset + unat (a - va)) else umem st a)" for a
    using st2(2) unfolding same_blocksD(5) [OF w] loaded_file_def sb1 by blast
  ultimately show ?thesis using run by blast
qed

subsection \<open>Structures on disk\<close>

lemma dec_enc32 [simp]: "dec32 (enc32 w) = w"
proof (rule bit_word_eqI)
  fix n assume n: "n < LENGTH(32)"
  then consider "n < 8" | "8 \<le> n" "n < 16" | "16 \<le> n" "n < 24" | "24 \<le> n" "n < 32" by (simp; linarith)
  then show "bit (dec32 (enc32 w)) n = bit w n"
    by cases (simp_all add: dec32_def enc32_def bit_simps less_diff_conv2)
qed

lemma dec_enc16 [simp]: "dec16 (enc16 w) = w"
proof (rule bit_word_eqI)
  fix n assume n: "n < LENGTH(16)"
  then consider "n < 8" | "8 \<le> n" "n < 16" by (simp; linarith)
  then show "bit (dec16 (enc16 w)) n = bit w n"
    by cases (simp_all add: dec16_def enc16_def bit_simps less_diff_conv2)
qed

lemma length_enc [simp]: "length (enc32 w) = 4" "length (enc16 v) = 2" "length (enc_int x) = 4"
  by (simp_all add: enc32_def enc16_def enc_int_def)

lemma dec_enc_int [simp]: "- (2 ^ 31) \<le> v \<Longrightarrow> v < 2 ^ 31 \<Longrightarrow> dec_int (enc_int v) = v"
  by (simp add: dec_int_def enc_int_def sint_sbintrunc' signed_take_bit_int_eq_self)

lemma length_enc32s [simp]: "length (concat (List.map enc32 xs)) = 4 * length xs"
  by (induction xs) simp_all

lemma take_enc32s: "i < length xs \<Longrightarrow> take 4 (drop (4 * i) (concat (List.map enc32 xs) @ ys)) = enc32 (xs ! i)"
proof (induction xs arbitrary: i)
  case (Cons x xs)
  then show ?case by (cases i) simp_all
qed simp

lemma dec_enc32s: "dec32s (length xs) (concat (List.map enc32 xs) @ ys) = xs"
  by (rule nth_equalityI) (simp_all add: nth_dec32s take_enc32s del: drop_append take_append)

definition di_wf :: "easy_d_inode \<Rightarrow> bool" where
  "di_wf d \<longleftrightarrow> length (i_addrs d) = NDIRECT + 1 \<and> - (2 ^ 31) \<le> i_nlink d \<and> i_nlink d < 2 ^ 31"

lemma length_enc_inode: "length (i_addrs d) = NDIRECT + 1 \<Longrightarrow> length (enc_inode d) = SIZEOF_INODE"
  by (simp add: enc_inode_def)

lemma dec_enc_inode:
  assumes "di_wf d"
  shows "dec_inode (enc_inode d) = d"
proof -
  have l: "length (i_addrs d) = 13" using assms by (simp add: di_wf_def)
  have "dec32s 13 (concat (List.map enc32 (i_addrs d)) @ enc_int (i_nlink d)) = i_addrs d"
    using dec_enc32s [of "i_addrs d"] unfolding l .
  moreover have "dec_int (enc_int (i_nlink d)) = i_nlink d" using assms by (simp add: di_wf_def)
  ultimately show ?thesis using l by (simp add: dec_inode_def enc_inode_def)
qed

text \<open>Where the inode \<open>i\<close> is on disk, and that its indirect block is somewhere else.\<close>

definition inode_pos :: "nat \<Rightarrow> efs \<Rightarrow> nat" where
  "inode_pos i st = disk_pos (word_of_int (inode_area_start (s_ds st))) (offset_ino (uint (i_no (i_di (inodes st i)))) st)"

definition apart :: "nat \<Rightarrow> efs \<Rightarrow> bool" where
  "apart i st \<longleftrightarrow> (let b = unat (i_addrs (i_di (inodes st i)) ! NDIRECT) * BLK_SIZE in
     inode_pos i st + SIZEOF_INODE \<le> b \<or> b + BLK_SIZE \<le> inode_pos i st)"

lemma read_write_disk:
  "n = length bs \<Longrightarrow> read_disk b off n (write_disk b off bs st) = bs"
  by (rule nth_equalityI) (simp_all add: nth_read_disk write_disk_def Let_def)

lemma read_write_disk_apart:
  assumes "disk_pos b off + n \<le> disk_pos c o' \<or> disk_pos c o' + length bs \<le> disk_pos b off"
  shows "read_disk b off n (write_disk c o' bs st) = read_disk b off n st"
  by (rule nth_equalityI) (use assms in \<open>auto simp: nth_read_disk write_disk_def Let_def\<close>)

subsection \<open>Truncating a file\<close>

definition blocks_gone :: "u32 list \<Rightarrow> efs \<Rightarrow> efs \<Rightarrow> bool" where
  "blocks_gone bs st st' \<longleftrightarrow> taken (bmap st') = taken (bmap st) - unat ` set (takeWhile (\<lambda>a. a \<noteq> 0) bs) \<and>
     map_ok (bmap st') \<and> nat (size_b (bmap st')) = nat (size_b (bmap st)) \<and>
     inodes st' = inodes st \<and> dsk st' = dsk st \<and> held st' = held st \<and> umem st' = umem st"

lemma efs_bmap_free_ok:
  assumes "map_ok (bmap st)" and "nat (size_b (bmap st)) < 2 ^ 31" and "unat (b :: u32) \<in> taken (bmap st)" and "b \<noteq> 0"
  shows "\<exists>st'. efs_bmap_free (sint b) st = Inr st' \<and> taken (bmap st') = taken (bmap st) - {unat b} \<and> map_ok (bmap st') \<and>
    nat (size_b (bmap st')) = nat (size_b (bmap st)) \<and> inodes st' = inodes st \<and> dsk st' = dsk st \<and> held st' = held st \<and> umem st' = umem st"
proof -
  have n: "unat b < nat (size_b (bmap st))" using assms(3) blocks.ids_below [OF assms(1)] by auto
  have s: "sint b = int (unat b)" by (rule sint_block) (use n assms(2) in linarith)
  have lt: "int (unat b) < size_b (bmap st)" using n by linarith
  have nz: "unat b \<noteq> 0" using assms(4) by (simp add: unat_eq_0)
  have "bitmap_is_free (sint b) (bmap st) = Inr 0" unfolding s bitmap_is_free_taken [OF assms(1) lt nz] if_P [OF assms(3)] ..
  moreover obtain m where "bitmap_free (sint b) (bmap st) = Inr m" "taken m = taken (bmap st) - {unat b}"
    "nat (size_b m) = nat (size_b (bmap st))" "map_ok m" unfolding s using blocks.free_id [OF assms(1) _ n] nz by auto
  ultimately show ?thesis by (simp add: efs_bmap_free_def)
qed

lemma free_blocks_ok:
  assumes "map_ok (bmap st)" and "nat (size_b (bmap st)) < 2 ^ 31" and "unat ` set (takeWhile (\<lambda>a. a \<noteq> 0) bs) \<subseteq> taken (bmap st)"
    and "distinct (takeWhile (\<lambda>a. a \<noteq> 0) bs)"
  shows "\<exists>st'. free_blocks bs st = Inr st' \<and> blocks_gone bs st st'"
  using assms
proof (induction bs arbitrary: st)
  case (Cons b bs)
  show ?case
  proof (cases "b = 0")
    case False
    with Cons.prems efs_bmap_free_ok [of st b] obtain st1 where st1: "efs_bmap_free (sint b) st = Inr st1"
      "taken (bmap st1) = taken (bmap st) - {unat b}" "map_ok (bmap st1)" "nat (size_b (bmap st1)) = nat (size_b (bmap st))"
      "inodes st1 = inodes st" "dsk st1 = dsk st" "held st1 = held st" "umem st1 = umem st" by auto
    have "unat ` set (takeWhile (\<lambda>a. a \<noteq> 0) bs) \<subseteq> taken (bmap st1)" using Cons.prems(3,4) False by (auto simp: st1(2) simp flip: word_unat_eq_iff)
    then obtain st' where st': "free_blocks bs st1 = Inr st'" "blocks_gone bs st1 st'"
      using Cons.IH [OF st1(3)] Cons.prems(2,4) False st1(4) by auto
    have "blocks_gone (b # bs) st st'" using st'(2) st1(2-) False unfolding blocks_gone_def by auto
    with st'(1) st1(1) False show ?thesis by simp
  qed (use Cons.prems in \<open>simp add: blocks_gone_def\<close>)
qed (simp add: blocks_gone_def)

lemma taken_nth:
  assumes "a \<in> set (takeWhile P xs)"
  obtains k where "k < length xs" and "xs ! k = a" and "P a"
  using assms by (metis in_set_conv_nth set_takeWhileD)

text \<open>The blocks in an inode's own addresses, and those in its table.\<close>

lemma inode_blocks:
  assumes ok: "efs_ok st S" and i: "i \<in> S"
  shows "unat ` set (takeWhile (\<lambda>a. a \<noteq> 0) (i_addrs (i_di (inodes st i)))) \<subseteq> taken (bmap st)"
    and "distinct (takeWhile (\<lambda>a. a \<noteq> 0) (i_addrs (i_di (inodes st i))))"
    and "i_indir (inodes st i) = Some blk \<Longrightarrow> unat ` set (takeWhile (\<lambda>a. a \<noteq> 0) blk) \<subseteq>
      taken (bmap st) - unat ` set (takeWhile (\<lambda>a. a \<noteq> 0) (i_addrs (i_di (inodes st i))))"
    and "i_indir (inodes st i) = Some blk \<Longrightarrow> distinct (takeWhile (\<lambda>a. a \<noteq> 0) blk)"
proof -
  let ?a = "i_addrs (i_di (inodes st i))"
  have wf: "inode_wf (inodes st i)" by (rule efs_okD(5) [OF ok i])
  then have la: "length ?a = NDIRECT + 1" by (simp add: inode_wf_def)
  have sa: "slots_of st i ! k = ?a ! k" if "k < length ?a" for k using slots_direct [OF wf, of k] that la by simp
  have inj: "k = l" if "k < MAXFILE + 1" "l < MAXFILE + 1" "slots_of st i ! k \<noteq> 0" "slots_of st i ! k = slots_of st i ! l" for k l
    using efs_okD(6) [OF ok] i that unfolding slots_ok_def by blast
  have us: "unat (slots_of st i ! k) \<in> taken (bmap st)" if "k < MAXFILE + 1" "slots_of st i ! k \<noteq> 0" for k
    using efs_okD(6) [OF ok] i that unfolding slots_ok_def by blast
  show "unat ` set (takeWhile (\<lambda>a. a \<noteq> 0) ?a) \<subseteq> taken (bmap st)"
  proof (rule subsetI, erule imageE, erule taken_nth)
    fix x a k assume "x = unat a" "k < length ?a" "?a ! k = a" "a \<noteq> 0"
    then show "x \<in> taken (bmap st)" using us [of k] sa [of k] la by simp
  qed
  have dist: "distinct (takeWhile (\<lambda>a. a \<noteq> 0) xs)"
    if f: "length xs + f \<le> MAXFILE + 1" "\<And>k. k < length xs \<Longrightarrow> slots_of st i ! (f + k) = xs ! k" for xs f
  proof -
    have "k = l" if kl: "k < length (takeWhile (\<lambda>a. a \<noteq> 0) xs)" "l < length (takeWhile (\<lambda>a. a \<noteq> 0) xs)"
      "takeWhile (\<lambda>a. a \<noteq> 0) xs ! k = takeWhile (\<lambda>a. a \<noteq> 0) xs ! l" for k l
    proof -
      have lt: "k < length xs" "l < length xs" using kl length_takeWhile_le [of "\<lambda>a. a \<noteq> 0" xs] by linarith+
      have "xs ! k \<noteq> 0" using nth_mem [OF kl(1)] takeWhile_nth [OF kl(1)] set_takeWhileD by fastforce
      moreover have "xs ! k = xs ! l" using kl takeWhile_nth by metis
      ultimately show ?thesis using inj [of "f + k" "f + l"] f(2) [OF lt(1)] f(2) [OF lt(2)] lt f(1) by simp
    qed
    then show ?thesis by (auto simp: distinct_conv_nth)
  qed
  show "distinct (takeWhile (\<lambda>a. a \<noteq> 0) ?a)" by (rule dist [of ?a 0]) (use la sa in simp_all)
  assume some: "i_indir (inodes st i) = Some blk"
  then have lb: "length blk = NINDIRECT" using wf by (simp add: inode_wf_def)
  have sb: "slots_of st i ! (NDIRECT + 1 + k) = blk ! k" for k using slots_indirect [OF wf] some by (simp add: indir_of_def)
  show "distinct (takeWhile (\<lambda>a. a \<noteq> 0) blk)" by (rule dist [of blk "NDIRECT + 1"]) (use lb sb in simp_all)
  show "unat ` set (takeWhile (\<lambda>a. a \<noteq> 0) blk) \<subseteq> taken (bmap st) - unat ` set (takeWhile (\<lambda>a. a \<noteq> 0) ?a)"
  proof (rule subsetI, erule imageE, erule taken_nth)
    fix x b k assume k: "x = unat b" "k < length blk" "blk ! k = b" "b \<noteq> 0"
    then have s: "slots_of st i ! (NDIRECT + 1 + k) = b" "NDIRECT + 1 + k < MAXFILE + 1" using sb lb by simp_all
    have "b \<notin> set (takeWhile (\<lambda>a. a \<noteq> 0) ?a)"
    proof
      assume "b \<in> set (takeWhile (\<lambda>a. a \<noteq> 0) ?a)"
      then obtain l where l: "l < length ?a" "?a ! l = b" by (rule taken_nth)
      then show False using inj [of "NDIRECT + 1 + k" l] s k(4) sa [OF l(1)] la by simp
    qed
    then show "x \<in> taken (bmap st) - unat ` set (takeWhile (\<lambda>a. a \<noteq> 0) ?a)"
      using us [OF s(2)] s(1) k(1,4) by (auto simp flip: word_unat_eq_iff)
  qed
qed

lemma data_free_ok:
  assumes ok: "map_ok (bmap st)" "nat (size_b (bmap st)) < 2 ^ 31"
    and a: "unat ` set (takeWhile (\<lambda>a. a \<noteq> 0) (i_addrs (i_di (inodes st i)))) \<subseteq> taken (bmap st)"
      "distinct (takeWhile (\<lambda>a. a \<noteq> 0) (i_addrs (i_di (inodes st i))))"
    and t: "\<forall>blk. i_indir (inodes st i) = Some blk \<longrightarrow> distinct (takeWhile (\<lambda>a. a \<noteq> 0) blk) \<and> unat ` set (takeWhile (\<lambda>a. a \<noteq> 0) blk) \<subseteq>
      taken (bmap st) - unat ` set (takeWhile (\<lambda>a. a \<noteq> 0) (i_addrs (i_di (inodes st i))))"
  shows "\<exists>st'. efs_i_data_free i st = Inr st' \<and> inodes st' = inodes st \<and> dsk st' = dsk st \<and> held st' = held st \<and> umem st' = umem st \<and>
    taken (bmap st') = taken (bmap st) - unat ` set (takeWhile (\<lambda>a. a \<noteq> 0) (i_addrs (i_di (inodes st i)))) -
      unat ` set (takeWhile (\<lambda>a. a \<noteq> 0) (case i_indir (inodes st i) of None \<Rightarrow> [] | Some blk \<Rightarrow> blk))"
proof -
  obtain st1 where st1: "free_blocks (i_addrs (i_di (inodes st i))) st = Inr st1" "blocks_gone (i_addrs (i_di (inodes st i))) st st1"
    using free_blocks_ok [OF ok a] by blast
  note g = st1(2) [unfolded blocks_gone_def]
  show ?thesis
  proof (cases "i_indir (inodes st i)")
    case None
    with st1(1) g show ?thesis by (simp add: efs_i_data_free_def)
  next
    case (Some blk)
    have "unat ` set (takeWhile (\<lambda>a. a \<noteq> 0) blk) \<subseteq> taken (bmap st1)" "distinct (takeWhile (\<lambda>a. a \<noteq> 0) blk)" using t Some g by simp_all
    then obtain st2 where "free_blocks blk st1 = Inr st2" "blocks_gone blk st1 st2" using free_blocks_ok [of st1 blk] g ok(2) by auto
    with st1(1) g Some show ?thesis by (simp add: efs_i_data_free_def blocks_gone_def)
  qed
qed

lemma dirty_locked_ok:
  assumes "held st = {}" and "\<And>d. i_addrs (f d) = i_addrs d"
  shows "\<exists>st'. dirty_locked i f st = Inr st' \<and> same_blocks st st' \<and> i_di (inodes st' i) = f (i_di (inodes st i)) \<and>
    i_slock (inodes st' i) = i_slock (inodes st i) \<and> (\<forall>j. j \<noteq> i \<longrightarrow> inodes st' j = inodes st j)"
  using assms by (simp add: dirty_locked_def spin_on_def spin_off_def efs_i_sdirty_def upd_links_def upd_di_def upd_inode_def same_blocks_def)

subsection \<open>Properties\<close>

text \<open>Two empty files, 99 free blocks and memory whose bytes are the low bytes of their addresses.\<close>

definition empty_file :: "u32 \<Rightarrow> easy_m_inode" where
  "empty_file n = \<lparr>i_di = \<lparr>i_no = n, i_type = 1, i_devno = 0, i_size = 0, i_addrs = replicate (NDIRECT + 1) 0, i_nlink = 1\<rparr>,
     i_slock = 1, i_refcnt = 0, i_flags = I_VALID, i_indir = None\<rparr>"

definition small_fs :: efs where
  "small_fs = \<lparr>s_ds = \<lparr>inode_count = 64, inode_free = 62, inode_size = 72, inode_map_start = 2, inode_area_start = 3, block_count = 100,
       block_free = 99, block_size = 4096, block_map_start = 4, block_area_start = 5, s_name = replicate 16 0, magic = EASYFS_MAGIC\<rparr>,
     s_flags = 0, s_ihash = \<lparr>h_size = 41, h_count = 0, h_name = ''easy_i_hash'', h_heads = S_ibucket\<rparr>,
     s_dhash = \<lparr>h_size = 41, h_count = 0, h_name = ''easy_d_hash'', h_heads = S_dbucket\<rparr>,
     links_e = \<lparr>l_prev = id, l_next = id\<rparr>, imap = bitmap_init [0] 64, bmap = \<lparr>map = [0, 0], size_b = 100, unused = 99, allocation = 1\<rparr>, bd_dev = 0,
     inodes = (\<lambda>i. empty_file (of_nat i + 1)), ninodes = 2, dentries = (\<lambda>_. \<lparr>d_dd = \<lparr>d_ino = 0, d_type = 0, d_name = []\<rparr>,
       d_inode = None, d_parent = None, d_slock = 1, d_flags = 0, d_refcnt = 0\<rparr>), ndentries = 0, held = {}, dsk = (\<lambda>_. 0), umem = ucast\<rparr>"

lemma small_fs_bmap: "map_ok (bmap small_fs)" "taken (bmap small_fs) = {0}" "size_b (bmap small_fs) = 100"
proof -
  have "\<not> used_at [0, 0] n" if "n < 100" for n
  proof -
    have "n div 64 = 0 \<or> n div 64 = 1" using that by linarith
    then show ?thesis by (auto simp: used_at_def)
  qed
  then have "used (bmap small_fs) = {}" by (auto simp: used_def small_fs_def)
  then show t: "taken (bmap small_fs) = {0}" by (auto simp: taken_def busy_def)
  then show "map_ok (bmap small_fs)" unfolding map_ok_def zone_wf_def taken_def [symmetric] by (simp add: small_fs_def taken_def)
qed (simp add: small_fs_def)

lemma small_fs_slots: "slots_of small_fs i = replicate (NDIRECT + 1) 0 @ zero_table"
  by (simp add: slots_of_def indir_of_def small_fs_def empty_file_def)

lemma small_fs_slot: "k < MAXFILE + 1 \<Longrightarrow> slots_of small_fs i ! k = 0"
  unfolding small_fs_slots nth_append by simp

lemma small_fs_ok: "efs_ok small_fs S" "nfree small_fs = 99"
proof -
  have "inode_wf (inodes small_fs i)" for i by (simp add: small_fs_def empty_file_def inode_wf_def)
  moreover have "slots_ok small_fs S" using small_fs_slot by (simp add: slots_ok_def)
  moreover have "held small_fs = {}" "clean small_fs" by (simp_all add: small_fs_def clean_def)
  ultimately show "efs_ok small_fs S" unfolding efs_ok_def small_fs_bmap(2,3) using small_fs_bmap(1) by simp
  show "nfree small_fs = 99" unfolding nfree_def small_fs_bmap by simp
qed

lemma small_fs_inode: "i_slock (inodes small_fs i) = 1" "i_size (i_di (inodes small_fs i)) = 0" "umem small_fs = ucast"
  by (simp_all add: small_fs_def empty_file_def)

lemma buffer_below:
  assumes "unat va + n < 2 ^ 64" and "va \<noteq> 0"
  shows "\<forall>j < n. va + of_nat j \<noteq> (0 :: u64)"
proof (intro allI impI)
  fix j assume "j < n"
  then have "unat (va + of_nat j) = unat va + j" using assms(1) by (simp add: unat_word_ariths unat_of_nat)
  moreover have "0 < unat va" using assms(2) by (simp add: unat_gt_0)
  ultimately show "va + of_nat j \<noteq> 0" by (metis add_gr_0 less_not_refl unat_0)
qed

lemma write_then_read:
  assumes "efs_ok st S" and "i \<in> S" and "i_slock (inodes st i) = 1" and "offset \<le> i_size (i_di (inodes st i))"
    and "unat offset + unat len \<le> FILE_MAX" and "2 * turns (unat offset) (unat len) \<le> nfree st"
    and "\<forall>j < unat len. va + of_nat j \<noteq> 0" and "\<forall>j < unat len. vb + of_nat j \<noteq> 0"
  shows "\<exists>st1 st2. efs_i_write i offset len va st = Inr (int (unat len), st1) \<and>
    efs_i_read i offset len vb st1 = Inr (int (unat len), st2) \<and> efs_ok st2 S \<and> offset \<le> i_size (i_di (inodes st1 i)) \<and>
    i_slock (inodes st2 i) = 1 \<and>
    (\<forall>k < unat len. umem st2 (vb + of_nat k) = umem st (va + of_nat k))"
proof -
  obtain st1 where w: "efs_i_write i offset len va st = Inr (int (unat len), st1)" "file_written S i offset len va st st1"
    using efs_i_write_ok [OF assms(1-7)] by blast
  note fw = w(2) [unfolded file_written_def]
  have "i_size (i_di (inodes st i)) \<le> i_size (i_di (inodes st1 i))" using fw by simp
  with assms(4) have le: "offset \<le> i_size (i_di (inodes st1 i))" by (rule order_trans)
  have "offset + len \<le> i_size (i_di (inodes st1 i))" using fw by simp
  then have "unat offset + unat len \<le> unat (i_size (i_di (inodes st1 i)))" using no_wrap32(1) [OF assms(5)] by (simp add: word_le_nat_alt)
  then obtain st2 where r: "efs_i_read i offset len vb st1 = Inr (int (unat len), st2)" "efs_ok st2 S" "i_slock (inodes st2 i) = 1"
    "\<forall>a. umem st2 a = (if unat (a - vb) < unat len then fbyte st1 i (unat offset + unat (a - vb)) else umem st1 a)"
    using efs_i_read_ok [of st1 S i offset len vb] fw assms(2,5,8) by blast
  have "umem st2 (vb + of_nat k) = umem st (va + of_nat k)" if k: "k < unat len" for k
  proof -
    have "k < 2 ^ 64" using k unat_lt2p [of len] by simp
    then have u: "unat (vb + of_nat k - vb) = k" by (simp add: unat_of_nat)
    have "umem st2 (vb + of_nat k) = fbyte st1 i (unat offset + k)" using spec [OF r(4), of "vb + of_nat k"] k unfolding u by (simp only: if_True)
    also have "\<dots> = umem st (va + of_nat (unat offset + k - unat offset))"
    proof -
      have "unat offset + k < FILE_MAX" "unat offset \<le> unat offset + k \<and> unat offset + k < unat offset + unat len" using k assms(5) by linarith+
      then show ?thesis using fw by (simp only: simp_thms if_True)
    qed
    finally show ?thesis by simp
  qed
  then show ?thesis using w(1) r(1-3) le by blast
qed

text \<open>C3: what \<open>efs_i_write\<close> put into a file, \<open>efs_i_read\<close> gives back. On a file system that is
  consistent (no block in two places, all blocks of files allocated, free blocks zero), with a block and
  an indirect block free for each block touched, both calls return the whole length, whatever number of
  blocks the range spans, and the second buffer holds the first buffer's bytes.\<close>

theorem file_write_read_roundtrip:
  assumes "efs_ok st S" and "i \<in> S" and "i_slock (inodes st i) = 1" and "offset \<le> i_size (i_di (inodes st i))"
    and "unat offset + unat len \<le> FILE_MAX" and "2 * turns (unat offset) (unat len) \<le> nfree st"
    and "\<forall>j < unat len. va + of_nat j \<noteq> 0" and "\<forall>j < unat len. vb + of_nat j \<noteq> 0"
  shows "\<exists>st1 st2. efs_i_write i offset len va st = Inr (int (unat len), st1) \<and>
    efs_i_read i offset len vb st1 = Inr (int (unat len), st2) \<and> efs_ok st2 S \<and>
    (\<forall>k < unat len. umem st2 (vb + of_nat k) = umem st (va + of_nat k))"
  using write_then_read [OF assms] by blast

theorem file_write_read_roundtrip_witness:
  "\<exists>st1 st2. efs_i_write 0 0 5000 0x1000 small_fs = Inr (5000, st1) \<and> efs_i_read 0 0 5000 0x8000 st1 = Inr (5000, st2) \<and>
     efs_ok st2 {0, 1} \<and> (\<forall>k < 5000. umem st2 (0x8000 + of_nat k) = ucast (0x1000 + of_nat k :: u64))"
  using file_write_read_roundtrip [OF small_fs_ok(1), of 0 "{0, 1}" 0 5000 "0x1000" "0x8000"] buffer_below [of "0x1000" 5000] buffer_below [of "0x8000" 5000]
  by (simp add: small_fs_inode small_fs_ok(2) turns_def)

text \<open>C11: \<open>efs_i_write\<close> changes exactly the bytes of its range: every other byte of the file, the other
  inodes and every byte of the other files stay as they are; the size grows to the end of the range if
  that is behind the old end; the blocks stay consistent, and the sleep lock is released.\<close>

theorem file_write_frame:
  assumes "efs_ok st S" and "i \<in> S" and "i_slock (inodes st i) = 1" and "offset \<le> i_size (i_di (inodes st i))"
    and "unat offset + unat len \<le> FILE_MAX" and "2 * turns (unat offset) (unat len) \<le> nfree st"
    and "\<forall>j < unat len. va + of_nat j \<noteq> 0"
  shows "\<exists>st'. efs_i_write i offset len va st = Inr (int (unat len), st') \<and> efs_ok st' S \<and> i_slock (inodes st' i) = 1 \<and>
    i_size (i_di (inodes st' i)) = max (i_size (i_di (inodes st i))) (offset + len) \<and>
    (\<forall>p < FILE_MAX. fbyte st' i p =
       (if unat offset \<le> p \<and> p < unat offset + unat len then umem st (va + of_nat (p - unat offset)) else fbyte st i p)) \<and>
    (\<forall>j \<in> S - {i}. inodes st' j = inodes st j \<and> (\<forall>p < FILE_MAX. fbyte st' j p = fbyte st j p))"
  using efs_i_write_ok [OF assms] unfolding file_written_def by blast

theorem file_write_frame_witness:
  "\<exists>st'. efs_i_write 1 0 5000 0x1000 small_fs = Inr (5000, st') \<and> i_size (i_di (inodes st' 1)) = 5000 \<and> fbyte st' 1 4999 = ucast (0x2387 :: u64)"
proof -
  obtain st' where st': "efs_i_write 1 0 5000 0x1000 small_fs = Inr (5000, st')" "i_size (i_di (inodes st' 1)) = max 0 5000"
    "\<forall>p < FILE_MAX. fbyte st' 1 p = (if p < 5000 then ucast (0x1000 + of_nat p :: u64) else fbyte small_fs 1 p)"
    using file_write_frame [OF small_fs_ok(1), of 1 "{0, 1}" 0 5000 "0x1000"] buffer_below [of "0x1000" 5000]
    by (auto simp: small_fs_inode small_fs_ok(2) turns_def)
  have "fbyte st' 1 4999 = ucast (0x2387 :: u64)" using spec [OF st'(3), of 4999] by simp
  with st' show ?thesis by (auto simp: max_def)
qed

text \<open>C20: an inode written back by \<open>efs_i_update\<close> is read again unchanged by \<open>efs_i_fill\<close>, into any slot
  of memory, and its table of indirect blocks is on disk in the block its last address names: the on-disk
  format loses nothing, as long as the table's block and the inode's record do not overlap.\<close>

theorem inode_update_fill_roundtrip:
  assumes wf: "di_wf (i_di (inodes st i))" and no: "0 < i_no (i_di (inodes st i))" and ap: "apart i st"
    and tb: "inode_wf (inodes st i)"
  shows "\<exists>st1 st2. efs_i_update i st = Inr st1 \<and> efs_i_fill j (uint (i_no (i_di (inodes st i)))) st1 = Inr st2 \<and>
    i_di (inodes st2 j) = i_di (inodes st i) \<and>
    (\<forall>blk. i_indir (inodes st i) = Some blk \<longrightarrow>
       dec32s NINDIRECT (read_disk (i_addrs (i_di (inodes st i)) ! NDIRECT) 0 BLK_SIZE st1) = blk)"
proof -
  let ?d = "i_di (inodes st i)" and ?a = "word_of_int (inode_area_start (s_ds st)) :: u32"
  let ?o = "offset_ino (uint (i_no ?d)) st" and ?b = "i_addrs (i_di (inodes st i)) ! NDIRECT"
  define w where "w = write_disk ?a ?o (enc_inode ?d) st"
  have len: "length (enc_inode ?d) = SIZEOF_INODE" using wf by (intro length_enc_inode) (simp add: di_wf_def)
  have sw: "s_ds (write_disk b off bs s) = s_ds s" for b off bs s by (simp add: write_disk_def Let_def)
  have fill: "\<exists>st2. efs_i_fill j (uint (i_no ?d)) st1 = Inr st2 \<and> i_di (inodes st2 j) = ?d"
    if "read_disk ?a ?o SIZEOF_INODE st1 = enc_inode ?d" "s_ds st1 = s_ds st" for st1
  proof -
    have "0 < uint (i_no ?d)" using no by (simp add: word_less_def)
    moreover have "dec_inode (read_disk ?a (offset_ino (uint (i_no ?d)) st1) SIZEOF_INODE st1) = ?d"
      using that dec_enc_inode [OF wf] by (simp add: offset_ino_def)
    ultimately show ?thesis using that(2) by (simp add: efs_i_fill_def upd_inode_def)
  qed
  have rw: "read_disk ?a ?o SIZEOF_INODE w = enc_inode ?d" unfolding w_def by (rule read_write_disk) (simp only: len)
  show ?thesis
  proof (cases "i_indir (inodes st i)")
    case None
    then have "efs_i_update i st = Inr w" using no by (simp add: efs_i_update_def w_def Let_def)
    with fill [OF rw] None show ?thesis by (auto simp: w_def sw)
  next
    case (Some blk)
    let ?w = "write_disk ?b 0 (concat (List.map enc32 blk)) w"
    have l: "length blk = NINDIRECT" using tb Some by (simp add: inode_wf_def)
    have run: "efs_i_update i st = Inr ?w" using no Some by (simp add: efs_i_update_def w_def Let_def)
    have p: "inode_pos i st = disk_pos ?a ?o" by (simp add: inode_pos_def)
    have "read_disk ?a ?o SIZEOF_INODE ?w = read_disk ?a ?o SIZEOF_INODE w"
    proof (rule read_write_disk_apart)
      show "disk_pos ?a ?o + SIZEOF_INODE \<le> disk_pos ?b 0 \<or> disk_pos ?b 0 + length (concat (List.map enc32 blk)) \<le> disk_pos ?a ?o"
        unfolding length_enc32s l using ap unfolding apart_def Let_def p disk_pos_def [of ?b] by simp
    qed
    with fill [of ?w] rw obtain st2 where st2: "efs_i_fill j (uint (i_no ?d)) ?w = Inr st2" "i_di (inodes st2 j) = ?d"
      by (auto simp: sw w_def)
    have "read_disk ?b 0 BLK_SIZE ?w = concat (List.map enc32 blk)" by (rule read_write_disk) (unfold length_enc32s l, simp)
    then have "dec32s NINDIRECT (read_disk ?b 0 BLK_SIZE ?w) = blk" using dec_enc32s [of blk "[]"] l by simp
    with run st2 Some show ?thesis by auto
  qed
qed

theorem inode_update_fill_roundtrip_witness:
  "\<exists>st1 st2. efs_i_update 0 small_fs = Inr st1 \<and> efs_i_fill 1 1 st1 = Inr st2 \<and> i_di (inodes st2 1) = i_di (empty_file 1)"
proof -
  have "inodes small_fs 0 = empty_file 1" by (simp add: small_fs_def)
  moreover have "di_wf (i_di (empty_file 1))" "inode_wf (empty_file 1)" "i_no (i_di (empty_file 1)) = 1"
    by (simp_all add: empty_file_def di_wf_def inode_wf_def)
  moreover have "apart 0 small_fs" by (simp add: apart_def inode_pos_def small_fs_def empty_file_def disk_pos_def offset_ino_def)
  ultimately show ?thesis using inode_update_fill_roundtrip [of small_fs 0 1] by auto
qed

text \<open>C34: \<open>efs_i_trunc\<close> succeeds on a consistent file: it sets the size to 0 and frees the blocks up to the
  first hole, in the inode and in the table it has loaded. But it leaves the freed blocks' numbers in the
  inode, so that a file with a first block has a free block among its own and is no longer consistent: the
  next file to allocate shares that block.\<close>

theorem trunc_keeps_freed_blocks:
  assumes ok: "efs_ok st S" and i: "i \<in> S" and sl: "i_slock (inodes st i) = 1"
  shows "\<exists>st'. efs_i_trunc i st = Inr st' \<and> i_size (i_di (inodes st' i)) = 0 \<and> i_slock (inodes st' i) = 1 \<and>
    taken (bmap st') = taken (bmap st) - unat ` set (takeWhile (\<lambda>a. a \<noteq> 0) (i_addrs (i_di (inodes st i)))) -
      unat ` set (takeWhile (\<lambda>a. a \<noteq> 0) (case i_indir (inodes st i) of None \<Rightarrow> [] | Some blk \<Rightarrow> blk)) \<and>
    slots_of st' i = slots_of st i \<and> (i_addrs (i_di (inodes st i)) ! 0 \<noteq> 0 \<longrightarrow> \<not> efs_ok st' S)"
proof -
  obtain st1 where st1: "sleep_i i st = Inr st1" "same_blocks st st1" "i_slock (inodes st1 i) = 0"
    "i_di (inodes st1 i) = i_di (inodes st i)" "\<forall>j. j \<noteq> i \<longrightarrow> inodes st1 j = inodes st j" by (rule sleep_i_ok [OF sl])
  define l where "l = st1\<lparr>held := {S_lock}\<rparr>"
  have sm: "bmap st1 = bmap st" "held st1 = {}" "dsk st1 = dsk st" "i_indir (inodes st1 i) = i_indir (inodes st i)"
    using st1(2) efs_okD(4) [OF ok] by (simp_all add: same_blocks_def)
  have lock: "spin_on S_lock st1 = Inr l" using sm(2) by (simp add: spin_on_def l_def)
  note ib = inode_blocks [OF ok i]
  let ?gone = "taken (bmap st) - unat ` set (takeWhile (\<lambda>a. a \<noteq> 0) (i_addrs (i_di (inodes st i)))) -
      unat ` set (takeWhile (\<lambda>a. a \<noteq> 0) (case i_indir (inodes st i) of None \<Rightarrow> [] | Some blk \<Rightarrow> blk))"
  obtain st2 where st2: "efs_i_data_free i l = Inr st2" "inodes st2 = inodes st1" "dsk st2 = dsk st" "held st2 = {S_lock}" "taken (bmap st2) = ?gone"
    using data_free_ok [of l i] ib(1,2) efs_okD(1,3) [OF ok] ib(3,4) unfolding l_def by (auto simp: sm st1(4))
  define st3 where "st3 = wake_i i (st2\<lparr>held := {}\<rparr>)"
  have unlock: "spin_off S_lock st2 = Inr (st2\<lparr>held := {}\<rparr>)" using st2(4) by (simp add: spin_off_def)
  have h3: "held st3 = {}" "i_slock (inodes st3 i) = 1" using st1(3) by (simp_all add: st3_def wake_i_def upd_inode_def st2(2))
  obtain st4 where st4: "dirty_locked i (\<lambda>d. d\<lparr>i_size := 0\<rparr>) st3 = Inr st4" "same_blocks st3 st4"
    "i_di (inodes st4 i) = (i_di (inodes st3 i))\<lparr>i_size := 0\<rparr>" "i_slock (inodes st4 i) = 1"
    using dirty_locked_ok [OF h3(1), of "\<lambda>d. d\<lparr>i_size := 0\<rparr>" i] h3(2) by auto
  have run: "efs_i_trunc i st = Inr st4"
    unfolding efs_i_trunc_def st1(1) bindR_simps lock st2(1) unlock st3_def [symmetric] by (rule st4(1))
  have u4: "taken (bmap st4) = ?gone" using st4(2) st2(5) by (simp add: same_blocks_def st3_def wake_i_def upd_inode_def)
  have same: "i_indir (inodes st3 i) = i_indir (inodes st i)" "i_addrs (i_di (inodes st3 i)) = i_addrs (i_di (inodes st i))" "dsk st3 = dsk st"
    using sm st1(4) st2(2,3) by (simp_all add: st3_def wake_i_def upd_inode_def)
  then have "indir_of st3 i = indir_of st i" by (intro indir_of_cong) simp_all
  then have s4: "slots_of st4 i = slots_of st i" unfolding same_blocksD(1) [OF st4(2)] using same(2) by (simp add: slots_of_def)
  have "\<not> efs_ok st4 S" if nz: "i_addrs (i_di (inodes st i)) ! 0 \<noteq> 0"
  proof
    assume "efs_ok st4 S"
    let ?a = "i_addrs (i_di (inodes st i))"
    have s0: "slots_of st i ! 0 = ?a ! 0" by (rule slots_direct [OF efs_okD(5) [OF ok i]]) simp
    then have "unat (?a ! 0) \<in> taken (bmap st4)" using efs_okD(6) [OF \<open>efs_ok st4 S\<close>] i nz s4 unfolding slots_ok_def by (metis add_gr_0 less_numeral_extra(1))
    moreover have "?a ! 0 \<in> set (takeWhile (\<lambda>a. a \<noteq> 0) ?a)"
      using nz efs_okD(5) [OF ok i] by (cases ?a) (simp_all add: inode_wf_def)
    ultimately show False unfolding u4 by blast
  qed
  moreover have "i_size (i_di (inodes st4 i)) = 0" using st4(3) by simp
  ultimately show ?thesis using run st4(4) u4 s4 by blast
qed

theorem trunc_keeps_freed_blocks_witness:
  "\<exists>st st'. efs_i_write 0 0 5000 0x1000 small_fs = Inr (5000, st) \<and> efs_ok st {0, 1} \<and> efs_i_trunc 0 st = Inr st' \<and>
     i_size (i_di (inodes st' 0)) = 0 \<and> \<not> efs_ok st' {0, 1}"
proof -
  obtain st where st: "efs_i_write 0 0 5000 0x1000 small_fs = Inr (5000, st)" "file_written {0, 1} 0 0 5000 0x1000 small_fs st"
    using efs_i_write_ok [OF small_fs_ok(1), of 0 "{0, 1}" 0 5000 "0x1000"] buffer_below [of "0x1000" 5000]
    by (auto simp: small_fs_inode small_fs_ok(2) turns_def)
  then have ok: "efs_ok st {0, 1}" "i_slock (inodes st 0) = 1" "\<forall>p. unat (0 :: u32) \<le> p \<and> p < unat (0 :: u32) + unat (5000 :: u32) \<longrightarrow> slots_of st 0 ! slot (p div BLK_SIZE) \<noteq> 0"
    unfolding file_written_def by blast+
  have "slots_of st 0 ! 0 = i_addrs (i_di (inodes st 0)) ! 0" by (rule slots_direct) (use efs_okD(5) [OF ok(1), of 0] in simp_all)
  then have "i_addrs (i_di (inodes st 0)) ! 0 \<noteq> 0" using spec [OF ok(3), of 0] by (simp add: slot_def)
  then show ?thesis using trunc_keeps_freed_blocks [OF ok(1), of 0] ok st(1) by auto
qed

end
