(* ===== verification/Efssync.thy ===== *)
theory Efssync
  imports Efsio
begin

text \<open>
  Writing back the inodes: a round of the synchronisation thread empties the list of dirty inodes and
  leaves every one of them on disk. \<open>rec_bytes\<close> and \<open>table_bytes\<close> are the bytes of an inode's record
  and of its table of indirect blocks.
\<close>

subsection \<open>One inode\<close>

lemma is_list_pop_del_init:
  assumes "is_list h lh (x # xs)"
  shows "is_list (list_del_init x (list_del x h)) lh xs"
proof -
  have x: "x \<noteq> lh" "x \<notin> set xs" using assms by (auto simp: is_list_def)
  have k: "l_next (list_del x h) x = l_next h x" "l_prev (list_del x h) x = l_prev h x"
    using list_del_keeps_links [of h lh "[]" x xs] assms by simp_all
  have e: "list_del x (list_del x h) = list_del x h"
    unfolding list_del_def [of x "list_del x h"] k unfolding list_del_def list_del_between_def by (simp add: set_next_def set_prev_def fun_upd_twist)
  have "is_list (INIT_LIST_HEAD x (list_del x h)) lh xs \<longleftrightarrow> is_list (list_del x h) lh xs"
    by (rule is_list_cong) (use x in \<open>auto simp: INIT_LIST_HEAD_def\<close>)
  then show ?thesis using list_pop_Cons(2) [OF assms] unfolding list_del_init_del e by simp
qed

definition rec_bytes :: "efs \<Rightarrow> nat \<Rightarrow> nat set" where
  "rec_bytes st i = {inode_pos i st ..< inode_pos i st + SIZEOF_INODE}"

definition table_bytes :: "efs \<Rightarrow> nat \<Rightarrow> nat set" where
  "table_bytes st i = (if i_indir (inodes st i) = None then {}
     else let b = unat (i_addrs (i_di (inodes st i)) ! NDIRECT) * BLK_SIZE in {b ..< b + BLK_SIZE})"

definition on_disk :: "efs \<Rightarrow> nat \<Rightarrow> bool" where
  "on_disk st i \<longleftrightarrow> dec_inode (List.map (dsk st) [inode_pos i st ..< inode_pos i st + SIZEOF_INODE]) = i_di (inodes st i)"

text \<open>The inodes as the list of dirty ones holds them: unlocked, numbered, in places of their own.\<close>

definition sync_ready :: "nat list \<Rightarrow> efs \<Rightarrow> bool" where
  "sync_ready is st \<longleftrightarrow> held st = {S_lock} \<and> is_list (links_e st) S_idirty (List.map I_dirty is) \<and>
     (\<forall>i \<in> set is. i_slock (inodes st i) = 1 \<and> 0 < i_no (i_di (inodes st i)) \<and> di_wf (i_di (inodes st i)) \<and> inode_wf (inodes st i))"

definition layout_ok :: "nat set \<Rightarrow> efs \<Rightarrow> bool" where
  "layout_ok I st \<longleftrightarrow> (\<forall>i \<in> I. \<forall>j \<in> I. rec_bytes st i \<inter> table_bytes st j = {} \<and> (i \<noteq> j \<longrightarrow> rec_bytes st i \<inter> rec_bytes st j = {}))"

definition synced :: "nat \<Rightarrow> efs \<Rightarrow> efs \<Rightarrow> bool" where
  "synced i st st' \<longleftrightarrow> held st' = held st \<and> s_ds st' = s_ds st \<and> (\<forall>j. j \<noteq> i \<longrightarrow> inodes st' j = inodes st j) \<and>
     inodes st' i = (inodes st i)\<lparr>i_flags := i_flags (inodes st i) AND NOT I_DIRTY\<rparr> \<and>
     (\<forall>q. q \<notin> rec_bytes st i \<union> table_bytes st i \<longrightarrow> dsk st' q = dsk st q)"

lemma synced_places:
  assumes "synced i st st'"
  shows "inode_pos j st' = inode_pos j st" "rec_bytes st' j = rec_bytes st j" "table_bytes st' j = table_bytes st j"
    "i_di (inodes st' j) = i_di (inodes st j)"
proof -
  have same: "i_di (inodes st' j) = i_di (inodes st j)" "i_indir (inodes st' j) = i_indir (inodes st j)" "s_ds st' = s_ds st"
    using assms by (cases "j = i"; simp add: synced_def)+
  then show "inode_pos j st' = inode_pos j st" by (simp add: inode_pos_def offset_ino_def)
  then show "rec_bytes st' j = rec_bytes st j" by (simp add: rec_bytes_def)
  show "table_bytes st' j = table_bytes st j" "i_di (inodes st' j) = i_di (inodes st j)" using same by (simp_all add: table_bytes_def)
qed

lemma on_disk_synced:
  assumes "synced i st st'" and "on_disk st j" and "rec_bytes st j \<inter> (rec_bytes st i \<union> table_bytes st i) = {}"
  shows "on_disk st' j"
proof -
  have "dsk st' q = dsk st q" if "q \<in> rec_bytes st j" for q using assms(1,3) that unfolding synced_def by blast
  then have "List.map (dsk st') [inode_pos j st ..< inode_pos j st + SIZEOF_INODE] = List.map (dsk st) [inode_pos j st ..< inode_pos j st + SIZEOF_INODE]"
    by (intro map_cong) (simp_all add: rec_bytes_def)
  then show ?thesis using assms(2) unfolding on_disk_def synced_places [OF assms(1)] by (simp only:)
qed

lemma read_disk_pos: "read_disk b off n st = List.map (dsk st) [disk_pos b off ..< disk_pos b off + n]"
  by (rule nth_equalityI) (simp_all add: nth_read_disk)

lemma efs_i_update_synced:
  assumes no: "0 < i_no (i_di (inodes st i))" and wf: "di_wf (i_di (inodes st i))" "inode_wf (inodes st i)"
    and ap: "rec_bytes st i \<inter> table_bytes st i = {}"
  shows "\<exists>d. efs_i_update i st = Inr (st\<lparr>dsk := d\<rparr>) \<and> on_disk (st\<lparr>dsk := d\<rparr>) i \<and>
    (\<forall>q. q \<notin> rec_bytes st i \<union> table_bytes st i \<longrightarrow> d q = dsk st q)"
proof -
  let ?d = "i_di (inodes st i)" and ?a = "word_of_int (inode_area_start (s_ds st)) :: u32"
  let ?o = "offset_ino (uint (i_no ?d)) st" and ?b = "i_addrs (i_di (inodes st i)) ! NDIRECT"
  have len: "length (enc_inode ?d) = SIZEOF_INODE" using wf by (intro length_enc_inode) (simp add: di_wf_def)
  have p: "inode_pos i st = disk_pos ?a ?o" by (simp add: inode_pos_def)
  define d1 where "d1 = dsk (write_disk ?a ?o (enc_inode ?d) st)"
  have w1: "write_disk ?a ?o (enc_inode ?d) st = st\<lparr>dsk := d1\<rparr>" by (simp add: d1_def write_disk_def Let_def)
  have out1: "d1 q = dsk st q" if "q \<notin> rec_bytes st i" for q
    using that by (auto simp: d1_def write_disk_def Let_def rec_bytes_def p len)
  have "read_disk ?a ?o SIZEOF_INODE (st\<lparr>dsk := d1\<rparr>) = enc_inode ?d" unfolding w1 [symmetric] by (rule read_write_disk) (simp only: len)
  then have r1: "List.map d1 [disk_pos ?a ?o ..< disk_pos ?a ?o + SIZEOF_INODE] = enc_inode ?d" by (simp only: read_disk_pos) simp
  have od: "on_disk (st\<lparr>dsk := d\<rparr>) i" if "\<forall>q \<in> rec_bytes st i. d q = d1 q" for d
  proof -
    have "List.map d [disk_pos ?a ?o ..< disk_pos ?a ?o + SIZEOF_INODE] = List.map d1 [disk_pos ?a ?o ..< disk_pos ?a ?o + SIZEOF_INODE]"
      using that by (intro map_cong) (simp_all add: rec_bytes_def p)
    then have "dec_inode (List.map d [inode_pos i st ..< inode_pos i st + SIZEOF_INODE]) = ?d" unfolding p r1 using dec_enc_inode [OF wf(1)] by simp
    moreover have "inode_pos i (st\<lparr>dsk := d\<rparr>) = inode_pos i st" by (simp add: inode_pos_def offset_ino_def)
    ultimately show ?thesis by (simp add: on_disk_def)
  qed
  show ?thesis
  proof (cases "i_indir (inodes st i)")
    case None
    then have "efs_i_update i st = Inr (st\<lparr>dsk := d1\<rparr>)" using no w1 by (simp add: efs_i_update_def Let_def)
    with od [of d1] out1 show ?thesis by auto
  next
    case (Some blk)
    then have l: "length blk = NINDIRECT" using wf(2) by (simp add: inode_wf_def)
    define d2 where "d2 = dsk (write_disk ?b 0 (concat (List.map enc32 blk)) (st\<lparr>dsk := d1\<rparr>))"
    have w2: "write_disk ?b 0 (concat (List.map enc32 blk)) (st\<lparr>dsk := d1\<rparr>) = st\<lparr>dsk := d2\<rparr>" by (simp add: d2_def write_disk_def Let_def)
    have run: "efs_i_update i st = Inr (st\<lparr>dsk := d2\<rparr>)" using no Some w1 w2 by (simp add: efs_i_update_def Let_def)
    have tb: "table_bytes st i = {unat ?b * BLK_SIZE ..< unat ?b * BLK_SIZE + 4 * length blk}" using Some l by (simp add: table_bytes_def Let_def)
    have out2: "d2 q = d1 q" if "q \<notin> table_bytes st i" for q
      using that unfolding tb d2_def write_disk_def Let_def length_enc32s disk_pos_def by auto
    have "on_disk (st\<lparr>dsk := d2\<rparr>) i" by (rule od) (use out2 ap in blast)
    with run out1 out2 show ?thesis by auto
  qed
qed

lemma sync_inode_ok:
  assumes "held st = {S_lock}" and "i_slock (inodes st i) = 1" and "0 < i_no (i_di (inodes st i))"
    and "di_wf (i_di (inodes st i))" "inode_wf (inodes st i)" and "rec_bytes st i \<inter> table_bytes st i = {}"
  shows "\<exists>st'. sync_inode i st = Inr st' \<and> synced i st st' \<and> on_disk st' i \<and> links_e st' = list_del_init (I_dirty i) (links_e st)"
proof -
  define u where "u = upd_inode i (\<lambda>x. x\<lparr>i_slock := 0\<rparr>) (st\<lparr>held := {}\<rparr>)"
  have s: "sleep_i i (st\<lparr>held := {}\<rparr>) = Inr u" using assms(2) by (simp add: sleep_i_def sleep_on_def u_def)
  have ui: "inodes u i = (inodes st i)\<lparr>i_slock := 0\<rparr>" "s_ds u = s_ds st" "dsk u = dsk st" by (simp_all add: u_def upd_inode_def)
  have pl: "inode_pos i u = inode_pos i st" "rec_bytes u i = rec_bytes st i" "table_bytes u i = table_bytes st i"
    by (simp_all add: inode_pos_def offset_ino_def rec_bytes_def table_bytes_def ui)
  have "\<exists>d. efs_i_update i u = Inr (u\<lparr>dsk := d\<rparr>) \<and> on_disk (u\<lparr>dsk := d\<rparr>) i \<and> (\<forall>q. q \<notin> rec_bytes u i \<union> table_bytes u i \<longrightarrow> d q = dsk u q)"
    by (rule efs_i_update_synced) (use assms(3-) in \<open>simp_all add: ui pl inode_wf_def\<close>)
  then obtain d where d: "efs_i_update i u = Inr (u\<lparr>dsk := d\<rparr>)" "on_disk (u\<lparr>dsk := d\<rparr>) i"
    "\<forall>q. q \<notin> rec_bytes st i \<union> table_bytes st i \<longrightarrow> d q = dsk st q" unfolding pl ui(3) by blast
  have same: "(inodes st i)\<lparr>i_slock := 1, i_flags := f\<rparr> = (inodes st i)\<lparr>i_flags := f\<rparr>" for f using assms(2) by (cases "inodes st i") simp
  define st' where "st' = st\<lparr>dsk := d, inodes := (inodes st)(i := (inodes st i)\<lparr>i_slock := 1, i_flags := i_flags (inodes st i) AND NOT I_DIRTY\<rparr>),
    links_e := list_del_init (I_dirty i) (links_e st), held := {S_lock}\<rparr>"
  have "sync_inode i st = Inr st'"
    using assms(1,2) s d(1) by (simp add: sync_inode_def spin_off_def spin_on_def wake_i_def u_def upd_inode_def efs_i_cdirty_def upd_links_def st'_def)
  moreover have "synced i st st'" using d(3) assms(1) same by (simp add: synced_def st'_def)
  moreover have "on_disk st' i" using d(2) by (simp add: on_disk_def inode_pos_def offset_ino_def st'_def ui)
  moreover have "links_e st' = list_del_init (I_dirty i) (links_e st)" by (simp add: st'_def)
  ultimately show ?thesis by blast
qed

subsection \<open>The list\<close>

lemma sync_inodes_drain:
  assumes "sync_ready is st" and "layout_ok (set is \<union> D) st" and "\<forall>j \<in> D. on_disk st j" and "set is \<inter> D = {}"
  shows "\<exists>st'. sync_inodes st = Some (Inr st') \<and> is_list (links_e st') S_idirty [] \<and> held st' = {S_lock} \<and>
    (\<forall>j \<in> set is \<union> D. on_disk st' j) \<and> (\<forall>j. i_di (inodes st' j) = i_di (inodes st j)) \<and>
    (\<forall>j \<in> set is. i_flags (inodes st' j) = i_flags (inodes st j) AND NOT I_DIRTY) \<and> (\<forall>j. j \<notin> set is \<longrightarrow> inodes st' j = inodes st j)"
  using assms
proof (induction "is" arbitrary: st D)
  case Nil
  then have "is_list (links_e st) S_idirty []" by (simp add: sync_ready_def)
  with Nil show ?case by (subst sync_inodes.simps) (simp add: list_pop_Nil sync_ready_def)
next
  case (Cons i "is")
  note rd = Cons.prems(1) [unfolded sync_ready_def]
  have li: "is_list (links_e st) S_idirty (I_dirty i # List.map I_dirty is)" using rd by simp
  then have ni: "i \<notin> set is" by (auto simp: is_list_def)
  define s1 where "s1 = st\<lparr>links_e := list_del (I_dirty i) (links_e st)\<rparr>"
  have pl: "inodes s1 = inodes st" "s_ds s1 = s_ds st" "dsk s1 = dsk st" "held s1 = {S_lock}" using rd by (simp_all add: s1_def)
  have pos: "inode_pos j s1 = inode_pos j st" "rec_bytes s1 j = rec_bytes st j" "table_bytes s1 j = table_bytes st j" for j
    by (simp_all add: inode_pos_def offset_ino_def rec_bytes_def table_bytes_def pl)
  have lo: "layout_ok (set (i # is) \<union> D) s1" using Cons.prems(2) by (simp add: layout_ok_def pos)
  have "\<exists>st1. sync_inode i s1 = Inr st1 \<and> synced i s1 st1 \<and> on_disk st1 i \<and> links_e st1 = list_del_init (I_dirty i) (links_e s1)"
    by (rule sync_inode_ok) (use rd lo in \<open>simp_all add: pl layout_ok_def\<close>)
  then obtain st1 where st1: "sync_inode i s1 = Inr st1" "synced i s1 st1" "on_disk st1 i" "links_e st1 = list_del_init (I_dirty i) (links_e s1)" by blast
  have oth: "inodes st1 j = inodes st j" if "j \<noteq> i" for j using st1(2) that by (simp add: synced_def pl)
  have "is_list (links_e st1) S_idirty (List.map I_dirty is)" using is_list_pop_del_init [OF li] by (simp add: st1(4) s1_def)
  then have "sync_ready is st1" using rd st1(2) ni oth unfolding sync_ready_def synced_def pl by (metis list.set_intros(2))
  moreover have "layout_ok (set is \<union> insert i D) st1" using lo unfolding layout_ok_def synced_places [OF st1(2)] by simp
  moreover have "\<forall>j \<in> insert i D. on_disk st1 j"
  proof
    fix j assume j: "j \<in> insert i D"
    show "on_disk st1 j"
    proof (cases "j = i")
      case False
      then have "on_disk s1 j" using Cons.prems(3) j by (simp add: on_disk_def pos pl)
      moreover have "rec_bytes s1 j \<inter> (rec_bytes s1 i \<union> table_bytes s1 i) = {}" using lo False j unfolding layout_ok_def by (simp add: Int_Un_distrib)
      ultimately show ?thesis by (rule on_disk_synced [OF st1(2)])
    qed (use st1(3) in simp)
  qed
  moreover have "set is \<inter> insert i D = {}" using Cons.prems(4) ni by auto
  ultimately obtain st' where st': "sync_inodes st1 = Some (Inr st')" "is_list (links_e st') S_idirty []" "held st' = {S_lock}"
    "\<forall>j \<in> set is \<union> insert i D. on_disk st' j" "\<forall>j. i_di (inodes st' j) = i_di (inodes st1 j)"
    "\<forall>j \<in> set is. i_flags (inodes st' j) = i_flags (inodes st1 j) AND NOT I_DIRTY" "\<forall>j. j \<notin> set is \<longrightarrow> inodes st' j = inodes st1 j"
    using Cons.IH [of st1 "insert i D"] by blast
  have run: "sync_inodes st = Some (Inr st')"
    by (subst sync_inodes.simps) (use st1(1) st'(1) in \<open>simp add: list_pop_Cons(1) [OF li] s1_def\<close>)
  have "inodes st' i = inodes st1 i" using st'(7) ni by blast
  then have "i_flags (inodes st' i) = i_flags (inodes st i) AND NOT I_DIRTY" using st1(2) by (simp add: synced_def pl)
  moreover have "i_flags (inodes st' j) = i_flags (inodes st j) AND NOT I_DIRTY" if "j \<in> set is" for j
    using st'(6) that ni oth [of j] by fastforce
  moreover have "i_di (inodes st' j) = i_di (inodes st j)" for j using st'(5) synced_places(4) [OF st1(2), of j] by (simp add: pl)
  moreover have "inodes st' j = inodes st j" if "j \<notin> set (i # is)" for j using st'(7) oth [of j] that by simp
  ultimately show ?case using run st'(2-4) by auto
qed

subsection \<open>Property\<close>

text \<open>C15: the loop of \<open>efs_sync\<close> over the dirty inodes ends: it empties the list, and then every inode
  that was on it is clean and its record on disk, read back, is the inode in memory; the other inodes are
  as before. The inodes must be unlocked, and no record may overlap another or an indirect block.\<close>

theorem sync_inodes_terminates:
  assumes "sync_ready is st" and "layout_ok (set is) st"
  shows "\<exists>st'. sync_inodes st = Some (Inr st') \<and> list_empty S_idirty (links_e st') \<and> held st' = {S_lock} \<and>
    (\<forall>j \<in> set is. on_disk st' j \<and> i_di (inodes st' j) = i_di (inodes st j) \<and> i_flags (inodes st' j) AND I_DIRTY = 0) \<and>
    (\<forall>j. j \<notin> set is \<longrightarrow> inodes st' j = inodes st j)"
proof -
  obtain st' where st': "sync_inodes st = Some (Inr st')" "is_list (links_e st') S_idirty []" "held st' = {S_lock}"
    "\<forall>j \<in> set is. on_disk st' j" "\<forall>j. i_di (inodes st' j) = i_di (inodes st j)"
    "\<forall>j \<in> set is. i_flags (inodes st' j) = i_flags (inodes st j) AND NOT I_DIRTY" "\<forall>j. j \<notin> set is \<longrightarrow> inodes st' j = inodes st j"
    using sync_inodes_drain [OF assms(1), of "{}"] assms(2) by auto
  have "(f AND NOT I_DIRTY) AND I_DIRTY = 0" for f :: u32 by (simp add: and.assoc)
  then have "\<forall>j \<in> set is. i_flags (inodes st' j) AND I_DIRTY = 0" using st'(6) by simp
  with st' show ?thesis by (auto simp: list_empty_def)
qed

text \<open>Two dirty files.\<close>

definition dirty_fs :: efs where
  "dirty_fs = small_fs\<lparr>held := {S_lock}, links_e := list_add_head (I_dirty 1) S_idirty (list_add_head (I_dirty 0) S_idirty (links_e small_fs)),
     inodes := (\<lambda>i. (inodes small_fs i)\<lparr>i_flags := I_VALID OR I_DIRTY\<rparr>)\<rparr>"

theorem sync_inodes_terminates_witness:
  "\<exists>st'. sync_inodes dirty_fs = Some (Inr st') \<and> list_empty S_idirty (links_e st') \<and> on_disk st' 0 \<and> on_disk st' 1"
proof -
  have "is_list (links_e small_fs) S_idirty []" by (simp add: small_fs_def)
  then have "is_list (list_add_head (I_dirty 0) S_idirty (links_e small_fs)) S_idirty [I_dirty 0]" by (intro is_list_add_head) simp_all
  then have "is_list (links_e dirty_fs) S_idirty (List.map I_dirty [1, 0])"
    unfolding dirty_fs_def by (simp del: is_list_Nil) (rule is_list_add_head, simp_all)
  then have "sync_ready [1, 0] dirty_fs"
    by (simp add: sync_ready_def dirty_fs_def small_fs_def empty_file_def di_wf_def inode_wf_def)
  moreover have "layout_ok (set [1, 0]) dirty_fs"
    by (auto simp: layout_ok_def rec_bytes_def table_bytes_def inode_pos_def disk_pos_def offset_ino_def dirty_fs_def small_fs_def empty_file_def)
  ultimately show ?thesis using sync_inodes_terminates [of "[1, 0]" dirty_fs] by auto
qed

end
