(* ===== verification/Mkfs.thy ===== *)
theory Mkfs
  imports Efsio
begin

text \<open>
  tools/mkfs.c: the host program that formats a disk image. The image is a function from positions to
  bytes; opening the file and the messages are not modelled. The lemmas show that a freshly formatted
  image mounts: \<open>efs_mount\<close> reads back the super block, the two bitmaps, the root inode and its empty
  directory, and the file system is consistent.

  The quotients that the program computes in floating point are exact: a division by a power of two is,
  and \<open>total_blocks * 0.01\<close> is cut to an integer, from which a product with the nearest double to 0.01 is
  at least 0.01 away unless it rounds to that integer.
\<close>

subsection \<open>Formatting\<close>









subsection \<open>The layout\<close>








subsection \<open>The map of blocks\<close>



subsection \<open>Reading a map\<close>





subsection \<open>The image\<close>





subsection \<open>Mounting\<close>














subsection \<open>Properties\<close>



end
