(* ===== verification/Kfile.thy ===== *)
theory Kfile
  imports Efsio
begin

text \<open>
  Open files: kernel/file.c and include/fs/file.h, on top of easyfs. Files in memory are numbered in the
  order of their allocation; \<open>f_live\<close> are those the cache of files has not got back. The mutex of a file
  is the value of its semaphore, as for the sleep locks of \<open>Easyfs\<close>. A message to the console is not part
  of the state.

  The lemmas show that the offset of a file never leaves the file, that its users can write, seek and
  read back what they wrote, and that the inode is given back with the last reference.
\<close>

subsection \<open>Operations\<close>

abbreviation (input) FILE_READ :: u32 where "FILE_READ \<equiv> 1"
abbreviation (input) FILE_WRITE :: u32 where "FILE_WRITE \<equiv> 2"
abbreviation (input) FILE_RDWR :: u32 where "FILE_RDWR \<equiv> 3"

abbreviation (input) SEEK_SET :: int where "SEEK_SET \<equiv> 0"
abbreviation (input) SEEK_CUR :: int where "SEEK_CUR \<equiv> 1"
abbreviation (input) SEEK_END :: int where "SEEK_END \<equiv> 2"

record ofile =
  f_ref :: int
  f_flags :: u32
  f_ip :: "nat option"
  f_off :: u32
  f_mutex :: int

record ftab =
  fs :: efs
  files :: "nat \<Rightarrow> ofile"
  nfiles :: nat
  f_live :: "nat set"

definition upd_file :: "nat \<Rightarrow> (ofile \<Rightarrow> ofile) \<Rightarrow> ftab \<Rightarrow> ftab" where
  "upd_file f g st = st\<lparr>files := (files st)(f := g (files st f))\<rparr>"

definition file_alloc :: "ftab \<Rightarrow> nat \<times> ftab" where
  "file_alloc st =
     (let f = nfiles st
      in (f, upd_file f (\<lambda>_. \<lparr>f_ref = 0, f_flags = 0, f_ip = None, f_off = 0, f_mutex = 1\<rparr>)
               (st\<lparr>nfiles := f + 1, f_live := insert f (f_live st)\<rparr>)))"

definition file_free :: "nat \<Rightarrow> ftab \<Rightarrow> ftab" where
  "file_free f st = st\<lparr>f_live := f_live st - {f}\<rparr>"

definition file_dup :: "nat \<Rightarrow> ftab \<Rightarrow> ftab kres" where
  "file_dup f st =
     (if \<not> f_ref (files st f) > 0 then Inl (Assert ''file_dup'')
      else Inr (upd_file f (\<lambda>x. x\<lparr>f_ref := atomic_inc (f_ref x)\<rparr>) st))"

definition file_open :: "u8 list \<Rightarrow> u32 \<Rightarrow> ftab \<Rightarrow> (nat option \<times> ftab) kres" where
  "file_open file_path fl st =
     bindR (efs_d_namei file_path (fs st)) (\<lambda>(r, e).
       let st = st\<lparr>fs := e\<rparr>
       in case r of
            None \<Rightarrow> Inr (None, st)
          | Some i \<Rightarrow>
              (case file_alloc st of (f, st) \<Rightarrow>
                 Inr (Some f, upd_file f (\<lambda>x. x\<lparr>f_ref := 1, f_flags := f_flags x OR fl, f_ip := Some i, f_off := 0\<rparr>) st)))"

definition file_close :: "nat \<Rightarrow> ftab \<Rightarrow> ftab kres" where
  "file_close f st =
     (if \<not> f_ref (files st f) > 0 then Inl (Assert ''file_close'')
      else
        let (z, v) = atomic_dec_and_test (f_ref (files st f));
            st = upd_file f (\<lambda>x. x\<lparr>f_ref := v\<rparr>) st
        in if z then
             (case f_ip (files st f) of
                None \<Rightarrow> Inl (Fault ''f->f_ip is NULL'')
              | Some i \<Rightarrow> bindR (efs_i_put i (fs st)) (\<lambda>e. Inr (file_free f (st\<lparr>fs := e\<rparr>))))
           else Inr st)"

definition f_lock :: "nat \<Rightarrow> ftab \<Rightarrow> ftab kres" where
  "f_lock f st = bindR (sleep_on (f_mutex (files st f))) (\<lambda>v. Inr (upd_file f (\<lambda>x. x\<lparr>f_mutex := v\<rparr>) st))"

definition f_unlock :: "nat \<Rightarrow> ftab \<Rightarrow> ftab" where
  "f_unlock f = upd_file f (\<lambda>x. x\<lparr>f_mutex := f_mutex x + 1\<rparr>)"

definition file_read :: "nat \<Rightarrow> u64 \<Rightarrow> u32 \<Rightarrow> ftab \<Rightarrow> (int \<times> ftab) kres" where
  "file_read f vaddr len st =
     (if f_flags (files st f) AND FILE_READ = 0 then Inr (- 1, st)
      else case f_ip (files st f) of
          None \<Rightarrow> Inl (Assert ''file_read f->f_ip'')
        | Some i \<Rightarrow>
            bindR (f_lock f st) (\<lambda>st.
            bindR (efs_i_read i (f_off (files st f)) len vaddr (fs st)) (\<lambda>(r, e).
            let st = st\<lparr>fs := e\<rparr>
            in if r > 0 then Inr (r, f_unlock f (upd_file f (\<lambda>x. x\<lparr>f_off := f_off x + word_of_int r\<rparr>) st))
               else Inl (Panic ''file_read''))))"

definition file_write :: "nat \<Rightarrow> u64 \<Rightarrow> u32 \<Rightarrow> ftab \<Rightarrow> (int \<times> ftab) kres" where
  "file_write f vaddr len st =
     (if f_flags (files st f) AND FILE_WRITE = 0 then Inr (- 1, st)
      else case f_ip (files st f) of
          None \<Rightarrow> Inl (Assert ''file_write f->f_ip'')
        | Some i \<Rightarrow>
            bindR (f_lock f st) (\<lambda>st.
            bindR (efs_i_write i (f_off (files st f)) len vaddr (fs st)) (\<lambda>(r, e).
            let st = st\<lparr>fs := e\<rparr>
            in if r > 0 then Inr (r, f_unlock f (upd_file f (\<lambda>x. x\<lparr>f_off := f_off x + word_of_int r\<rparr>) st))
               else Inl (Panic ''file_write''))))"

text \<open>The size is an \<open>int\<close> that the comparison with an offset makes unsigned again; \<open>new_offset < 0\<close> is never true.\<close>

definition file_llseek :: "nat \<Rightarrow> u32 \<Rightarrow> int \<Rightarrow> ftab \<Rightarrow> (int \<times> ftab) kres" where
  "file_llseek f offset whence st =
     (case f_ip (files st f) of
        None \<Rightarrow> Inl (Assert ''file_llseek f->f_ip'')
      | Some i \<Rightarrow>
          bindR (f_lock f st) (\<lambda>st.
          let sz = word_of_int (efs_i_size i (fs st));
              new_offset = (if whence = SEEK_SET then offset else if whence = SEEK_CUR then f_off (files st f) + offset else sz + offset)
          in if whence = SEEK_SET \<or> whence = SEEK_CUR \<or> whence = SEEK_END then
               if new_offset > sz then Inr (- 1, f_unlock f st)
               else Inr (0, f_unlock f (upd_file f (\<lambda>x. x\<lparr>f_off := new_offset\<rparr>) st))
             else Inr (- 1, f_unlock f st)))"

subsection \<open>Files only grow\<close>

definition grows :: "efs \<Rightarrow> efs \<Rightarrow> bool" where
  "grows st st' \<longleftrightarrow> (\<forall>j. i_size (i_di (inodes st j)) \<le> i_size (i_di (inodes st' j)))"

lemma grows_refl [simp]: "grows st st"
  by (simp add: grows_def)

lemma grows_trans: "grows st st1 \<Longrightarrow> grows st1 st2 \<Longrightarrow> grows st st2"
  unfolding grows_def by (meson order_trans)

definition same_sizes :: "efs \<Rightarrow> efs \<Rightarrow> bool" where
  "same_sizes st st' \<longleftrightarrow> (\<forall>j. i_size (i_di (inodes st' j)) = i_size (i_di (inodes st j)))"

lemma same_sizes_trans: "same_sizes st st1 \<Longrightarrow> same_sizes st1 st2 \<Longrightarrow> same_sizes st st2"
  by (simp add: same_sizes_def)

lemma bmap_alloc_locked_sizes: "bmap_alloc_locked st = Inr (b, st') \<Longrightarrow> inodes st' = inodes st"
  by (auto simp: bmap_alloc_locked_def spin_on_def spin_off_def efs_bmap_alloc_def split: if_splits)

lemma efs_i_bmap_sizes: "efs_i_bmap i l a st = Inr (b, st') \<Longrightarrow> same_sizes st st'"
  by (auto simp: efs_i_bmap_def same_sizes_def Let_def upd_di_def upd_inode_def split: if_splits dest!: bmap_alloc_locked_sizes)

lemma part_fits:
  assumes "tot < len"
  shows "tot \<le> tot + part len tot offset" and "tot + part len tot offset \<le> len"
  using part_le [of len tot offset] assms word_le_minus_mono_left unfolding word_le_nat_alt word_less_nat_alt by unat_arith+

lemma efs_i_read_loop_sizes:
  assumes "efs_i_read_loop i len tot offset va st = Inr (tot', st')" and "tot \<le> len"
  shows "same_sizes st st' \<and> tot' \<le> len"
  using assms
proof (induction i len tot offset va st rule: efs_i_read_loop.induct)
  case (1 i len tot offset va st)
  show ?case
  proof (cases "tot < len")
    case True
    obtain bno st1 where st1: "efs_i_bmap i (uint (offset div of_nat BLK_SIZE)) False st = Inr (bno, st1)"
      "(if bno = 0 then Inr (tot, st1) else efs_i_read_loop i len (tot + part len tot offset) (offset + part len tot offset)
         (va + ucast (part len tot offset)) (load_buf bno (offset mod of_nat BLK_SIZE) (part len tot offset) va st1)) = Inr (tot', st')"
      using "1.prems"(1) unfolding efs_i_read_loop.simps [of i len tot offset va st] Let_def if_P [OF True] by auto
    note s1 = efs_i_bmap_sizes [OF st1(1)]
    show ?thesis
    proof (cases "bno = 0")
      case False
      have "same_sizes (load_buf bno (offset mod of_nat BLK_SIZE) (part len tot offset) va st1) st' \<and> tot' \<le> len"
        by (rule "1.IH" [OF True st1(1) refl False refl]) (use st1(2) False part_fits [OF True] in simp_all)
      with s1 show ?thesis by (simp add: same_sizes_def)
    qed (use s1 st1(2) "1.prems"(2) in simp)
  next
    case False
    then show ?thesis using "1.prems" unfolding efs_i_read_loop.simps [of i len tot offset va st] if_not_P [OF False] by (auto simp: same_sizes_def)
  qed
qed

lemma efs_i_write_loop_sizes:
  assumes "efs_i_write_loop i len tot offset va st = Inr (tot', offset', st')" and "tot \<le> len"
  shows "same_sizes st st' \<and> tot' \<le> len \<and> offset' = offset + (tot' - tot)"
  using assms
proof (induction i len tot offset va st rule: efs_i_write_loop.induct)
  case (1 i len tot offset va st)
  show ?case
  proof (cases "tot < len")
    case True
    obtain bno st1 where st1: "efs_i_bmap i (uint (offset div of_nat BLK_SIZE)) True st = Inr (bno, st1)"
      "(if bno = 0 then Inr (tot, offset, st1) else efs_i_write_loop i len (tot + part len tot offset) (offset + part len tot offset)
         (va + ucast (part len tot offset)) (store_buf bno (offset mod of_nat BLK_SIZE) (part len tot offset) va st1)) = Inr (tot', offset', st')"
      using "1.prems"(1) unfolding efs_i_write_loop.simps [of i len tot offset va st] Let_def if_P [OF True] by auto
    note s1 = efs_i_bmap_sizes [OF st1(1)]
    show ?thesis
    proof (cases "bno = 0")
      case False
      have "same_sizes (store_buf bno (offset mod of_nat BLK_SIZE) (part len tot offset) va st1) st' \<and> tot' \<le> len \<and>
          offset' = offset + part len tot offset + (tot' - (tot + part len tot offset))"
        by (rule "1.IH" [OF True st1(1) refl False refl]) (use st1(2) False part_fits [OF True] in simp_all)
      with s1 show ?thesis by (simp add: same_sizes_def)
    qed (use s1 st1(2) "1.prems"(2) in simp)
  next
    case False
    then show ?thesis using "1.prems" unfolding efs_i_write_loop.simps [of i len tot offset va st] if_not_P [OF False] by (auto simp: same_sizes_def)
  qed
qed

lemma word_of_sint: "word_of_int (sint (w :: u32)) = w"
  by simp

lemma efs_i_read_bound:
  assumes "efs_i_read i offset len va st = Inr (r, st')"
  shows "grows st st' \<and> (r > 0 \<longrightarrow> offset + word_of_int r \<le> i_size (i_di (inodes st' i)))"
proof (cases "offset > i_size (i_di (inodes st i)) \<or> offset + len < offset")
  case True
  with assms show ?thesis by (auto simp: efs_i_read_def)
next
  case False
  let ?sz = "i_size (i_di (inodes st i))" and ?l = "if offset + len > i_size (i_di (inodes st i)) then i_size (i_di (inodes st i)) - offset else len"
  obtain st1 tot st2 where s: "sleep_i i st = Inr st1" "efs_i_read_loop i ?l 0 offset va st1 = Inr (tot, st2)" "r = sint tot" "st' = wake_i i st2"
    using assms False by (auto simp: efs_i_read_def Let_def)
  have l: "same_sizes st1 st2" "tot \<le> ?l" using efs_i_read_loop_sizes [OF s(2)] by simp_all
  have z: "same_sizes st st'" using s(1,4) l(1) by (auto simp: sleep_i_def same_sizes_def upd_inode_def wake_i_def)
  have "offset + tot \<le> ?sz" using False l(2) by (cases "offset + len > ?sz") (simp_all, unat_arith+)
  then show ?thesis using z s(3) by (simp add: same_sizes_def grows_def)
qed

lemma efs_i_write_bound:
  assumes "efs_i_write i offset len va st = Inr (r, st')"
  shows "grows st st' \<and> (r > 0 \<longrightarrow> offset + word_of_int r \<le> i_size (i_di (inodes st' i)))"
proof (cases "offset > i_size (i_di (inodes st i)) \<or> offset + len < offset \<or> unat (offset + len) > MAXFILE * BLK_SIZE")
  case True
  with assms show ?thesis by (auto simp: efs_i_write_def split: if_splits)
next
  case False
  obtain st1 tot off' st2 where s: "sleep_i i st = Inr st1" "efs_i_write_loop i len 0 offset va st1 = Inr (tot, off', st2)" "r = sint tot"
    "grows st2 st'" "off' \<le> i_size (i_di (inodes st' i))"
    using assms False by (auto simp: efs_i_write_def Let_def spin_on_def spin_off_def efs_i_sdirty_def upd_links_def upd_di_def upd_inode_def wake_i_def grows_def
        split: if_splits)
  have l: "same_sizes st1 st2" "off' = offset + tot" using efs_i_write_loop_sizes [OF s(2)] by simp_all
  have "same_sizes st st2" using s(1) l(1) by (auto simp: sleep_i_def same_sizes_def upd_inode_def)
  then show ?thesis using s(3-5) l(2) by (simp add: same_sizes_def grows_def)
qed

subsection \<open>The offset stays in the file\<close>

definition off_ok :: "ftab \<Rightarrow> bool" where
  "off_ok st \<longleftrightarrow> (\<forall>f \<in> f_live st. case f_ip (files st f) of None \<Rightarrow> True | Some i \<Rightarrow> f_off (files st f) \<le> i_size (i_di (inodes (fs st) i)))"

datatype fop = F_read nat u64 u32 | F_write nat u64 u32 | F_seek nat u32 int | F_dup nat | F_close nat

fun file_op :: "fop \<Rightarrow> ftab \<Rightarrow> ftab kres" where
  "file_op (F_read f va len) st = bindR (file_read f va len st) (\<lambda>(_, st). Inr st)"
| "file_op (F_write f va len) st = bindR (file_write f va len st) (\<lambda>(_, st). Inr st)"
| "file_op (F_seek f off wh) st = bindR (file_llseek f off wh st) (\<lambda>(_, st). Inr st)"
| "file_op (F_dup f) st = file_dup f st"
| "file_op (F_close f) st = file_close f st"

fun file_ops :: "fop list \<Rightarrow> ftab \<Rightarrow> ftab kres" where
  "file_ops [] st = Inr st"
| "file_ops (p # ps) st = bindR (file_op p st) (file_ops ps)"

text \<open>A file that moves to an offset within its inode while the inodes only grow keeps the invariant.\<close>

lemma off_ok_move:
  assumes "off_ok st" and "grows (fs st) (fs st')" and "f_live st' \<subseteq> f_live st"
    and "\<And>g. g \<noteq> f \<Longrightarrow> f_ip (files st' g) = f_ip (files st g) \<and> f_off (files st' g) = f_off (files st g)"
    and "f_ip (files st' f) = f_ip (files st f)"
    and "f_off (files st' f) = f_off (files st f) \<or> (\<exists>i. f_ip (files st f) = Some i \<and> f_off (files st' f) \<le> i_size (i_di (inodes (fs st') i)))"
  shows "off_ok st'"
  unfolding off_ok_def
proof
  fix g assume g: "g \<in> f_live st'"
  have old: "f_off (files st g) \<le> i_size (i_di (inodes (fs st') i))" if "f_ip (files st g) = Some i" for i
  proof -
    have "f_off (files st g) \<le> i_size (i_di (inodes (fs st) i))"
      using bspec [OF assms(1) [unfolded off_ok_def], of g] assms(3) g that by auto
    also have "\<dots> \<le> i_size (i_di (inodes (fs st') i))" using assms(2) by (simp add: grows_def)
    finally show ?thesis .
  qed
  show "case f_ip (files st' g) of None \<Rightarrow> True | Some i \<Rightarrow> f_off (files st' g) \<le> i_size (i_di (inodes (fs st') i))"
    using old assms(4) [of g] assms(5,6) by (cases "g = f") (auto split: option.splits)
qed

lemma f_lock_simps:
  assumes "f_lock f st = Inr st'"
  shows "fs st' = fs st" "f_live st' = f_live st" "f_off (files st' g) = f_off (files st g)" "f_ip (files st' g) = f_ip (files st g)"
  using assms by (auto simp: f_lock_def upd_file_def)

lemma file_read_off_ok:
  assumes "off_ok st" and "file_read f va len st = Inr (r, st')"
  shows "off_ok st'"
proof (cases "f_flags (files st f) AND FILE_READ = 0")
  case True
  then show ?thesis using assms by (simp add: file_read_def)
next
  case False
  then obtain i st1 e where s: "f_ip (files st f) = Some i" "f_lock f st = Inr st1" "efs_i_read i (f_off (files st1 f)) len va (fs st1) = Inr (r, e)" "r > 0"
    "st' = f_unlock f (upd_file f (\<lambda>x. x\<lparr>f_off := f_off x + word_of_int r\<rparr>) (st1\<lparr>fs := e\<rparr>))"
    using assms(2) by (auto simp: file_read_def Let_def split: option.splits if_splits)
  note l = f_lock_simps [OF s(2)]
  show ?thesis by (rule off_ok_move [OF assms(1), of _ f])
      (use efs_i_read_bound [OF s(3)] s l in \<open>auto simp: f_unlock_def upd_file_def\<close>)
qed

lemma file_write_off_ok:
  assumes "off_ok st" and "file_write f va len st = Inr (r, st')"
  shows "off_ok st'"
proof (cases "f_flags (files st f) AND FILE_WRITE = 0")
  case True
  then show ?thesis using assms by (simp add: file_write_def)
next
  case False
  then obtain i st1 e where s: "f_ip (files st f) = Some i" "f_lock f st = Inr st1" "efs_i_write i (f_off (files st1 f)) len va (fs st1) = Inr (r, e)" "r > 0"
    "st' = f_unlock f (upd_file f (\<lambda>x. x\<lparr>f_off := f_off x + word_of_int r\<rparr>) (st1\<lparr>fs := e\<rparr>))"
    using assms(2) by (auto simp: file_write_def Let_def split: option.splits if_splits)
  note l = f_lock_simps [OF s(2)]
  show ?thesis by (rule off_ok_move [OF assms(1), of _ f])
      (use efs_i_write_bound [OF s(3)] s l in \<open>auto simp: f_unlock_def upd_file_def\<close>)
qed

lemma file_llseek_off_ok:
  assumes "off_ok st" and "file_llseek f off wh st = Inr (r, st')"
  shows "off_ok st'"
proof -
  obtain i st1 where s: "f_ip (files st f) = Some i" "f_lock f st = Inr st1"
    "st' = f_unlock f st1 \<or> (\<exists>v. v \<le> word_of_int (efs_i_size i (fs st1)) \<and> st' = f_unlock f (upd_file f (\<lambda>x. x\<lparr>f_off := v\<rparr>) st1))"
    using assms(2) by (auto simp: file_llseek_def Let_def not_less split: option.splits if_splits)
  note l = f_lock_simps [OF s(2)]
  show ?thesis by (rule off_ok_move [OF assms(1), of _ f]) (use s l in \<open>auto simp: f_unlock_def upd_file_def efs_i_size_def\<close>)
qed

lemma file_op_off_ok:
  assumes "off_ok st" and "file_op p st = Inr st'"
  shows "off_ok st'"
proof (cases p)
  case (F_read f va len)
  with assms file_read_off_ok [OF assms(1)] show ?thesis by auto
next
  case (F_write f va len)
  with assms file_write_off_ok [OF assms(1)] show ?thesis by auto
next
  case (F_seek f off wh)
  with assms file_llseek_off_ok [OF assms(1)] show ?thesis by auto
next
  case (F_dup f)
  show ?thesis by (rule off_ok_move [OF assms(1), of _ f]) (use assms(2) F_dup in \<open>auto simp: file_dup_def upd_file_def split: if_splits\<close>)
next
  case (F_close f)
  show ?thesis by (rule off_ok_move [OF assms(1), of _ f])
      (use assms(2) F_close in \<open>auto simp: file_close_def upd_file_def file_free_def atomic_dec_and_test_def efs_i_put_def upd_inode_def grows_def Let_def split: if_splits option.splits\<close>)
qed

lemma file_ops_off_ok: "off_ok st \<Longrightarrow> file_ops ps st = Inr st' \<Longrightarrow> off_ok st'"
  by (induction ps arbitrary: st) (auto dest: file_op_off_ok)

subsection \<open>References\<close>

fun file_dups :: "nat \<Rightarrow> nat \<Rightarrow> ftab \<Rightarrow> ftab kres" where
  "file_dups 0 f st = Inr st"
| "file_dups (Suc n) f st = bindR (file_dup f st) (file_dups n f)"

fun file_closes :: "nat \<Rightarrow> nat \<Rightarrow> ftab \<Rightarrow> ftab kres" where
  "file_closes 0 f st = Inr st"
| "file_closes (Suc n) f st = bindR (file_close f st) (file_closes n f)"

definition set_ref :: "nat \<Rightarrow> int \<Rightarrow> ftab \<Rightarrow> ftab" where
  "set_ref f v = upd_file f (\<lambda>x. x\<lparr>f_ref := v\<rparr>)"

lemma set_ref_simps [simp]:
  "f_ref (files (set_ref f v st) f) = v" "set_ref f w (set_ref f v st) = set_ref f w st" "f_ip (files (set_ref f v st) g) = f_ip (files st g)"
  "fs (set_ref f v st) = fs st" "f_live (set_ref f v st) = f_live st"
  by (simp_all add: set_ref_def upd_file_def)

lemma file_dups_ref:
  assumes "0 < f_ref (files st f)" and "f_ref (files st f) + int n < 2 ^ 31"
  shows "file_dups n f st = Inr (set_ref f (f_ref (files st f) + int n) st)"
  using assms
proof (induction n arbitrary: st)
  case 0
  show ?case by (simp add: set_ref_def upd_file_def)
next
  case (Suc n)
  have d: "file_dup f st = Inr (set_ref f (f_ref (files st f) + 1) st)"
    using Suc.prems by (simp add: file_dup_def set_ref_def upd_file_def atomic_inc_id)
  show ?case using Suc.IH [of "set_ref f (f_ref (files st f) + 1) st"] Suc.prems d by (simp add: algebra_simps)
qed

lemma file_closes_ref:
  assumes "f_ref (files st f) < 2 ^ 31" and "int n < f_ref (files st f)"
  shows "file_closes n f st = Inr (set_ref f (f_ref (files st f) - int n) st)"
  using assms
proof (induction n arbitrary: st)
  case 0
  show ?case by (simp add: set_ref_def upd_file_def)
next
  case (Suc n)
  have d: "file_close f st = Inr (set_ref f (f_ref (files st f) - 1) st)"
    using Suc.prems by (simp add: file_close_def set_ref_def upd_file_def atomic_dec_and_test_def wrap32_id)
  show ?case using Suc.IH [of "set_ref f (f_ref (files st f) - 1) st"] Suc.prems d by (simp add: algebra_simps)
qed

lemma file_close_last:
  assumes "f_ref (files st f) = 1" and "f_ip (files st f) = Some i" and "0 < i_refcnt (inodes (fs st) i)"
  shows "file_close f st = Inr (file_free f ((set_ref f 0 st)\<lparr>fs := upd_inode i (\<lambda>x. x\<lparr>i_refcnt := atomic_dec (i_refcnt x)\<rparr>) (fs st)\<rparr>))"
  using assms by (simp add: file_close_def atomic_dec_and_test_def efs_i_put_def set_ref_def upd_file_def wrap32_id)

lemma file_closes_snoc: "file_closes (Suc n) f st = bindR (file_closes n f st) (file_close f)"
proof (induction n arbitrary: st)
  case 0
  show ?case by (cases "file_close f st") simp_all
next
  case (Suc n)
  have "file_closes (Suc (Suc n)) f st = bindR (file_close f st) (\<lambda>s. file_closes (Suc n) f s)" by (rule file_closes.simps(2))
  also have "\<dots> = bindR (file_close f st) (\<lambda>s. bindR (file_closes n f s) (file_close f))" by (simp only: Suc.IH)
  also have "\<dots> = bindR (file_closes (Suc n) f st) (file_close f)" by (simp add: bindR_assoc)
  finally show ?case .
qed

subsection \<open>Properties\<close>

text \<open>C10: through an open file, what was written comes back. With a file opened for both, \<open>file_write\<close> at the file's
  offset, \<open>file_llseek\<close> back to it and \<open>file_read\<close> succeed with the whole length, the second buffer then holds
  the bytes of the first, the offset is behind them, the mutex is free again and the file system consistent.\<close>

theorem file_handle_roundtrip:
  assumes ok: "efs_ok (fs st) S" "i \<in> S" "i_slock (inodes (fs st) i) = 1"
    and f: "f_ip (files st f) = Some i" "f_mutex (files st f) = 1" "f_flags (files st f) AND FILE_READ \<noteq> 0" "f_flags (files st f) AND FILE_WRITE \<noteq> 0"
      "f_off (files st f) \<le> i_size (i_di (inodes (fs st) i))"
    and fit: "unat (f_off (files st f)) + unat len \<le> FILE_MAX" "2 * turns (unat (f_off (files st f))) (unat len) \<le> nfree (fs st)" "0 < len"
    and buf: "\<forall>j < unat len. va + of_nat j \<noteq> 0" "\<forall>j < unat len. vb + of_nat j \<noteq> 0"
  shows "\<exists>st1 st2 st3. file_write f va len st = Inr (int (unat len), st1) \<and> file_llseek f (f_off (files st f)) SEEK_SET st1 = Inr (0, st2) \<and>
    file_read f vb len st2 = Inr (int (unat len), st3) \<and> (\<forall>k < unat len. umem (fs st3) (vb + of_nat k) = umem (fs st) (va + of_nat k)) \<and>
    f_off (files st3 f) = f_off (files st f) + len \<and> f_mutex (files st3 f) = 1 \<and> efs_ok (fs st3) S"
proof -
  let ?o = "f_off (files st f)"
  obtain e1 e2 where e: "efs_i_write i ?o len va (fs st) = Inr (int (unat len), e1)" "efs_i_read i ?o len vb e1 = Inr (int (unat len), e2)" "efs_ok e2 S"
    "?o \<le> i_size (i_di (inodes e1 i))" "\<forall>k < unat len. umem e2 (vb + of_nat k) = umem (fs st) (va + of_nat k)"
    using write_then_read [OF ok f(5) fit(1,2) buf] by blast
  have pos: "0 < int (unat len)" using fit(3) by (simp add: word_less_def)
  obtain st1 where st1: "file_write f va len st = Inr (int (unat len), st1)" "fs st1 = e1" "f_ip (files st1 f) = Some i" "f_mutex (files st1 f) = 1"
    "f_flags (files st1 f) = f_flags (files st f)"
    using f e(1) pos by (simp add: file_write_def f_lock_def sleep_on_def upd_file_def f_unlock_def Let_def)
  obtain st2 where st2: "file_llseek f ?o SEEK_SET st1 = Inr (0, st2)" "fs st2 = e1" "f_ip (files st2 f) = Some i" "f_mutex (files st2 f) = 1"
    "f_flags (files st2 f) = f_flags (files st f)" "f_off (files st2 f) = ?o"
    using st1 linorder_not_less [THEN iffD2, OF e(4)] by (simp add: file_llseek_def f_lock_def sleep_on_def upd_file_def f_unlock_def Let_def efs_i_size_def)
  obtain st3 where "file_read f vb len st2 = Inr (int (unat len), st3)" "fs st3 = e2" "f_mutex (files st3 f) = 1" "f_off (files st3 f) = ?o + len"
    using st2 e(2) f(3) pos by (simp add: file_read_def f_lock_def sleep_on_def upd_file_def f_unlock_def Let_def)
  with st1(1) st2(1) e(3,5) show ?thesis by blast
qed

text \<open>One file, open for reading and writing at the start of the first inode of \<open>small_fs\<close>.\<close>

definition one_file :: ftab where
  "one_file = \<lparr>fs = upd_inode 0 (\<lambda>x. x\<lparr>i_refcnt := 1\<rparr>) small_fs, files = (\<lambda>_. \<lparr>f_ref = 1, f_flags = FILE_RDWR, f_ip = Some 0, f_off = 0, f_mutex = 1\<rparr>),
     nfiles = 1, f_live = {0}\<rparr>"

lemma one_file_fs: "efs_ok (fs one_file) {0, 1}" "nfree (fs one_file) = 99" "i_slock (inodes (fs one_file) 0) = 1" "umem (fs one_file) = ucast"
  "i_size (i_di (inodes (fs one_file) 0)) = 0" "i_refcnt (inodes (fs one_file) 0) = 1"
proof -
  have "same_blocks small_fs (fs one_file)" by (simp add: one_file_def same_blocks_def upd_inode_def)
  from same_blocksD [OF this] small_fs_ok(1) [of "{0, 1}"] small_fs_ok(2) show "efs_ok (fs one_file) {0, 1}" "nfree (fs one_file) = 99" by simp_all
  show "i_slock (inodes (fs one_file) 0) = 1" "umem (fs one_file) = ucast" "i_size (i_di (inodes (fs one_file) 0)) = 0" "i_refcnt (inodes (fs one_file) 0) = 1"
    using small_fs_inode by (simp_all add: one_file_def upd_inode_def)
qed

lemma one_file_file: "files one_file f = \<lparr>f_ref = 1, f_flags = FILE_RDWR, f_ip = Some 0, f_off = 0, f_mutex = 1\<rparr>" "f_live one_file = {0}"
  by (simp_all add: one_file_def)

theorem file_handle_roundtrip_witness:
  "\<exists>st1 st2 st3. file_write 0 0x1000 5000 one_file = Inr (5000, st1) \<and> file_llseek 0 0 SEEK_SET st1 = Inr (0, st2) \<and>
    file_read 0 0x8000 5000 st2 = Inr (5000, st3) \<and> (\<forall>k < 5000. umem (fs st3) (0x8000 + of_nat k) = ucast (0x1000 + of_nat k :: u64)) \<and>
    f_off (files st3 0) = 5000"
  using file_handle_roundtrip [OF one_file_fs(1), of 0 0 5000 "0x1000" "0x8000"] buffer_below [of "0x1000" 5000] buffer_below [of "0x8000" 5000]
  by (simp add: one_file_fs one_file_file turns_def) blast

text \<open>C14: no operation moves a file's offset behind the end of its inode. Whatever reads, writes, seeks, duplications
  and closes succeed on open files, in any order, every file that is still open has an offset of at most the
  size of its inode, also when \<open>file_llseek\<close> adds an offset that wraps around in 32 bits.\<close>

theorem file_offset_bounded:
  assumes "off_ok st" and "file_ops ps st = Inr st'"
  shows "\<forall>f \<in> f_live st'. \<forall>i. f_ip (files st' f) = Some i \<longrightarrow> f_off (files st' f) \<le> i_size (i_di (inodes (fs st') i))"
  using file_ops_off_ok [OF assms] by (auto simp: off_ok_def)

theorem file_offset_bounded_witness:
  "\<exists>st'. file_ops [F_dup 0, F_seek 0 0xFFFFFFFF SEEK_CUR, F_close 0] one_file = Inr st' \<and> f_live st' = {0} \<and> f_off (files st' 0) \<le> 0"
proof -
  have off: "off_ok one_file" by (simp add: off_ok_def one_file_file one_file_fs)
  have run: "\<exists>st'. file_ops [F_dup 0, F_seek 0 0xFFFFFFFF SEEK_CUR, F_close 0] one_file = Inr st' \<and> f_live st' = {0} \<and> f_ip (files st' 0) = Some 0 \<and> fs st' = fs one_file"
    by (simp add: file_dup_def file_llseek_def file_close_def f_lock_def sleep_on_def f_unlock_def upd_file_def one_file_file one_file_fs efs_i_size_def
        atomic_inc_id atomic_dec_and_test_def wrap32_id Let_def)
  then obtain st' where st': "file_ops [F_dup 0, F_seek 0 0xFFFFFFFF SEEK_CUR, F_close 0] one_file = Inr st'" "f_live st' = {0}" "f_ip (files st' 0) = Some 0"
    "fs st' = fs one_file" by blast
  from file_offset_bounded [OF off st'(1)] st'(2-4) have "f_off (files st' 0) \<le> 0" by (simp add: one_file_fs)
  with st'(1,2) show ?thesis by blast
qed

text \<open>C23: the inode is given back with the last reference. After \<open>n\<close> duplications of a file, \<open>n\<close> closes only count
  down and change nothing else; the one after them drops the file's reference to the inode, once, and returns the
  file to its cache, and a further one is caught by the assertion.\<close>

theorem file_last_close:
  assumes "f_ref (files st f) = 1" and "f_ip (files st f) = Some i" and "0 < i_refcnt (inodes (fs st) i)" and "n < 2 ^ 31 - 1"
  shows "\<exists>st1 st2. file_dups n f st = Inr st1 \<and> file_closes n f st1 = Inr st \<and> file_closes (Suc n) f st1 = Inr st2 \<and>
    f_live st2 = f_live st - {f} \<and> i_refcnt (inodes (fs st2) i) = atomic_dec (i_refcnt (inodes (fs st) i)) \<and>
    file_closes (Suc (Suc n)) f st1 = Inl (Assert ''file_close'')"
proof -
  have n: "1 + int n < 2 ^ 31" using assms(4) by simp
  define st1 where "st1 = set_ref f (1 + int n) st"
  have d: "file_dups n f st = Inr st1" using file_dups_ref [of st f n] assms(1) n by (simp add: st1_def)
  have m: "(files st f)\<lparr>f_ref := 1\<rparr> = files st f" using assms(1) by simp
  have "set_ref f 1 st = st" by (simp add: set_ref_def upd_file_def m)
  then have c: "file_closes n f st1 = Inr st" using file_closes_ref [of st1 f n] n by (simp add: st1_def)
  obtain st2 where st2: "file_close f st = Inr st2" "f_ref (files st2 f) = 0" "f_live st2 = f_live st - {f}"
    "i_refcnt (inodes (fs st2) i) = atomic_dec (i_refcnt (inodes (fs st) i))"
    using file_close_last [OF assms(1-3)] by (simp add: file_free_def upd_inode_def)
  have l: "file_closes (Suc n) f st1 = Inr st2" unfolding file_closes_snoc c by (simp add: st2(1))
  have "file_closes (Suc (Suc n)) f st1 = file_close f st2" unfolding file_closes_snoc [of "Suc n"] l by simp
  also have "\<dots> = Inl (Assert ''file_close'')" by (simp add: file_close_def st2(2))
  finally show ?thesis using d c l st2(3,4) by blast
qed

theorem file_last_close_witness:
  "\<exists>st1 st2. file_dups 5 0 one_file = Inr st1 \<and> file_closes 5 0 st1 = Inr one_file \<and> file_closes 6 0 st1 = Inr st2 \<and> f_live st2 = {} \<and>
    i_refcnt (inodes (fs st2) 0) = 0"
  using file_last_close [of one_file 0 0 5] by (simp add: one_file_file one_file_fs atomic_dec_id) blast

end
