(* ===== verification/Schedsafe.thy ===== *)
theory Schedsafe
  imports Sched
begin

text \<open>
  The scheduler and the semaphores on all CPUs together: a step relation on the state of \<open>Sched\<close>, whose
  steps are the operations of that theory, and what holds in every reachable state.
\<close>

subsection \<open>The operations on free locks\<close>

definition taken :: "nat \<Rightarrow> spinlock" where
  "taken c = \<lparr>lock = SPIN_LOCKED, lk_cpuid = int c\<rparr>"

text \<open>A hart behind a matched pair of \<open>push_off\<close> and \<open>pop_off\<close>, with interrupts on or off.\<close>

definition blip :: "hart \<Rightarrow> hart" where
  "blip h = (if noff h = 0 then h\<lparr>intena := sie h\<rparr> else h\<lparr>sie := False\<rparr>)"

lemma pop_push_blip: "noff h \<ge> 0 \<Longrightarrow> pop_off (push_off h) = Inr (blip h)"
  by (cases h) (auto simp: lock_defs blip_def Let_def)

lemma blip_simps [simp]: "noff (blip h) = noff h" "blip (blip h) = blip h" "push_off (blip h) = push_off h"
  by (cases h; simp add: blip_def lock_defs Let_def)+

lemma push_off_simps [simp]: "noff (push_off h) = noff h + 1" "\<not> sie (push_off h)"
  by (simp_all add: lock_defs Let_def)

lemma blip_push [simp]: "noff h \<ge> 0 \<Longrightarrow> blip (push_off h) = push_off h"
  by (cases h) (simp add: blip_def lock_defs Let_def)

lemma pop_push_push: "noff h \<ge> 0 \<Longrightarrow> pop_off (push_off (push_off h)) = Inr (push_off h)"
  using pop_push_blip [of "push_off h"] by simp

lemmas upd_defs = upd_thread_def upd_cpu_def upd_sem_def upd_mutex_def put_hart_def

lemma lock_last:
  "x\<lparr>t_lock := l, state := q\<rparr> = x\<lparr>state := q, t_lock := l\<rparr>" "x\<lparr>t_lock := l, ticks := n\<rparr> = x\<lparr>ticks := n, t_lock := l\<rparr>"
  "y\<lparr>s_lock := l, sem_value := v\<rparr> = y\<lparr>sem_value := v, s_lock := l\<rparr>" "y\<lparr>s_lock := l, waiters := w\<rparr> = y\<lparr>waiters := w, s_lock := l\<rparr>"
  "z\<lparr>c_hart := h, c_thread := p\<rparr> = z\<lparr>c_thread := p, c_hart := h\<rparr>" "z\<lparr>c_hart := h, c_mode := m\<rparr> = z\<lparr>c_mode := m, c_hart := h\<rparr>"
  by simp_all

lemma acquire_free:
  "get_lock lid st = spin_init \<Longrightarrow>
     acquire c lid st = Inr (put_lock lid (taken c) (put_hart c (push_off (c_hart (cpus st c))) st))"
  by (simp add: acquire_def spin_lock_free taken_def) (simp add: spin_init_def)

lemma acquire_other: "get_lock lid st = taken d \<Longrightarrow> d \<noteq> c \<Longrightarrow> acquire c lid st = Inl Spins"
  by (simp add: acquire_def spin_lock_def holding_def taken_def)

lemma release_taken:
  "get_lock lid st = taken c \<Longrightarrow> pop_off (c_hart (cpus st c)) = Inr h \<Longrightarrow>
     release c lid st = Inr (put_lock lid spin_init (put_hart c h st))"
  by (simp add: release_def spin_unlock_def holding_def taken_def spin_init_def)

lemma myproc_eq:
  "noff (c_hart (cpus st c)) \<ge> 0 \<Longrightarrow> myproc c st = Inr (c_thread (cpus st c), put_hart c (blip (c_hart (cpus st c))) st)"
  by (simp add: myproc_def pop_push_blip)

lemma this_thread_eq:
  "noff (c_hart (cpus st c)) \<ge> 0 \<Longrightarrow> c_thread (cpus st c) = Some t \<Longrightarrow>
     this_thread c st = Inr (t, put_hart c (blip (c_hart (cpus st c))) st)"
  by (simp add: this_thread_def myproc_eq)

lemmas op_eqs = acquire_free release_taken myproc_eq this_thread_eq pop_push_blip pop_push_push

definition next_load :: "nat \<Rightarrow> sys \<Rightarrow> int" where
  "next_load t st = (if cpu_affinity (threads st t) = NO_CPU_AFF then (load_cpu_id st + 1) mod int NCPU else load_cpu_id st)"

definition target :: "nat \<Rightarrow> sys \<Rightarrow> nat" where
  "target t st = nat (if cpu_affinity (threads st t) = NO_CPU_AFF then next_load t st else cpu_affinity (threads st t))"

lemma target_cong:
  assumes "cpu_affinity (threads st' t) = cpu_affinity (threads st t)" and "load_cpu_id st' = load_cpu_id st"
  shows "target t st' = target t st" "next_load t st' = next_load t st"
  using assms by (simp_all add: target_def next_load_def)

definition enqueue :: "nat \<Rightarrow> sys \<Rightarrow> sys" where
  "enqueue t st = st\<lparr>load_cpu_id := next_load t st, nodes := list_add_head (Th t) (Run_head (target t st)) (nodes st)\<rparr>"

lemma add_runnable_task_eq:
  assumes "noff (c_hart (cpus st c)) \<ge> 0" and "load_lock st = spin_init" and "rq_lock st (target t st) = spin_init"
  shows "add_runnable_task c t st = Inr (put_hart c (blip (c_hart (cpus st c))) (enqueue t st))"
proof -
  have r: "(rq_lock st)(target t st := spin_init) = rq_lock st" using assms(3) by auto
  have "add_runnable_task c t st = Inr ((put_hart c (blip (c_hart (cpus st c))) (enqueue t st))\<lparr>load_lock := spin_init, rq_lock := (rq_lock st)(target t st := spin_init)\<rparr>)"
    by (cases "cpu_affinity (threads st t) = NO_CPU_AFF")
      (use assms in \<open>simp_all add: add_runnable_task_def op_eqs upd_defs enqueue_def next_load_def target_def Let_def\<close>)
  also have "\<dots> = Inr (put_hart c (blip (c_hart (cpus st c))) (enqueue t st))"
    unfolding r by (intro arg_cong [where f = Inr] sys.equality) (use assms(2) in \<open>simp_all add: upd_defs enqueue_def\<close>)
  finally show ?thesis .
qed

lemma upd_thread_id: "f (threads st t) = threads st t \<Longrightarrow> upd_thread t f st = st"
  by (intro sys.equality) (auto simp: upd_thread_def)

lemma upd_sem_id: "f (sems st s) = sems st s \<Longrightarrow> upd_sem s f st = st"
  by (intro sys.equality) (auto simp: upd_sem_def)

definition runnable :: "nat \<Rightarrow> sys \<Rightarrow> sys" where
  "runnable t st = enqueue t (upd_thread t (\<lambda>x. x\<lparr>state := RUNNABLE\<rparr>) st)"

lemma wakeup_process_eq:
  assumes "noff (c_hart (cpus st c)) \<ge> 0" and "load_lock st = spin_init" and "rq_lock st (target t st) = spin_init"
    and "t_lock (threads st t) = spin_init"
  shows "wakeup_process c t st = Inr (put_hart c (blip (c_hart (cpus st c))) (runnable t st))"
proof -
  define u where "u = upd_thread t (\<lambda>x. x\<lparr>t_lock := taken c, state := RUNNABLE\<rparr>) (put_hart c (push_off (c_hart (cpus st c))) st)"
  have tg: "target t u = target t st" "next_load t u = next_load t st" by (rule target_cong; simp add: u_def upd_defs)+
  have tr: "target t (upd_thread t (\<lambda>x. x\<lparr>state := RUNNABLE\<rparr>) st) = target t st" "next_load t (upd_thread t (\<lambda>x. x\<lparr>state := RUNNABLE\<rparr>) st) = next_load t st"
    by (rule target_cong; simp add: upd_defs)+
  have u: "noff (c_hart (cpus u c)) \<ge> 0" "load_lock u = spin_init" "rq_lock u (target t u) = spin_init"
    "blip (c_hart (cpus u c)) = push_off (c_hart (cpus st c))"
    unfolding tg using assms by (simp_all add: u_def upd_defs)
  have tl: "(threads st t)\<lparr>state := RUNNABLE, t_lock := spin_init\<rparr> = (threads st t)\<lparr>state := RUNNABLE\<rparr>"
    using assms(4) by (cases "threads st t") simp
  have "bindR (acquire c (L_thread t) st) (\<lambda>st. Inr (upd_thread t (\<lambda>x. x\<lparr>state := RUNNABLE\<rparr>) st)) = Inr u"
    using assms by (simp add: op_eqs u_def upd_defs)
  then have "wakeup_process c t st = bindR (add_runnable_task c t u) (\<lambda>st. release c (L_thread t) st)"
    using assms by (simp add: wakeup_process_def op_eqs u_def upd_defs)
  also have "\<dots> = release c (L_thread t) (put_hart c (push_off (c_hart (cpus st c))) (enqueue t u))"
    unfolding add_runnable_task_eq [OF u(1-3)] u(4) by simp
  also have "\<dots> = Inr (put_hart c (blip (c_hart (cpus st c))) (runnable t st))"
    unfolding runnable_def enqueue_def tg tr using assms by (simp add: op_eqs upd_defs u_def) (intro sys.equality; simp add: tl)
  finally show ?thesis .
qed

lemma sem_wait_pass:
  assumes "noff (c_hart (cpus st c)) \<ge> 0" and "s_lock (sems st s) = spin_init" and "atomic_dec (sem_value (sems st s)) \<ge> 0"
  shows "sem_wait_for k c s st = Inr (put_hart c (blip (c_hart (cpus st c))) (upd_sem s (\<lambda>x. x\<lparr>sem_value := atomic_dec (sem_value x)\<rparr>) st))"
proof -
  have s: "(sems st s)\<lparr>sem_value := v, s_lock := spin_init\<rparr> = (sems st s)\<lparr>sem_value := v\<rparr>" for v
    using assms(2) by (cases "sems st s") simp
  show ?thesis
    using assms by (simp add: sem_wait_for_def op_eqs upd_defs Let_def) (intro sys.equality; simp add: s)
qed

definition waiting :: "nat \<Rightarrow> nat \<Rightarrow> sys \<Rightarrow> sys" where
  "waiting t s st = (upd_sem s (\<lambda>x. x\<lparr>sem_value := atomic_dec (sem_value x), waiters := (waiters x)\<lparr>fifo_size := fifo_size (waiters x) + 1\<rparr>\<rparr>) st)
     \<lparr>nodes := list_add_tail (Th t) (fifo_list (waiters (sems st s))) (nodes st)\<rparr>"

definition go_down :: "nat \<Rightarrow> nat \<Rightarrow> cause \<Rightarrow> hart \<Rightarrow> sys \<Rightarrow> sys" where
  "go_down c t cs h st = upd_cpu c (\<lambda>x. x\<lparr>c_hart := h, c_mode := Descend t cs\<rparr>) (upd_thread t (\<lambda>x. x\<lparr>t_lock := taken c\<rparr>) st)"

lemma sem_wait_block:
  assumes "noff (c_hart (cpus st c)) \<ge> 0" and "s_lock (sems st s) = spin_init" and "atomic_dec (sem_value (sems st s)) < 0"
    and "c_thread (cpus st c) = Some t" and "t_lock (threads st t) = spin_init"
  shows "sem_wait_for k c s st = Inr (go_down c t (Sleep k) (push_off (c_hart (cpus st c))) (waiting t s st))"
proof -
  have s: "(sems st s)\<lparr>sem_value := v, waiters := f, s_lock := spin_init\<rparr> = (sems st s)\<lparr>sem_value := v, waiters := f\<rparr>" for v f
    using assms(2) by (cases "sems st s") simp
  show ?thesis
    using assms by (simp add: sem_wait_for_def op_eqs upd_defs Let_def fifo_push_def go_down_def waiting_def) (intro sys.equality; simp add: s)
qed

lemma sem_signal_pass:
  assumes "noff (c_hart (cpus st c)) \<ge> 0" and "s_lock (sems st s) = spin_init" and "atomic_inc (sem_value (sems st s)) > 0"
  shows "sem_signal c s st = Inr (put_hart c (blip (c_hart (cpus st c))) (upd_sem s (\<lambda>x. x\<lparr>sem_value := atomic_inc (sem_value x)\<rparr>) st))"
proof -
  have s: "(sems st s)\<lparr>sem_value := v, s_lock := spin_init\<rparr> = (sems st s)\<lparr>sem_value := v\<rparr>" for v
    using assms(2) by (cases "sems st s") simp
  show ?thesis
    using assms by (simp add: sem_signal_def op_eqs upd_defs Let_def) (intro sys.equality; simp add: s)
qed

definition popped :: "nat \<Rightarrow> tnode lheap \<Rightarrow> sys \<Rightarrow> sys" where
  "popped s lk st = (upd_sem s (\<lambda>x. x\<lparr>sem_value := atomic_inc (sem_value x), waiters := (waiters x)\<lparr>fifo_size := fifo_size (waiters x) - 1\<rparr>\<rparr>) st)
     \<lparr>nodes := lk\<rparr>"

lemma sem_signal_wake:
  assumes h: "noff (c_hart (cpus st c)) \<ge> 0" and sl: "s_lock (sems st s) = spin_init" and v: "atomic_inc (sem_value (sems st s)) \<le> 0"
    and ne: "\<not> list_empty (fifo_list (waiters (sems st s))) (nodes st)"
    and pop: "list_pop (fifo_list (waiters (sems st s))) (nodes st) = (Some (Th t), lk)"
  shows "load_lock st = spin_init \<Longrightarrow> rq_lock st (target t st) = spin_init \<Longrightarrow> t_lock (threads st t) = spin_init \<Longrightarrow>
      sem_signal c s st = Inr (put_hart c (blip (c_hart (cpus st c))) (runnable t (popped s lk st)))"
    and "t_lock (threads st t) = taken d \<Longrightarrow> d \<noteq> c \<Longrightarrow> sem_signal c s st = Inl Spins"
proof -
  define u where "u = upd_sem s (\<lambda>x. x\<lparr>s_lock := taken c\<rparr>) (put_hart c (push_off (c_hart (cpus st c))) (popped s lk st))"
  have run: "sem_signal c s st = bindR (wakeup_process c t u) (release c (L_sem s))"
    using h sl v ne pop by (simp add: sem_signal_def op_eqs Let_def fifo_pop_def upd_defs u_def popped_def)
      (rule arg_cong [where f = "\<lambda>w. bindR (wakeup_process c t w) (release c (L_sem s))"], intro sys.equality; simp add: lock_last)
  show "sem_signal c s st = Inl Spins" if "t_lock (threads st t) = taken d" "d \<noteq> c"
  proof -
    have "acquire c (L_thread t) u = Inl Spins" by (rule acquire_other [OF _ that(2)]) (simp add: u_def popped_def upd_defs that(1))
    then show ?thesis unfolding run wakeup_process_def by simp
  qed
  assume l: "load_lock st = spin_init" "rq_lock st (target t st) = spin_init" "t_lock (threads st t) = spin_init"
  have tg: "target t u = target t st" "target t (popped s lk st) = target t st" "next_load t u = next_load t st" "next_load t (popped s lk st) = next_load t st"
    by (rule target_cong; simp add: u_def popped_def upd_defs)+
  have tr: "target t (upd_thread t (\<lambda>x. x\<lparr>state := RUNNABLE\<rparr>) w) = target t w" "next_load t (upd_thread t (\<lambda>x. x\<lparr>state := RUNNABLE\<rparr>) w) = next_load t w" for w
    by (rule target_cong; simp add: upd_defs)+
  have wu: "wakeup_process c t u = Inr (put_hart c (blip (c_hart (cpus u c))) (runnable t u))"
    by (rule wakeup_process_eq) (use h l in \<open>simp_all add: tg, simp_all add: u_def popped_def upd_defs\<close>)
  have hu: "blip (c_hart (cpus u c)) = push_off (c_hart (cpus st c))" using h by (simp add: u_def popped_def upd_defs)
  have s: "(sems st s)\<lparr>sem_value := x, waiters := f, s_lock := spin_init\<rparr> = (sems st s)\<lparr>sem_value := x, waiters := f\<rparr>" for x f
    using sl by (cases "sems st s") simp
  show "sem_signal c s st = Inr (put_hart c (blip (c_hart (cpus st c))) (runnable t (popped s lk st)))"
    unfolding run wu hu bindR_simps runnable_def enqueue_def tr tg
    using h by (simp add: op_eqs u_def popped_def upd_defs) (intro sys.equality; simp add: s)
qed

lemma yield_eq:
  assumes h: "noff (c_hart (cpus st c)) \<ge> 0" and th: "c_thread (cpus st c) = Some t" and l: "load_lock st = spin_init" "rq_lock st (target t st) = spin_init"
    and tl: "t_lock (threads st t) = spin_init"
  shows "yield c st = Inr (go_down c t Yield (push_off (c_hart (cpus st c))) (runnable t (upd_thread t (\<lambda>x. x\<lparr>ticks := 10\<rparr>) st)))"
proof -
  define u where "u = upd_thread t (\<lambda>x. x\<lparr>t_lock := taken c, ticks := 10, state := RUNNABLE\<rparr>) (put_hart c (push_off (c_hart (cpus st c))) st)"
  have tg: "target t u = target t st" "next_load t u = next_load t st" by (rule target_cong; simp add: u_def upd_defs)+
  have run: "yield c st = bindR (add_runnable_task c t u) (\<lambda>st. Inr (upd_cpu c (\<lambda>x. x\<lparr>c_mode := Descend t Yield\<rparr>) st))"
    using h th tl by (simp add: yield_def op_eqs upd_defs u_def Let_def)
  have add: "add_runnable_task c t u = Inr (put_hart c (blip (c_hart (cpus u c))) (enqueue t u))"
    by (rule add_runnable_task_eq) (use h l in \<open>simp_all add: tg, simp_all add: u_def upd_defs\<close>)
  have hu: "blip (c_hart (cpus u c)) = push_off (c_hart (cpus st c))" using h by (simp add: u_def upd_defs)
  have tr: "target t (upd_thread t (\<lambda>x. x\<lparr>state := RUNNABLE\<rparr>) (upd_thread t (\<lambda>x. x\<lparr>ticks := 10\<rparr>) st)) = target t st"
    "next_load t (upd_thread t (\<lambda>x. x\<lparr>state := RUNNABLE\<rparr>) (upd_thread t (\<lambda>x. x\<lparr>ticks := 10\<rparr>) st)) = next_load t st"
    by (rule target_cong; simp add: upd_defs)+
  show ?thesis
    unfolding run add hu bindR_simps runnable_def enqueue_def tr tg go_down_def
    by (simp add: u_def upd_defs) (intro sys.equality; simp add: lock_last)
qed

lemma thread_exit_eq:
  assumes h: "noff (c_hart (cpus st c)) \<ge> 0" and th: "c_thread (cpus st c) = Some t" and tl: "t_lock (threads st t) = spin_init"
  shows "thread_exit c st = Inr (go_down c t Quit (push_off (intr_off (blip (c_hart (cpus st c)))))
    ((upd_thread t (\<lambda>x. x\<lparr>state := ZOMBIE\<rparr>) st)\<lparr>nodes := list_add_tail (Th t) (Out_head c) (nodes st)\<rparr>))"
  using assms by (simp add: thread_exit_def quit_def op_eqs upd_defs go_down_def) (intro sys.equality; simp add: lock_last)

text \<open>A thread has switched to the scheduler of its CPU.\<close>

definition switched :: "nat \<Rightarrow> nat \<Rightarrow> hart \<Rightarrow> resume_point \<Rightarrow> sys \<Rightarrow> sys" where
  "switched c t h r st = upd_cpu c (\<lambda>x. x\<lparr>c_hart := h, c_thread := None, c_mode := Sched_loop\<rparr>)
     (upd_thread t (\<lambda>x. x\<lparr>ctx := r, t_lock := spin_init\<rparr>) st)"

definition pop1 :: "hart \<Rightarrow> hart" where
  "pop1 h = (if noff h = 1 \<and> intena h then h\<lparr>noff := 0, sie := True\<rparr> else h\<lparr>noff := noff h - 1\<rparr>)"

lemma pop_off_pop1: "noff h \<ge> 1 \<Longrightarrow> \<not> sie h \<Longrightarrow> pop_off h = Inr (pop1 h)"
  by (cases h) (auto simp: lock_defs pop1_def Let_def)

lemma noff_pop1 [simp]: "noff (pop1 h) = noff h - 1"
  by (simp add: pop1_def)

lemma blip_off: "noff h \<ge> 1 \<Longrightarrow> \<not> sie h \<Longrightarrow> blip h = h"
  by (cases h) (simp add: blip_def)

lemma sched_eq:
  assumes "noff (c_hart (cpus st c)) \<ge> 1" and "\<not> sie (c_hart (cpus st c))" and "c_thread (cpus st c) = Some t"
    and "t_lock (threads st t) = taken c" and "state (threads st t) \<noteq> RUNNING"
  shows "sched c back st = Inr (switched c t (pop1 (c_hart (cpus st c))) (back (intena (c_hart (cpus st c)))) st)"
  using assms blip_off [of "c_hart (cpus st c)"]
  by (simp add: sched_def this_thread_eq release_taken pop_off_pop1 upd_defs holding_def taken_def intr_get_def switched_def assertR_def)

lemma descend_sleep:
  assumes "c_mode (cpus st c) = Descend t (Sleep k)" and "noff (c_hart (cpus st c)) \<ge> 1" and "\<not> sie (c_hart (cpus st c))"
    and "c_thread (cpus st c) = Some t" and "t_lock (threads st t) = taken c"
  shows "descend c st = Inr (switched c t (c_hart (cpus st c)) (In_sem_wait (intena (c_hart (cpus st c))) k)
    (upd_thread t (\<lambda>x. x\<lparr>state := SLEEPING\<rparr>) st))"
proof -
  define u where "u = put_hart c (push_off (c_hart (cpus st c))) (upd_thread t (\<lambda>x. x\<lparr>state := SLEEPING\<rparr>) st)"
  have p: "pop1 (push_off (c_hart (cpus st c))) = c_hart (cpus st c)" "intena (push_off (c_hart (cpus st c))) = intena (c_hart (cpus st c))"
    using assms(2,3) by (cases "c_hart (cpus st c)"; simp add: pop1_def lock_defs)+
  have "descend c st = sched c (\<lambda>i. In_sem_wait i k) u" using assms(1) by (simp add: descend_def u_def upd_defs)
  also have "\<dots> = Inr (switched c t (pop1 (c_hart (cpus u c))) (In_sem_wait (intena (c_hart (cpus u c))) k) u)"
    by (rule sched_eq) (use assms in \<open>simp_all add: u_def upd_defs\<close>)
  also have "\<dots> = Inr (switched c t (c_hart (cpus st c)) (In_sem_wait (intena (c_hart (cpus st c))) k) (upd_thread t (\<lambda>x. x\<lparr>state := SLEEPING\<rparr>) st))"
    using p by (simp add: u_def upd_defs switched_def)
  finally show ?thesis .
qed

lemma descend_other:
  assumes "c_mode (cpus st c) = Descend t cs" and "cs = Yield \<or> cs = Quit" and "noff (c_hart (cpus st c)) \<ge> 1" and "\<not> sie (c_hart (cpus st c))"
    and "c_thread (cpus st c) = Some t" and "t_lock (threads st t) = taken c" and "state (threads st t) \<noteq> RUNNING"
  shows "\<exists>r. descend c st = Inr (switched c t (pop1 (c_hart (cpus st c))) r st)"
  using assms(1,2) sched_eq [OF assms(3-)] by (auto simp: descend_def)

text \<open>A thread that a CPU has switched to.\<close>

definition dispatched :: "nat \<Rightarrow> nat \<Rightarrow> sys \<Rightarrow> sys" where
  "dispatched c t st = (upd_cpu c (\<lambda>x. x\<lparr>c_thread := Some t, c_mode := Exec t\<rparr>) (upd_thread t (\<lambda>x. x\<lparr>state := RUNNING\<rparr>) st))
     \<lparr>nodes := list_del (Th t) (nodes st)\<rparr>"

definition resumed :: "nat \<Rightarrow> resume_point \<Rightarrow> hart \<Rightarrow> sys \<Rightarrow> sys kres" where
  "resumed c r h st =
     (case r of
        Thread_entry \<Rightarrow> Inr (put_hart c (intr_on h) st)
      | Forkret \<Rightarrow> Inr (put_hart c h st)
      | In_yield i \<Rightarrow> Inr (put_hart c (h\<lparr>intena := i\<rparr>) st)
      | In_quit i \<Rightarrow> Inr (put_hart c (h\<lparr>intena := i\<rparr>) st)
      | In_sem_wait i k \<Rightarrow>
          bindR (pop_off (h\<lparr>intena := i\<rparr>)) (\<lambda>h. case k of None \<Rightarrow> Inr (put_hart c h st) | Some m \<Rightarrow> mutex_taken c m (put_hart c h st)))"

lemma put_hart_simps:
  "put_hart c h (put_hart c g st) = put_hart c h st" "c_hart (cpus (put_hart c g st) c) = g" "threads (put_hart c g st) = threads st"
  by (simp_all add: upd_defs)

lemma pick_cong:
  assumes "threads st' = threads st" and "nodes st' = nodes st"
  shows "pick_next_task c st' = pick_next_task c st"
  unfolding pick_next_task_def assms ..

lemma scheduler_none:
  assumes "noff (c_hart (cpus st c)) \<ge> 0" and "rq_lock st c = spin_init" and "pick_next_task c st = Inr None"
  shows "scheduler c st = Inr (put_hart c (intr_on (blip (c_hart (cpus st c)))) st)"
proof -
  have "pick_next_task c (put_lock (L_rq c) l (put_hart c h st)) = pick_next_task c st" for l h by (rule pick_cong) (simp_all add: upd_defs)
  moreover have "(rq_lock st)(c := spin_init) = rq_lock st" using assms(2) by auto
  ultimately show ?thesis using assms
    by (simp add: scheduler_def op_eqs upd_defs)
qed

lemma scheduler_some:
  assumes h: "noff (c_hart (cpus st c)) \<ge> 0" and rq: "rq_lock st c = spin_init" and pick: "pick_next_task c st = Inr (Some t)"
  shows "t_lock (threads st t) = taken d \<Longrightarrow> d \<noteq> c \<Longrightarrow> scheduler c st = Inl Spins"
    and "t_lock (threads st t) = spin_init \<Longrightarrow>
      scheduler c st = resumed c (ctx (threads st t)) (blip (c_hart (cpus st c))) (dispatched c t st)"
proof -
  define u where "u = put_lock (L_rq c) (taken c) (put_hart c (push_off (c_hart (cpus st c))) st)"
  have acq: "acquire c (L_rq c) st = Inr u" using rq by (simp add: acquire_free u_def)
  have pk: "pick_next_task c u = Inr (Some t)" using pick pick_cong [of u st c] by (simp add: upd_defs u_def)
  show "scheduler c st = Inl Spins" if "t_lock (threads st t) = taken d" "d \<noteq> c"
  proof -
    have "acquire c (L_thread t) u = Inl Spins" by (rule acquire_other [OF _ that(2)]) (simp add: u_def upd_defs that(1))
    then show ?thesis by (simp add: scheduler_def acq pk)
  qed
  assume tl: "t_lock (threads st t) = spin_init"
  define w where "w = put_hart c (push_off (c_hart (cpus st c))) (upd_thread t (\<lambda>x. x\<lparr>t_lock := taken c\<rparr>) (dispatched c t st))"
  have r: "(rq_lock st)(c := spin_init) = rq_lock st" using rq by auto
  have run: "scheduler c st = resume_thread c t w"
    unfolding scheduler_def acq bindR_simps pk option.case using h tl
    by (simp add: op_eqs u_def upd_defs) (rule arg_cong [where f = "resume_thread c t"], intro sys.equality; simp add: w_def dispatched_def upd_defs lock_last r)
  have tt: "(threads st t)\<lparr>state := RUNNING, t_lock := spin_init\<rparr> = (threads st t)\<lparr>state := RUNNING\<rparr>" using tl by (cases "threads st t") simp
  have ctx: "ctx (threads (dispatched c t st) t) = ctx (threads st t)" by (simp add: dispatched_def upd_defs)
  have rel: "release c (L_thread t) w = Inr (put_hart c (blip (c_hart (cpus st c))) (dispatched c t st))"
    using h by (simp add: w_def op_eqs dispatched_def upd_defs) (intro sys.equality; simp add: tt)
  show "scheduler c st = resumed c (ctx (threads st t)) (blip (c_hart (cpus st c))) (dispatched c t st)"
    unfolding run resume_thread_def rel bindR_simps put_hart_simps resumed_def ctx ..
qed

lemma resumed_ok:
  assumes "noff h \<ge> 0" and "noff (c_hart (cpus st c)) \<ge> 0" and "\<And>i k. r = In_sem_wait i k \<Longrightarrow> noff h \<ge> 1 \<and> \<not> sie h"
  shows "\<exists>h' M. noff h' \<ge> 0 \<and> resumed c r h st = Inr (put_hart c h' (st\<lparr>mutexes := M\<rparr>))"
proof -
  have ex: "\<exists>h' M. noff h' \<ge> 0 \<and> put_hart c g st = put_hart c h' (st\<lparr>mutexes := M\<rparr>)" if "noff g \<ge> 0" for g
    by (rule exI [of _ g], rule exI [of _ "mutexes st"]) (use that in simp)
  show ?thesis
  proof (cases r)
    case (In_sem_wait i k)
    let ?h = "pop1 (h\<lparr>intena := i\<rparr>)"
    have p: "pop_off (h\<lparr>intena := i\<rparr>) = Inr ?h" "noff ?h \<ge> 0" using assms(3) [OF In_sem_wait] by (simp_all add: pop_off_pop1)
    show ?thesis
    proof (cases k)
      case None
      then have "resumed c r h st = Inr (put_hart c ?h (st\<lparr>mutexes := mutexes st\<rparr>))" using p(1) by (simp add: resumed_def In_sem_wait)
      with p(2) show ?thesis by blast
    next
      case (Some m)
      have "mutex_taken c m (put_hart c ?h st) = Inr (put_hart c (blip ?h)
          (st\<lparr>mutexes := (mutexes st)(m := (mutexes st m)\<lparr>locked := MUTEX_LOCK, m_thread := c_thread (cpus st c)\<rparr>)\<rparr>))"
        using p(2) by (simp add: mutex_taken_def myproc_eq upd_defs)
      then have "resumed c r h st = Inr (put_hart c (blip ?h)
          (st\<lparr>mutexes := (mutexes st)(m := (mutexes st m)\<lparr>locked := MUTEX_LOCK, m_thread := c_thread (cpus st c)\<rparr>)\<rparr>))"
        using p(1) Some by (simp add: resumed_def In_sem_wait)
      moreover have "noff (blip ?h) \<ge> 0" using p(2) by simp
      ultimately show ?thesis by blast
    qed
  next
    case Thread_entry
    then show ?thesis using ex [of "intr_on h"] assms(1) by (simp add: resumed_def intr_on_def)
  next
    case Forkret
    then show ?thesis using ex [of h] assms(1) by (simp add: resumed_def)
  next
    case (In_yield i)
    then show ?thesis using ex [of "h\<lparr>intena := i\<rparr>"] assms(1) by (simp add: resumed_def)
  next
    case (In_quit i)
    then show ?thesis using ex [of "h\<lparr>intena := i\<rparr>"] assms(1) by (simp add: resumed_def)
  qed
qed

subsection \<open>Steps\<close>

datatype act =
    A_sched nat
  | A_tick nat
  | A_exit nat
  | A_wait nat nat
  | A_signal nat nat
  | A_lock nat nat
  | A_unlock nat nat
  | A_down nat
  | A_create nat nat int

fun perform :: "act \<Rightarrow> sys \<Rightarrow> sys kres" where
  "perform (A_sched c) st = scheduler c st"
| "perform (A_tick c) st = timer_tick c st"
| "perform (A_exit c) st = thread_exit c st"
| "perform (A_wait c s) st = sem_wait c s st"
| "perform (A_signal c s) st = sem_signal c s st"
| "perform (A_lock c m) st = mutex_lock c m st"
| "perform (A_unlock c m) st = mutex_unlock c m st"
| "perform (A_down c) st = descend c st"
| "perform (A_create c t aff) st = kthread_create c aff (Some t) st"

text \<open>
  What a CPU may do next. Interrupts come while a thread runs or the scheduler waits; their handlers
  may signal and create threads, but not wait. The semaphores in use are those of \<open>S\<close>, and no signal is given to a semaphore whose count is the largest
  \<open>int\<close>. The objects of the thread cache are those below \<open>N\<close>; \<open>UNUSED\<close> is the state of one that has not
  been handed out.
\<close>

definition executes :: "nat \<Rightarrow> sys \<Rightarrow> bool" where
  "executes c st = (c < NCPU \<and> (case c_mode (cpus st c) of Exec _ \<Rightarrow> True | _ \<Rightarrow> False))"

definition awake :: "nat \<Rightarrow> sys \<Rightarrow> bool" where
  "awake c st = (c < NCPU \<and> (case c_mode (cpus st c) of Descend _ _ \<Rightarrow> False | _ \<Rightarrow> True))"

fun ready :: "nat set \<Rightarrow> nat \<Rightarrow> act \<Rightarrow> sys \<Rightarrow> bool" where
  "ready S N (A_sched c) st \<longleftrightarrow> c < NCPU \<and> c_mode (cpus st c) = Sched_loop"
| "ready S N (A_tick c) st \<longleftrightarrow> awake c st"
| "ready S N (A_exit c) st \<longleftrightarrow> executes c st"
| "ready S N (A_wait c s) st \<longleftrightarrow> executes c st \<and> s \<in> S"
| "ready S N (A_signal c s) st \<longleftrightarrow> awake c st \<and> s \<in> S \<and> sem_value (sems st s) < 2 ^ 31 - 1"
| "ready S N (A_lock c m) st \<longleftrightarrow> executes c st \<and> m \<in> S"
| "ready S N (A_unlock c m) st \<longleftrightarrow> awake c st \<and> m \<in> S \<and> sem_value (sems st m) < 2 ^ 31 - 1"
| "ready S N (A_down c) st \<longleftrightarrow> c < NCPU \<and> (case c_mode (cpus st c) of Descend _ _ \<Rightarrow> True | _ \<Rightarrow> False)"
| "ready S N (A_create c t aff) st \<longleftrightarrow> awake c st \<and> t < N \<and> state (threads st t) = UNUSED"

inductive srun :: "nat set \<Rightarrow> nat \<Rightarrow> sys \<Rightarrow> act list \<Rightarrow> sys \<Rightarrow> bool" for S :: "nat set" and N :: nat and st0 :: sys where
  start: "srun S N st0 [] st0"
| step: "srun S N st0 as st \<Longrightarrow> ready S N a st \<Longrightarrow> perform a st = Inr st' \<Longrightarrow> srun S N st0 (as @ [a]) st'"

subsection \<open>The invariant\<close>

definition heads :: "nat set \<Rightarrow> tnode set" where
  "heads S = Run_head ` {..< NCPU} \<union> Out_head ` {..< NCPU} \<union> Wait_head ` S"

definition cpu_ok :: "nat set \<Rightarrow> nat \<Rightarrow> (tnode \<Rightarrow> tnode list) \<Rightarrow> sys \<Rightarrow> nat \<Rightarrow> bool" where
  "cpu_ok S N F st c \<longleftrightarrow>
     (case c_mode (cpus st c) of
        Sched_loop \<Rightarrow> c_thread (cpus st c) = None \<and> noff (c_hart (cpus st c)) \<ge> 0
      | Exec t \<Rightarrow> c_thread (cpus st c) = Some t \<and> noff (c_hart (cpus st c)) \<ge> 0 \<and> t < N \<and> state (threads st t) = RUNNING \<and>
          t_lock (threads st t) = spin_init \<and> Th t \<notin> fam_nodes (heads S) F
      | Descend t cs \<Rightarrow> c_thread (cpus st c) = Some t \<and> noff (c_hart (cpus st c)) \<ge> 1 \<and> \<not> sie (c_hart (cpus st c)) \<and> t < N \<and>
          t_lock (threads st t) = taken c \<and>
          (case cs of
             Sleep k \<Rightarrow> state (threads st t) = RUNNING \<and> (\<exists>s \<in> S. Th t \<in> set (F (Wait_head s)))
           | Yield \<Rightarrow> state (threads st t) = RUNNABLE \<and> (\<exists>d < NCPU. Th t \<in> set (F (Run_head d)))
           | Quit \<Rightarrow> state (threads st t) = ZOMBIE \<and> (\<exists>d < NCPU. Th t \<in> set (F (Out_head d)))))"

text \<open>The state of a thread that is on the queue \<open>a\<close>.\<close>

definition place_ok :: "sys \<Rightarrow> tnode \<Rightarrow> nat \<Rightarrow> bool" where
  "place_ok st a t \<longleftrightarrow>
     (case a of
        Run_head _ \<Rightarrow> state (threads st t) = RUNNABLE
      | Out_head _ \<Rightarrow> state (threads st t) = ZOMBIE
      | Wait_head _ \<Rightarrow> state (threads st t) = SLEEPING \<or> (\<exists>c < NCPU. \<exists>k. c_mode (cpus st c) = Descend t (Sleep k))
      | Th _ \<Rightarrow> False)"

definition queued_ok :: "nat \<Rightarrow> (tnode \<Rightarrow> tnode list) \<Rightarrow> sys \<Rightarrow> tnode \<Rightarrow> bool" where
  "queued_ok N F st a \<longleftrightarrow> (\<forall>n \<in> set (F a). \<exists>t < N. n = Th t \<and> place_ok st a t)"

definition sem_ok :: "(tnode \<Rightarrow> tnode list) \<Rightarrow> sys \<Rightarrow> nat \<Rightarrow> bool" where
  "sem_ok F st s \<longleftrightarrow> fifo_list (waiters (sems st s)) = Wait_head s \<and> s_lock (sems st s) = spin_init \<and>
     fifo_size (waiters (sems st s)) = int (length (F (Wait_head s))) \<and>
     length (F (Wait_head s)) = nat (- sem_value (sems st s)) \<and> sem_value (sems st s) < 2 ^ 31"

definition sinv :: "nat set \<Rightarrow> nat \<Rightarrow> (tnode \<Rightarrow> tnode list) \<Rightarrow> sys \<Rightarrow> bool" where
  "sinv S N F st \<longleftrightarrow> N < 2 ^ 31 \<and> list_family (heads S) (nodes st) F \<and>
     (\<forall>c < NCPU. cpu_ok S N F st c) \<and> (\<forall>a \<in> heads S. queued_ok N F st a) \<and> (\<forall>s \<in> S. sem_ok F st s) \<and>
     (\<forall>t < N. t_lock (threads st t) = spin_init \<or> (\<exists>c < NCPU. \<exists>cs. c_mode (cpus st c) = Descend t cs)) \<and>
     (\<forall>c < NCPU. \<forall>d < NCPU. \<forall>t. c_thread (cpus st c) = Some t \<longrightarrow> c_thread (cpus st d) = Some t \<longrightarrow> c = d) \<and>
     load_lock st = spin_init \<and> pid_lock st = spin_init \<and> (\<forall>c < NCPU. rq_lock st c = spin_init) \<and>
     load_cpu_id st \<ge> - 1 \<and> (\<forall>t < N. - 1 \<le> cpu_affinity (threads st t) \<and> cpu_affinity (threads st t) < int NCPU)"

lemma sinvD:
  assumes "sinv S N F st"
  shows "N < 2 ^ 31" "list_family (heads S) (nodes st) F" "c < NCPU \<Longrightarrow> cpu_ok S N F st c" "a \<in> heads S \<Longrightarrow> queued_ok N F st a"
    "s \<in> S \<Longrightarrow> sem_ok F st s" "t < N \<Longrightarrow> t_lock (threads st t) = spin_init \<or> (\<exists>c < NCPU. \<exists>cs. c_mode (cpus st c) = Descend t cs)"
    "c < NCPU \<Longrightarrow> d < NCPU \<Longrightarrow> c_thread (cpus st c) = Some t \<Longrightarrow> c_thread (cpus st d) = Some t \<Longrightarrow> c = d"
    "load_lock st = spin_init" "pid_lock st = spin_init" "c < NCPU \<Longrightarrow> rq_lock st c = spin_init" "load_cpu_id st \<ge> - 1"
    "t < N \<Longrightarrow> - 1 \<le> cpu_affinity (threads st t) \<and> cpu_affinity (threads st t) < int NCPU"
  using assms unfolding sinv_def by blast+

lemma taken_init [simp]: "taken c \<noteq> spin_init" "spin_init \<noteq> taken c" "taken c = taken d \<longleftrightarrow> c = d"
  by (auto simp: taken_def spin_init_def)

lemma heads_simps [simp]: "Run_head c \<in> heads S \<longleftrightarrow> c < NCPU" "Out_head c \<in> heads S \<longleftrightarrow> c < NCPU" "Wait_head s \<in> heads S \<longleftrightarrow> s \<in> S"
  "Th t \<notin> heads S"
  by (auto simp: heads_def)

text \<open>Changes that no part of the invariant looks at.\<close>

lemma sinv_cong:
  assumes "cpus st' = cpus st" "threads st' = threads st" "sems st' = sems st" "nodes st' = nodes st" "rq_lock st' = rq_lock st"
    "load_lock st' = load_lock st" "pid_lock st' = pid_lock st" "load_cpu_id st' = load_cpu_id st"
  shows "sinv S N F st' \<longleftrightarrow> sinv S N F st"
  unfolding sinv_def cpu_ok_def queued_ok_def place_ok_def sem_ok_def assms ..

lemma cpu_ok_cong:
  assumes "c_mode (cpus st' c) = c_mode (cpus st c)" and "c_thread (cpus st' c) = c_thread (cpus st c)"
    and "noff (c_hart (cpus st' c)) = noff (c_hart (cpus st c))" and "sie (c_hart (cpus st' c)) = sie (c_hart (cpus st c))"
    and "\<And>t. c_thread (cpus st c) = Some t \<Longrightarrow> state (threads st' t) = state (threads st t) \<and> t_lock (threads st' t) = t_lock (threads st t)"
    and "cpu_ok S N F st c"
  shows "cpu_ok S N F st' c"
  using assms unfolding cpu_ok_def by (auto split: mode.splits cause.splits)

lemma sinv_hart:
  assumes inv: "sinv S N F st" and c: "c < NCPU" and m: "\<And>t cs. c_mode (cpus st c) \<noteq> Descend t cs" and h: "noff h \<ge> 0"
  shows "sinv S N F (put_hart c h st)"
proof -
  have modes: "c_mode (cpus (put_hart c h st) d) = c_mode (cpus st d)" "c_thread (cpus (put_hart c h st) d) = c_thread (cpus st d)" for d
    by (simp_all add: upd_defs)
  have "cpu_ok S N F (put_hart c h st) d" if "d < NCPU" for d
  proof (cases "d = c")
    case True
    with sinvD(3) [OF inv c] m h show ?thesis by (auto simp: cpu_ok_def upd_defs split: mode.splits)
  next
    case False
    then show ?thesis by (intro cpu_ok_cong [OF _ _ _ _ _ sinvD(3) [OF inv that]]) (simp_all add: upd_defs)
  qed
  moreover have "queued_ok N F (put_hart c h st) a \<longleftrightarrow> queued_ok N F st a" for a unfolding queued_ok_def place_ok_def modes put_hart_simps ..
  moreover have "sem_ok F (put_hart c h st) s \<longleftrightarrow> sem_ok F st s" for s by (simp add: sem_ok_def upd_defs)
  ultimately show ?thesis using inv unfolding sinv_def modes put_hart_simps by (simp add: upd_defs)
qed

lemma cpu_ok_change:
  assumes "cpu_ok S N F st d" and "cpus st' d = cpus st d"
    and "\<And>u. c_thread (cpus st d) = Some u \<Longrightarrow> state (threads st' u) = state (threads st u) \<and> t_lock (threads st' u) = t_lock (threads st u)"
    and "\<And>u. c_thread (cpus st d) = Some u \<Longrightarrow> Th u \<in> fam_nodes (heads S) F' \<Longrightarrow> Th u \<in> fam_nodes (heads S) F"
    and "\<And>u a. c_thread (cpus st d) = Some u \<Longrightarrow> a \<in> heads S \<Longrightarrow> Th u \<in> set (F a) \<Longrightarrow> Th u \<in> set (F' a)"
  shows "cpu_ok S N F' st' d"
proof (cases "c_mode (cpus st d)")
  case Sched_loop
  with assms(1,2) show ?thesis by (simp add: cpu_ok_def)
next
  case (Exec u)
  with assms(1) have "c_thread (cpus st d) = Some u" by (simp add: cpu_ok_def)
  with assms Exec show ?thesis unfolding cpu_ok_def by auto
next
  case (Descend u cs)
  with assms(1) have "c_thread (cpus st d) = Some u" by (simp add: cpu_ok_def)
  note f = assms(3,5) [OF this]
  have "\<exists>x \<in> S. Th u \<in> set (F' (Wait_head x))" if "\<exists>x \<in> S. Th u \<in> set (F (Wait_head x))" using that f(2) by (meson heads_simps(3))
  moreover have "\<exists>x < NCPU. Th u \<in> set (F' (Run_head x))" if "\<exists>x < NCPU. Th u \<in> set (F (Run_head x))" using that f(2) by (meson heads_simps(1))
  moreover have "\<exists>x < NCPU. Th u \<in> set (F' (Out_head x))" if "\<exists>x < NCPU. Th u \<in> set (F (Out_head x))" using that f(2) by (meson heads_simps(2))
  ultimately show ?thesis using assms(1,2) f(1) Descend unfolding cpu_ok_def by (cases cs) simp_all
qed

lemma queued_change:
  assumes "queued_ok N F st a" and "\<And>n. n \<in> set (F' a) \<Longrightarrow> n \<in> set (F a) \<or> (\<exists>t < N. n = Th t \<and> place_ok st' a t)"
    and "\<And>u. Th u \<in> set (F' a) \<Longrightarrow> Th u \<in> set (F a) \<Longrightarrow> place_ok st a u \<Longrightarrow> place_ok st' a u"
  shows "queued_ok N F' st' a"
  unfolding queued_ok_def
proof
  fix n assume n: "n \<in> set (F' a)"
  from assms(2) [OF n] show "\<exists>t < N. n = Th t \<and> place_ok st' a t"
  proof
    assume "n \<in> set (F a)"
    moreover from this obtain t where "t < N" "n = Th t" "place_ok st a t" using assms(1) unfolding queued_ok_def by blast
    ultimately show ?thesis using assms(3) n by blast
  qed
qed

definition nowhere :: "nat set \<Rightarrow> (tnode \<Rightarrow> tnode list) \<Rightarrow> sys \<Rightarrow> nat \<Rightarrow> bool" where
  "nowhere S F st t \<longleftrightarrow> Th t \<notin> fam_nodes (heads S) F \<and> (\<forall>c < NCPU. c_thread (cpus st c) \<noteq> Some t)"

lemma in_fam: "a \<in> heads S \<Longrightarrow> n \<in> set (F a) \<Longrightarrow> n \<in> fam_nodes (heads S) F"
  by (auto simp: fam_nodes_def)

text \<open>Changing a thread that is on no queue and no CPU, and the links outside the queues.\<close>

lemma sinv_thread:
  assumes inv: "sinv S N F st" and no: "nowhere S F st t" and x: "t_lock x = spin_init" "- 1 \<le> cpu_affinity x" "cpu_affinity x < int NCPU"
    and lk: "list_family (heads S) lk F"
  shows "sinv S N F (st\<lparr>threads := (threads st)(t := x), nodes := lk\<rparr>)"
proof -
  let ?st = "st\<lparr>threads := (threads st)(t := x), nodes := lk\<rparr>"
  have nt: "Th t \<notin> set (F a)" if "a \<in> heads S" for a using no in_fam [OF that] unfolding nowhere_def by blast
  have "cpu_ok S N F ?st d" if "d < NCPU" for d
    by (rule cpu_ok_change [OF sinvD(3) [OF inv that]]) (use no that in \<open>auto simp: nowhere_def\<close>)
  moreover have "queued_ok N F ?st a" if "a \<in> heads S" for a
    by (rule queued_change [OF sinvD(4) [OF inv that]]) (use nt [OF that] in \<open>auto simp: place_ok_def split: tnode.splits\<close>)
  moreover have "sem_ok F ?st s \<longleftrightarrow> sem_ok F st s" for s by (simp add: sem_ok_def)
  moreover have "t_lock (threads ?st u) = spin_init \<or> (\<exists>c < NCPU. \<exists>cs. c_mode (cpus ?st c) = Descend u cs)" if "u < N" for u
    using sinvD(6) [OF inv that] x(1) by (cases "u = t") simp_all
  ultimately show ?thesis using inv lk x(2,3) unfolding sinv_def by simp
qed

lemma fam_upd_sub:
  "set xs \<subseteq> insert n (set (F a)) \<Longrightarrow> m \<in> fam_nodes H (F(a := xs)) \<Longrightarrow> m = n \<or> m \<in> fam_nodes H F"
  by (auto simp: fam_nodes_def split: if_splits)

lemma target_less:
  assumes "sinv S N F st"
  shows "t < N \<Longrightarrow> target t st < NCPU" and "next_load t st \<ge> - 1"
proof -
  have m: "(load_cpu_id st + 1) mod int NCPU \<ge> 0" "(load_cpu_id st + 1) mod int NCPU < int NCPU" by simp_all
  then show "target t st < NCPU" if "t < N" using sinvD(12) [OF assms that] by (auto simp: target_def next_load_def)
  show "next_load t st \<ge> - 1" using sinvD(11) [OF assms] order_trans [OF _ m(1), of "- 1"] by (simp add: next_load_def)
qed

lemma place_mono:
  assumes "place_ok st b u" and "state (threads st' u) = state (threads st u)"
    and "\<And>c k. c < NCPU \<Longrightarrow> c_mode (cpus st c) = Descend u (Sleep k) \<Longrightarrow> c_mode (cpus st' c) = Descend u (Sleep k)"
  shows "place_ok st' b u"
  using assms unfolding place_ok_def by (cases b) auto

lemma sinv_enqueue:
  assumes inv: "sinv S N F st" and no: "nowhere S F st t" and t: "t < N" "state (threads st t) = RUNNABLE"
  shows "sinv S N (F(Run_head (target t st) := Th t # F (Run_head (target t st)))) (enqueue t st)"
proof -
  let ?a = "Run_head (target t st)" and ?st = "enqueue t st"
  let ?F = "F(?a := Th t # F ?a)"
  have a: "?a \<in> heads S" using target_less(1) [OF inv t(1)] by simp
  have fam: "list_family (heads S) (nodes ?st) ?F"
    using fam_add_head [OF sinvD(2) [OF inv] a, of "Th t"] no by (simp add: nowhere_def enqueue_def)
  have same: "threads ?st = threads st" "cpus ?st = cpus st" by (simp_all add: enqueue_def)
  have pl: "place_ok ?st b u \<longleftrightarrow> place_ok st b u" for b u unfolding place_ok_def same ..
  have "cpu_ok S N ?F ?st d" if "d < NCPU" for d
  proof (rule cpu_ok_change [OF sinvD(3) [OF inv that]])
    fix u assume u: "c_thread (cpus st d) = Some u"
    then have "u \<noteq> t" using no that by (auto simp: nowhere_def)
    then show "Th u \<in> fam_nodes (heads S) F" if "Th u \<in> fam_nodes (heads S) ?F" using fam_upd_sub [OF _ that, of "Th t"] by auto
  qed (auto simp: same)
  moreover have "queued_ok N ?F ?st b" if "b \<in> heads S" for b
  proof (rule queued_change [OF sinvD(4) [OF inv that]])
    show "n \<in> set (F b) \<or> (\<exists>t < N. n = Th t \<and> place_ok ?st b t)" if "n \<in> set (?F b)" for n
      using that t by (auto simp: place_ok_def same split: if_splits)
  qed (simp add: pl)
  moreover have "sem_ok ?F ?st s \<longleftrightarrow> sem_ok F st s" for s by (simp add: sem_ok_def enqueue_def)
  ultimately show ?thesis using inv fam target_less(2) [OF inv] unfolding sinv_def same by (simp add: enqueue_def)
qed

text \<open>A running thread on its way down into the scheduler.\<close>

lemma sinv_park:
  assumes inv: "sinv S N F st" and c: "c < NCPU" and m: "c_mode (cpus st c) = Exec t" and a: "a \<in> heads S"
    and F': "F' = F(a := xs)" and xs: "set xs = insert (Th t) (set (F a))" and fam: "list_family (heads S) (nodes st') F'"
    and cp: "cpus st' = (cpus st)(c := y)" "c_mode y = Descend t cs" "c_thread y = Some t" "noff (c_hart y) \<ge> 1" "\<not> sie (c_hart y)"
    and th: "threads st' = (threads st)(t := x)" "t_lock x = taken c" "cpu_affinity x = cpu_affinity (threads st t)"
    and k: "(\<exists>s k. a = Wait_head s \<and> cs = Sleep k \<and> state x = RUNNING) \<or> (\<exists>d. a = Run_head d \<and> cs = Yield \<and> state x = RUNNABLE) \<or>
      (\<exists>d. a = Out_head d \<and> cs = Quit \<and> state x = ZOMBIE)"
    and sem: "\<forall>s \<in> S. sem_ok F' st' s" and l: "load_lock st' = load_lock st" "pid_lock st' = pid_lock st" "rq_lock st' = rq_lock st" "load_cpu_id st' \<ge> - 1"
  shows "sinv S N F' st'"
proof -
  have me: "c_thread (cpus st c) = Some t" "t < N" "Th t \<notin> fam_nodes (heads S) F" using sinvD(3) [OF inv c] m by (simp_all add: cpu_ok_def)
  have oth: "u \<noteq> t" if "d < NCPU" "d \<noteq> c" "c_thread (cpus st d) = Some u" for d u using sinvD(7) [OF inv c that(1) me(1)] that by auto
  have nt: "Th t \<notin> set (F b)" if "b \<in> heads S" for b using me(3) in_fam [OF that] by blast
  have F'b: "set (F' b) = (if b = a then insert (Th t) (set (F b)) else set (F b))" for b using xs by (simp add: F')
  have new: "place_ok st' a t" using k c cp by (auto simp: place_ok_def th)
  have old: "place_ok st' b u" if "place_ok st b u" "u \<noteq> t" for b u
    by (rule place_mono [OF that(1)]) (use that(2) m in \<open>auto simp: th cp\<close>)
  have "cpu_ok S N F' st' d" if d: "d < NCPU" for d
  proof (cases "d = c")
    case True
    have "Th t \<in> set (F' a)" by (simp add: F'b)
    with k a cp me(2) th True show ?thesis by (auto simp: cpu_ok_def)
  next
    case False
    show ?thesis
    proof (rule cpu_ok_change [OF sinvD(3) [OF inv d]])
      fix u assume u: "c_thread (cpus st d) = Some u"
      note ut = oth [OF d False u]
      show "state (threads st' u) = state (threads st u) \<and> t_lock (threads st' u) = t_lock (threads st u)" using ut by (simp add: th)
      show "Th u \<in> fam_nodes (heads S) F" if "Th u \<in> fam_nodes (heads S) F'"
        using that ut fam_upd_sub [of xs "Th t" F a "Th u"] xs unfolding F' by auto
    qed (use False in \<open>auto simp: cp F'b\<close>)
  qed
  moreover have "queued_ok N F' st' b" if "b \<in> heads S" for b
  proof (rule queued_change [OF sinvD(4) [OF inv that]])
    show "n \<in> set (F b) \<or> (\<exists>t < N. n = Th t \<and> place_ok st' b t)" if "n \<in> set (F' b)" for n
      using that new me(2) by (auto simp: F'b split: if_splits)
    show "place_ok st' b u" if "Th u \<in> set (F b)" "place_ok st b u" for u using old [OF that(2)] that(1) nt [OF \<open>b \<in> heads S\<close>] by blast
  qed
  moreover have "t_lock (threads st' u) = spin_init \<or> (\<exists>d < NCPU. \<exists>cs. c_mode (cpus st' d) = Descend u cs)" if "u < N" for u
  proof (cases "u = t")
    case False
    from sinvD(6) [OF inv that] show ?thesis
    proof
      assume "\<exists>d < NCPU. \<exists>cs. c_mode (cpus st d) = Descend u cs"
      then obtain d cs where "d < NCPU" "c_mode (cpus st d) = Descend u cs" by blast
      moreover from this m have "d \<noteq> c" by auto
      ultimately show ?thesis by (auto simp: cp)
    qed (simp add: th False)
  qed (use c cp in auto)
  moreover have "c1 = d" if "c1 < NCPU" "d < NCPU" "c_thread (cpus st' c1) = Some u" "c_thread (cpus st' d) = Some u" for c1 d u
    using that sinvD(7) [OF inv, of c1 d u] me(1) cp(1,3) by (auto split: if_splits)
  ultimately show ?thesis using inv fam sem l th unfolding sinv_def by auto
qed

text \<open>The thread has left its CPU.\<close>

lemma sinv_switched:
  assumes inv: "sinv S N F st" and c: "c < NCPU" and m: "c_mode (cpus st c) = Descend t cs" and h: "noff h \<ge> 0"
    and q: "q = (if \<exists>k. cs = Sleep k then SLEEPING else state (threads st t))"
  shows "sinv S N F (switched c t h r (upd_thread t (\<lambda>x. x\<lparr>state := q\<rparr>) st))"
proof -
  let ?st = "switched c t h r (upd_thread t (\<lambda>x. x\<lparr>state := q\<rparr>) st)"
  have me: "c_thread (cpus st c) = Some t" "t < N" using sinvD(3) [OF inv c] m by (simp_all add: cpu_ok_def)
  have cp: "cpus ?st = (cpus st)(c := (cpus st c)\<lparr>c_hart := h, c_thread := None, c_mode := Sched_loop\<rparr>)"
    and th: "threads ?st = (threads st)(t := (threads st t)\<lparr>state := q, ctx := r, t_lock := spin_init\<rparr>)" by (simp_all add: switched_def upd_defs)
  have oth: "u \<noteq> t" if "d < NCPU" "d \<noteq> c" "c_thread (cpus st d) = Some u" for d u using sinvD(7) [OF inv c that(1) me(1)] that by auto
  have "cpu_ok S N F ?st d" if d: "d < NCPU" for d
  proof (cases "d = c")
    case True
    then show ?thesis using h by (simp add: cpu_ok_def cp)
  next
    case False
    show ?thesis by (rule cpu_ok_change [OF sinvD(3) [OF inv d]]) (use False oth [OF d False] in \<open>auto simp: cp th\<close>)
  qed
  moreover have "queued_ok N F ?st b" if b: "b \<in> heads S" for b
  proof (rule queued_change [OF sinvD(4) [OF inv b]])
    show "place_ok ?st b u" if u: "Th u \<in> set (F b)" "place_ok st b u" for u
    proof (cases "u = t")
      case False
      then show ?thesis by (intro place_mono [OF u(2)]) (use m in \<open>auto simp: cp th\<close>)
    next
      case True
      have "state (threads st t) = RUNNING" if "cs = Sleep k" for k using sinvD(3) [OF inv c] m that by (simp add: cpu_ok_def)
      moreover have "\<exists>k. cs = Sleep k" if "d < NCPU" "c_mode (cpus st d) = Descend t (Sleep k)" for d k
      proof -
        have "c_thread (cpus st d) = Some t" using sinvD(3) [OF inv that(1)] that(2) by (simp add: cpu_ok_def)
        then have "d = c" using oth that(1) by blast
        then show ?thesis using that(2) m by simp
      qed
      moreover have "state (threads ?st t) = q" by (simp add: th)
      ultimately show ?thesis using u(2) q True unfolding place_ok_def by (cases b) auto
    qed
  qed simp
  moreover have "sem_ok F ?st s \<longleftrightarrow> sem_ok F st s" for s by (simp add: sem_ok_def switched_def upd_defs)
  moreover have "t_lock (threads ?st u) = spin_init \<or> (\<exists>d < NCPU. \<exists>cs. c_mode (cpus ?st d) = Descend u cs)" if "u < N" for u
  proof (cases "u = t")
    case False
    from sinvD(6) [OF inv that] show ?thesis
    proof
      assume "\<exists>d < NCPU. \<exists>cs. c_mode (cpus st d) = Descend u cs"
      then obtain d cs' where "d < NCPU" "c_mode (cpus st d) = Descend u cs'" by blast
      moreover from this m False have "d \<noteq> c" by auto
      ultimately show ?thesis by (auto simp: cp)
    qed (simp add: th False)
  qed (simp add: th)
  moreover have "c1 = d" if "c1 < NCPU" "d < NCPU" "c_thread (cpus ?st c1) = Some u" "c_thread (cpus ?st d) = Some u" for c1 d u
    using that sinvD(7) [OF inv, of c1 d u] by (auto simp: cp split: if_splits)
  moreover have "nodes ?st = nodes st" "load_lock ?st = load_lock st" "pid_lock ?st = pid_lock st" "rq_lock ?st = rq_lock st" "load_cpu_id ?st = load_cpu_id st"
    by (simp_all add: switched_def upd_defs)
  moreover have "cpu_affinity (threads ?st u) = cpu_affinity (threads st u)" for u by (simp add: th)
  ultimately show ?thesis using inv unfolding sinv_def by simp
qed

text \<open>The scheduler takes a thread off its queue and runs it.\<close>

lemma sinv_dispatched:
  assumes inv: "sinv S N F st" and c: "c < NCPU" and m: "c_mode (cpus st c) = Sched_loop" and t: "Th t \<in> set (F (Run_head c))"
    and tl: "t_lock (threads st t) = spin_init"
  shows "sinv S N (F(Run_head c := remove1 (Th t) (F (Run_head c)))) (dispatched c t st)"
proof -
  let ?st = "dispatched c t st" and ?F = "F(Run_head c := remove1 (Th t) (F (Run_head c)))"
  have a: "Run_head c \<in> heads S" using c by simp
  have cp: "cpus ?st = (cpus st)(c := (cpus st c)\<lparr>c_thread := Some t, c_mode := Exec t\<rparr>)"
    and th: "threads ?st = (threads st)(t := (threads st t)\<lparr>state := RUNNING\<rparr>)" by (simp_all add: dispatched_def upd_defs)
  have tN: "t < N" using sinvD(4) [OF inv a] t by (auto simp: queued_ok_def)
  have fam: "list_family (heads S) (nodes ?st) ?F" using fam_del [OF sinvD(2) [OF inv] a t] by (simp add: dispatched_def)
  have gone: "Th t \<notin> fam_nodes (heads S) ?F" by (rule fam_notin_after_del [OF sinvD(2) [OF inv] a t])
  have off: "c_thread (cpus st d) \<noteq> Some t" if "d < NCPU" for d
    using sinvD(3) [OF inv that] tl in_fam [where F = F, OF a t] by (auto simp: cpu_ok_def split: mode.splits)
  have nt: "Th t \<notin> set (?F b)" if "b \<in> heads S" for b using gone in_fam [OF that] by blast
  have sub: "set (?F b) \<subseteq> set (F b)" for b using set_remove1_subset [of "Th t" "F (Run_head c)"] by simp
  have keep: "n \<in> set (?F b)" if "n \<in> set (F b)" "n \<noteq> Th t" for n b using that by (auto simp: in_set_remove1)
  have subf: "n \<in> fam_nodes (heads S) F" if "n \<in> fam_nodes (heads S) ?F" for n using that sub unfolding fam_nodes_def by blast
  have "cpu_ok S N ?F ?st d" if d: "d < NCPU" for d
  proof (cases "d = c")
    case True
    then show ?thesis using gone tN tl sinvD(3) [OF inv c] m by (simp add: cpu_ok_def cp th)
  next
    case False
    show ?thesis by (rule cpu_ok_change [OF sinvD(3) [OF inv d]]) (use False off [OF d] keep subf in \<open>auto simp: cp th\<close>)
  qed
  moreover have "queued_ok N ?F ?st b" if b: "b \<in> heads S" for b
  proof (rule queued_change [OF sinvD(4) [OF inv b]])
    show "n \<in> set (F b) \<or> (\<exists>t < N. n = Th t \<and> place_ok ?st b t)" if "n \<in> set (?F b)" for n using that sub by blast
    show "place_ok ?st b u" if "Th u \<in> set (?F b)" "place_ok st b u" for u
      by (rule place_mono [OF that(2)]) (use that(1) nt [OF b] m in \<open>auto simp: cp th\<close>)
  qed
  moreover have "sem_ok ?F ?st s \<longleftrightarrow> sem_ok F st s" for s by (simp add: sem_ok_def dispatched_def upd_defs)
  moreover have "t_lock (threads ?st u) = spin_init \<or> (\<exists>d < NCPU. \<exists>cs. c_mode (cpus ?st d) = Descend u cs)" if "u < N" for u
  proof (cases "u = t")
    case False
    from sinvD(6) [OF inv that] show ?thesis
    proof
      assume "\<exists>d < NCPU. \<exists>cs. c_mode (cpus st d) = Descend u cs"
      then obtain d cs where "d < NCPU" "c_mode (cpus st d) = Descend u cs" by blast
      moreover from this m have "d \<noteq> c" by auto
      ultimately show ?thesis by (auto simp: cp)
    qed (simp add: th False)
  qed (simp add: th tl)
  moreover have "c1 = d" if "c1 < NCPU" "d < NCPU" "c_thread (cpus ?st c1) = Some u" "c_thread (cpus ?st d) = Some u" for c1 d u
    using that sinvD(7) [OF inv, of c1 d u] off by (auto simp: cp split: if_splits)
  moreover have "load_lock ?st = load_lock st" "pid_lock ?st = pid_lock st" "rq_lock ?st = rq_lock st" "load_cpu_id ?st = load_cpu_id st"
    by (simp_all add: dispatched_def upd_defs)
  moreover have "cpu_affinity (threads ?st u) = cpu_affinity (threads st u)" for u by (simp add: th)
  ultimately show ?thesis using inv fam unfolding sinv_def by simp
qed

text \<open>Semaphore counts.\<close>

lemma sem_value_range:
  assumes "sinv S N F st" and "s \<in> S"
  shows "- (2 ^ 31) < sem_value (sems st s)" "sem_value (sems st s) < 2 ^ 31"
proof -
  have h: "Wait_head s \<in> heads S" using assms(2) by simp
  have "distinct (F (Wait_head s))" using list_familyD [OF sinvD(2) [OF assms(1)] h] by (simp add: is_list_def)
  moreover have "set (F (Wait_head s)) \<subseteq> Th ` {..< N}" using sinvD(4) [OF assms(1) h] by (auto simp: queued_ok_def)
  ultimately have "length (F (Wait_head s)) \<le> card (Th ` {..< N})" using card_mono [of "Th ` {..< N}" "set (F (Wait_head s))"] by (simp add: distinct_card)
  also have "\<dots> \<le> N" using card_image_le [of "{..< N}" Th] by simp
  finally have "nat (- sem_value (sems st s)) \<le> N" using sinvD(5) [OF assms] by (simp add: sem_ok_def)
  moreover have "int N < 2 ^ 31" using sinvD(1) [OF assms(1)] by simp
  ultimately show "- (2 ^ 31) < sem_value (sems st s)" unfolding nat_le_iff by linarith
  show "sem_value (sems st s) < 2 ^ 31" using sinvD(5) [OF assms] unfolding sem_ok_def by blast
qed

lemma sinv_sems:
  assumes inv: "sinv S N F st" and "\<forall>s \<in> S. sem_ok F (st\<lparr>sems := X\<rparr>) s"
  shows "sinv S N F (st\<lparr>sems := X\<rparr>)"
proof -
  have same: "cpus (st\<lparr>sems := X\<rparr>) = cpus st" "threads (st\<lparr>sems := X\<rparr>) = threads st" by simp_all
  have "cpu_ok S N F (st\<lparr>sems := X\<rparr>) c \<longleftrightarrow> cpu_ok S N F st c" for c unfolding cpu_ok_def same ..
  moreover have "queued_ok N F (st\<lparr>sems := X\<rparr>) a \<longleftrightarrow> queued_ok N F st a" for a unfolding queued_ok_def place_ok_def same ..
  ultimately show ?thesis using assms unfolding sinv_def same by simp
qed

lemma sinv_count:
  assumes inv: "sinv S N F st" and s: "s \<in> S" and v: "v < 2 ^ 31" "length (F (Wait_head s)) = nat (- v)"
  shows "sinv S N F (upd_sem s (\<lambda>x. x\<lparr>sem_value := v\<rparr>) st)"
  unfolding upd_sem_def by (rule sinv_sems [OF inv]) (use sinvD(5) [OF inv] v in \<open>auto simp: sem_ok_def\<close>)

lemma sinv_popped:
  assumes inv: "sinv S N F st" and s: "s \<in> S" and F: "F (Wait_head s) = Th t # ts" and tl: "t_lock (threads st t) = spin_init"
  defines "F' \<equiv> F(Wait_head s := ts)" and "st' \<equiv> popped s (list_del (Th t) (nodes st)) st"
  shows "sinv S N F' st'" and "nowhere S F' st' t" and "t < N"
proof -
  have h: "Wait_head s \<in> heads S" using s by simp
  have t: "Th t \<in> set (F (Wait_head s))" by (simp add: F)
  then show tN: "t < N" using sinvD(4) [OF inv h] by (auto simp: queued_ok_def)
  note fp = fam_pop [OF sinvD(2) [OF inv] h F, folded F'_def]
  have same: "cpus st' = cpus st" "threads st' = threads st" "nodes st' = list_del (Th t) (nodes st)" by (simp_all add: st'_def popped_def upd_defs)
  have off: "c_thread (cpus st d) \<noteq> Some t" if "d < NCPU" for d
    using sinvD(3) [OF inv that] tl in_fam [where F = F, OF h t] by (auto simp: cpu_ok_def split: mode.splits)
  then show "nowhere S F' st' t" using fp(3) by (simp add: nowhere_def same)
  have sub: "set (F' b) \<subseteq> set (F b)" for b by (auto simp: F'_def F)
  have keep: "n \<in> set (F' b)" if "n \<in> set (F b)" "n \<noteq> Th t" for n b using that by (auto simp: F'_def F split: if_splits)
  have subf: "n \<in> fam_nodes (heads S) F" if "n \<in> fam_nodes (heads S) F'" for n using that sub unfolding fam_nodes_def by blast
  have "cpu_ok S N F' st' d" if d: "d < NCPU" for d
    by (rule cpu_ok_change [OF sinvD(3) [OF inv d]]) (use off [OF d] keep subf in \<open>auto simp: same\<close>)
  moreover have "queued_ok N F' st' b" if b: "b \<in> heads S" for b
  proof (rule queued_change [OF sinvD(4) [OF inv b]])
    show "place_ok st' b u" if "place_ok st b u" for u by (rule place_mono [OF that]) (simp_all add: same)
  qed (use sub in blast)
  moreover have "sem_ok F' st' x" if x: "x \<in> S" for x
  proof (cases "x = s")
    case True
    have v: "length (F (Wait_head s)) = nat (- sem_value (sems st s))" using sinvD(5) [OF inv s] by (simp add: sem_ok_def)
    then have neg: "sem_value (sems st s) < 0" by (simp add: F split: if_splits)
    then have "atomic_inc (sem_value (sems st s)) = sem_value (sems st s) + 1" using sem_value_range [OF inv s] by (intro atomic_inc_id) linarith+
    then show ?thesis using sinvD(5) [OF inv s] neg True v by (auto simp: sem_ok_def st'_def popped_def upd_defs F F'_def nat_diff_distrib' split: if_splits)
  next
    case False
    then show ?thesis using sinvD(5) [OF inv x] by (simp add: sem_ok_def st'_def popped_def upd_defs F'_def)
  qed
  ultimately show "sinv S N F' st'" using inv fp(2) unfolding sinv_def same by (simp add: st'_def popped_def upd_defs)
qed

subsection \<open>Every step keeps the invariant\<close>

text \<open>
  The outcome of an operation: a state in which the invariant holds again and the semaphores have the
  counts \<open>v\<close>, or the operation cannot happen yet.
\<close>

definition fine :: "nat set \<Rightarrow> nat \<Rightarrow> (nat \<Rightarrow> int) \<Rightarrow> sys kres \<Rightarrow> bool" where
  "fine S N v r \<longleftrightarrow> (case r of Inr st \<Rightarrow> (\<exists>F. sinv S N F st) \<and> (\<forall>s. sem_value (sems st s) = v s) | Inl e \<Rightarrow> e = Spins)"

lemma fine_simps [simp]: "fine S N v (Inl Spins)" "fine S N v (Inr st) \<longleftrightarrow> (\<exists>F. sinv S N F st) \<and> (\<forall>s. sem_value (sems st s) = v s)"
  by (simp_all add: fine_def)

abbreviation (input) vals :: "sys \<Rightarrow> nat \<Rightarrow> int" where
  "vals st \<equiv> \<lambda>s. sem_value (sems st s)"

lemma sems_simps [simp]:
  "sems (put_hart c h st) = sems st" "sems (upd_thread t g st) = sems st" "sems (enqueue t st) = sems st" "sems (runnable t st) = sems st"
  "sems (go_down c t cs h st) = sems st" "sems (switched c t h r st) = sems st" "sems (dispatched c t st) = sems st"
  "sem_value (sems (upd_sem s f st) x) = (if x = s then sem_value (f (sems st s)) else sem_value (sems st x))"
  "sem_value (sems (waiting t s st) x) = (if x = s then atomic_dec (sem_value (sems st s)) else sem_value (sems st x))"
  "sem_value (sems (popped s lk st) x) = (if x = s then atomic_inc (sem_value (sems st s)) else sem_value (sems st x))"
  by (simp_all add: upd_defs enqueue_def runnable_def go_down_def switched_def dispatched_def waiting_def popped_def)

lemma execD:
  assumes "sinv S N F st" and "executes c st"
  obtains t where "c < NCPU" "c_mode (cpus st c) = Exec t" "c_thread (cpus st c) = Some t" "noff (c_hart (cpus st c)) \<ge> 0" "t < N"
    "state (threads st t) = RUNNING" "t_lock (threads st t) = spin_init" "Th t \<notin> fam_nodes (heads S) F"
proof -
  from assms(2) obtain t where t: "c < NCPU" "c_mode (cpus st c) = Exec t" by (auto simp: executes_def split: mode.splits)
  with sinvD(3) [OF assms(1) t(1)] show ?thesis by (intro that) (auto simp: cpu_ok_def)
qed

lemma sinv_blip:
  assumes "sinv S N F st" and "c < NCPU" and "\<And>t cs. c_mode (cpus st c) \<noteq> Descend t cs" and "noff h \<ge> 0"
  shows "sinv S N F (put_hart c (blip h) st)"
  by (rule sinv_hart [OF assms(1-3)]) (use assms(4) in simp)

lemma fine_wait:
  assumes inv: "sinv S N F st" and ex: "executes c st" and s: "s \<in> S"
  shows "fine S N ((vals st)(s := vals st s - 1)) (sem_wait_for k c s st)"
proof -
  from inv ex obtain t where t: "c < NCPU" "c_mode (cpus st c) = Exec t" "c_thread (cpus st c) = Some t" "noff (c_hart (cpus st c)) \<ge> 0" "t < N"
    "state (threads st t) = RUNNING" "t_lock (threads st t) = spin_init" "Th t \<notin> fam_nodes (heads S) F" by (rule execD)
  note so = sinvD(5) [OF inv s, unfolded sem_ok_def]
  have dec: "atomic_dec (sem_value (sems st s)) = sem_value (sems st s) - 1" using sem_value_range [OF inv s] by (rule atomic_dec_id)
  show ?thesis
  proof (cases "atomic_dec (sem_value (sems st s)) \<ge> 0")
    case True
    have "sinv S N F (upd_sem s (\<lambda>x. x\<lparr>sem_value := sem_value (sems st s) - 1\<rparr>) st)" by (rule sinv_count [OF inv s]) (use so True dec in auto)
    moreover have "upd_sem s (\<lambda>x. x\<lparr>sem_value := atomic_dec (sem_value x)\<rparr>) st = upd_sem s (\<lambda>x. x\<lparr>sem_value := sem_value (sems st s) - 1\<rparr>) st"
      by (simp add: upd_sem_def dec)
    ultimately have "sinv S N F (put_hart c (blip (c_hart (cpus st c))) (upd_sem s (\<lambda>x. x\<lparr>sem_value := atomic_dec (sem_value x)\<rparr>) st))"
      by (intro sinv_blip) (use t in \<open>simp_all add: upd_sem_def\<close>)
    then show ?thesis using sem_wait_pass [OF t(4) _ True] so dec by auto
  next
    case False
    let ?st = "go_down c t (Sleep k) (push_off (c_hart (cpus st c))) (waiting t s st)"
    let ?F = "F(Wait_head s := F (Wait_head s) @ [Th t])"
    have "sinv S N ?F ?st"
    proof (rule sinv_park [OF inv t(1,2), where a = "Wait_head s" and xs = "F (Wait_head s) @ [Th t]" and cs = "Sleep k"])
      show "list_family (heads S) (nodes ?st) ?F"
        using fam_add_tail [OF sinvD(2) [OF inv] _ t(8), of "Wait_head s"] s so by (simp add: go_down_def waiting_def upd_defs)
      show "\<forall>x \<in> S. sem_ok ?F ?st x" using sinvD(5) [OF inv] False dec by (auto simp: sem_ok_def go_down_def waiting_def upd_defs)
      show "cpus ?st = (cpus st)(c := (cpus st c)\<lparr>c_hart := push_off (c_hart (cpus st c)), c_mode := Descend t (Sleep k)\<rparr>)"
        "threads ?st = (threads st)(t := (threads st t)\<lparr>t_lock := taken c\<rparr>)" by (simp_all add: go_down_def waiting_def upd_defs)
    qed (use s t sinvD(11) [OF inv] in \<open>simp_all add: go_down_def waiting_def upd_defs\<close>)
    moreover have "sem_wait_for k c s st = Inr ?st" by (rule sem_wait_block) (use t so False in auto)
    ultimately show ?thesis using dec by auto
  qed
qed

lemma awakeD:
  assumes "sinv S N F st" and "awake c st"
  shows "c < NCPU" "c_mode (cpus st c) \<noteq> Descend u cs" "noff (c_hart (cpus st c)) \<ge> 0"
proof -
  show c: "c < NCPU" using assms(2) by (simp add: awake_def)
  show "c_mode (cpus st c) \<noteq> Descend u cs" using assms(2) by (auto simp: awake_def)
  show "noff (c_hart (cpus st c)) \<ge> 0" using sinvD(3) [OF assms(1) c] assms(2) by (auto simp: cpu_ok_def awake_def split: mode.splits)
qed

lemma fine_signal:
  assumes inv: "sinv S N F st" and aw: "awake c st" and s: "s \<in> S" and v: "sem_value (sems st s) < 2 ^ 31 - 1"
  shows "fine S N ((vals st)(s := vals st s + 1)) (sem_signal c s st)"
proof -
  from inv aw have t: "c < NCPU" "\<And>u cs. c_mode (cpus st c) \<noteq> Descend u cs" "noff (c_hart (cpus st c)) \<ge> 0" by (rule awakeD)+
  note so = sinvD(5) [OF inv s, unfolded sem_ok_def]
  have inc: "atomic_inc (sem_value (sems st s)) = sem_value (sems st s) + 1" using sem_value_range [OF inv s] v by (intro atomic_inc_id) linarith+
  show ?thesis
  proof (cases "atomic_inc (sem_value (sems st s)) > 0")
    case True
    have "sinv S N F (upd_sem s (\<lambda>x. x\<lparr>sem_value := sem_value (sems st s) + 1\<rparr>) st)" by (rule sinv_count [OF inv s]) (use so True inc v in auto)
    moreover have "upd_sem s (\<lambda>x. x\<lparr>sem_value := atomic_inc (sem_value x)\<rparr>) st = upd_sem s (\<lambda>x. x\<lparr>sem_value := sem_value (sems st s) + 1\<rparr>) st"
      by (simp add: upd_sem_def inc)
    ultimately have "sinv S N F (put_hart c (blip (c_hart (cpus st c))) (upd_sem s (\<lambda>x. x\<lparr>sem_value := atomic_inc (sem_value x)\<rparr>) st))"
      by (intro sinv_blip) (use t in \<open>simp_all add: upd_sem_def\<close>)
    then show ?thesis using sem_signal_pass [OF t(3) _ True] so inc by auto
  next
    case False
    have h: "Wait_head s \<in> heads S" using s by simp
    have "F (Wait_head s) \<noteq> []" using so False inc by auto
    then obtain u ts where F: "F (Wait_head s) = Th u # ts" "u < N"
      using sinvD(4) [OF inv h] by (cases "F (Wait_head s)") (auto simp: queued_ok_def)
    note fp = fam_pop [OF sinvD(2) [OF inv] h F(1)]
    have ne: "\<not> list_empty (fifo_list (waiters (sems st s))) (nodes st)" using fam_empty [OF sinvD(2) [OF inv] h] F(1) so by simp
    have pop: "list_pop (fifo_list (waiters (sems st s))) (nodes st) = (Some (Th u), list_del (Th u) (nodes st))" using fp(1) so by simp
    note sw = sem_signal_wake [OF t(3) _ _ ne pop]
    show ?thesis
    proof (cases "t_lock (threads st u) = spin_init")
      case True
      let ?p = "popped s (list_del (Th u) (nodes st)) st" and ?F = "F(Wait_head s := ts)"
      note sp = sinv_popped [OF inv s F(1) True]
      have p: "cpus ?p = cpus st" "threads ?p = threads st" by (simp_all add: popped_def upd_defs)
      have "sinv S N ?F (?p\<lparr>threads := (threads ?p)(u := (threads ?p u)\<lparr>state := RUNNABLE\<rparr>), nodes := nodes ?p\<rparr>)"
        by (rule sinv_thread [OF sp(1,2)]) (use True sinvD(12) [OF inv sp(3)] sinvD(2) [OF sp(1)] in \<open>simp_all add: p\<close>)
      then have r: "sinv S N ?F (upd_thread u (\<lambda>x. x\<lparr>state := RUNNABLE\<rparr>) ?p)" by (simp add: upd_thread_def)
      have "\<exists>F. sinv S N F (runnable u ?p)" unfolding runnable_def
        by (rule exI, rule sinv_enqueue [OF r]) (use sp(2,3) in \<open>simp_all add: nowhere_def upd_thread_def p\<close>)
      then obtain G where G: "sinv S N G (runnable u ?p)" by blast
      have "sinv S N G (put_hart c (blip (c_hart (cpus st c))) (runnable u ?p))"
        by (rule sinv_blip [OF G t(1)]) (use t in \<open>simp_all add: runnable_def enqueue_def upd_thread_def p\<close>)
      moreover have "sem_signal c s st = Inr (put_hart c (blip (c_hart (cpus st c))) (runnable u ?p))"
        by (rule sw(1)) (use so False sinvD(8,10) [OF inv] target_less(1) [OF inv F(2)] True in auto)
      ultimately show ?thesis using inc by auto
    next
      case False
      then obtain d cs where d: "d < NCPU" "c_mode (cpus st d) = Descend u cs" using sinvD(6) [OF inv F(2)] by blast
      then have "t_lock (threads st u) = taken d" using sinvD(3) [OF inv d(1)] by (simp add: cpu_ok_def)
      moreover have "d \<noteq> c" using d(2) t(2) by auto
      ultimately show ?thesis using sw(2) so \<open>\<not> atomic_inc (sem_value (sems st s)) > 0\<close> by simp
    qed
  qed
qed

lemma sinv_fields:
  assumes "\<And>u. state (threads st' u) = state (threads st u) \<and> t_lock (threads st' u) = t_lock (threads st u) \<and>
      cpu_affinity (threads st' u) = cpu_affinity (threads st u)"
    and same: "cpus st' = cpus st" "sems st' = sems st" "nodes st' = nodes st" "rq_lock st' = rq_lock st"
      "load_lock st' = load_lock st" "pid_lock st' = pid_lock st" "load_cpu_id st' = load_cpu_id st"
  shows "sinv S N F st' \<longleftrightarrow> sinv S N F st"
proof -
  have t: "state (threads st' u) = state (threads st u)" "t_lock (threads st' u) = t_lock (threads st u)"
    "cpu_affinity (threads st' u) = cpu_affinity (threads st u)" for u using assms(1) by blast+
  show ?thesis unfolding sinv_def cpu_ok_def queued_ok_def place_ok_def sem_ok_def same t ..
qed

lemma mutex_taken_eq:
  "noff (c_hart (cpus st c)) \<ge> 0 \<Longrightarrow> mutex_taken c m st = Inr (put_hart c (blip (c_hart (cpus st c)))
     (st\<lparr>mutexes := (mutexes st)(m := (mutexes st m)\<lparr>locked := MUTEX_LOCK, m_thread := c_thread (cpus st c)\<rparr>)\<rparr>))"
  by (simp add: mutex_taken_def myproc_eq upd_defs)

lemma sinv_mutexes: "sinv S N F (st\<lparr>mutexes := M\<rparr>) \<longleftrightarrow> sinv S N F st"
  by (rule sinv_cong) simp_all

lemma fine_lock:
  assumes inv: "sinv S N F st" and ex: "executes c st" and m: "m \<in> S"
  shows "fine S N ((vals st)(m := vals st m - 1)) (mutex_lock c m st)"
proof (cases "sem_wait_for (Some m) c m st")
  case (Inl e)
  then show ?thesis using fine_wait [OF inv ex m, of "Some m"] by (simp add: mutex_lock_def fine_def)
next
  case (Inr st1)
  then obtain G where G: "sinv S N G st1" "\<forall>x. sem_value (sems st1 x) = ((vals st)(m := vals st m - 1)) x"
    using fine_wait [OF inv ex m, of "Some m"] by auto
  have c: "c < NCPU" using ex by (simp add: executes_def)
  show ?thesis
  proof (cases "\<exists>t cs. c_mode (cpus st1 c) = Descend t cs")
    case True
    then show ?thesis using Inr G by (auto simp: mutex_lock_def)
  next
    case False
    then have run: "mutex_lock c m st = mutex_taken c m st1" using Inr by (auto simp: mutex_lock_def split: mode.splits)
    have n: "noff (c_hart (cpus st1 c)) \<ge> 0" using sinvD(3) [OF G(1) c] False by (auto simp: cpu_ok_def split: mode.splits)
    have "sinv S N G (put_hart c (blip (c_hart (cpus st1 c))) (st1\<lparr>mutexes := M\<rparr>))" for M
      by (rule sinv_blip) (use G c n False in \<open>simp_all add: sinv_mutexes\<close>)
    then show ?thesis unfolding run mutex_taken_eq [OF n] using G(2) by auto
  qed
qed

lemma fine_unlock:
  assumes inv: "sinv S N F st" and "awake c st" and "m \<in> S" and "sem_value (sems st m) < 2 ^ 31 - 1"
  shows "fine S N ((vals st)(m := vals st m + 1)) (mutex_unlock c m st)"
  unfolding mutex_unlock_def upd_mutex_def using fine_signal [of S N F "upd_mutex m f st" c m for f] assms by (simp add: sinv_mutexes awake_def upd_mutex_def)

lemma fine_yield:
  assumes inv: "sinv S N F st" and ex: "executes c st"
  shows "fine S N (vals st) (yield c st)"
proof -
  from inv ex obtain t where t: "c < NCPU" "c_mode (cpus st c) = Exec t" "c_thread (cpus st c) = Some t" "noff (c_hart (cpus st c)) \<ge> 0" "t < N"
    "state (threads st t) = RUNNING" "t_lock (threads st t) = spin_init" "Th t \<notin> fam_nodes (heads S) F" by (rule execD)
  let ?u = "upd_thread t (\<lambda>x. x\<lparr>state := RUNNABLE\<rparr>) (upd_thread t (\<lambda>x. x\<lparr>ticks := 10\<rparr>) st)"
  let ?st = "go_down c t Yield (push_off (c_hart (cpus st c))) (runnable t (upd_thread t (\<lambda>x. x\<lparr>ticks := 10\<rparr>) st))"
  have tr: "target t ?u = target t st" "next_load t ?u = next_load t st" by (rule target_cong; simp add: upd_defs)+
  let ?a = "Run_head (target t st)"
  have tg: "target t st < NCPU" by (rule target_less(1) [OF inv t(5)])
  have "sinv S N (F(?a := Th t # F ?a)) ?st"
  proof (rule sinv_park [OF inv t(1,2), where a = ?a and xs = "Th t # F ?a" and cs = Yield])
    show "list_family (heads S) (nodes ?st) (F(?a := Th t # F ?a))"
      using fam_add_head [OF sinvD(2) [OF inv] _ t(8), of ?a] tg unfolding runnable_def enqueue_def tr by (simp add: go_down_def upd_defs)
    show "\<forall>x \<in> S. sem_ok (F(?a := Th t # F ?a)) ?st x" using sinvD(5) [OF inv] by (auto simp: sem_ok_def go_down_def runnable_def enqueue_def upd_defs)
    show "cpus ?st = (cpus st)(c := (cpus st c)\<lparr>c_hart := push_off (c_hart (cpus st c)), c_mode := Descend t Yield\<rparr>)"
      "threads ?st = (threads st)(t := (threads st t)\<lparr>ticks := 10, state := RUNNABLE, t_lock := taken c\<rparr>)"
      by (simp_all add: go_down_def runnable_def enqueue_def upd_defs)
    show "load_cpu_id ?st \<ge> - 1" using target_less(2) [OF inv, of t] unfolding runnable_def enqueue_def tr by (simp add: go_down_def upd_defs)
  qed (use tg t in \<open>simp_all add: go_down_def runnable_def enqueue_def upd_defs\<close>)
  moreover have "yield c st = Inr ?st" by (rule yield_eq) (use t sinvD(8,10) [OF inv] tg in simp_all)
  ultimately show ?thesis by auto
qed

lemma fine_tick:
  assumes inv: "sinv S N F st" and aw: "awake c st"
  shows "fine S N (vals st) (timer_tick c st)"
proof (cases "c_mode (cpus st c) = Sched_loop")
  case True
  have c: "c < NCPU" using aw by (simp add: awake_def)
  from True have ok: "c_thread (cpus st c) = None" "noff (c_hart (cpus st c)) \<ge> 0" using sinvD(3) [OF inv c] by (simp_all add: cpu_ok_def)
  have "sinv S N F (put_hart c (blip (c_hart (cpus st c))) st)" by (rule sinv_blip [OF inv c]) (use True ok in simp_all)
  then show ?thesis using ok by (auto simp: timer_tick_def myproc_eq)
next
  case False
  with aw have ex: "executes c st" by (simp add: awake_def executes_def split: mode.splits)
  from inv ex obtain t where t: "c < NCPU" "c_mode (cpus st c) = Exec t" "c_thread (cpus st c) = Some t" "noff (c_hart (cpus st c)) \<ge> 0" "t < N"
    "state (threads st t) = RUNNING" "t_lock (threads st t) = spin_init" "Th t \<notin> fam_nodes (heads S) F" by (rule execD)
  let ?u = "upd_thread t (\<lambda>x. x\<lparr>ticks := ticks x - 1\<rparr>) (put_hart c (blip (c_hart (cpus st c))) st)"
  have "sinv S N F (put_hart c (blip (c_hart (cpus st c))) st)" by (rule sinv_blip [OF inv t(1)]) (use t in simp_all)
  moreover have "sinv S N F ?u \<longleftrightarrow> sinv S N F (put_hart c (blip (c_hart (cpus st c))) st)" by (rule sinv_fields) (auto simp: upd_defs)
  ultimately have u: "sinv S N F ?u" by simp
  moreover have "executes c ?u" using ex by (simp add: executes_def upd_defs)
  ultimately have "fine S N (vals ?u) (yield c ?u)" by (rule fine_yield)
  with u t show ?thesis by (auto simp: timer_tick_def myproc_eq Let_def)
qed

lemma fine_exit:
  assumes inv: "sinv S N F st" and ex: "executes c st"
  shows "fine S N (vals st) (thread_exit c st)"
proof -
  from inv ex obtain t where t: "c < NCPU" "c_mode (cpus st c) = Exec t" "c_thread (cpus st c) = Some t" "noff (c_hart (cpus st c)) \<ge> 0" "t < N"
    "state (threads st t) = RUNNING" "t_lock (threads st t) = spin_init" "Th t \<notin> fam_nodes (heads S) F" by (rule execD)
  let ?h = "push_off (intr_off (blip (c_hart (cpus st c))))"
  let ?st = "go_down c t Quit ?h ((upd_thread t (\<lambda>x. x\<lparr>state := ZOMBIE\<rparr>) st)\<lparr>nodes := list_add_tail (Th t) (Out_head c) (nodes st)\<rparr>)"
  let ?F = "F(Out_head c := F (Out_head c) @ [Th t])"
  have "sinv S N ?F ?st"
  proof (rule sinv_park [OF inv t(1,2), where a = "Out_head c" and xs = "F (Out_head c) @ [Th t]" and cs = Quit])
    show "list_family (heads S) (nodes ?st) ?F"
      using fam_add_tail [OF sinvD(2) [OF inv] _ t(8), of "Out_head c"] t(1) by (simp add: go_down_def upd_defs)
    show "\<forall>x \<in> S. sem_ok ?F ?st x" using sinvD(5) [OF inv] by (auto simp: sem_ok_def go_down_def upd_defs)
    show "cpus ?st = (cpus st)(c := (cpus st c)\<lparr>c_hart := ?h, c_mode := Descend t Quit\<rparr>)"
      "threads ?st = (threads st)(t := (threads st t)\<lparr>state := ZOMBIE, t_lock := taken c\<rparr>)" by (simp_all add: go_down_def upd_defs)
    show "noff (c_hart ((cpus st c)\<lparr>c_hart := ?h, c_mode := Descend t Quit\<rparr>)) \<ge> 1" using t(4) by (simp add: intr_off_def)
  qed (use t sinvD(11) [OF inv] in \<open>simp_all add: go_down_def upd_defs\<close>)
  moreover have "thread_exit c st = Inr ?st" by (rule thread_exit_eq [OF t(4,3,7)])
  ultimately show ?thesis by auto
qed

lemma fine_down:
  assumes inv: "sinv S N F st" and c: "c < NCPU" and m: "c_mode (cpus st c) = Descend t cs"
  shows "fine S N (vals st) (descend c st)"
proof -
  have ok: "c_thread (cpus st c) = Some t" "noff (c_hart (cpus st c)) \<ge> 1" "\<not> sie (c_hart (cpus st c))" "t_lock (threads st t) = taken c"
    "cs = Yield \<Longrightarrow> state (threads st t) = RUNNABLE" "cs = Quit \<Longrightarrow> state (threads st t) = ZOMBIE"
    using sinvD(3) [OF inv c] m by (simp_all add: cpu_ok_def)
  show ?thesis
  proof (cases "\<exists>k. cs = Sleep k")
    case True
    then obtain k where k: "cs = Sleep k" by blast
    have "sinv S N F (switched c t (c_hart (cpus st c)) (In_sem_wait (intena (c_hart (cpus st c))) k) (upd_thread t (\<lambda>x. x\<lparr>state := SLEEPING\<rparr>) st))"
      by (rule sinv_switched [OF inv c m]) (use ok k in auto)
    then show ?thesis using descend_sleep [OF m [unfolded k] ok(2,3,1,4)] by auto
  next
    case False
    then have cs: "cs = Yield \<or> cs = Quit" by (cases cs) auto
    then obtain r where r: "descend c st = Inr (switched c t (pop1 (c_hart (cpus st c))) r st)"
      using descend_other [OF m cs ok(2,3,1,4)] ok(5,6) by auto
    have "sinv S N F (switched c t (pop1 (c_hart (cpus st c))) r (upd_thread t (\<lambda>x. x\<lparr>state := state (threads st t)\<rparr>) st))"
      by (rule sinv_switched [OF inv c m]) (use ok False in auto)
    moreover have "upd_thread t (\<lambda>x. x\<lparr>state := state (threads st t)\<rparr>) st = st" by (rule upd_thread_id) simp
    ultimately show ?thesis unfolding r by auto
  qed
qed

lemma unused_nowhere:
  assumes inv: "sinv S N F st" and t: "state (threads st t) = UNUSED"
  shows "nowhere S F st t"
proof -
  have cpu: "c_thread (cpus st d) \<noteq> Some t" if "d < NCPU" for d
    using sinvD(3) [OF inv that] t by (auto simp: cpu_ok_def split: mode.splits cause.splits)
  moreover have "Th t \<notin> set (F a)" if "a \<in> heads S" for a
  proof
    assume "Th t \<in> set (F a)"
    then have p: "place_ok st a t" using sinvD(4) [OF inv that] by (auto simp: queued_ok_def)
    have "c_mode (cpus st d) \<noteq> Descend t (Sleep k)" if "d < NCPU" for d k
      using sinvD(3) [OF inv that] t by (auto simp: cpu_ok_def)
    with p t show False by (auto simp: place_ok_def split: tnode.splits)
  qed
  ultimately show ?thesis by (auto simp: nowhere_def fam_nodes_def)
qed

lemma alloc_kthread_eq:
  assumes "noff (c_hart (cpus st c)) \<ge> 0" and "pid_lock st = spin_init"
  shows "\<exists>x P. alloc_kthread c t st = Inr (put_hart c (blip (c_hart (cpus st c)))
      (st\<lparr>threads := (threads st)(t := x), nodes := INIT_LIST_HEAD (Th t) (nodes st), pids := P\<rparr>)) \<and> t_lock x = spin_init"
proof -
  define x where "x = (threads st t)\<lparr>t_lock := spin_init, ticks := 10, cpu_affinity := NO_CPU_AFF,
    pid := (if pid (threads st t) = 0 then pids st else pid (threads st t)), ctx := Thread_entry\<rparr>"
  define P where "P = (if pid (threads st t) = 0 then pids st + 1 else pids st)"
  have pe: "(threads st t)\<lparr>t_lock := spin_init, ticks := 10, cpu_affinity := NO_CPU_AFF, ctx := Thread_entry\<rparr> = x" if "pid (threads st t) \<noteq> 0"
    using that by (cases "threads st t") (simp add: x_def)
  have "alloc_kthread c t st = Inr (put_hart c (blip (c_hart (cpus st c)))
      (st\<lparr>threads := (threads st)(t := x), nodes := INIT_LIST_HEAD (Th t) (nodes st), pids := P\<rparr>))"
  proof (cases "pid (threads st t) = 0")
    case True
    with assms show ?thesis
      by (simp add: alloc_kthread_def alloc_thread_def thread_info_init_def op_eqs upd_defs) (intro sys.equality; simp add: x_def P_def)
  next
    case False
    with assms show ?thesis
      by (simp add: alloc_kthread_def alloc_thread_def thread_info_init_def op_eqs upd_defs) (intro sys.equality; simp add: pe P_def)
  qed
  moreover have "t_lock x = spin_init" by (simp add: x_def)
  ultimately show ?thesis by blast
qed

lemma fine_create:
  assumes inv: "sinv S N F st" and aw: "awake c st" and t: "t < N" "state (threads st t) = UNUSED"
  shows "fine S N (vals st) (kthread_create c aff (Some t) st)"
proof (cases "aff < NO_CPU_AFF \<or> aff \<ge> int NCPU")
  case True
  then show ?thesis using inv by (auto simp: kthread_create_def)
next
  case False
  from inv aw have c: "c < NCPU" "\<And>u cs. c_mode (cpus st c) \<noteq> Descend u cs" "noff (c_hart (cpus st c)) \<ge> 0" by (rule awakeD)+
  let ?h = "blip (c_hart (cpus st c))" and ?lk = "INIT_LIST_HEAD (Th t) (nodes st)"
  obtain x P where x: "alloc_kthread c t st = Inr (put_hart c ?h (st\<lparr>threads := (threads st)(t := x), nodes := ?lk, pids := P\<rparr>))" "t_lock x = spin_init"
    using alloc_kthread_eq [OF c(3) sinvD(9) [OF inv]] by blast
  define y where "y = x\<lparr>cpu_affinity := aff\<rparr>"
  define u where "u = put_hart c ?h (st\<lparr>threads := (threads st)(t := y), nodes := ?lk, pids := P\<rparr>)"
  have nw: "nowhere S F st t" by (rule unused_nowhere [OF inv t(2)])
  have fl: "list_family (heads S) ?lk F" by (rule fam_INIT_other [OF sinvD(2) [OF inv]]) (use nw in \<open>simp add: nowhere_def\<close>)
  have iu: "sinv S N F (put_hart c ?h (st\<lparr>threads := (threads st)(t := z), nodes := ?lk, pids := P\<rparr>))"
    if "t_lock z = spin_init" "cpu_affinity z = aff" for z
  proof (rule sinv_blip [OF _ c(1)])
    have "sinv S N F (st\<lparr>threads := (threads st)(t := z), nodes := ?lk\<rparr>)"
      by (rule sinv_thread [OF inv nw that(1)]) (use False that fl in auto)
    then show "sinv S N F (st\<lparr>threads := (threads st)(t := z), nodes := ?lk, pids := P\<rparr>)" by (subst sinv_cong) simp_all
  qed (use c in simp_all)
  have u: "sinv S N F u" unfolding u_def by (rule iu) (simp_all add: y_def x(2))
  have nu: "nowhere S F (upd_thread t g u) t" for g using nw by (auto simp: nowhere_def u_def upd_defs)
  have r: "sinv S N F (upd_thread t (\<lambda>x. x\<lparr>state := RUNNABLE\<rparr>) u)"
  proof -
    have "upd_thread t (\<lambda>x. x\<lparr>state := RUNNABLE\<rparr>) u = put_hart c ?h (st\<lparr>threads := (threads st)(t := y\<lparr>state := RUNNABLE\<rparr>), nodes := ?lk, pids := P\<rparr>)"
      by (simp add: u_def upd_defs)
    then show ?thesis using iu [of "y\<lparr>state := RUNNABLE\<rparr>"] by (simp add: y_def x(2))
  qed
  obtain G where G: "sinv S N G (runnable t u)" unfolding runnable_def
    using sinv_enqueue [OF r nu t(1)] by (auto simp: upd_defs)
  have hu: "noff (c_hart (cpus u c)) \<ge> 0" using c(3) by (simp add: u_def upd_defs)
  have "wakeup_process c t u = Inr (put_hart c (blip (c_hart (cpus u c))) (runnable t u))"
    by (rule wakeup_process_eq [OF hu]) (use sinvD(8,10) [OF u] target_less(1) [OF u t(1)] x(2) in \<open>simp_all add: u_def upd_defs y_def\<close>)
  moreover have "kthread_create c aff (Some t) st = wakeup_process c t u"
    using False x(1) by (simp add: kthread_create_def u_def upd_defs y_def) (rule arg_cong [where f = "wakeup_process c t"], intro sys.equality; simp)
  moreover have "sinv S N G (put_hart c (blip (c_hart (cpus u c))) (runnable t u))"
    by (rule sinv_blip [OF G c(1)]) (use c hu in \<open>simp_all add: runnable_def enqueue_def u_def upd_defs\<close>)
  moreover have "sems u = sems st" by (simp add: u_def)
  ultimately show ?thesis by auto
qed

lemma those_Th: "thread_entries (List.map Th ts) = Some ts"
  by (induction ts) (simp_all add: thread_entries_def)

lemma pick_found:
  assumes inv: "sinv S N F st" and c: "c < NCPU"
  shows "\<exists>p. pick_next_task c st = Inr p \<and> (\<forall>t. p = Some t \<longrightarrow> Th t \<in> set (F (Run_head c)))"
proof -
  have h: "Run_head c \<in> heads S" using c by simp
  have "\<forall>n \<in> set (F (Run_head c)). \<exists>t. n = Th t" using sinvD(4) [OF inv h] by (auto simp: queued_ok_def)
  then obtain ts where ts: "F (Run_head c) = List.map Th ts" using ex_map_conv [of "F (Run_head c)" Th] by blast
  note li = list_familyD [OF sinvD(2) [OF inv] h, unfolded ts]
  have "list_for_each_reverse (Run_head c) (nodes st) = Some (List.map Th (rev ts))" using list_for_each_is_list(2) [OF li] by (simp add: rev_map)
  then have "pick_next_task c st = (if list_empty (Run_head c) (nodes st) then Inr None else Inr (find (\<lambda>t. state (threads st t) = RUNNABLE) (rev ts)))"
    by (simp add: pick_next_task_def those_Th)
  moreover have "t \<in> set ts" if "find (\<lambda>t. state (threads st t) = RUNNABLE) (rev ts) = Some t" for t
    using that unfolding find_Some_iff by (metis length_rev nth_mem set_rev)
  ultimately show ?thesis unfolding ts by auto
qed

text \<open>The only error of the scheduler: a thread comes back from \<open>sem_wait\<close> on a CPU whose depth is 0.\<close>

definition bad_resume :: "nat \<Rightarrow> sys \<Rightarrow> bool" where
  "bad_resume c st \<longleftrightarrow> noff (c_hart (cpus st c)) = 0 \<and>
     (case pick_next_task c st of
        Inr (Some t) \<Rightarrow> (case ctx (threads st t) of In_sem_wait _ _ \<Rightarrow> True | _ \<Rightarrow> False)
      | _ \<Rightarrow> False)"

lemma bad_resume_iff:
  "bad_resume c st \<longleftrightarrow> noff (c_hart (cpus st c)) = 0 \<and> (\<exists>t i k. pick_next_task c st = Inr (Some t) \<and> ctx (threads st t) = In_sem_wait i k)"
  by (auto simp: bad_resume_def split: sum.splits option.splits resume_point.splits)

lemma fine_sched:
  assumes inv: "sinv S N F st" and c: "c < NCPU" and m: "c_mode (cpus st c) = Sched_loop"
  shows "if bad_resume c st then scheduler c st = Inl Spins \<or> (\<exists>msg. scheduler c st = Inl (Panic msg)) else fine S N (vals st) (scheduler c st)"
proof -
  have h: "noff (c_hart (cpus st c)) \<ge> 0" using sinvD(3) [OF inv c] m by (simp add: cpu_ok_def)
  note rq = sinvD(10) [OF inv c]
  obtain p where p: "pick_next_task c st = Inr p" "\<forall>t. p = Some t \<longrightarrow> Th t \<in> set (F (Run_head c))" using pick_found [OF inv c] by blast
  show ?thesis
  proof (cases p)
    case None
    have "sinv S N F (put_hart c (intr_on (blip (c_hart (cpus st c)))) st)" by (rule sinv_hart [OF inv c]) (use m h in \<open>simp_all add: intr_on_def\<close>)
    then show ?thesis using scheduler_none [OF h rq] p(1) None by (auto simp: bad_resume_iff)
  next
    case (Some t)
    then have t: "Th t \<in> set (F (Run_head c))" using p(2) by simp
    then have tN: "t < N" using sinvD(4) [OF inv, of "Run_head c"] c by (auto simp: queued_ok_def)
    note ss = scheduler_some [OF h rq p(1) [unfolded Some]]
    show ?thesis
    proof (cases "t_lock (threads st t) = spin_init")
      case False
      then obtain d cs where d: "d < NCPU" "c_mode (cpus st d) = Descend t cs" using sinvD(6) [OF inv tN] by blast
      then have "t_lock (threads st t) = taken d" using sinvD(3) [OF inv d(1)] by (simp add: cpu_ok_def)
      moreover have "d \<noteq> c" using d(2) m by auto
      ultimately show ?thesis using ss(1) by simp
    next
      case True
      note run = ss(2) [OF True] and iv = sinv_dispatched [OF inv c m t True]
      show ?thesis
      proof (cases "bad_resume c st")
        case True
        then obtain i k where ik: "ctx (threads st t) = In_sem_wait i k" "noff (c_hart (cpus st c)) = 0" using p(1) Some by (auto simp: bad_resume_iff)
        then have "\<exists>msg. pop_off ((blip (c_hart (cpus st c)))\<lparr>intena := i\<rparr>) = Inl (Panic msg)" by (simp add: pop_off_def blip_def)
        then show ?thesis using True run ik(1) by (auto simp: resumed_def)
      next
        case False
        have "\<exists>h' M. noff h' \<ge> 0 \<and> resumed c (ctx (threads st t)) (blip (c_hart (cpus st c))) (dispatched c t st) = Inr (put_hart c h' ((dispatched c t st)\<lparr>mutexes := M\<rparr>))"
        proof (rule resumed_ok)
          show "noff (blip (c_hart (cpus st c))) \<ge> 0" "noff (c_hart (cpus (dispatched c t st) c)) \<ge> 0" using h by (simp_all add: dispatched_def upd_defs)
          show "noff (blip (c_hart (cpus st c))) \<ge> 1 \<and> \<not> sie (blip (c_hart (cpus st c)))" if "ctx (threads st t) = In_sem_wait i k" for i k
            using False that p(1) Some h by (auto simp: bad_resume_iff blip_def)
        qed
        then obtain h' M where h': "noff h' \<ge> 0" "scheduler c st = Inr (put_hart c h' ((dispatched c t st)\<lparr>mutexes := M\<rparr>))" unfolding run by blast
        have "sinv S N (F(Run_head c := remove1 (Th t) (F (Run_head c)))) (put_hart c h' ((dispatched c t st)\<lparr>mutexes := M\<rparr>))"
          by (rule sinv_hart [OF _ c _ h'(1)]) (use iv in \<open>simp_all add: sinv_mutexes, simp_all add: dispatched_def upd_defs\<close>)
        then show ?thesis using False h'(2) by auto
      qed
    qed
  qed
qed

subsection \<open>Reachable states\<close>

text \<open>After \<open>sched_init\<close>, with the semaphores of \<open>S\<close> initialised and no thread created.\<close>

definition sstart :: "nat set \<Rightarrow> nat \<Rightarrow> sys \<Rightarrow> bool" where
  "sstart S N st \<longleftrightarrow> N < 2 ^ 31 \<and>
     (\<forall>c < NCPU. c_mode (cpus st c) = Sched_loop \<and> c_thread (cpus st c) = None \<and> noff (c_hart (cpus st c)) = 0 \<and>
        rq_lock st c = spin_init \<and> is_list (nodes st) (Run_head c) [] \<and> is_list (nodes st) (Out_head c) []) \<and>
     (\<forall>t < N. t_lock (threads st t) = spin_init \<and> state (threads st t) = UNUSED \<and> cpu_affinity (threads st t) = NO_CPU_AFF) \<and>
     (\<forall>s \<in> S. s_lock (sems st s) = spin_init \<and> is_list (nodes st) (Wait_head s) [] \<and> fifo_list (waiters (sems st s)) = Wait_head s \<and>
        fifo_size (waiters (sems st s)) = 0 \<and> 0 \<le> sem_value (sems st s) \<and> sem_value (sems st s) < 2 ^ 31) \<and>
     load_lock st = spin_init \<and> pid_lock st = spin_init \<and> load_cpu_id st = - 1"

lemma sinv_start:
  assumes "sstart S N st"
  shows "sinv S N (\<lambda>_. []) st"
proof -
  have "list_family (heads S) (nodes st) (\<lambda>_. [])" using assms by (auto simp: list_family_def heads_def sstart_def)
  moreover have "cpu_ok S N (\<lambda>_. []) st c" if "c < NCPU" for c using assms that by (simp add: cpu_ok_def sstart_def)
  moreover have "queued_ok N (\<lambda>_. []) st a" for a by (simp add: queued_ok_def)
  moreover have "sem_ok (\<lambda>_. []) st s" if "s \<in> S" for s using assms that by (auto simp: sem_ok_def sstart_def)
  ultimately show ?thesis using assms unfolding sinv_def sstart_def by auto
qed

fun is_wait :: "nat \<Rightarrow> act \<Rightarrow> bool" where
  "is_wait s (A_wait c x) = (x = s)"
| "is_wait s (A_lock c x) = (x = s)"
| "is_wait s _ = False"

fun is_signal :: "nat \<Rightarrow> act \<Rightarrow> bool" where
  "is_signal s (A_signal c x) = (x = s)"
| "is_signal s (A_unlock c x) = (x = s)"
| "is_signal s _ = False"

definition balance :: "nat \<Rightarrow> act list \<Rightarrow> int" where
  "balance s as = int (length (filter (is_signal s) as)) - int (length (filter (is_wait s) as))"

lemma balance_snoc: "balance s (as @ [a]) = balance s as + (if is_signal s a then 1 else 0) - (if is_wait s a then 1 else 0)"
  by (simp add: balance_def)

lemma fine_vals: "fine S N v r \<Longrightarrow> v = w \<Longrightarrow> fine S N w r"
  by simp

lemma perform_fine:
  assumes inv: "sinv S N F st" and r: "ready S N a st" and nb: "\<not> (\<exists>c. a = A_sched c \<and> bad_resume c st)"
  shows "fine S N (\<lambda>s. sem_value (sems st s) + (if is_signal s a then 1 else 0) - (if is_wait s a then 1 else 0)) (perform a st)"
proof (cases a)
  case (A_sched c)
  then show ?thesis using fine_sched [OF inv, of c] r nb by simp
next
  case (A_tick c)
  then show ?thesis using fine_tick [OF inv, of c] r by simp
next
  case (A_exit c)
  then show ?thesis using fine_exit [OF inv, of c] r by simp
next
  case (A_wait c s)
  then show ?thesis using r by (auto simp: sem_wait_def intro!: fine_vals [OF fine_wait [OF inv, of c s]])
next
  case (A_signal c s)
  then show ?thesis using r by (auto intro!: fine_vals [OF fine_signal [OF inv, of c s]])
next
  case (A_lock c s)
  then show ?thesis using r by (auto intro!: fine_vals [OF fine_lock [OF inv, of c s]])
next
  case (A_unlock c s)
  then show ?thesis using r by (auto intro!: fine_vals [OF fine_unlock [OF inv, of c s]])
next
  case (A_down c)
  then show ?thesis using fine_down [OF inv, of c] r by (auto split: mode.splits)
next
  case (A_create c t aff)
  then show ?thesis using fine_create [OF inv, of c t aff] r by simp
qed

lemma srun_sinv:
  assumes "srun S N st0 as st" and "sstart S N st0"
  shows "(\<exists>F. sinv S N F st) \<and> (\<forall>s. sem_value (sems st s) = sem_value (sems st0 s) + balance s as)"
  using assms
proof (induction rule: srun.induct)
  case start
  then show ?case using sinv_start by (auto simp: balance_def)
next
  case (step as st a st')
  then obtain F where F: "sinv S N F st" "\<forall>s. sem_value (sems st s) = sem_value (sems st0 s) + balance s as" by blast
  have "\<not> (\<exists>c. a = A_sched c \<and> bad_resume c st)"
  proof
    assume "\<exists>c. a = A_sched c \<and> bad_resume c st"
    then obtain c where c: "a = A_sched c" "bad_resume c st" by blast
    then show False using fine_sched [OF F(1), of c] step.hyps by auto
  qed
  from perform_fine [OF F(1) step.hyps(2) this] step.hyps(3) F(2) show ?case by (simp add: balance_snoc)
qed

text \<open>Running a sequence of steps.\<close>

fun trace :: "nat set \<Rightarrow> nat \<Rightarrow> act list \<Rightarrow> sys \<Rightarrow> sys option" where
  "trace S N [] st = Some st"
| "trace S N (a # as) st = (if ready S N a st then (case perform a st of Inr st \<Rightarrow> trace S N as st | Inl _ \<Rightarrow> None) else None)"

lemma trace_srun: "trace S N as st = Some st' \<Longrightarrow> srun S N st0 bs st \<Longrightarrow> srun S N st0 (bs @ as) st'"
proof (induction as arbitrary: bs st)
  case (Cons a as)
  from Cons.prems(1) obtain st1 where st1: "ready S N a st" "perform a st = Inr st1" "trace S N as st1 = Some st'"
    by (auto split: if_splits sum.splits)
  from Cons.IH [OF st1(3) srun.step [OF Cons.prems(2) st1(1,2)]] show ?case by simp
qed simp

definition boot :: "int \<Rightarrow> sys" where
  "boot v = proc_init (sched_init (sem_init 0 v
     \<lparr>cpus = (\<lambda>_. \<lparr>c_hart = \<lparr>noff = 0, intena = False, sie = True\<rparr>, c_thread = None, c_mode = Sched_loop\<rparr>),
      threads = (\<lambda>_. \<lparr>t_lock = spin_init, state = UNUSED, pid = 0, ticks = 0, cpu_affinity = NO_CPU_AFF, ctx = Thread_entry\<rparr>),
      sems = (\<lambda>s. \<lparr>sem_value = 0, s_lock = spin_init, waiters = \<lparr>fifo_size = 0, fifo_list = Wait_head s\<rparr>\<rparr>),
      mutexes = (\<lambda>_. \<lparr>locked = 0, m_thread = None\<rparr>), nodes = \<lparr>l_prev = id, l_next = id\<rparr>, rq_lock = (\<lambda>_. spin_init),
      load_lock = spin_init, load_cpu_id = - 1, pid_lock = spin_init, pids = 0\<rparr>))"

lemma boot_start: "0 \<le> v \<Longrightarrow> v < 2 ^ 31 \<Longrightarrow> sstart {0} 8 (boot v)"
  by (simp add: sstart_def boot_def proc_init_def sched_init_def sem_init_def fifo_init_def upd_defs INIT_LIST_HEAD_def upt_rec [of _ 4])

subsection \<open>Properties\<close>

lemma run_queue:
  assumes inv: "sinv S N F st" and a: "a \<in> heads S"
  shows "\<exists>ts. F a = List.map Th ts \<and> list_for_each a (nodes st) = Some (List.map Th ts) \<and> distinct ts \<and> (\<forall>t \<in> set ts. t < N \<and> place_ok st a t)"
proof -
  have q: "\<forall>n \<in> set (F a). \<exists>t. n = Th t \<and> t < N \<and> place_ok st a t" using sinvD(4) [OF inv a] by (auto simp: queued_ok_def)
  then obtain ts where ts: "F a = List.map Th ts" using ex_map_conv [of "F a" Th] by blast
  note li = list_familyD [OF sinvD(2) [OF inv] a]
  then have "distinct ts" by (simp add: is_list_def ts distinct_map)
  then show ?thesis using ts list_for_each_is_list(1) [OF li] q by auto
qed

text \<open>C2: on any number of interleaved operations of the four CPUs, a thread is never on two CPUs at once.
  The run queue of every CPU is a list without duplicates of threads that are \<open>RUNNABLE\<close> and that no CPU is
  executing, and no thread is on the run queues of two CPUs.\<close>

theorem thread_on_one_cpu:
  assumes "sstart S N st0" and "srun S N st0 as st" and "c < NCPU" and "d < NCPU"
  shows "(\<forall>t. c_thread (cpus st c) = Some t \<and> c_thread (cpus st d) = Some t \<longrightarrow> c = d) \<and>
    (\<exists>ts us. list_for_each (Run_head c) (nodes st) = Some (List.map Th ts) \<and> list_for_each (Run_head d) (nodes st) = Some (List.map Th us) \<and>
      distinct ts \<and> (c \<noteq> d \<longrightarrow> set ts \<inter> set us = {}) \<and> (\<forall>t \<in> set ts. state (threads st t) = RUNNABLE \<and> c_mode (cpus st d) \<noteq> Exec t))"
proof -
  obtain F where F: "sinv S N F st" using srun_sinv [OF assms(2,1)] by blast
  have "c = d" if "c_thread (cpus st c) = Some t" "c_thread (cpus st d) = Some t" for t by (rule sinvD(7) [OF F assms(3,4) that])
  moreover have h: "Run_head c \<in> heads S" "Run_head d \<in> heads S" using assms(3,4) by simp_all
  obtain ts where ts: "F (Run_head c) = List.map Th ts" "list_for_each (Run_head c) (nodes st) = Some (List.map Th ts)" "distinct ts"
    "\<forall>t \<in> set ts. t < N \<and> place_ok st (Run_head c) t" using run_queue [OF F h(1)] by blast
  obtain us where us: "F (Run_head d) = List.map Th us" "list_for_each (Run_head d) (nodes st) = Some (List.map Th us)"
    using run_queue [OF F h(2)] by blast
  have "set ts \<inter> set us = {}" if "c \<noteq> d" using list_family_disjoint [OF sinvD(2) [OF F] h] that by (auto simp: ts(1) us(1))
  moreover have "c_mode (cpus st d) \<noteq> Exec t" if "t \<in> set ts" for t
  proof
    assume "c_mode (cpus st d) = Exec t"
    then have "Th t \<notin> fam_nodes (heads S) F" using sinvD(3) [OF F assms(4)] by (simp add: cpu_ok_def)
    then show False using in_fam [where F = F, OF h(1), of "Th t"] that ts(1) by simp
  qed
  moreover have "state (threads st t) = RUNNABLE" if "t \<in> set ts" for t using ts(4) that by (simp add: place_ok_def)
  ultimately show ?thesis using ts(2,3) us(2) by blast
qed

text \<open>Two threads on two CPUs; one of them waits for the semaphore.\<close>

lemma boot_run:
  assumes "trace {0} 8 as (boot v) = Some st" and "0 \<le> v" and "v < 2 ^ 31"
  shows "srun {0} 8 (boot v) as st" and "sstart {0} 8 (boot v)"
  using trace_srun [OF assms(1) srun.start] boot_start [OF assms(2,3)] by simp_all

lemmas run_defs = trace.simps ready.simps perform.simps executes_def awake_def boot_def proc_init_def sched_init_def sem_init_def fifo_init_def upd_defs
  INIT_LIST_HEAD_def upt_rec [of _ 4] kthread_create_def alloc_kthread_def alloc_thread_def thread_info_init_def wakeup_process_def
  add_runnable_task_def acquire_def release_def lock_defs scheduler_def resume_thread_def sem_wait_def sem_wait_for_def sem_signal_def
  fifo_push_def fifo_pop_def list_pop_def list_op_defs set_next_def set_prev_def pick_next_task_def list_for_each_reverse_def visit.simps thread_entries_def
  descend_def sched_def this_thread_def myproc_def assertR_def atomic_dec_def atomic_inc_def atomic_add_def atomic_sub_def wrap32_def Let_def

theorem thread_on_one_cpu_witness:
  "\<exists>st. trace {0} 8 [A_create 0 0 (- 1), A_create 0 1 (- 1), A_create 0 2 (- 1), A_sched 0, A_sched 1] (boot 1) = Some st \<and>
     c_thread (cpus st 0) = Some 0 \<and> c_thread (cpus st 1) = Some 1 \<and>
     (\<exists>ts us. list_for_each (Run_head 2) (nodes st) = Some (List.map Th ts) \<and> list_for_each (Run_head 0) (nodes st) = Some (List.map Th us) \<and>
        distinct ts \<and> set ts \<inter> set us = {})"
proof -
  let ?as = "[A_create 0 0 (- 1), A_create 0 1 (- 1), A_create 0 2 (- 1), A_sched 0, A_sched 1]"
  have "case trace {0} 8 ?as (boot 1) of Some st \<Rightarrow> c_thread (cpus st 0) = Some 0 \<and> c_thread (cpus st 1) = Some 1 | None \<Rightarrow> False"
    by (simp add: run_defs bad_resume_def)
  then obtain st where st: "trace {0} 8 ?as (boot 1) = Some st" "c_thread (cpus st 0) = Some 0" "c_thread (cpus st 1) = Some 1"
    by (auto split: option.splits)
  note run = boot_run [OF st(1)]
  have "\<exists>ts us. list_for_each (Run_head 2) (nodes st) = Some (List.map Th ts) \<and> list_for_each (Run_head 0) (nodes st) = Some (List.map Th us) \<and>
        distinct ts \<and> set ts \<inter> set us = {}"
    using thread_on_one_cpu [OF run(2,1), of 2 0] by auto
  with st show ?thesis by blast
qed

text \<open>C7: semaphores lose and invent nothing. In every reachable state the count of a semaphore is its initial
  count plus the signals given minus the waits begun, and exactly the threads for which there was no count,
  \<open>max 0 (waits - initial count - signals)\<close> of them, are in its queue, each once: no wakeup is lost, and no
  thread passes without a count.\<close>

theorem semaphore_conserves:
  assumes "sstart S N st0" and "srun S N st0 as st" and "s \<in> S"
  shows "sem_value (sems st s) = sem_value (sems st0 s) + balance s as \<and>
    (\<exists>ts. list_for_each (Wait_head s) (nodes st) = Some (List.map Th ts) \<and> distinct ts \<and>
       int (length ts) = max 0 (- (sem_value (sems st0 s) + balance s as)) \<and>
       fifo_size (waiters (sems st s)) = int (length ts))"
proof -
  obtain F where F: "sinv S N F st" "\<forall>s. sem_value (sems st s) = sem_value (sems st0 s) + balance s as" using srun_sinv [OF assms(2,1)] by blast
  obtain ts where ts: "F (Wait_head s) = List.map Th ts" "list_for_each (Wait_head s) (nodes st) = Some (List.map Th ts)" "distinct ts"
    using run_queue [OF F(1), of "Wait_head s"] assms(3) by auto
  have "int (length ts) = max 0 (- (sem_value (sems st0 s) + balance s as))" "fifo_size (waiters (sems st s)) = int (length ts)"
    using sinvD(5) [OF F(1) assms(3)] F(2) by (auto simp: sem_ok_def ts(1))
  with ts F(2) show ?thesis by blast
qed

theorem semaphore_conserves_witness:
  "\<exists>st ts. trace {0} 8 [A_create 0 0 (- 1), A_create 0 1 (- 1), A_sched 0, A_sched 1, A_wait 0 0, A_wait 1 0, A_down 1] (boot 1) = Some st \<and>
     sem_value (sems st 0) = - 1 \<and> list_for_each (Wait_head 0) (nodes st) = Some (List.map Th ts) \<and> length ts = 1"
proof -
  let ?as = "[A_create 0 0 (- 1), A_create 0 1 (- 1), A_sched 0, A_sched 1, A_wait 0 0, A_wait 1 0, A_down 1]"
  have "case trace {0} 8 ?as (boot 1) of Some st \<Rightarrow> True | None \<Rightarrow> False" by (simp add: run_defs bad_resume_def)
  then obtain st where st: "trace {0} 8 ?as (boot 1) = Some st" by (auto split: option.splits)
  note run = boot_run [OF st(1)]
  have "sem_value (sems (boot 1) 0) = 1" by (simp add: run_defs bad_resume_def)
  then show ?thesis using semaphore_conserves [OF run(2,1), of 0] st by (auto simp: balance_def)
qed

text \<open>C12: no operation of the scheduler, the semaphores and the mutexes fails in a reachable state, with one
  exception. None of their assertions and panics is reached: \<open>sched\<close> is always entered with the thread's lock
  held, interrupts off and a state other than \<open>RUNNING\<close>, no lock is taken twice or released by another, and
  \<open>sem_signal\<close> never finds an empty queue. The exception is a thread that returns from \<open>sem_wait\<close> on a CPU
  whose depth of \<open>push_off\<close> is 0.\<close>

theorem sched_errors:
  assumes "sstart S N st0" and "srun S N st0 as st" and "ready S N a st" and "perform a st = Inl e"
  shows "e = Spins \<or> (\<exists>c. a = A_sched c \<and> bad_resume c st)"
proof -
  obtain F where F: "sinv S N F st" using srun_sinv [OF assms(2,1)] by blast
  show ?thesis using perform_fine [OF F assms(3)] assms(4) by (auto simp: fine_def)
qed

theorem sched_errors_witness:
  "\<exists>st. trace {0} 8 [A_create 0 0 (- 1), A_sched 0, A_wait 0 0] (boot 0) = Some st \<and> ready {0} 8 (A_signal 1 0) st \<and>
     (case perform (A_signal 1 0) st of Inl e \<Rightarrow> e = Spins | Inr _ \<Rightarrow> False)"
proof -
  have "case trace {0} 8 [A_create 0 0 (- 1), A_sched 0, A_wait 0 0] (boot 0) of
      Some st \<Rightarrow> ready {0} 8 (A_signal 1 0) st \<and> (case perform (A_signal 1 0) st of Inl e \<Rightarrow> True | Inr _ \<Rightarrow> False) | None \<Rightarrow> False"
    by (simp add: run_defs bad_resume_def)
  then obtain st e where st: "trace {0} 8 [A_create 0 0 (- 1), A_sched 0, A_wait 0 0] (boot 0) = Some st"
    "ready {0} 8 (A_signal 1 0) st" "perform (A_signal 1 0) st = Inl e" by (auto split: option.splits sum.splits)
  note run = boot_run [OF st(1)]
  have "e = Spins" using sched_errors [OF run(2,1) st(2,3)] by auto
  with st show ?thesis by auto
qed



end
