(* ===== verification/Console.thy ===== *)
theory Console
  imports Cstring Spinlock
begin

text \<open>
  drive/uart.c and lib/print.c. The device is its transmit register and its line status: \<open>thr\<close> are the
  bytes written to \<open>THR\<close>, \<open>lsr\<close> what the reads of \<open>LSR_TX_IDLE\<close> will see, \<open>rhr\<close> the bytes waiting in
  \<open>RHR\<close>; a driver that waits for a status that does not come \<open>Spins\<close>. The output of \<open>printf\<close> is the
  sequence of bytes it hands to \<open>uart_putc_sync\<close>.
\<close>

subsection \<open>The serial port\<close>

abbreviation (input) UART_TX_BUF_SIZE :: nat where "UART_TX_BUF_SIZE \<equiv> 32"
abbreviation (input) IER_RX_ENABLE :: u8 where "IER_RX_ENABLE \<equiv> 1"
abbreviation (input) IER_TX_ENABLE :: u8 where "IER_TX_ENABLE \<equiv> 2"

record uart =
  ier :: u8
  lcr :: u8
  fcr :: u8
  baud :: "u8 \<times> u8"
  thr :: "u8 list"
  lsr :: "bool list"
  rhr :: "u8 list"
  uart_tx_lock :: spinlock
  uart_tx_buf :: "u8 list"
  uart_tx_w :: u64
  uart_tx_r :: u64
  u_hart :: hart

definition uart_init :: "uart \<Rightarrow> uart" where
  "uart_init u = u\<lparr>baud := (0x03, 0x00), lcr := 3, fcr := 7, ier := IER_TX_ENABLE OR IER_RX_ENABLE, uart_tx_lock := spin_init\<rparr>"

text \<open>Reading \<open>LSR & LSR_TX_IDLE\<close>; a device whose future is not given stays busy.\<close>

definition tx_idle :: "uart \<Rightarrow> bool \<times> uart" where
  "tx_idle u = (case lsr u of [] \<Rightarrow> (False, u) | b # bs \<Rightarrow> (b, u\<lparr>lsr := bs\<rparr>))"

function uart_start :: "uart \<Rightarrow> uart" where
  "uart_start u =
     (if uart_tx_w u = uart_tx_r u then u
      else case tx_idle u of
          (False, u) \<Rightarrow> u
        | (True, v) \<Rightarrow>
            (let c = uart_tx_buf v ! (unat (uart_tx_r v) mod UART_TX_BUF_SIZE)
             in uart_start (v\<lparr>uart_tx_r := uart_tx_r v + 1, thr := thr v @ [c]\<rparr>)))"
  by pat_completeness auto
termination
  by (relation "measure (\<lambda>u. length (lsr u))") (auto simp: tx_idle_def split: list.splits)

declare uart_start.simps [simp del]

definition uart_putc :: "int \<Rightarrow> u8 \<Rightarrow> uart \<Rightarrow> uart kres" where
  "uart_putc cpu c u =
     bindR (spin_lock cpu (u_hart u, uart_tx_lock u)) (\<lambda>(h, l).
       let u = u\<lparr>u_hart := h, uart_tx_lock := l\<rparr>
       in if uart_tx_w u = uart_tx_r u + of_nat UART_TX_BUF_SIZE then Inr u
          else
            let u = u\<lparr>uart_tx_buf := (uart_tx_buf u)[unat (uart_tx_w u) mod UART_TX_BUF_SIZE := c], uart_tx_w := uart_tx_w u + 1\<rparr>;
                u = uart_start u
            in bindR (spin_unlock cpu (u_hart u, uart_tx_lock u)) (\<lambda>(h, l). Inr (u\<lparr>u_hart := h, uart_tx_lock := l\<rparr>)))"

definition uart_putc_sync :: "u8 \<Rightarrow> uart \<Rightarrow> uart kres" where
  "uart_putc_sync c u =
     (case dropWhile Not (lsr u) of
        [] \<Rightarrow> Inl Spins
      | _ # bs \<Rightarrow> bindR (pop_off (push_off (u_hart u))) (\<lambda>h. Inr (u\<lparr>lsr := bs, thr := thr u @ [c], u_hart := h\<rparr>)))"

definition uart_getc :: "uart \<Rightarrow> int \<times> uart" where
  "uart_getc u = (case rhr u of [] \<Rightarrow> (- 1, u) | c # cs \<Rightarrow> (uint c, u\<lparr>rhr := cs\<rparr>))"

fun emit :: "u8 list \<Rightarrow> uart \<Rightarrow> uart kres" where
  "emit [] u = Inr u"
| "emit (c # cs) u = bindR (uart_putc_sync c u) (emit cs)"

text \<open>A carriage return is echoed with a newline in front, a delete erases the last character.\<close>

definition uartintr :: "uart \<Rightarrow> uart kres" where
  "uartintr u =
     (case uart_getc u of (ch, u) \<Rightarrow>
        if ch = - 1 then Inr u
        else bindR (if ch = 13 then uart_putc_sync 10 u else if ch = 127 then emit [8, 32, 8] u else Inr u) (uart_putc_sync (word_of_int ch)))"

subsection \<open>Numbers\<close>

text \<open>A \<open>long\<close> whose negation is a \<open>long\<close> too; \<open>printf\<close> only passes \<open>int\<close>s.\<close>

function putint :: "int \<Rightarrow> u8 list" where
  "putint n =
     (let m = (if n < 0 then - n else n)
      in (if n < 0 then [45] else []) @ (if m div 10 \<noteq> 0 then putint (m div 10) else []) @ [word_of_int (48 + m mod 10)])"
  by pat_completeness auto
termination
  by (relation "measure (\<lambda>n. nat \<bar>n\<bar>)") auto

declare putint.simps [simp del]

definition hex_digit :: "u64 \<Rightarrow> nat \<Rightarrow> u8" where
  "hex_digit w i = (let d = ucast (drop_bit (i * 4) w AND 0xF) in if d < 10 then 48 + d else 97 + (d - 10))"

definition putptr :: "u64 \<Rightarrow> u8 list" where
  "putptr w = [48, 120] @ List.map (hex_digit w) (rev [0 ..< 16])"

subsection \<open>Formatted output\<close>

text \<open>The arguments behind the format: an \<open>int\<close>, a string without its end, a pointer.\<close>

datatype varg = V_int int | V_str "u8 list" | V_ptr u64

definition arg_int :: "varg list \<Rightarrow> (int \<times> varg list) kres" where
  "arg_int as = (case as of V_int n # as \<Rightarrow> Inr (n, as) | _ \<Rightarrow> Inl (Fault ''va_arg''))"

definition arg_str :: "varg list \<Rightarrow> (u8 list \<times> varg list) kres" where
  "arg_str as = (case as of V_str s # as \<Rightarrow> Inr (s, as) | _ \<Rightarrow> Inl (Fault ''va_arg''))"

definition arg_ptr :: "varg list \<Rightarrow> (u64 \<times> varg list) kres" where
  "arg_ptr as = (case as of V_ptr p # as \<Rightarrow> Inr (p, as) | _ \<Rightarrow> Inl (Fault ''va_arg''))"

text \<open>
  \<open>printf\<close> as the bytes it puts. Behind an unknown conversion the loop goes on at the character that
  followed the percent sign.
\<close>

fun printf_bytes :: "u8 list \<Rightarrow> varg list \<Rightarrow> u8 list kres" where
  "printf_bytes [] as = Inr []"
| "printf_bytes [c] as = Inr (if c = 37 then [] else [c])"
| "printf_bytes (c # d # fmt) as =
     (if c \<noteq> 37 then bindR (printf_bytes (d # fmt) as) (\<lambda>bs. Inr (c # bs))
      else if d = 100 then bindR (arg_int as) (\<lambda>(n, as). bindR (printf_bytes fmt as) (\<lambda>bs. Inr (putint n @ bs)))
      else if d = 99 then bindR (arg_int as) (\<lambda>(n, as). bindR (printf_bytes fmt as) (\<lambda>bs. Inr (word_of_int n # bs)))
      else if d = 115 then bindR (arg_str as) (\<lambda>(s, as). bindR (printf_bytes fmt as) (\<lambda>bs. Inr (s @ bs)))
      else if d = 112 then bindR (arg_ptr as) (\<lambda>(p, as). bindR (printf_bytes fmt as) (\<lambda>bs. Inr (putptr p @ bs)))
      else printf_bytes (d # fmt) as)"

definition printf :: "u8 list \<Rightarrow> varg list \<Rightarrow> uart \<Rightarrow> uart kres" where
  "printf fmt as u = bindR (printf_bytes fmt as) (\<lambda>bs. emit bs u)"

text \<open>The console lock is beside the port.\<close>

definition cons_init :: "spinlock \<times> uart \<Rightarrow> spinlock \<times> uart" where
  "cons_init s = (case s of (_, u) \<Rightarrow> (spin_init, uart_init u))"

definition printk :: "int \<Rightarrow> u8 list \<Rightarrow> varg list \<Rightarrow> spinlock \<times> uart \<Rightarrow> (spinlock \<times> uart) kres" where
  "printk cpu fmt as s = (case s of (l, u) \<Rightarrow>
     bindR (spin_lock cpu (u_hart u, l)) (\<lambda>(h, l).
     bindR (printf fmt as (u\<lparr>u_hart := h\<rparr>)) (\<lambda>u.
     bindR (spin_unlock cpu (u_hart u, l)) (\<lambda>(h, l). Inr (l, u\<lparr>u_hart := h\<rparr>)))))"

subsection \<open>Reading numbers back\<close>

definition parse_dec :: "u8 list \<Rightarrow> int" where
  "parse_dec bs = foldl (\<lambda>a b. 10 * a + (uint b - 48)) 0 bs"

definition parse_int :: "u8 list \<Rightarrow> int" where
  "parse_int bs = (if bs \<noteq> [] \<and> hd bs = 45 then - parse_dec (tl bs) else parse_dec bs)"

lemma digit: "0 \<le> d \<Longrightarrow> d < 10 \<Longrightarrow> uint (48 + word_of_int d :: u8) = 48 + d"
  by (simp add: uint_word_ariths uint_word_of_int)

lemma parse_dec_snoc: "parse_dec (bs @ [b]) = 10 * parse_dec bs + (uint b - 48)"
  by (simp add: parse_dec_def)

lemma putint_nonneg:
  assumes "0 \<le> n"
  shows "parse_dec (putint n) = n \<and> putint n \<noteq> [] \<and> hd (putint n) \<noteq> 45"
  using assms
proof (induction "nat n" arbitrary: n rule: less_induct)
  case less
  show ?case
  proof (cases "n div 10 = 0")
    case True
    then have n: "n mod 10 = n" "0 \<le> n" "n < 10" using less.prems by auto
    then have "uint (48 + word_of_int n :: u8) \<noteq> uint (45 :: u8)" using digit [of n] by simp
    then have "48 + word_of_int n \<noteq> (45 :: u8)" by metis
    then show ?thesis using True n less.prems by (subst (1 2 3) putint.simps) (simp add: parse_dec_def digit)
  next
    case False
    then have "nat (n div 10) < nat n" "0 \<le> n div 10" using less.prems by (auto simp: div_pos_pos_trivial)
    note IH = less.hyps [OF this]
    have "putint n = putint (n div 10) @ [word_of_int (48 + n mod 10)]" using False less.prems by (subst putint.simps) simp
    moreover have "parse_dec (putint (n div 10) @ [word_of_int (48 + n mod 10)]) = n"
      using IH digit [of "n mod 10"] by (simp add: parse_dec_snoc)
    ultimately show ?thesis using IH by simp
  qed
qed

definition hex_value :: "u8 \<Rightarrow> int" where
  "hex_value b = (if b < 97 then uint b - 48 else uint b - 87)"

definition parse_hex :: "u8 list \<Rightarrow> int" where
  "parse_hex bs = foldl (\<lambda>a b. 16 * a + hex_value b) 0 bs"

lemma hex_value_digit: "hex_value (hex_digit w i) = uint w div 16 ^ i mod 16"
proof -
  define d where "d = drop_bit (i * 4) w AND 0xF"
  have "(0xF :: u64) = mask 4" by (simp add: mask_eq_exp_minus_1)
  then have "d = take_bit 4 (drop_bit (i * 4) w)" by (simp only: d_def take_bit_eq_mask)
  moreover have "take_bit 64 (uint w) = uint w" using uint_lt2p [of w] by (intro take_bit_int_eq_self) simp_all
  then have "uint (drop_bit (i * 4) w) = drop_bit (i * 4) (uint w)" by (simp add: unsigned_drop_bit_eq)
  ultimately have "uint d = take_bit 4 (drop_bit (i * 4) (uint w))" by (simp only: unsigned_take_bit_eq)
  then have "uint d = uint w div 2 ^ (i * 4) mod 16" by (simp add: take_bit_eq_mod drop_bit_eq_div)
  then have u: "uint d = uint w div 16 ^ i mod 16" by (simp add: power_mult mult.commute [of i 4])
  then have lt: "uint d < 16" "0 \<le> uint d" by simp_all
  have c: "uint (ucast d :: u8) = uint d" using lt by (simp add: unsigned_ucast_eq take_bit_int_eq_self)
  show ?thesis
  proof (cases "(ucast d :: u8) < 10")
    case True
    then have "uint d < 10" using c by (simp add: word_less_def)
    then have "uint (48 + ucast d :: u8) = 48 + uint d" using c by (simp add: uint_word_ariths)
    moreover have "48 + (ucast d :: u8) < 97" using \<open>uint d < 10\<close> calculation by (simp add: word_less_def)
    ultimately show ?thesis using True u by (simp add: hex_digit_def hex_value_def Let_def flip: d_def)
  next
    case False
    then have ge: "uint d \<ge> 10" using c by (simp add: word_less_def)
    then have e: "uint (97 + (ucast d - 10) :: u8) = 87 + uint d" using c lt by (simp add: uint_word_ariths mod_simps)
    moreover have "\<not> 97 + ((ucast d :: u8) - 10) < 97" using ge e by (simp add: word_less_def)
    ultimately show ?thesis using False u by (simp add: hex_digit_def hex_value_def Let_def flip: d_def)
  qed
qed

lemma parse_hex_upto:
  "foldl (\<lambda>a b. 16 * a + hex_value b) a (List.map (hex_digit w) (rev [0 ..< n])) = a * 16 ^ n + uint w mod 16 ^ n"
proof (induction n arbitrary: a)
  case (Suc n)
  have "uint w mod 16 ^ Suc n = 16 ^ n * (uint w div 16 ^ n mod 16) + uint w mod 16 ^ n"
    using mod_mult2_eq' [of "uint w" "16 ^ n" 16] by (simp add: mult.commute)
  with Suc.IH [of "16 * a + hex_value (hex_digit w n)"] show ?case by (simp add: hex_value_digit algebra_simps)
qed simp

subsection \<open>What is printed\<close>

datatype piece = Lit u8 | P_int int | P_char int | P_str "u8 list" | P_ptr u64

fun fmt_of :: "piece \<Rightarrow> u8 list" where
  "fmt_of (Lit c) = [c]"
| "fmt_of (P_int _) = [37, 100]"
| "fmt_of (P_char _) = [37, 99]"
| "fmt_of (P_str _) = [37, 115]"
| "fmt_of (P_ptr _) = [37, 112]"

fun args_of :: "piece \<Rightarrow> varg list" where
  "args_of (Lit _) = []"
| "args_of (P_int n) = [V_int n]"
| "args_of (P_char n) = [V_int n]"
| "args_of (P_str s) = [V_str s]"
| "args_of (P_ptr p) = [V_ptr p]"

fun text_of :: "piece \<Rightarrow> u8 list" where
  "text_of (Lit c) = [c]"
| "text_of (P_int n) = putint n"
| "text_of (P_char n) = [word_of_int n]"
| "text_of (P_str s) = s"
| "text_of (P_ptr p) = putptr p"

lemma printf_lit: "c \<noteq> 37 \<Longrightarrow> printf_bytes (c # fmt) as = bindR (printf_bytes fmt as) (\<lambda>bs. Inr (c # bs))"
  by (cases fmt) simp_all

lemma printf_pieces:
  assumes "\<forall>c. Lit c \<in> set ps \<longrightarrow> c \<noteq> 37"
  shows "printf_bytes (concat (List.map fmt_of ps)) (concat (List.map args_of ps)) = Inr (concat (List.map text_of ps))"
  using assms
proof (induction ps)
  case (Cons p ps)
  then have "printf_bytes (concat (List.map fmt_of ps)) (concat (List.map args_of ps)) = Inr (concat (List.map text_of ps))" by simp
  with Cons.prems show ?case by (cases p) (simp_all add: printf_lit arg_int_def arg_str_def arg_ptr_def)
qed simp

lemma idle_later: "filter (\<lambda>b. b) (dropWhile Not xs) = filter (\<lambda>b. b) xs"
  by (induction xs) simp_all

lemma emit_idle:
  assumes "length bs \<le> length (filter (\<lambda>b. b) (lsr u))" and "noff (u_hart u) > 0" and "\<not> sie (u_hart u)"
  shows "\<exists>l. emit bs u = Inr (u\<lparr>lsr := l, thr := thr u @ bs\<rparr>)"
  using assms
proof (induction bs arbitrary: u)
  case Nil
  have "emit [] u = Inr (u\<lparr>lsr := lsr u, thr := thr u @ []\<rparr>)" by simp
  then show ?case by blast
next
  case (Cons c cs)
  have h: "pop_off (push_off (u_hart u)) = Inr (u_hart u)" using Cons.prems(2,3) by (cases "u_hart u") (simp add: lock_defs)
  note f = idle_later [of "lsr u"]
  obtain b bs where d: "dropWhile Not (lsr u) = b # bs" using f Cons.prems(1) by (cases "dropWhile Not (lsr u)") auto
  have b: "b" using hd_dropWhile [of Not "lsr u"] d by simp
  let ?u = "u\<lparr>lsr := bs, thr := thr u @ [c]\<rparr>"
  have hh: "u\<lparr>lsr := bs, thr := thr u @ [c], u_hart := u_hart u\<rparr> = ?u" by simp
  have "uart_putc_sync c u = Inr ?u" using d h hh by (simp add: uart_putc_sync_def)
  moreover have "length (filter (\<lambda>b. b) (lsr u)) = Suc (length (filter (\<lambda>b. b) bs))" using f [symmetric] d b by simp
  then obtain l where "emit cs ?u = Inr (?u\<lparr>lsr := l, thr := thr ?u @ cs\<rparr>)" using Cons.IH [of ?u] Cons.prems by auto
  ultimately show ?case by auto
qed

subsection \<open>The transmit buffer\<close>

definition u_used :: "uart \<Rightarrow> nat" where
  "u_used u = unat (uart_tx_w u - uart_tx_r u)"

definition pending :: "uart \<Rightarrow> u8 list" where
  "pending u = List.map (\<lambda>i. uart_tx_buf u ! (unat (uart_tx_r u + of_nat i) mod UART_TX_BUF_SIZE)) [0 ..< u_used u]"

definition uart_ok :: "uart \<Rightarrow> bool" where
  "uart_ok u \<longleftrightarrow> length (uart_tx_buf u) = UART_TX_BUF_SIZE \<and> u_used u \<le> UART_TX_BUF_SIZE"

lemma mod32: "unat (w + of_nat k :: u64) mod UART_TX_BUF_SIZE = (unat w + k) mod UART_TX_BUF_SIZE"
proof -
  have "unat (w + of_nat k) mod 2 ^ 5 = (unat w + k) mod 2 ^ 5" by (simp add: unat_word_ariths unat_of_nat mod_mod_cancel mod_add_right_eq flip: take_bit_eq_mod)
  then show ?thesis by simp
qed

lemma used_not_full: "uart_tx_w u \<noteq> uart_tx_r u + of_nat UART_TX_BUF_SIZE \<longleftrightarrow> u_used u \<noteq> UART_TX_BUF_SIZE"
proof -
  have "u_used u = UART_TX_BUF_SIZE \<longleftrightarrow> uart_tx_w u - uart_tx_r u = of_nat UART_TX_BUF_SIZE"
    by (simp add: u_used_def word_unat_eq_iff)
  then show ?thesis by (auto simp: diff_eq_eq add.commute)
qed

lemma pending_pop:
  assumes "uart_tx_w u \<noteq> uart_tx_r u"
  shows "pending u = uart_tx_buf u ! (unat (uart_tx_r u) mod UART_TX_BUF_SIZE) # pending (u\<lparr>uart_tx_r := uart_tx_r u + 1, thr := x\<rparr>)"
    and "u_used u = Suc (u_used (u\<lparr>uart_tx_r := uart_tx_r u + 1, thr := x\<rparr>))"
proof -
  have "uart_tx_w u - uart_tx_r u \<noteq> 0" using assms by simp
  then have "unat (uart_tx_w u - uart_tx_r u) = Suc (unat (uart_tx_w u - uart_tx_r u - 1))"
    by (metis Suc_pred' unat_gt_0 unat_minus_one)
  then show n: "u_used u = Suc (u_used (u\<lparr>uart_tx_r := uart_tx_r u + 1, thr := x\<rparr>))" by (simp add: u_used_def algebra_simps)
  show "pending u = uart_tx_buf u ! (unat (uart_tx_r u) mod UART_TX_BUF_SIZE) # pending (u\<lparr>uart_tx_r := uart_tx_r u + 1, thr := x\<rparr>)"
    unfolding pending_def n by (simp add: upt_conv_Cons map_Suc_upt [symmetric] o_def add.assoc del: upt_Suc)
qed

lemma uart_start_sends:
  assumes "uart_ok u"
  shows "\<exists>k l r. uart_start u = u\<lparr>lsr := l, uart_tx_r := r, thr := thr u @ take k (pending u)\<rparr> \<and> pending (uart_start u) = drop k (pending u) \<and>
    uart_ok (uart_start u)"
  using assms
proof (induction u rule: uart_start.induct)
  case (1 u)
  have stop: "\<exists>k l' r. u\<lparr>lsr := l\<rparr> = u\<lparr>lsr := l', uart_tx_r := r, thr := thr u @ take k (pending u)\<rparr> \<and> pending (u\<lparr>lsr := l\<rparr>) = drop k (pending u) \<and>
    uart_ok (u\<lparr>lsr := l\<rparr>)" for l
    by (rule exI [of _ 0], rule exI [of _ l], rule exI [of _ "uart_tx_r u"]) (use 1(2) in \<open>simp add: pending_def u_used_def uart_ok_def\<close>)
  have stop0: "\<exists>k l' r. u = u\<lparr>lsr := l', uart_tx_r := r, thr := thr u @ take k (pending u)\<rparr> \<and> pending u = drop k (pending u) \<and> uart_ok u"
    by (rule exI [of _ 0], rule exI [of _ "lsr u"], rule exI [of _ "uart_tx_r u"]) (use 1(2) in simp)
  show ?case
  proof (cases "uart_tx_w u = uart_tx_r u")
    case True
    then have run: "uart_start u = u" by (subst uart_start.simps) simp
    show ?thesis unfolding run by (rule stop0)
  next
    case False
    show ?thesis
    proof (cases "lsr u")
      case Nil
      with False have run: "uart_start u = u" by (subst uart_start.simps) (simp add: tx_idle_def)
      show ?thesis unfolding run by (rule stop0)
    next
      case (Cons b bs)
      show ?thesis
      proof (cases b)
        case False
        with \<open>uart_tx_w u \<noteq> uart_tx_r u\<close> Cons have run: "uart_start u = u\<lparr>lsr := bs\<rparr>" by (subst uart_start.simps) (simp add: tx_idle_def)
        show ?thesis unfolding run by (rule stop)
      next
        case True
        let ?c = "uart_tx_buf u ! (unat (uart_tx_r u) mod UART_TX_BUF_SIZE)"
        let ?v = "u\<lparr>lsr := bs\<rparr>"
        let ?w = "?v\<lparr>uart_tx_r := uart_tx_r ?v + 1, thr := thr ?v @ [?c]\<rparr>"
        have run: "uart_start u = uart_start ?w" using False Cons True by (subst uart_start.simps) (simp add: tx_idle_def)
        have same: "pending ?v = pending u" "u_used ?v = u_used u" by (simp_all add: pending_def u_used_def)
        note pp = pending_pop [of ?v "thr ?v @ [?c]", unfolded same]
        have p: "pending u = ?c # pending ?w" "uart_ok ?w" using pp False 1(2) by (simp_all add: uart_ok_def)
        have t: "tx_idle u = (True, ?v)" using Cons True by (simp add: tx_idle_def)
        obtain k l r where IH: "uart_start ?w = ?w\<lparr>lsr := l, uart_tx_r := r, thr := thr ?w @ take k (pending ?w)\<rparr>" "pending (uart_start ?w) = drop k (pending ?w)"
          "uart_ok (uart_start ?w)" using 1(1) [OF False t [symmetric] refl refl] p(2) by auto
        show ?thesis
          by (rule exI [of _ "Suc k"], rule exI [of _ l], rule exI [of _ r]) (use run p(1) IH in simp)
      qed
    qed
  qed
qed

lemma pending_push:
  fixes c :: u8
  assumes "uart_ok u" and "u_used u \<noteq> UART_TX_BUF_SIZE"
  defines "v \<equiv> u\<lparr>uart_tx_buf := (uart_tx_buf u)[unat (uart_tx_w u) mod UART_TX_BUF_SIZE := c], uart_tx_w := uart_tx_w u + 1\<rparr>"
  shows "pending v = pending u @ [c]" and "uart_ok v"
proof -
  have lt: "u_used u < UART_TX_BUF_SIZE" using assms(1,2) by (simp add: uart_ok_def)
  have "uart_tx_w v - uart_tx_r v = (uart_tx_w u - uart_tx_r u) + 1" by (simp add: v_def)
  moreover have "unat ((uart_tx_w u - uart_tx_r u) + 1) = Suc (unat (uart_tx_w u - uart_tx_r u))"
    using lt unfolding u_used_def by (subst unat_plus_small) simp_all
  ultimately have n: "u_used v = Suc (u_used u)" by (simp add: u_used_def)
  then show "uart_ok v" using assms(1) lt by (simp add: uart_ok_def v_def)
  have w: "uart_tx_w u = uart_tx_r u + of_nat (u_used u)" by (simp add: u_used_def)
  have ne: "unat (uart_tx_r u + of_nat i) mod UART_TX_BUF_SIZE \<noteq> unat (uart_tx_w u) mod UART_TX_BUF_SIZE" if "i < u_used u" for i
  proof
    assume "unat (uart_tx_r u + of_nat i) mod UART_TX_BUF_SIZE = unat (uart_tx_w u) mod UART_TX_BUF_SIZE"
    then have "(unat (uart_tx_r u) + i) mod UART_TX_BUF_SIZE = (unat (uart_tx_r u) + u_used u) mod UART_TX_BUF_SIZE" unfolding w mod32 .
    then have "UART_TX_BUF_SIZE dvd (unat (uart_tx_r u) + u_used u) - (unat (uart_tx_r u) + i)" by (metis mod_eq_dvd_iff_nat nat_add_left_cancel_le less_imp_le that)
    then have "UART_TX_BUF_SIZE dvd u_used u - i" by simp
    moreover have "0 < u_used u - i" "u_used u - i < UART_TX_BUF_SIZE" using that lt by simp_all
    ultimately show False using nat_dvd_not_less by blast
  qed
  have "pending v = List.map (\<lambda>i. uart_tx_buf v ! (unat (uart_tx_r u + of_nat i) mod UART_TX_BUF_SIZE)) [0 ..< u_used u] @
      [uart_tx_buf v ! (unat (uart_tx_w u) mod UART_TX_BUF_SIZE)]"
    unfolding pending_def n by (simp add: v_def w)
  moreover have "uart_tx_buf v ! (unat (uart_tx_r u + of_nat i) mod UART_TX_BUF_SIZE) = uart_tx_buf u ! (unat (uart_tx_r u + of_nat i) mod UART_TX_BUF_SIZE)"
    if "i < u_used u" for i using ne [OF that] by (simp add: v_def)
  moreover have "uart_tx_buf v ! (unat (uart_tx_w u) mod UART_TX_BUF_SIZE) = c" using assms(1) by (simp add: v_def uart_ok_def)
  ultimately show "pending v = pending u @ [c]" by (simp add: pending_def)
qed

subsection \<open>Properties\<close>

text \<open>the numbers that \<open>printf\<close> prints are the ones it was given: reading the digits of \<open>putint\<close> back as a
  decimal number with a sign, and the sixteen digits of \<open>putptr\<close> as a hexadecimal one, gives the argument.\<close>

theorem printed_numbers_read_back:
  "parse_int (putint n) = n \<and> parse_hex (drop 2 (putptr w)) = uint w \<and> length (putptr w) = 18"
proof -
  have "parse_int (putint n) = n"
  proof (cases "n < 0")
    case True
    have "putint n = 45 # putint (- n)" using True by (subst (1 2) putint.simps) (simp add: Let_def)
    with putint_nonneg [of "- n"] True show ?thesis by (simp add: parse_int_def)
  qed (use putint_nonneg [of n] in \<open>simp add: parse_int_def\<close>)
  moreover have "parse_hex (drop 2 (putptr w)) = uint w mod 16 ^ 16" using parse_hex_upto [of 0 w 16] by (simp add: parse_hex_def putptr_def)
  moreover have "uint w mod 16 ^ 16 = uint w" using uint_lt2p [of w] by (intro mod_pos_pos_trivial) simp_all
  ultimately show ?thesis by (simp add: putptr_def)
qed

text \<open>C26: \<open>printk\<close> prints what its format says. For a format made of plain characters and the conversions \<open>%d\<close>,
  \<open>%c\<close>, \<open>%s\<close> and \<open>%p\<close> with matching arguments, exactly the characters and the renderings of the arguments
  reach the port, in order, once the port has been idle often enough; the console lock is free again and
  the interrupts are as before.\<close>

theorem printk_prints:
  assumes lit: "\<forall>c. Lit c \<in> set ps \<longrightarrow> c \<noteq> 37" and l: "lock_free l" and h: "hart_ok (u_hart u)"
    and idle: "length (concat (List.map text_of ps)) \<le> length (filter (\<lambda>b. b) (lsr u))"
  shows "\<exists>u'. printk cpu (concat (List.map fmt_of ps)) (concat (List.map args_of ps)) (l, u) = Inr (l, u') \<and>
    thr u' = thr u @ concat (List.map text_of ps) \<and> u_hart u' = settled (u_hart u)"
proof -
  let ?bs = "concat (List.map text_of ps)"
  let ?v = "u\<lparr>u_hart := push_off (u_hart u)\<rparr>"
  have n: "noff (push_off (u_hart u)) > 0" "\<not> sie (push_off (u_hart u))" using h by (simp_all add: lock_defs hart_ok_def Let_def)
  obtain ls where e: "emit ?bs ?v = Inr (?v\<lparr>lsr := ls, thr := thr ?v @ ?bs\<rparr>)" using emit_idle [of ?bs ?v] idle n by auto
  have "printk cpu (concat (List.map fmt_of ps)) (concat (List.map args_of ps)) (l, u) =
      Inr (l, (u\<lparr>lsr := ls, thr := thr u @ ?bs, u_hart := settled (u_hart u)\<rparr>))"
    using e by (simp add: printk_def spin_lock_free [OF l] printf_def printf_pieces [OF lit] spin_unlock_held [OF h l])
  then show ?thesis by auto
qed

definition idle_port :: uart where
  "idle_port = \<lparr>ier = 3, lcr = 3, fcr = 7, baud = (3, 0), thr = [], lsr = replicate 40 True, rhr = [], uart_tx_lock = spin_init,
     uart_tx_buf = replicate 32 0, uart_tx_w = 30, uart_tx_r = 30, u_hart = \<lparr>noff = 0, intena = False, sie = True\<rparr>\<rparr>"

theorem printk_prints_witness:
  "\<exists>u'. printk 0 [110, 61, 37, 100] [V_int (- 42)] (spin_init, idle_port) = Inr (spin_init, u') \<and> thr u' = [110, 61, 45, 52, 50]"
proof -
  have "putint (- 42) = [45, 52, 50]" by (simp add: putint.simps)
  then show ?thesis
    using printk_prints [of "[Lit 110, Lit 61, P_int (- 42)]" spin_init idle_port 0] by (auto simp: idle_port_def hart_ok_def)
qed

text \<open>C27: the transmit buffer is first in, first out. A character given to \<open>uart_putc\<close> while the buffer has room
  goes behind all characters sent and waiting, whatever part of them the port takes, also when the indices
  wrap around. When the buffer is full the character is dropped, and the function returns with the buffer's
  lock still held.\<close>

theorem uart_putc_fifo:
  assumes ok: "uart_ok u" and l: "lock_free (uart_tx_lock u)" and h: "hart_ok (u_hart u)"
  shows "if u_used u = UART_TX_BUF_SIZE
    then \<exists>u'. uart_putc cpu c u = Inr u' \<and> thr u' = thr u \<and> pending u' = pending u \<and> holding cpu (uart_tx_lock u')
    else \<exists>u'. uart_putc cpu c u = Inr u' \<and> thr u' @ pending u' = thr u @ pending u @ [c] \<and> uart_ok u' \<and> lock_free (uart_tx_lock u')"
proof (cases "u_used u = UART_TX_BUF_SIZE")
  case True
  then have full: "uart_tx_w u = uart_tx_r u + of_nat UART_TX_BUF_SIZE" using used_not_full by blast
  then have "uart_putc cpu c u = Inr (u\<lparr>u_hart := push_off (u_hart u), uart_tx_lock := (uart_tx_lock u)\<lparr>lock := 1, lk_cpuid := cpu\<rparr>\<rparr>)"
    by (simp add: uart_putc_def spin_lock_free [OF l] Let_def)
  then show ?thesis using True by (auto simp: pending_def u_used_def holding_def)
next
  case False
  then have nf: "uart_tx_w u \<noteq> uart_tx_r u + of_nat UART_TX_BUF_SIZE" using used_not_full by blast
  let ?a = "u\<lparr>u_hart := push_off (u_hart u), uart_tx_lock := (uart_tx_lock u)\<lparr>lock := 1, lk_cpuid := cpu\<rparr>\<rparr>"
  let ?v = "?a\<lparr>uart_tx_buf := (uart_tx_buf ?a)[unat (uart_tx_w ?a) mod UART_TX_BUF_SIZE := c], uart_tx_w := uart_tx_w ?a + 1\<rparr>"
  have same: "pending ?a = pending u" "u_used ?a = u_used u" "uart_ok ?a" using ok by (simp_all add: pending_def u_used_def uart_ok_def)
  have v: "pending ?v = pending u @ [c]" "uart_ok ?v" using pending_push [OF same(3), of c] False same by simp_all
  obtain k ls r where s: "uart_start ?v = ?v\<lparr>lsr := ls, uart_tx_r := r, thr := thr ?v @ take k (pending ?v)\<rparr>" "pending (uart_start ?v) = drop k (pending ?v)"
    "uart_ok (uart_start ?v)" using uart_start_sends [OF v(2)] by blast
  let ?w = "uart_start ?v"
  have hw: "u_hart ?w = push_off (u_hart u)" "uart_tx_lock ?w = (uart_tx_lock u)\<lparr>lock := 1, lk_cpuid := cpu\<rparr>" unfolding s(1) by simp_all
  have run: "uart_putc cpu c u = Inr (?w\<lparr>u_hart := settled (u_hart u), uart_tx_lock := uart_tx_lock u\<rparr>)"
    using nf hw by (simp add: uart_putc_def spin_lock_free [OF l] Let_def spin_unlock_held [OF h l])
  have p: "pending (x\<lparr>u_hart := y, uart_tx_lock := z\<rparr>) = pending x" "uart_ok (x\<lparr>u_hart := y, uart_tx_lock := z\<rparr>) = uart_ok x" for x y z
    by (simp_all add: pending_def u_used_def uart_ok_def)
  have "thr ?w = thr u @ take k (pending ?v)" unfolding s(1) by simp
  then have "thr ?w @ pending ?w = thr u @ pending u @ [c]" unfolding s(2) using v(1) append_take_drop_id [of k "pending ?v"] by simp
  then show ?thesis using False run p s(3) l by auto
qed

theorem uart_putc_fifo_witness:
  "\<exists>u'. uart_putc 0 7 (idle_port\<lparr>lsr := []\<rparr>) = Inr u' \<and> thr u' @ pending u' = [7]"
  using uart_putc_fifo [of "idle_port\<lparr>lsr := []\<rparr>" 0 7] by (auto simp: idle_port_def uart_ok_def u_used_def hart_ok_def pending_def)

end
