(* ===== verification/Spec2Isabelle.thy ===== *)
theory Spec2Isabelle
  imports Cmath Cstring Klist Bitmap Spinlock Page Buddy Slab Sched Vm Hashtab Blkio Efsio Efssync Mkfs Kfile Schedsafe Console
begin

text \<open>
  A verification of a small RISC-V kernel: locks and scheduler, page and object allocators, page tables,
  block layer, the file system easyfs with the program that formats its images, open files and the console.
  Paths are relative to src/.

  \<^bold>\<open>The program and its theories.\<close> Every definition that models code has the name of the C function or
  structure; an auxiliary \<open>f_loop\<close> is the loop of \<open>f\<close>.

  \<^item> \<open>Kprelude\<close>: the C integer types as words, and the result type \<open>kres\<close>. An operation gives \<open>Inr\<close> of
    its value or \<open>Inl\<close> of what stops it: \<open>Panic\<close> and \<open>Assert\<close> (lib/print.c, which never return),
    \<open>Fault\<close> (an access the C program must not make: a NULL pointer, an index outside an array, a
    signed overflow) and \<open>Spins\<close> (a wait that cannot go on in this state).
  \<^item> \<open>Cmath\<close> (lib/math.c), \<open>Cstring\<close> (lib/string.c): word arithmetic, and byte memory with 64-bit addresses.
  \<^item> \<open>Klist\<close> (include/lib/list.h, fifo.h): intrusive lists as a heap of two link fields per node, which
    every other component embeds with a node type of its own.
  \<^item> \<open>Bitmap\<close> (lib/bitmap.c), \<open>Hashtab\<close> (include/lib/hash.h, lib/hash.c, lib/lru.c).
  \<^item> \<open>Spinlock\<close> (lib/spinlock.c, include/lib/atomic.h): the functions as one hart runs them, and the machine
    \<open>mstep\<close> that interleaves all harts at single memory accesses.
  \<^item> \<open>Page\<close> (mm/page.c), \<open>Buddy\<close> (mm/mm.c), \<open>Slab\<close> (mm/slab.c, mm/kmalloc.c): page descriptors, the buddy
    allocator under its lock, object caches with a slab per CPU and \<open>kmalloc\<close>.
  \<^item> \<open>Vm\<close> (kernel/vm.c): Sv39 tables in the byte memory of the page allocator.
  \<^item> \<open>Sched\<close> (kernel/sched.c, kernel/proc.c, lib/semaphore.c, lib/mutex.c, lib/sleeplock.c): the
    operations on threads; \<open>Schedsafe\<close>: the step relation of four CPUs that perform them in any order.
  \<^item> \<open>Blk\<close> (kernel/dev/blk/, drive/blk/mvir_blk.c): bios, requests, buffer cache, I/O and write-back thread,
    with the driver's function \<open>ll_rw\<close> as an argument; \<open>Bcache\<close> and \<open>Blkio\<close>: invariant and transfers.
  \<^item> \<open>Easyfs\<close> (fs/easyfs/super.c, inode.c), \<open>Efsdir\<close> (dentry.c, fs.c): the file system; \<open>Efsio\<close> and
    \<open>Efssync\<close>: contents of files and write-back of inodes; \<open>Mkfs\<close> (tools/mkfs.c): formatting.
  \<^item> \<open>Kfile\<close> (kernel/file.c): open files on top of easyfs.
  \<^item> \<open>Console\<close> (drive/uart.c, lib/print.c): the serial port and \<open>printk\<close>.

  \<^bold>\<open>How the parts meet.\<close> A component relies on another one through a locale whose laws are proved for the
  provider's model: \<open>list_store\<close> and \<open>fifo_contract\<close> (\<open>Klist\<close>), \<open>id_source\<close> and \<open>id_allocator\<close> (\<open>Bitmap\<close>;
  easyfs uses the first with block 0 reserved), \<open>page_supply\<close> (\<open>Buddy\<close>), \<open>object_cache\<close> (\<open>Slab\<close>), \<open>keyed_set\<close>
  (\<open>Hashtab\<close>) and \<open>block_driver\<close> (\<open>Bcache\<close>, interpreted with the RAM disk). The page allocator's memory is the
  one in which page tables, cached blocks and the RAM disk live. Easyfs sees the disk as the sequence of bytes
  that \<open>Blkio\<close> shows the block layer to implement.

  \<^bold>\<open>What is proved.\<close>

  \<^item> Concurrency: mutual exclusion of spin locks in every interleaving, panics only on misuse, the
    sequential \<open>spin_lock\<close> as a refinement of the steps; for the scheduler, that no thread is on two CPUs,
    that semaphores neither lose nor invent a count, and which errors are reachable at all.
  \<^item> Memory: the buddy allocator hands out aligned, disjoint blocks and takes them back; a cache never gives
    an object to two owners; \<open>mappages\<close> changes exactly the translations of its range, and \<open>kvm_init\<close> builds
    exactly the identity map of the kernel.
  \<^item> Storage: the bios of a transfer cover it; what is written to the disk is read back, and nothing else
    changes; requests are served; writing back keeps the clients' view; the same for files, at inode level
    and through open files; inodes survive being written back; the loop of \<open>efs_sync\<close> ends; a formatted
    image mounts to a consistent, empty file system.
  \<^item> Libraries: lists and queues refine sequences, the bitmap gives the smallest free index, \<open>printk\<close> and
    the transmit ring deliver their characters in order.
  \<^item> Where the code does not do what it means to, the theorem says what it does: pages that are never given
    back, a sleeper that moves between CPUs, truncation that keeps freed blocks, a dirty list that loses
    blocks, a lock kept on an error path, \<open>strncpy\<close>, small \<open>kmalloc\<close> sizes, the test for copy-on-write.

  \<^bold>\<open>Bounds.\<close> Loops are recursive functions with a termination proof; the two loops of \<open>efs_sync\<close> are
  \<open>partial_function (option)\<close>, and that the one over the inodes returns is a theorem. The constants are those of the code: 4 CPUs,
  32768 page frames, 11 levels, pages and blocks of 4096 bytes, 1024 blocks on the RAM disk, files of
  \<open>FILE_MAX\<close> bytes. The images of \<open>Mkfs\<close> have 400 to 524288 blocks: from 400 on there are inodes to hand out, above 524288
  the map of blocks does not fit into the memory \<open>efs_mount\<close> asks for. \<open>io_steps\<close> counts the steps of the I/O thread.

  \<^bold>\<open>What is not modelled.\<close> Assembly (boot/entry.S, kernel/swtch.S, kernel/trap/kernelvec.S, uservec.S) and
  control registers beyond the interrupt enable bit; the order of initialisation (boot/start.c, kernel/main.c,
  kernel/init.c); the virtio driver and the interrupt controller (drive/virtio/, drive/plic.c), whose devices
  are not part of the sources; timers and work queues (kernel/timer.c, kernel/work.c); trap handling and
  system calls (kernel/trap/) except for the accounting of a tick; the list of devices (kernel/dev/devs.c).
  lib/rbtree.c and drive/mydev.c are commented out. Block layer and file system run one operation at a time;
  their interleaving with other threads is that a taken lock \<open>Spins\<close>. Running out of objects for buffer
  heads, requests, inodes and dentries is not modelled there. Memory is sequentially consistent.
\<close>

end
